(* ===== verification/Prelude.thy ===== *)
theory Prelude
  imports Main "HOL-Library.Monad_Syntax" "HOL-Library.Word" "HOL-Library.Signed_Division"
begin

section \<open>Prelude: C strings, C integers, and shared automation\<close>

text \<open>
  The conventions every component of the development shares.

  A NUL-terminated C string is the HOL string of its bytes before the terminator
  (\<open>cstring\<close> says that none of them is NUL).  Reading byte \<open>i\<close> of the string is
  \<open>rd s i\<close>: the byte itself, the terminator at \<open>i = length s\<close>, and \<open>None\<close> past
  the terminator, where the C program would read outside the string.  Throughout the
  development \<open>None\<close> in an executable definition stands for undefined behaviour of the
  C code (reading out of bounds, dereferencing NULL, reading an uninitialised variable,
  signed overflow, a failed \<open>assert\<close>, \<open>abort\<close>); the error returns that the code
  itself has are ordinary values.  Byte positions are \<open>nat\<close>: the sources keep them in
  \<open>int\<close> and \<open>size_t\<close> variables, and input lines are far shorter than \<open>INT_MAX\<close>.
\<close>

named_theorems rd_simps "facts about reading bytes of C strings"
named_theorems scan_facts "bounds on scanning loops"

subsection \<open>Bytes\<close>

abbreviation NUL :: char where "NUL \<equiv> CHR 0x00"
abbreviation TAB :: char where "TAB \<equiv> CHR 0x09"
abbreviation NEWLINE :: char where "NEWLINE \<equiv> CHR 0x0A"
abbreviation DQUOTE :: char where "DQUOTE \<equiv> CHR 0x22"
abbreviation SQUOTE :: char where "SQUOTE \<equiv> CHR 0x27"
abbreviation BSLASH :: char where "BSLASH \<equiv> CHR 0x5C"
abbreviation ASCII_HYPH :: char where "ASCII_HYPH \<equiv> CHR 0x1C"

text \<open>The classification functions of \<open>ctype.h\<close> in the C locale.\<close>

definition ord_of :: "char \<Rightarrow> nat" where
  "ord_of c = of_char c"

definition isdigit :: "char \<Rightarrow> bool" where
  "isdigit c \<longleftrightarrow> c \<in> set ''0123456789''"

definition isupper :: "char \<Rightarrow> bool" where
  "isupper c \<longleftrightarrow> 65 \<le> ord_of c \<and> ord_of c \<le> 90"

definition islower :: "char \<Rightarrow> bool" where
  "islower c \<longleftrightarrow> 97 \<le> ord_of c \<and> ord_of c \<le> 122"

definition isalpha :: "char \<Rightarrow> bool" where
  "isalpha c \<longleftrightarrow> isupper c \<or> islower c"

definition isalnum :: "char \<Rightarrow> bool" where
  "isalnum c \<longleftrightarrow> isalpha c \<or> isdigit c"

definition isspace :: "char \<Rightarrow> bool" where
  "isspace c \<longleftrightarrow> c \<in> {CHR '' '', CHR 0x09, CHR 0x0A, CHR 0x0B, CHR 0x0C, CHR 0x0D}"

definition tolower :: "char \<Rightarrow> char" where
  "tolower c = (if isupper c then char_of (ord_of c + 32) else c)"

definition toupper :: "char \<Rightarrow> char" where
  "toupper c = (if islower c then char_of (ord_of c - 32) else c)"

text \<open>The value of a decimal digit, C's \<open>c - '0'\<close>.\<close>

definition digit_val :: "char \<Rightarrow> int" where
  "digit_val c = int (ord_of c) - 48"

lemmas ctype_defs = isdigit_def isupper_def islower_def isalpha_def isalnum_def isspace_def
  tolower_def toupper_def digit_val_def ord_of_def

lemma ord_of_less: "ord_of c < 256"
  unfolding ord_of_def by (cases c) (simp add: of_char_def horner_sum_simps)

lemma not_isdigit_NUL [simp]: "\<not> isdigit NUL"
  by (simp add: ctype_defs)

lemma not_isspace_NUL [simp]: "\<not> isspace NUL"
  by (simp add: ctype_defs)

lemma not_isalpha_NUL [simp]: "\<not> isalpha NUL"
  by (simp add: ctype_defs)

subsection \<open>Reading C strings\<close>

definition cstring :: "string \<Rightarrow> bool" where
  "cstring s \<longleftrightarrow> NUL \<notin> set s"

definition rd :: "string \<Rightarrow> nat \<Rightarrow> char option" where
  "rd s i = (if i < length s then Some (s ! i) else if i = length s then Some NUL else None)"

text \<open>\<open>strchr(set, c) != NULL\<close>: the terminator of the set counts as a member.\<close>

definition strchr :: "string \<Rightarrow> char \<Rightarrow> bool" where
  "strchr cs c \<longleftrightarrow> c = NUL \<or> c \<in> set cs"

lemma rd_in [rd_simps]: "i < length s \<Longrightarrow> rd s i = Some (s ! i)"
  by (simp add: rd_def)

lemma rd_end [rd_simps]: "rd s (length s) = Some NUL"
  by (simp add: rd_def)

lemma rd_out [rd_simps]: "length s < i \<Longrightarrow> rd s i = None"
  by (simp add: rd_def)

lemma rd_le_Some: "i \<le> length s \<Longrightarrow> \<exists>c. rd s i = Some c"
  by (simp add: rd_def)

lemma rd_Some_le: "rd s i = Some c \<Longrightarrow> i \<le> length s"
  by (simp add: rd_def split: if_splits)

lemma rd_NUL_iff: "cstring s \<Longrightarrow> rd s i = Some NUL \<longleftrightarrow> i = length s"
  by (auto simp: rd_def cstring_def in_set_conv_nth split: if_splits)

lemma rd_not_NUL_less: "rd s i = Some c \<Longrightarrow> c \<noteq> NUL \<Longrightarrow> i < length s"
  by (auto simp: rd_def split: if_splits)

lemma rd_less_not_NUL: "cstring s \<Longrightarrow> rd s i = Some c \<Longrightarrow> i < length s \<Longrightarrow> c \<noteq> NUL"
  by (auto simp: rd_def cstring_def in_set_conv_nth)

text \<open>
  The loop \<open>while (P(s[i])) i++;\<close>.  No predicate used with it holds of NUL, so it stops
  at the terminator at the latest; out of bounds the first read already fails.
\<close>

function scan_while :: "(char \<Rightarrow> bool) \<Rightarrow> string \<Rightarrow> nat \<Rightarrow> nat option" where
  "scan_while P s i =
     (case rd s i of None \<Rightarrow> None
      | Some c \<Rightarrow> if P c then scan_while P s (Suc i) else Some i)"
  by pat_completeness auto
termination
  by (relation "measure (\<lambda>(P, s, i). Suc (length s) - i)")
     (auto simp: rd_def split: if_splits)

declare scan_while.simps [simp del]

lemma scan_while_total [scan_facts]:
  assumes "i \<le> length s" "\<not> P NUL"
  shows "\<exists>j. scan_while P s i = Some j \<and> i \<le> j \<and> j \<le> length s"
  using assms
proof (induction P s i rule: scan_while.induct)
  case (1 P s i)
  then obtain c where c: "rd s i = Some c" by (auto dest: rd_le_Some)
  show ?case
  proof (cases "P c")
    case True
    with c "1.prems" have "Suc i \<le> length s"
      by (metis Suc_leI rd_not_NUL_less)
    with "1.IH"[OF c True] "1.prems" c True show ?thesis
      by (auto simp: scan_while.simps[of P s i])
  next
    case False
    with c "1.prems" show ?thesis by (simp add: scan_while.simps[of P s i])
  qed
qed

lemma scan_while_stop:
  "scan_while P s i = Some j \<Longrightarrow> \<exists>c. rd s j = Some c \<and> \<not> P c"
  by (induction P s i rule: scan_while.induct)
     (auto simp: scan_while.simps split: option.splits if_splits)

lemma scan_while_range:
  assumes "scan_while P s i = Some j" "i \<le> k" "k < j"
  shows "\<exists>c. rd s k = Some c \<and> P c"
  using assms
proof (induction P s i rule: scan_while.induct)
  case (1 P s i)
  then obtain c where c: "rd s i = Some c"
    by (auto simp: scan_while.simps[of P s i] split: option.splits)
  show ?case
  proof (cases "k = i \<or> \<not> P c")
    case True
    with "1.prems" c show ?thesis
      by (auto simp: scan_while.simps[of P s i] split: if_splits)
  next
    case False
    with "1.IH"[OF c] "1.prems" c show ?thesis
      by (auto simp: scan_while.simps[of P s i])
  qed
qed

lemma scan_while_ge: "scan_while P s i = Some j \<Longrightarrow> i \<le> j"
  by (induction P s i rule: scan_while.induct)
     (fastforce simp: scan_while.simps split: option.splits if_splits)

lemma scan_while_le: "scan_while P s i = Some j \<Longrightarrow> j \<le> length s"
  by (auto dest: scan_while_stop rd_Some_le)

subsection \<open>C integers\<close>

definition INT_MAX :: int where "INT_MAX = 2147483647"
definition INT_MIN :: int where "INT_MIN = - 2147483648"

lemmas int_limits = INT_MAX_def INT_MIN_def

definition in_int :: "int \<Rightarrow> bool" where
  "in_int x \<longleftrightarrow> INT_MIN \<le> x \<and> x \<le> INT_MAX"

text \<open>The result of an arithmetic operation on \<open>int\<close>: undefined when it does not fit.\<close>

definition ck_int :: "int \<Rightarrow> int option" where
  "ck_int x = (if in_int x then Some x else None)"

lemma ck_int_Some [simp]: "ck_int x = Some y \<longleftrightarrow> in_int x \<and> y = x"
  by (auto simp: ck_int_def)

text \<open>A C truth value as \<open>int\<close>.\<close>

definition c_bool :: "bool \<Rightarrow> int" where
  "c_bool b = (if b then 1 else 0)"

lemma in_int_c_bool [simp]: "in_int (c_bool b)"
  by (simp add: in_int_def c_bool_def int_limits)

subsection \<open>Lists\<close>

lemma takeWhile_dropWhile_rev:
  "s = rev (dropWhile P (rev s)) @ rev (takeWhile P (rev s))"
  by (metis rev_append rev_rev_ident takeWhile_dropWhile_id)


subsection \<open>Printing numbers\<close>

fun print_dec :: "nat \<Rightarrow> string" where
  "print_dec n = (if n < 10 then [char_of (48 + n)] else print_dec (n div 10) @ [char_of (48 + n mod 10)])"

declare print_dec.simps [simp del]

end
