(* ===== verification/Mandoc_Util.thy ===== *)
theory Mandoc_Util
  imports Prelude
begin

section \<open>Diagnostics, escape types, fonts, sentences and numbers\<close>

text \<open>
  The utilities of \<open>mandoc.c\<close> that parsers and formatters share, and the two enumerations
  of \<open>mandoc.h\<close> they communicate with: the diagnostic codes (those that the modelled
  functions report) and the classes of escape sequences.  A call of \<open>mandoc_msg\<close> is
  modelled by the message it formats, which the calling definition returns in order.
\<close>

datatype mandocerr =
    MANDOCERR_OK | MANDOCERR_ESC_INCOMPLETE | MANDOCERR_ESC_DELIM | MANDOCERR_ESC_ARG
  | MANDOCERR_ESC_BADCHAR | MANDOCERR_ESC_UNSUPP | MANDOCERR_ESC_UNDEF
  | MANDOCERR_ESC_UNKCHAR | MANDOCERR_CHAR_BAD | MANDOCERR_CHAR_UNSUPP
  | MANDOCERR_DIVZERO | MANDOCERR_NAMESC
  | MANDOCERR_TBLOPT_EQN | MANDOCERR_TBLOPT_NOARG | MANDOCERR_TBLOPT_ARGSZ
  | MANDOCERR_TBLOPT_ALPHA | MANDOCERR_TBLOPT_BAD
  | MANDOCERR_TBLLAYOUT_PAR | MANDOCERR_TBLLAYOUT_SPC | MANDOCERR_TBLLAYOUT_MOD
  | MANDOCERR_TBLLAYOUT_WIDTH | MANDOCERR_TBLLAYOUT_VERT | MANDOCERR_TBLLAYOUT_CHAR
  | MANDOCERR_TBLLAYOUT_SPAN | MANDOCERR_TBLLAYOUT_DOWN | MANDOCERR_TBLLAYOUT_NONE
  | MANDOCERR_FT_BAD | MANDOCERR_TBLDATA_EXTRA | MANDOCERR_TBLDATA_SPAN
  | MANDOCERR_TBLDATA_BLK | MANDOCERR_TBLDATA_NONE | MANDOCERR_BLK_NOEND
  | MANDOCERR_REQ_EMPTY | MANDOCERR_TR_ODD | MANDOCERR_CHAR_ARG | MANDOCERR_CHAR_FONT
  | MANDOCERR_ARG_EXCESS | MANDOCERR_ARG_QUOTE | MANDOCERR_SPACE_EOL | MANDOCERR_ROFFLOOP
  | MANDOCERR_STR_UNDEF | MANDOCERR_ARG_UNDEF | MANDOCERR_ARG_NONUM | MANDOCERR_UNSUPP
  | MANDOCERR_RCS_REP | MANDOCERR_ARG_SKIP | MANDOCERR_MACRO | MANDOCERR_BLK_LINE | MANDOCERR_BLK_NOTOPEN
  | MANDOCERR_RE_NOTOPEN | MANDOCERR_BLK_BLANK | MANDOCERR_FI_BLANK | MANDOCERR_CE_NONUM

datatype mandoc_esc =
    ESCAPE_EXPAND | ESCAPE_ERROR | ESCAPE_UNSUPP | ESCAPE_IGNORE | ESCAPE_UNDEF
  | ESCAPE_SPECIAL | ESCAPE_FONT | ESCAPE_FONTBOLD | ESCAPE_FONTITALIC | ESCAPE_FONTBI
  | ESCAPE_FONTROMAN | ESCAPE_FONTCR | ESCAPE_FONTCB | ESCAPE_FONTCI | ESCAPE_FONTPREV
  | ESCAPE_NUMBERED | ESCAPE_UNICODE | ESCAPE_DEVICE | ESCAPE_BREAK | ESCAPE_NOSPACE
  | ESCAPE_HORIZ | ESCAPE_HLINE | ESCAPE_SKIPCHAR | ESCAPE_OVERSTRIKE

text \<open>A diagnostic message: code, input line, column, and the text of its arguments.\<close>

type_synonym msg = "mandocerr \<times> nat \<times> nat \<times> string"

subsection \<open>Font names: \<open>mandoc_font\<close>\<close>

definition mandoc_font :: "string \<Rightarrow> nat \<Rightarrow> nat \<Rightarrow> mandoc_esc option" where
  "mandoc_font buf cp sz =
     (if sz = 0 then Some ESCAPE_FONTPREV
      else if sz = 1 then do {
        c \<leftarrow> rd buf cp;
        Some (if c = CHR ''B'' \<or> c = CHR ''3'' then ESCAPE_FONTBOLD
              else if c = CHR ''I'' \<or> c = CHR ''2'' then ESCAPE_FONTITALIC
              else if c = CHR ''P'' then ESCAPE_FONTPREV
              else if c = CHR ''R'' \<or> c = CHR ''1'' then ESCAPE_FONTROMAN
              else if c = CHR ''4'' then ESCAPE_FONTBI
              else ESCAPE_ERROR)}
      else if sz = 2 then do {
        c \<leftarrow> rd buf cp;
        if c = CHR ''B'' then do {
          d \<leftarrow> rd buf (cp + 1);
          Some (if d = CHR ''I'' then ESCAPE_FONTBI else ESCAPE_ERROR)}
        else if c = CHR ''C'' then do {
          d \<leftarrow> rd buf (cp + 1);
          Some (if d = CHR ''B'' then ESCAPE_FONTCB
                else if d = CHR ''I'' then ESCAPE_FONTCI
                else if d = CHR ''R'' \<or> d = CHR ''W'' then ESCAPE_FONTCR
                else ESCAPE_ERROR)}
        else Some ESCAPE_ERROR}
      else Some ESCAPE_ERROR)"

text \<open>The classes \<open>mandoc_font\<close> can report.\<close>

definition font_classes :: "mandoc_esc set" where
  "font_classes = {ESCAPE_FONTBOLD, ESCAPE_FONTITALIC, ESCAPE_FONTBI, ESCAPE_FONTROMAN,
     ESCAPE_FONTCR, ESCAPE_FONTCB, ESCAPE_FONTCI, ESCAPE_FONTPREV, ESCAPE_ERROR}"

lemma mandoc_font_total:
  assumes "cp + sz \<le> length buf"
  shows "\<exists>e. mandoc_font buf cp sz = Some e \<and> e \<in> font_classes"
proof -
  have "sz = 0 \<or> sz = 1 \<or> sz = 2 \<or> 2 < sz" by arith
  with assms show ?thesis
    by (elim disjE) (simp_all add: mandoc_font_def font_classes_def rd_in)
qed

lemma mandoc_font_class: "mandoc_font buf cp sz = Some e \<Longrightarrow> e \<in> font_classes"
  by (auto simp: mandoc_font_def font_classes_def bind_eq_Some_conv split: if_splits)

subsection \<open>End of sentence: \<open>mandoc_eos\<close>\<close>

text \<open>
  The loop runs from the last byte to the first; \<open>eos_loop\<close> takes the bytes in that order.
\<close>

definition eos_close :: "char \<Rightarrow> bool" where
  "eos_close c \<longleftrightarrow> c = DQUOTE \<or> c = SQUOTE \<or> c = CHR '']'' \<or> c = CHR '')''"

definition eos_punct :: "char \<Rightarrow> bool" where
  "eos_punct c \<longleftrightarrow> c = CHR ''.'' \<or> c = CHR ''!'' \<or> c = CHR ''?''"

fun eos_loop :: "string \<Rightarrow> bool \<Rightarrow> bool \<Rightarrow> bool" where
  "eos_loop [] enclosed found = (found \<and> \<not> enclosed)"
| "eos_loop (q # qs) enclosed found =
     (if eos_close q then eos_loop qs (if \<not> found then True else enclosed) found
      else if eos_punct q then eos_loop qs enclosed True
      else (found \<and> (\<not> enclosed \<or> isalnum q)))"

definition mandoc_eos :: "string \<Rightarrow> nat \<Rightarrow> bool option" where
  "mandoc_eos p sz =
     (if sz = 0 then Some False
      else if sz > Suc (length p) then None
      else Some (eos_loop (rev (take sz (p @ [NUL]))) False False))"

text \<open>
  The abstract notion: cut the maximal run of closing delimiters and sentence punctuation off
  the end of the text.  The run must contain punctuation; if it ends in a closing delimiter,
  the text before it must end in a letter or digit.
\<close>

definition eos_spec :: "string \<Rightarrow> bool" where
  "eos_spec s =
     (let tail = rev (takeWhile (\<lambda>c. eos_close c \<or> eos_punct c) (rev s));
          before = rev (dropWhile (\<lambda>c. eos_close c \<or> eos_punct c) (rev s))
      in list_ex eos_punct tail \<and>
         (eos_close (last tail) \<longrightarrow> before \<noteq> [] \<and> isalnum (last before)))"

lemma eos_close_not_punct: "eos_close c \<Longrightarrow> \<not> eos_punct c"
  by (auto simp: eos_close_def eos_punct_def)

lemma eos_loop_found:
  "eos_loop qs e True =
     (\<not> e \<or> (let b = dropWhile (\<lambda>c. eos_close c \<or> eos_punct c) qs in b \<noteq> [] \<and> isalnum (hd b)))"
  by (induction qs) (auto simp: Let_def eos_close_not_punct)

lemma eos_loop_enclosed:
  "eos_loop qs True False =
     (list_ex eos_punct (takeWhile (\<lambda>c. eos_close c \<or> eos_punct c) qs) \<and>
      (let b = dropWhile (\<lambda>c. eos_close c \<or> eos_punct c) qs in b \<noteq> [] \<and> isalnum (hd b)))"
  by (induction qs) (auto simp: Let_def eos_close_not_punct eos_loop_found)

lemma list_ex_rev [simp]: "list_ex P (rev xs) = list_ex P xs"
  by (simp add: list_ex_iff)

lemma eos_loop_spec: "eos_loop (rev s) False False = eos_spec s"
proof (cases "rev s")
  case Nil
  then show ?thesis by (simp add: eos_spec_def)
next
  case (Cons q qs)
  then show ?thesis
    by (auto simp: eos_spec_def Let_def last_rev eos_close_not_punct eos_loop_enclosed eos_loop_found)
qed


text \<open>
  C16: \<open>mandoc_eos\<close> decides exactly the abstract end-of-sentence notion on the first \<open>sz\<close> bytes.
\<close>

theorem mandoc_eos_correct:
  assumes "0 < sz" and "sz \<le> length p"
  shows "mandoc_eos p sz = Some (eos_spec (take sz p))"
  using assms by (simp add: mandoc_eos_def eos_loop_spec)

theorem mandoc_eos_correct_witness:
  "mandoc_eos ''(Really?)'' 9 = Some (eos_spec ''(Really?)'') \<and> eos_spec ''(Really?)''"
proof -
  have "mandoc_eos ''(Really?)'' 9 = Some (eos_spec (take 9 ''(Really?)''))"
    by (rule mandoc_eos_correct) simp_all
  moreover have "eos_spec ''(Really?)''" by code_simp
  ultimately show ?thesis by simp
qed

subsection \<open>Numbers: \<open>mandoc_strntoi\<close>\<close>

text \<open>
  The library function \<open>strtol\<close> for the two bases in use, on the bytes before the
  terminator: white space, a sign, an optional \<open>0x\<close> in base 16 when a digit follows, and
  the digits.  The result is the converted value, clamped to the range of \<open>long\<close> (64 bit),
  and the number of bytes consumed, which is 0 when there is no digit.
\<close>

definition LONG_MAX :: int where "LONG_MAX = 9223372036854775807"
definition LONG_MIN :: int where "LONG_MIN = - 9223372036854775808"

definition digit_in :: "nat \<Rightarrow> char \<Rightarrow> nat option" where
  "digit_in base c =
     (let d = (if isdigit c then ord_of c - 48
               else if isupper c then ord_of c - 55
               else if islower c then ord_of c - 87
               else base)
      in if d < base then Some d else None)"

definition is_digit_in :: "nat \<Rightarrow> char \<Rightarrow> bool" where
  "is_digit_in base c \<longleftrightarrow> digit_in base c \<noteq> None"

definition digits_value :: "nat \<Rightarrow> string \<Rightarrow> nat" where
  "digits_value base ds = foldl (\<lambda>v c. base * v + the (digit_in base c)) 0 ds"

definition strtol :: "string \<Rightarrow> nat \<Rightarrow> int \<times> nat" where
  "strtol s base =
     (let ws = takeWhile isspace s;
          s1 = drop (length ws) s;
          neg = (s1 \<noteq> [] \<and> hd s1 = CHR ''-'');
          sg = (if s1 \<noteq> [] \<and> (hd s1 = CHR ''-'' \<or> hd s1 = CHR ''+'') then 1 else 0);
          s2 = drop sg s1;
          px = (if base = 16 \<and> length s2 > 2 \<and> s2 ! 0 = CHR ''0'' \<and>
                   (s2 ! 1 = CHR ''x'' \<or> s2 ! 1 = CHR ''X'') \<and> is_digit_in 16 (s2 ! 2)
                then 2 else 0);
          ds = takeWhile (is_digit_in base) (drop px s2);
          v = (if neg then - int (digits_value base ds) else int (digits_value base ds))
      in if ds = [] then (0, 0)
         else (max LONG_MIN (min LONG_MAX v), length ws + sg + px + length ds))"

text \<open>
  The first \<open>sz\<close> bytes are copied to a local buffer of 32 bytes and converted there; a NUL
  among them ends the copy early.
\<close>

definition mandoc_strntoi :: "string \<Rightarrow> nat \<Rightarrow> nat \<Rightarrow> int option" where
  "mandoc_strntoi p sz base =
     (if sz > 31 then Some (- 1)
      else if sz > Suc (length p) then None
      else let buf = takeWhile (\<lambda>c. c \<noteq> NUL) (take sz (p @ [NUL]));
               (v, ep) = strtol buf base
           in Some (if buf = [] \<or> ep \<noteq> length buf then - 1
                    else max INT_MIN (min INT_MAX v)))"

lemma mandoc_strntoi_in_int:
  "mandoc_strntoi p sz base = Some v \<Longrightarrow> in_int v"
  by (auto simp: mandoc_strntoi_def Let_def in_int_def int_limits split: if_splits prod.splits)

lemma takeWhile_isspace_digits:
  "ds \<noteq> [] \<Longrightarrow> list_all isdigit ds \<Longrightarrow> takeWhile isspace ds = []"
  by (cases ds) (auto simp: isdigit_def isspace_def)

lemma digit_in_10: "digit_in 10 c = (if isdigit c then Some (ord_of c - 48) else None)"
proof (cases "isdigit c")
  case True
  then have "ord_of c - 48 < 10" by (auto simp: isdigit_def ord_of_def)
  with True show ?thesis by (simp add: digit_in_def)
next
  case False
  then show ?thesis by (auto simp: digit_in_def Let_def isupper_def islower_def)
qed

lemma is_digit_in_10 [simp]: "is_digit_in 10 = isdigit"
  by (auto simp: is_digit_in_def digit_in_10 fun_eq_iff)

lemma isdigit_not_sign: "isdigit c \<Longrightarrow> c \<noteq> CHR ''-'' \<and> c \<noteq> CHR ''+''"
  by (auto simp: isdigit_def)

lemma list_all_digits_cstring: "list_all isdigit ds \<Longrightarrow> takeWhile (\<lambda>c. c \<noteq> NUL) ds = ds"
  using not_isdigit_NUL by (auto simp: takeWhile_eq_all_conv list_all_iff simp del: not_isdigit_NUL)

lemma clamp_long: "max INT_MIN (min INT_MAX (min LONG_MAX (int n))) = min INT_MAX (int n)"
  by (simp add: int_limits LONG_MAX_def)

lemma clamp_long_neg:
  "max INT_MIN (min INT_MAX (max LONG_MIN (min LONG_MAX (- int n)))) = max INT_MIN (- int n)"
  by (simp add: int_limits LONG_MAX_def LONG_MIN_def)

lemma strtol_digits:
  assumes "ds \<noteq> []" and "list_all isdigit ds"
  shows "strtol ds 10 = (min LONG_MAX (int (digits_value 10 ds)), length ds)"
proof -
  have tw: "takeWhile isdigit ds = ds"
    using assms(2) by (simp add: takeWhile_eq_all_conv list_all_iff)
  have hd: "hd ds \<noteq> CHR ''-''" "hd ds \<noteq> CHR ''+''"
    using assms by (cases ds; simp add: isdigit_not_sign)+
  have "LONG_MIN \<le> min LONG_MAX (int (digits_value 10 ds))"
    by (simp add: LONG_MIN_def LONG_MAX_def)
  with assms hd show ?thesis
    by (simp add: strtol_def Let_def takeWhile_isspace_digits tw max_absorb2
             del: takeWhile_eq_all_conv)
qed

text \<open>
  on a non-empty run of at most 31 decimal digits \<open>mandoc_strntoi\<close> returns the number they
  denote, clamped to \<open>INT_MAX\<close>.
\<close>

theorem mandoc_strntoi_digits:
  assumes "list_all isdigit ds" and "ds \<noteq> []" and "length ds \<le> 31"
  shows "mandoc_strntoi (ds @ rest) (length ds) 10 = Some (min INT_MAX (int (digits_value 10 ds)))"
proof -
  have "takeWhile (\<lambda>c. c \<noteq> NUL) (take (length ds) ((ds @ rest) @ [NUL])) = ds"
    using assms(1) by (simp add: list_all_digits_cstring)
  with assms show ?thesis
    by (simp add: mandoc_strntoi_def list_all_digits_cstring strtol_digits clamp_long
             del: takeWhile_eq_all_conv)
qed

theorem mandoc_strntoi_digits_witness:
  "mandoc_strntoi ''4294967296x'' (length ''4294967296'') 10 = Some 2147483647 \<and> digits_value 10 ''4294967296'' = 4294967296"
proof -
  have "mandoc_strntoi (''4294967296'' @ ''x'') (length ''4294967296'') 10
          = Some (min INT_MAX (int (digits_value 10 ''4294967296'')))"
    by (rule mandoc_strntoi_digits) (simp_all add: isdigit_def)
  moreover have "digits_value 10 ''4294967296'' = 4294967296"
    by (simp add: digits_value_def digit_in_10 isdigit_def ord_of_def)
  ultimately show ?thesis by (simp add: INT_MAX_def)
qed

text \<open>
  the comment above the function promises \<open>-1\<close> for every string that denotes a number
  below 0; the code returns the negative number itself.
\<close>

theorem mandoc_strntoi_negative:
  assumes "list_all isdigit ds" and "ds \<noteq> []" and "length ds \<le> 30"
  shows "mandoc_strntoi (CHR ''-'' # ds) (Suc (length ds)) 10
           = Some (max INT_MIN (- int (digits_value 10 ds)))"
proof -
  have tw: "takeWhile isdigit ds = ds"
    using assms(1) by (simp add: takeWhile_eq_all_conv list_all_iff)
  have "\<not> isspace (CHR ''-'')" by (simp add: isspace_def)
  with assms(2) have "strtol (CHR ''-'' # ds) 10
      = (max LONG_MIN (min LONG_MAX (- int (digits_value 10 ds))), Suc (length ds))"
    by (simp add: strtol_def Let_def tw del: takeWhile_eq_all_conv)
  moreover have "takeWhile (\<lambda>c. c \<noteq> NUL) (take (Suc (length ds)) ((CHR ''-'' # ds) @ [NUL]))
      = CHR ''-'' # ds"
    using assms(1) by (simp add: list_all_digits_cstring)
  ultimately show ?thesis
    using assms(3)
    by (simp add: mandoc_strntoi_def clamp_long_neg list_all_digits_cstring [OF assms(1)]
             del: takeWhile_eq_all_conv)
qed

theorem mandoc_strntoi_negative_witness:
  "mandoc_strntoi ''-5'' 2 10 = Some (- 5)"
proof -
  have "mandoc_strntoi (CHR ''-'' # ''5'') (Suc (length ''5'')) 10
          = Some (max INT_MIN (- int (digits_value 10 ''5'')))"
    by (rule mandoc_strntoi_negative) (simp_all add: isdigit_def)
  moreover have "digits_value 10 ''5'' = 5" by code_simp
  ultimately show ?thesis by (simp add: INT_MIN_def numeral_2_eq_2)
qed

end
