(* ===== verification/Preconv.thy ===== *)
theory Preconv
  imports Mandoc_Util
begin

unbundle bit_operations_syntax

section \<open>Character set conversion: \<open>preconv.c\<close>\<close>

text \<open>
  The recoder turns one non-ASCII character of the input file into the roff escape
  \<open>\[uXXXX]\<close>, reading it as UTF-8 or as Latin-1, and the detector reads the encoding from a
  file variables line.  Bytes are \<open>8 word\<close>, the accumulator is C's \<open>unsigned int\<close>.
  The output buffer \<open>ob\<close> is represented by the bytes written up to \<open>*oi\<close>, so appending
  to it is what advances \<open>*oi\<close>.
\<close>

type_synonym byte = "8 word"

text \<open>The two encoding flags of \<open>*filenc\<close>.\<close>

record filenc =
  enc_utf8 :: bool
  enc_latin1 :: bool

subsection \<open>The escape sequence that is written\<close>

text \<open>\<open>snprintf(.., 11, "\\[u%.4X]", n)\<close>: at least four upper case hexadecimal digits.\<close>

definition hex_char :: "nat \<Rightarrow> char" where
  "hex_char d = (if d < 10 then char_of (48 + d) else char_of (55 + d))"

fun hex_digits :: "nat \<Rightarrow> string" where
  "hex_digits n = (if n < 16 then [hex_char n] else hex_digits (n div 16) @ [hex_char (n mod 16)])"

declare hex_digits.simps [simp del]

definition pad4 :: "string \<Rightarrow> string" where
  "pad4 ds = replicate (4 - length ds) CHR ''0'' @ ds"

definition print_u :: "nat \<Rightarrow> string" where
  "print_u n = take 10 (BSLASH # CHR ''['' # CHR ''u'' # pad4 (hex_digits n) @ '']'')"

subsection \<open>Recoding one character: \<open>preconv_encode\<close>\<close>

text \<open>The loop that counts the leading one bits of the sequence header.\<close>

function count_nby :: "byte \<Rightarrow> nat \<Rightarrow> nat" where
  "count_nby cu nby = (if nby < 5 \<and> bit cu (7 - nby) then count_nby cu (Suc nby) else nby)"
  by pat_completeness auto
termination
  by (relation "measure (\<lambda>(cu, nby). 5 - nby)") auto

declare count_nby.simps [simp del]

text \<open>Reading byte \<open>i\<close> of the input buffer, which has exactly \<open>ib->sz\<close> bytes.\<close>

definition rdb :: "byte list \<Rightarrow> nat \<Rightarrow> byte option" where
  "rdb ib i = (if i < length ib then Some (ib ! i) else None)"

text \<open>The payload of the header byte, \<open>None\<close> where the code jumps to \<open>latin\<close>.\<close>

definition header_bits :: "byte \<Rightarrow> nat \<Rightarrow> 32 word option" where
  "header_bits cu nby =
     (if nby = 2 then let accum = ucast (cu AND 0x1f) in if accum < 2 then None else Some accum
      else if nby = 3 then Some (ucast (cu AND 0x0f))
      else if nby = 4 then let accum = ucast (cu AND 0x07) in if accum > 4 then None else Some accum
      else None)"

text \<open>The check of the second byte against overlong forms, surrogates and the upper limit.\<close>

definition second_bad :: "nat \<Rightarrow> 32 word \<Rightarrow> byte \<Rightarrow> bool" where
  "second_bad nby accum cu =
     (if nby = 3 then (accum = 0 \<and> cu AND 0x20 = 0) \<or> (accum = 0x0d \<and> cu AND 0x20 \<noteq> 0)
      else if nby = 4 then (accum = 0 \<and> cu AND 0x30 = 0) \<or> (accum = 4 \<and> cu AND 0x30 \<noteq> 0)
      else False)"

text \<open>
  The continuation loop \<open>while (--nby)\<close>.  The outer \<open>None\<close> is a read past the input
  buffer, the inner one the jump to \<open>latin\<close>.
\<close>

fun continuation :: "byte list \<Rightarrow> nat \<Rightarrow> nat \<Rightarrow> 32 word \<Rightarrow> (32 word \<times> nat) option option" where
  "continuation ib i 0 accum = Some (Some (accum, i))"
| "continuation ib i (Suc k) accum = do {
     cu \<leftarrow> rdb ib i;
     if cu AND 0xc0 \<noteq> 0x80 then Some None
     else continuation ib (Suc i) k (push_bit 6 accum + ucast (cu AND 0x3f))}"

definition utf8_decode :: "byte list \<Rightarrow> nat \<Rightarrow> (32 word \<times> nat) option option" where
  "utf8_decode ib ii = do {
     c0 \<leftarrow> rdb ib ii;
     let nby = count_nby c0 1;
     case header_bits c0 nby of
       None \<Rightarrow> Some None
     | Some accum \<Rightarrow>
         if nby = 2 then continuation ib (Suc ii) (nby - 1) accum
         else do {
           c1 \<leftarrow> rdb ib (Suc ii);
           if second_bad nby accum c1 then Some None
           else continuation ib (Suc ii) (nby - 1) accum}}"

text \<open>
  The whole function: the return value, the new \<open>*ii\<close>, the output buffer and \<open>*filenc\<close>.
  The assertions of the source are checked where it states them.
\<close>

definition preconv_encode ::
  "byte list \<Rightarrow> nat \<Rightarrow> string \<Rightarrow> filenc \<Rightarrow> (int \<times> nat \<times> string \<times> filenc) option" where
  "preconv_encode ib ii ob fe = do {
     c0 \<leftarrow> rdb ib ii;
     if c0 AND 0x80 = 0 then None
     else do {
       dec \<leftarrow> (if enc_utf8 fe then utf8_decode ib ii else Some None);
       case dec of
         Some (accum, i) \<Rightarrow>
           if accum > 0x7f \<and> accum < 0x110000 \<and> (accum < 0xd800 \<or> accum > 0xdfff)
           then Some (1, i, ob @ print_u (unat accum), fe\<lparr>enc_latin1 := False\<rparr>)
           else None
       | None \<Rightarrow>
           Some (if \<not> enc_latin1 fe then (0, ii, ob, fe)
                 else (1, Suc ii, ob @ print_u (unat c0), fe\<lparr>enc_utf8 := False\<rparr>))}}"


subsection \<open>The coding line: \<open>preconv_cue\<close>\<close>

text \<open>
  The line is the part of the buffer from \<open>offset\<close> to the next newline.  In the loop,
  \<open>ln\<close> is the byte position and \<open>sz\<close> what is left before the trailer \<open>-*-\<close>, so
  that \<open>eoln - 3 = ln + sz\<close>, which is what the end of an unterminated phrase is.
  \<open>strncaseeq\<close> is \<open>strncasecmp(..) == 0\<close> at a buffer position: it stops at the
  first difference and is undefined if it runs off the buffer before that.
\<close>

fun strncaseeq :: "string \<Rightarrow> string \<Rightarrow> bool option" where
  "strncaseeq b [] = Some True"
| "strncaseeq [] (c # cs) = None"
| "strncaseeq (x # b) (c # cs) = (if tolower x = tolower c then strncaseeq b cs else Some False)"

definition blanks :: "string \<Rightarrow> nat" where
  "blanks s = length (takeWhile (\<lambda>c. c = CHR '' '') s)"

definition phrase_size :: "string \<Rightarrow> nat \<Rightarrow> nat" where
  "phrase_size s sz =
     (let k = length (takeWhile (\<lambda>c. c \<noteq> CHR '';'') (take sz s)) in if k < sz then Suc k else sz)"

definition cue_both :: filenc where "cue_both = \<lparr>enc_utf8 = True, enc_latin1 = True\<rparr>"
definition cue_utf8 :: filenc where "cue_utf8 = \<lparr>enc_utf8 = True, enc_latin1 = False\<rparr>"
definition cue_latin1 :: filenc where "cue_latin1 = \<lparr>enc_utf8 = False, enc_latin1 = True\<rparr>"
definition cue_none :: filenc where "cue_none = \<lparr>enc_utf8 = False, enc_latin1 = False\<rparr>"

definition cue_value :: "string \<Rightarrow> nat \<Rightarrow> nat \<Rightarrow> nat \<Rightarrow> filenc option" where
  "cue_value b ln sz phsz =
     (let k = blanks (take sz (drop ln b)) in
      if k = sz then Some cue_none
      else do {
        u \<leftarrow> (if phsz > 4 then strncaseeq (drop (ln + k) b) ''utf-8'' else Some False);
        if u then Some cue_utf8
        else do {
          l \<leftarrow> (if phsz > 10 then strncaseeq (drop (ln + k) b) ''iso-latin-1'' else Some False);
          Some (if l then cue_latin1 else cue_none)}})"

function cue_loop :: "string \<Rightarrow> nat \<Rightarrow> nat \<Rightarrow> filenc option" where
  "cue_loop b ln sz =
     (let k = blanks (take sz (drop ln b)); ln1 = ln + k; sz1 = sz - k in
      if sz1 = 0 then Some cue_both
      else let phsz = phrase_size (drop ln1 b) sz1 in
        if phsz < 7 then cue_loop b (ln1 + phsz) (sz1 - phsz)
        else case strncaseeq (drop ln1 b) ''coding:'' of
            None \<Rightarrow> None
          | Some False \<Rightarrow> cue_loop b (ln1 + phsz) (sz1 - phsz)
          | Some True \<Rightarrow> cue_value b (ln1 + 7) (sz1 - 7) phsz)"
  by pat_completeness auto
termination
  by (relation "measure (\<lambda>(b, ln, sz). sz)") (auto simp: phrase_size_def Let_def split: if_splits)

declare cue_loop.simps [simp del]

definition cue_header :: string where
  "cue_header = [CHR ''.'', BSLASH, DQUOTE, CHR '' '', CHR ''-'', CHR ''*'', CHR ''-'']"

definition preconv_cue :: "string \<Rightarrow> nat \<Rightarrow> filenc option" where
  "preconv_cue b offset =
     (if offset > length b then None
      else let line = takeWhile (\<lambda>c. c \<noteq> NEWLINE) (drop offset b); sz = length line in
        if sz < 10 \<or> take 7 line \<noteq> cue_header \<or> drop (sz - 3) line \<noteq> ''-*-''
        then Some cue_both
        else cue_loop b (offset + 7) (sz - 10))"

subsection \<open>UTF-8 as an abstract encoding\<close>

text \<open>
  The scalar values beyond ASCII and their UTF-8 form, as RFC 3629 defines them.
\<close>

definition scalar :: "int \<Rightarrow> bool" where
  "scalar n \<longleftrightarrow> 0x80 \<le> n \<and> n \<le> 0x10ffff \<and> \<not> (0xd800 \<le> n \<and> n \<le> 0xdfff)"

definition utf8_encode :: "int \<Rightarrow> byte list" where
  "utf8_encode n =
     (if n < 0x800 then map word_of_int [0xc0 + n div 64, 0x80 + n mod 64]
      else if n < 0x10000
      then map word_of_int [0xe0 + n div 4096, 0x80 + n div 64 mod 64, 0x80 + n mod 64]
      else map word_of_int [0xf0 + n div 262144, 0x80 + n div 4096 mod 64,
             0x80 + n div 64 mod 64, 0x80 + n mod 64])"

subsection \<open>Arithmetic view of the byte operations\<close>

lemma byte_all:
  assumes "list_all (\<lambda>n. P (word_of_int n :: byte)) [0..255]"
  shows "P c"
proof -
  have "uint c \<in> set [0..255]" using uint_lt2p [of c] by simp
  with assms have "P (word_of_int (uint c))" by (simp only: list_all_iff)
  then show ?thesis by simp
qed

definition byte_facts :: "byte \<Rightarrow> bool" where
  "byte_facts c \<longleftrightarrow>
     (let b = uint c in
      (c AND 0xc0 = 0x80) = (0x80 \<le> b \<and> b < 0xc0) \<and>
      uint (c AND 0x3f) = b mod 64 \<and>
      uint (c AND 0x1f) = b mod 32 \<and> uint (c AND 0x0f) = b mod 16 \<and> uint (c AND 0x07) = b mod 8 \<and>
      (c AND 0x80 = 0) = (b < 0x80) \<and>
      (0x80 \<le> b \<and> b < 0xc0 \<longrightarrow> (c AND 0x20 = 0) = (b < 0xa0) \<and> (c AND 0x30 = 0) = (b < 0x90)) \<and>
      (0x80 \<le> b \<longrightarrow> count_nby c 1 =
         (if b < 0xc0 then 1 else if b < 0xe0 then 2 else if b < 0xf0 then 3
          else if b < 0xf8 then 4 else 5)))"

lemma byte_facts_all: "byte_facts c"
  by (rule byte_all) code_simp

lemma cont_byte: "c AND 0xc0 = 0x80 \<longleftrightarrow> 0x80 \<le> uint c \<and> uint c < (0xc0)" for c :: byte
  using byte_facts_all [of c] by (simp only: byte_facts_def Let_def)

lemma high_byte: "c AND 0x80 = 0 \<longleftrightarrow> uint c < 0x80" for c :: byte
  using byte_facts_all [of c] by (simp only: byte_facts_def Let_def)

lemma payload:
  fixes c :: byte
  shows "uint (c AND 0x3f) = uint c mod 64" "uint (c AND 0x1f) = uint c mod 32"
    "uint (c AND 0x0f) = uint c mod 16" "uint (c AND 0x07) = uint c mod 8"
  using byte_facts_all [of c] by (simp_all only: byte_facts_def Let_def)

lemma second_bits:
  fixes c :: byte
  assumes "0x80 \<le> uint c" "uint c < 0xc0"
  shows "c AND 0x20 = 0 \<longleftrightarrow> uint c < 0xa0" "c AND 0x30 = 0 \<longleftrightarrow> uint c < 0x90"
  using assms byte_facts_all [of c] by (simp_all only: byte_facts_def Let_def simp_thms)

lemma count_nby_eq:
  fixes c :: byte
  assumes "0x80 \<le> uint c"
  shows "count_nby c 1 = (if uint c < 0xc0 then 1 else if uint c < 0xe0 then 2
           else if uint c < 0xf0 then 3 else if uint c < 0xf8 then 4 else 5)"
  using assms byte_facts_all [of c] by (simp only: byte_facts_def Let_def simp_thms)

lemma uint_ucast32: "uint (ucast c :: 32 word) = uint c" for c :: byte
  using uint_lt2p [of c] by (simp add: unsigned_ucast_eq take_bit_int_eq_self)

lemma acc_step:
  fixes a :: "32 word"
  assumes "uint a < 2 ^ 20"
  shows "uint (push_bit 6 a + ucast (c AND 0x3f :: byte)) = 64 * uint a + uint c mod 64"
  using assms
  by (simp add: push_bit_eq_mult uint_word_ariths uint_ucast32 payload mod_simps)


lemma header_bits_Some:
  assumes "header_bits c nby = Some a"
  shows "(nby = 2 \<and> uint a = uint c mod 32 \<and> 2 \<le> uint a) \<or>
         (nby = 3 \<and> uint a = uint c mod 16) \<or>
         (nby = 4 \<and> uint a = uint c mod 8 \<and> uint a \<le> 4)"
  using assms
  by (auto simp: header_bits_def Let_def word_less_def word_le_def uint_ucast32 payload split: if_splits)

lemma continuation_Some:
  "continuation ib i (Suc k) a = Some (Some r) \<longleftrightarrow>
     i < length ib \<and> 0x80 \<le> uint (ib ! i) \<and> uint (ib ! i) < 0xc0 \<and>
     continuation ib (Suc i) k (push_bit 6 a + ucast (ib ! i AND 0x3f)) = Some (Some r)"
  by (auto simp: rdb_def bind_eq_Some_conv cont_byte split: if_splits)

lemma continuation_0: "continuation ib i 0 a = Some (Some (b, j)) \<longleftrightarrow> b = a \<and> j = i"
  by auto

lemma nbytes: "count_nby c 1 = 2 \<longleftrightarrow> 0xc0 \<le> uint c \<and> uint c < 0xe0"
   "count_nby c 1 = 3 \<longleftrightarrow> 0xe0 \<le> uint c \<and> uint c < 0xf0"
   "count_nby c 1 = 4 \<longleftrightarrow> 0xf0 \<le> uint c \<and> uint c < 0xf8"
  if "0x80 \<le> uint c"
  using count_nby_eq [OF that] by (auto split: if_splits)

subsection \<open>What the decoder accepts\<close>

text \<open>The three shapes of a well-formed sequence.\<close>

definition seq2 :: "int \<Rightarrow> int \<Rightarrow> bool" where
  "seq2 b0 b1 \<longleftrightarrow> 0xc2 \<le> b0 \<and> b0 < 0xe0 \<and> 0x80 \<le> b1 \<and> b1 < 0xc0"

definition seq3 :: "int \<Rightarrow> int \<Rightarrow> int \<Rightarrow> bool" where
  "seq3 b0 b1 b2 \<longleftrightarrow> 0xe0 \<le> b0 \<and> b0 < 0xf0 \<and> 0x80 \<le> b1 \<and> b1 < 0xc0 \<and> 0x80 \<le> b2 \<and> b2 < 0xc0 \<and>
     (b0 = 0xe0 \<longrightarrow> 0xa0 \<le> b1) \<and> (b0 = 0xed \<longrightarrow> b1 < 0xa0)"

definition seq4 :: "int \<Rightarrow> int \<Rightarrow> int \<Rightarrow> int \<Rightarrow> bool" where
  "seq4 b0 b1 b2 b3 \<longleftrightarrow> 0xf0 \<le> b0 \<and> b0 \<le> 0xf4 \<and> 0x80 \<le> b1 \<and> b1 < 0xc0 \<and> 0x80 \<le> b2 \<and> b2 < 0xc0 \<and>
     0x80 \<le> b3 \<and> b3 < 0xc0 \<and> (b0 = 0xf0 \<longrightarrow> 0x90 \<le> b1) \<and> (b0 = 0xf4 \<longrightarrow> b1 < 0x90)"


lemma split64:
  fixes x y :: int
  assumes "0 \<le> y" "y < 64"
  shows "(64 * x + y) div 64 = x" "(64 * x + y) mod 64 = y"
  using assms by simp_all

lemma div_4096: "n div 4096 = n div 64 div 64" for n :: int
  by (simp flip: zdiv_zmult2_eq)

lemma div_262144: "n div 262144 = n div 64 div 64 div 64" for n :: int
  by (simp flip: zdiv_zmult2_eq)

lemma cont_mod: "0x80 \<le> b \<Longrightarrow> b < 0xc0 \<Longrightarrow> b mod 64 = b - 0x80" for b :: int
  by presburger

lemma seq2_encode:
  assumes "seq2 (uint b0) (uint b1)"
    and n: "n = 64 * (uint b0 mod 32) + uint b1 mod 64"
  shows "scalar n \<and> utf8_encode n = [b0, b1]"
proof -
  define x where "x = uint b0 - 0xc0"
  define y where "y = uint b1 - 0x80"
  have "uint b0 mod 32 = x" using assms unfolding seq2_def x_def by presburger
  moreover have "uint b1 mod 64 = y" using assms unfolding seq2_def y_def by (simp add: cont_mod)
  ultimately have n': "n = 64 * x + y" using n by simp
  have b: "2 \<le> x" "x < 32" "0 \<le> y" "y < 64" using assms by (auto simp: seq2_def x_def y_def)
  then have "n div 64 = x" "n mod 64 = y" by (simp_all add: n' split64)
  then show ?thesis using b by (auto simp: utf8_encode_def scalar_def n' x_def y_def)
qed

lemma seq3_encode:
  assumes "seq3 (uint b0) (uint b1) (uint b2)"
    and n: "n = 64 * (64 * (uint b0 mod 16) + uint b1 mod 64) + uint b2 mod 64"
  shows "scalar n \<and> utf8_encode n = [b0, b1, b2]"
proof -
  define x where "x = uint b0 - 0xe0"
  define y where "y = uint b1 - 0x80"
  define z where "z = uint b2 - 0x80"
  have "uint b0 mod 16 = x" using assms unfolding seq3_def x_def by presburger
  moreover have "uint b1 mod 64 = y" "uint b2 mod 64 = z"
    using assms unfolding seq3_def y_def z_def by (simp_all add: cont_mod)
  ultimately have n': "n = 64 * (64 * x + y) + z" using n by simp
  have b: "0 \<le> x" "x < 16" "0 \<le> y" "y < 64" "0 \<le> z" "z < 64"
      "x = 0 \<longrightarrow> 0x20 \<le> y" "x = 13 \<longrightarrow> y < 0x20"
    using assms by (auto simp: seq3_def x_def y_def z_def)
  have "n div 64 = 64 * x + y" "n mod 64 = z" "n div 64 div 64 = x" "n div 64 mod 64 = y"
    by (simp_all only: n' split64 [OF b(3,4)] split64 [OF b(5,6)])
  moreover have lo: "0x800 \<le> n" and hi: "n < 0x10000"
    using b(1-6) b(7) unfolding n' by (cases "x = 0"; simp)+
  moreover have "n < 0xd800 \<or> 0xdfff < n"
  proof (cases "x = 13")
    case True
    with b show ?thesis unfolding n' by simp
  next
    case False
    then consider "x \<le> 12" | "14 \<le> x" by linarith
    then show ?thesis using b(3-6) unfolding n' by cases simp_all
  qed
  then have "scalar n" using lo hi by (auto simp: scalar_def)
  ultimately show ?thesis by (simp add: utf8_encode_def div_4096 x_def y_def z_def)
qed

lemma seq4_encode:
  assumes "seq4 (uint b0) (uint b1) (uint b2) (uint b3)"
    and n: "n = 64 * (64 * (64 * (uint b0 mod 8) + uint b1 mod 64) + uint b2 mod 64) + uint b3 mod 64"
  shows "scalar n \<and> utf8_encode n = [b0, b1, b2, b3]"
proof -
  define x where "x = uint b0 - 0xf0"
  define y where "y = uint b1 - 0x80"
  define z where "z = uint b2 - 0x80"
  define w where "w = uint b3 - 0x80"
  have "uint b0 mod 8 = x" using assms unfolding seq4_def x_def by presburger
  moreover have "uint b1 mod 64 = y" "uint b2 mod 64 = z" "uint b3 mod 64 = w"
    using assms unfolding seq4_def y_def z_def w_def by (simp_all add: cont_mod)
  ultimately have n': "n = 64 * (64 * (64 * x + y) + z) + w" using n by simp
  have b: "0 \<le> x" "x \<le> 4" "0 \<le> y" "y < 64" "0 \<le> z" "z < 64" "0 \<le> w" "w < 64"
      "x = 0 \<longrightarrow> 0x10 \<le> y" "x = 4 \<longrightarrow> y < 0x10"
    using assms by (auto simp: seq4_def x_def y_def z_def w_def)
  have d: "n mod 64 = w" "n div 64 mod 64 = z" "n div 4096 mod 64 = y" "n div 262144 = x"
    by (simp_all only: n' div_4096 div_262144 split64 [OF b(3,4)] split64 [OF b(5,6)] split64 [OF b(7,8)])
  have lo: "0x10000 \<le> n"
    using b(1-9) unfolding n' by (cases "x = 0"; simp)
  have "n \<le> 0x10ffff"
    using b(1-8) b(10) unfolding n' by (cases "x = 4"; simp)
  then have "scalar n" using lo by (auto simp: scalar_def)
  moreover have "utf8_encode n = map word_of_int [0xf0 + x, 0x80 + y, 0x80 + z, 0x80 + w]"
    using lo by (simp only: utf8_encode_def d) simp
  ultimately show ?thesis by (simp add: x_def y_def z_def w_def)
qed

lemma utf8_decode_Some2:
  assumes "0x80 \<le> uint (ib ! ii)" "count_nby (ib ! ii) 1 = 2" "ii < length ib"
  shows "utf8_decode ib ii = Some (Some (a, i)) \<longleftrightarrow>
    Suc ii < length ib \<and> seq2 (uint (ib ! ii)) (uint (ib ! Suc ii)) \<and> i = ii + 2 \<and>
    uint a = 64 * (uint (ib ! ii) mod 32) + uint (ib ! Suc ii) mod 64"
proof -
  let ?b0 = "ib ! ii" and ?b1 = "ib ! Suc ii"
  define a0 :: "32 word" where "a0 = ucast (?b0 AND 0x1f)"
  have a0: "uint a0 = uint ?b0 mod 32" by (simp add: a0_def uint_ucast32 payload)
  have b0: "0xc0 \<le> uint ?b0" "uint ?b0 < 0xe0" using assms(1,2) nbytes(1) [OF assms(1)] by auto
  have "2 \<le> uint a0 \<longleftrightarrow> 0xc2 \<le> uint ?b0" using b0 unfolding a0 by presburger
  then have hdr: "header_bits ?b0 2 = (if 0xc2 \<le> uint ?b0 then Some a0 else None)"
    by (auto simp: header_bits_def Let_def a0_def [symmetric] word_less_def)
  have "uint a0 < 2 ^ 20" unfolding a0 by (rule less_trans [of _ 32]) simp_all
  note st = acc_step [OF this, of ?b1]
  have "utf8_decode ib ii = (if 0xc2 \<le> uint ?b0 then continuation ib (Suc ii) (Suc 0) a0 else Some None)"
    using assms by (simp add: utf8_decode_def rdb_def hdr)
  then show ?thesis
    using b0 by (auto simp: continuation_Some continuation_0 seq2_def st a0
        word_uint_eq_iff simp del: continuation.simps)
qed

definition cont :: "byte \<Rightarrow> bool" where
  "cont c \<longleftrightarrow> 0x80 \<le> uint c \<and> uint c < 0xc0"

lemma second_bad3:
  assumes "cont c"
  shows "second_bad 3 a c \<longleftrightarrow> (uint a = 0 \<and> uint c < 0xa0) \<or> (uint a = 0x0d \<and> 0xa0 \<le> uint c)"
proof -
  have "a = 0 \<longleftrightarrow> uint a = 0" "a = 0x0d \<longleftrightarrow> uint a = 0x0d" by (simp_all add: word_uint_eq_iff)
  with assms show ?thesis by (auto simp: second_bad_def cont_def second_bits)
qed

lemma second_bad4:
  assumes "cont c"
  shows "second_bad 4 a c \<longleftrightarrow> (uint a = 0 \<and> uint c < 0x90) \<or> (uint a = 4 \<and> 0x90 \<le> uint c)"
proof -
  have "a = 0 \<longleftrightarrow> uint a = 0" "a = 4 \<longleftrightarrow> uint a = 4" by (simp_all add: word_uint_eq_iff)
  with assms show ?thesis by (auto simp: second_bad_def cont_def second_bits)
qed

lemma utf8_decode_Some3:
  assumes "0x80 \<le> uint (ib ! ii)" "count_nby (ib ! ii) 1 = 3" "ii < length ib"
  shows "utf8_decode ib ii = Some (Some (a, i)) \<longleftrightarrow>
    Suc (Suc ii) < length ib \<and>
    seq3 (uint (ib ! ii)) (uint (ib ! Suc ii)) (uint (ib ! Suc (Suc ii))) \<and> i = ii + 3 \<and>
    uint a = 64 * (64 * (uint (ib ! ii) mod 16) + uint (ib ! Suc ii) mod 64)
               + uint (ib ! Suc (Suc ii)) mod 64"
proof -
  let ?b0 = "ib ! ii" and ?b1 = "ib ! Suc ii" and ?b2 = "ib ! Suc (Suc ii)"
  define a0 :: "32 word" where "a0 = ucast (?b0 AND 0x0f)"
  define a1 :: "32 word" where "a1 = push_bit 6 a0 + ucast (?b1 AND 0x3f)"
  have a0: "uint a0 = uint ?b0 mod 16" by (simp add: a0_def uint_ucast32 payload)
  have b0: "0xe0 \<le> uint ?b0" "uint ?b0 < 0xf0" using assms(1,2) nbytes(2) [OF assms(1)] by auto
  have z: "uint a0 = 0 \<longleftrightarrow> uint ?b0 = 0xe0" "uint a0 = 0x0d \<longleftrightarrow> uint ?b0 = 0xed"
    using b0 unfolding a0 by presburger+
  have "uint a0 < 2 ^ 20" unfolding a0 by (rule less_trans [of _ 16]) simp_all
  then have a1: "uint a1 = 64 * (uint ?b0 mod 16) + uint ?b1 mod 64"
    unfolding a1_def a0 [symmetric] by (rule acc_step)
  have "uint ?b0 mod 16 < 16" "uint ?b1 mod 64 < 64" by simp_all
  then have "uint a1 < 2 ^ 20" unfolding a1 by simp
  note st = acc_step [OF this, of ?b2, unfolded a1]
  have "utf8_decode ib ii = (case rdb ib (Suc ii) of None \<Rightarrow> None
      | Some c1 \<Rightarrow> if second_bad 3 a0 c1 then Some None else continuation ib (Suc ii) (Suc (Suc 0)) a0)"
    using assms by (simp add: utf8_decode_def rdb_def header_bits_def a0_def
        numeral_2_eq_2 [symmetric])
  moreover have "continuation ib (Suc ii) (Suc (Suc 0)) a0 = Some (Some (a, i)) \<longleftrightarrow>
      Suc (Suc ii) < length ib \<and> cont ?b1 \<and> cont ?b2 \<and> i = ii + 3 \<and>
      uint a = 64 * (64 * (uint ?b0 mod 16) + uint ?b1 mod 64) + uint ?b2 mod 64"
    by (auto simp: continuation_Some continuation_0 cont_def a1_def [symmetric] st
        word_uint_eq_iff [of a] simp del: continuation.simps)
  moreover have "seq3 (uint ?b0) (uint ?b1) (uint ?b2) \<longleftrightarrow>
      cont ?b1 \<and> cont ?b2 \<and> \<not> second_bad 3 a0 ?b1"
    using b0 z by (cases "cont ?b1") (auto simp: seq3_def cont_def second_bad3)
  ultimately show ?thesis
    by (cases "Suc ii < length ib") (simp_all add: rdb_def)
qed

lemma utf8_decode_Some4:
  assumes "0x80 \<le> uint (ib ! ii)" "count_nby (ib ! ii) 1 = 4" "ii < length ib"
  shows "utf8_decode ib ii = Some (Some (a, i)) \<longleftrightarrow>
    Suc (Suc (Suc ii)) < length ib \<and>
    seq4 (uint (ib ! ii)) (uint (ib ! Suc ii)) (uint (ib ! Suc (Suc ii)))
         (uint (ib ! Suc (Suc (Suc ii)))) \<and> i = ii + 4 \<and>
    uint a = 64 * (64 * (64 * (uint (ib ! ii) mod 8) + uint (ib ! Suc ii) mod 64)
               + uint (ib ! Suc (Suc ii)) mod 64) + uint (ib ! Suc (Suc (Suc ii))) mod 64"
proof -
  let ?b0 = "ib ! ii" and ?b1 = "ib ! Suc ii" and ?b2 = "ib ! Suc (Suc ii)"
    and ?b3 = "ib ! Suc (Suc (Suc ii))"
  define a0 :: "32 word" where "a0 = ucast (?b0 AND 0x07)"
  define a1 :: "32 word" where "a1 = push_bit 6 a0 + ucast (?b1 AND 0x3f)"
  define a2 :: "32 word" where "a2 = push_bit 6 a1 + ucast (?b2 AND 0x3f)"
  have a0: "uint a0 = uint ?b0 mod 8" by (simp add: a0_def uint_ucast32 payload)
  have b0: "0xf0 \<le> uint ?b0" "uint ?b0 < 0xf8" using assms(1,2) nbytes(3) [OF assms(1)] by auto
  have z: "uint a0 = 0 \<longleftrightarrow> uint ?b0 = 0xf0" "uint a0 = 4 \<longleftrightarrow> uint ?b0 = 0xf4"
      "uint a0 \<le> 4 \<longleftrightarrow> uint ?b0 \<le> 0xf4"
    using b0 unfolding a0 by presburger+
  have m: "uint ?b0 mod 8 < 8" "uint ?b1 mod 64 < 64" "uint ?b2 mod 64 < 64" by simp_all
  have "uint a0 < 2 ^ 20" using m(1) unfolding a0 by simp
  then have a1: "uint a1 = 64 * (uint ?b0 mod 8) + uint ?b1 mod 64"
    unfolding a1_def a0 [symmetric] by (rule acc_step)
  have "uint a1 < 2 ^ 20" using m unfolding a1 by simp
  then have a2: "uint a2 = 64 * (64 * (uint ?b0 mod 8) + uint ?b1 mod 64) + uint ?b2 mod 64"
    unfolding a2_def a1 [symmetric] by (rule acc_step)
  have "uint a2 < 2 ^ 20" using m unfolding a2 by simp
  note st = acc_step [OF this, of ?b3, unfolded a2]
  have hdr: "header_bits ?b0 4 = (if uint ?b0 \<le> 0xf4 then Some a0 else None)"
    using z(3) by (auto simp: header_bits_def Let_def a0_def [symmetric] word_less_def)
  have "utf8_decode ib ii = (if uint ?b0 \<le> 0xf4 then (case rdb ib (Suc ii) of None \<Rightarrow> None
      | Some c1 \<Rightarrow> if second_bad 4 a0 c1 then Some None
                   else continuation ib (Suc ii) (Suc (Suc (Suc 0))) a0) else Some None)"
    using assms by (simp add: utf8_decode_def rdb_def hdr numeral_3_eq_3 [symmetric])
  moreover have "continuation ib (Suc ii) (Suc (Suc (Suc 0))) a0 = Some (Some (a, i)) \<longleftrightarrow>
      Suc (Suc (Suc ii)) < length ib \<and> cont ?b1 \<and> cont ?b2 \<and> cont ?b3 \<and> i = ii + 4 \<and>
      uint a = 64 * (64 * (64 * (uint ?b0 mod 8) + uint ?b1 mod 64) + uint ?b2 mod 64) + uint ?b3 mod 64"
    by (auto simp: continuation_Some continuation_0 cont_def a1_def [symmetric] a2_def [symmetric] st
        word_uint_eq_iff [of a] simp del: continuation.simps)
  moreover have "seq4 (uint ?b0) (uint ?b1) (uint ?b2) (uint ?b3) \<longleftrightarrow>
      uint ?b0 \<le> 0xf4 \<and> cont ?b1 \<and> cont ?b2 \<and> cont ?b3 \<and> \<not> second_bad 4 a0 ?b1"
    using b0 z by (cases "cont ?b1") (auto simp: seq4_def cont_def second_bad4)
  ultimately show ?thesis
    by (cases "Suc ii < length ib") (simp_all add: rdb_def)
qed

lemma utf8_decode_sound:
  assumes "utf8_decode ib ii = Some (Some (a, i))" "0x80 \<le> uint (ib ! ii)" "ii < length ib"
  shows "scalar (uint a)" "i = ii + length (utf8_encode (uint a))"
    "take (i - ii) (drop ii ib) = utf8_encode (uint a)"
proof -
  have "header_bits (ib ! ii) (count_nby (ib ! ii) 1) \<noteq> None"
    using assms(1,3) by (auto simp: utf8_decode_def rdb_def Let_def split: option.splits)
  then consider "count_nby (ib ! ii) 1 = 2" | "count_nby (ib ! ii) 1 = 3" | "count_nby (ib ! ii) 1 = 4"
    by (auto dest!: header_bits_Some)
  then have "scalar (uint a) \<and> i = ii + length (utf8_encode (uint a)) \<and>
      take (i - ii) (drop ii ib) = utf8_encode (uint a)"
  proof cases
    case 1
    with assms have *: "Suc ii < length ib" "seq2 (uint (ib ! ii)) (uint (ib ! Suc ii))" "i = ii + 2"
        "uint a = 64 * (uint (ib ! ii) mod 32) + uint (ib ! Suc ii) mod 64"
      by (simp_all only: utf8_decode_Some2)
    from seq2_encode [OF *(2,4)] *(1,3) show ?thesis
      by (simp add: numeral_2_eq_2 Cons_nth_drop_Suc [symmetric])
  next
    case 2
    with assms have *: "Suc (Suc ii) < length ib"
        "seq3 (uint (ib ! ii)) (uint (ib ! Suc ii)) (uint (ib ! Suc (Suc ii)))" "i = ii + 3"
        "uint a = 64 * (64 * (uint (ib ! ii) mod 16) + uint (ib ! Suc ii) mod 64)
               + uint (ib ! Suc (Suc ii)) mod 64"
      by (simp_all only: utf8_decode_Some3)
    from seq3_encode [OF *(2,4)] *(1,3) show ?thesis
      by (simp add: numeral_3_eq_3 Cons_nth_drop_Suc [symmetric])
  next
    case 3
    with assms have *: "Suc (Suc (Suc ii)) < length ib"
        "seq4 (uint (ib ! ii)) (uint (ib ! Suc ii)) (uint (ib ! Suc (Suc ii)))
           (uint (ib ! Suc (Suc (Suc ii))))" "i = ii + 4"
        "uint a = 64 * (64 * (64 * (uint (ib ! ii) mod 8) + uint (ib ! Suc ii) mod 64)
               + uint (ib ! Suc (Suc ii)) mod 64) + uint (ib ! Suc (Suc (Suc ii))) mod 64"
      by (simp_all only: utf8_decode_Some4)
    from seq4_encode [OF *(2,4)] *(1,3) show ?thesis
      by (simp add: eval_nat_numeral Cons_nth_drop_Suc [symmetric])
  qed
  then show "scalar (uint a)" "i = ii + length (utf8_encode (uint a))"
    "take (i - ii) (drop ii ib) = utf8_encode (uint a)" by blast+
qed

lemma byte_ex: "0 \<le> b \<Longrightarrow> b < 256 \<Longrightarrow> \<exists>c :: byte. word_of_int b = c \<and> uint c = b"
  by (auto simp: uint_word_of_int)

lemma cont_ex: "0 \<le> v \<Longrightarrow> v < 64 \<Longrightarrow> \<exists>c :: byte. word_of_int (0x80 + v) = c \<and> uint c = 0x80 + v \<and> uint c mod 64 = v"
  using byte_ex [of "0x80 + v"] by (auto simp: cont_mod)

lemma utf8_encode_seq2:
  assumes "0x80 \<le> n" "n < 0x800"
  obtains b0 b1 where "utf8_encode n = [b0, b1]" "seq2 (uint b0) (uint b1)"
    "n = 64 * (uint b0 mod 32) + uint b1 mod 64"
proof -
  define z where "z = n mod 64"
  define q where "q = n div 64"
  have n: "n = 64 * q + z" "0 \<le> z" "z < 64" by (simp_all add: z_def q_def)
  have q: "2 \<le> q" "q < 32" using assms n by linarith+
  obtain b1 :: byte where b1: "word_of_int (0x80 + z) = b1" "uint b1 = 0x80 + z" "uint b1 mod 64 = z"
    using cont_ex n by meson
  obtain b0 :: byte where b0: "word_of_int (0xc0 + q) = b0" "uint b0 = 0xc0 + q"
    using byte_ex [of "0xc0 + q"] q by auto
  have "uint b0 mod 32 = q" using q b0 by presburger
  moreover have "utf8_encode n = [b0, b1]"
    using assms by (simp only: utf8_encode_def q_def [symmetric] z_def [symmetric] if_True list.map b0 b1)
  moreover have "seq2 (uint b0) (uint b1)" using q n by (simp add: seq2_def b0 b1)
  ultimately show ?thesis using n(1) b1(3) that by blast
qed

lemma utf8_encode_seq3:
  assumes "0x800 \<le> n" "n < 0x10000" "scalar n"
  obtains b0 b1 b2 where "utf8_encode n = [b0, b1, b2]" "seq3 (uint b0) (uint b1) (uint b2)"
    "n = 64 * (64 * (uint b0 mod 16) + uint b1 mod 64) + uint b2 mod 64"
proof -
  define z where "z = n mod 64"
  define q where "q = n div 64"
  define y where "y = q mod 64"
  define p where "p = q div 64"
  have n: "n = 64 * q + z" "0 \<le> z" "z < 64" "q = 64 * p + y" "0 \<le> y" "y < 64" "n div 4096 = p"
    by (simp_all add: z_def q_def y_def p_def div_4096)
  have p: "0 \<le> p" "p < 16" using assms n by linarith+
  have "n < 0xd800 \<or> 0xdfff < n" using assms(3) by (simp add: scalar_def not_le)
  then have s: "p = 0 \<longrightarrow> 0x20 \<le> y" "p = 13 \<longrightarrow> y < 0x20"
    using assms(1) n(1-6) by (elim disjE; intro impI; linarith)+
  obtain b1 b2 :: byte where b1: "word_of_int (0x80 + y) = b1" "uint b1 = 0x80 + y" "uint b1 mod 64 = y"
    and b2: "word_of_int (0x80 + z) = b2" "uint b2 = 0x80 + z" "uint b2 mod 64 = z"
    using cont_ex n by meson
  obtain b0 :: byte where b0: "word_of_int (0xe0 + p) = b0" "uint b0 = 0xe0 + p"
    using byte_ex [of "0xe0 + p"] p by auto
  have "uint b0 mod 16 = p" using p b0 by presburger
  moreover have "\<not> n < 0x800" using assms by simp
  then have "utf8_encode n = [b0, b1, b2]"
    using assms(2) by (simp only: utf8_encode_def q_def [symmetric] z_def [symmetric] y_def [symmetric]
        n(7) if_True if_False list.map b0 b1 b2)
  moreover have "seq3 (uint b0) (uint b1) (uint b2)" using p s n by (simp add: seq3_def b0 b1 b2)
  ultimately show ?thesis using n(1,4) b1(3) b2(3) that by blast
qed

lemma utf8_encode_seq4:
  assumes "0x10000 \<le> n" "scalar n"
  obtains b0 b1 b2 b3 where "utf8_encode n = [b0, b1, b2, b3]"
    "seq4 (uint b0) (uint b1) (uint b2) (uint b3)"
    "n = 64 * (64 * (64 * (uint b0 mod 8) + uint b1 mod 64) + uint b2 mod 64) + uint b3 mod 64"
proof -
  define z where "z = n mod 64"
  define q where "q = n div 64"
  define y where "y = q mod 64"
  define p where "p = q div 64"
  define x where "x = p mod 64"
  define w where "w = p div 64"
  have n: "n = 64 * q + z" "0 \<le> z" "z < 64" "q = 64 * p + y" "0 \<le> y" "y < 64"
      "p = 64 * w + x" "0 \<le> x" "x < 64" "n div 4096 = p" "n div 262144 = w"
    by (simp_all add: z_def q_def y_def p_def x_def w_def div_4096 div_262144)
  have "n \<le> 0x10ffff" using assms(2) by (simp add: scalar_def)
  then have w: "0 \<le> w" "w \<le> 4" "w = 0 \<longrightarrow> 0x10 \<le> x" "w = 4 \<longrightarrow> x < 0x10"
    using assms(1) n(1-9) by (linarith, linarith, (intro impI, linarith)+)
  obtain b1 b2 b3 :: byte where b1: "word_of_int (0x80 + x) = b1" "uint b1 = 0x80 + x" "uint b1 mod 64 = x"
    and b2: "word_of_int (0x80 + y) = b2" "uint b2 = 0x80 + y" "uint b2 mod 64 = y"
    and b3: "word_of_int (0x80 + z) = b3" "uint b3 = 0x80 + z" "uint b3 mod 64 = z"
    using cont_ex n by meson
  obtain b0 :: byte where b0: "word_of_int (0xf0 + w) = b0" "uint b0 = 0xf0 + w"
    using byte_ex [of "0xf0 + w"] w by auto
  have "uint b0 mod 8 = w" using w b0 by presburger
  moreover have "\<not> n < 0x800" "\<not> n < 0x10000" using assms by simp_all
  then have "utf8_encode n = [b0, b1, b2, b3]"
    by (simp only: utf8_encode_def q_def [symmetric] z_def [symmetric] y_def [symmetric]
        x_def [symmetric] n(10,11) if_False list.map b0 b1 b2 b3)
  moreover have "seq4 (uint b0) (uint b1) (uint b2) (uint b3)"
    using w n by (simp add: seq4_def b0 b1 b2 b3)
  ultimately show ?thesis using n(1,4,7) b1(3) b2(3) b3(3) that by blast
qed

lemma utf8_decode_complete:
  assumes "scalar n"
  shows "utf8_decode (pre @ utf8_encode n @ post) (length pre)
    = Some (Some (word_of_int n, length pre + length (utf8_encode n)))"
proof -
  have u: "uint (word_of_int n :: 32 word) = n"
    using assms by (simp add: scalar_def uint_word_of_int)
  consider "n < 0x800" | "0x800 \<le> n" "n < 0x10000" | "0x10000 \<le> n" by linarith
  then show ?thesis
  proof cases
    case 1
    then obtain b0 b1 where *: "utf8_encode n = [b0, b1]" "seq2 (uint b0) (uint b1)"
        "n = 64 * (uint b0 mod 32) + uint b1 mod 64"
      using assms utf8_encode_seq2 by (metis scalar_def)
    have b0: "0x80 \<le> uint b0" using *(2) by (simp add: seq2_def)
    moreover have "count_nby b0 1 = 2" unfolding nbytes(1) [OF b0] using *(2) by (simp add: seq2_def)
    ultimately show ?thesis
      using * u by (subst utf8_decode_Some2) (simp_all add: nth_append)
  next
    case 2
    then obtain b0 b1 b2 where *: "utf8_encode n = [b0, b1, b2]" "seq3 (uint b0) (uint b1) (uint b2)"
        "n = 64 * (64 * (uint b0 mod 16) + uint b1 mod 64) + uint b2 mod 64"
      using assms utf8_encode_seq3 by metis
    have b0: "0x80 \<le> uint b0" using *(2) by (simp add: seq3_def)
    moreover have "count_nby b0 1 = 3" unfolding nbytes(2) [OF b0] using *(2) by (simp add: seq3_def)
    ultimately show ?thesis
      using * u by (subst utf8_decode_Some3) (simp_all add: nth_append)
  next
    case 3
    then obtain b0 b1 b2 b3 where *: "utf8_encode n = [b0, b1, b2, b3]"
        "seq4 (uint b0) (uint b1) (uint b2) (uint b3)"
        "n = 64 * (64 * (64 * (uint b0 mod 8) + uint b1 mod 64) + uint b2 mod 64) + uint b3 mod 64"
      using assms utf8_encode_seq4 by metis
    have b0: "0x80 \<le> uint b0" using *(2) by (simp add: seq4_def)
    moreover have "count_nby b0 1 = 4" unfolding nbytes(3) [OF b0] using *(2) by (simp add: seq4_def)
    ultimately show ?thesis
      using * u by (subst utf8_decode_Some4) (simp_all add: nth_append)
  qed
qed

subsection \<open>Correctness of the recoder\<close>

lemma utf8_encode_high:
  assumes "scalar n"
  shows "utf8_encode n \<noteq> [] \<and> 0x80 \<le> uint (hd (utf8_encode n))"
proof -
  consider "n < 0x800" | "0x800 \<le> n" "n < 0x10000" | "0x10000 \<le> n" by linarith
  then show ?thesis
  proof cases
    case 1
    then obtain b0 b1 where "utf8_encode n = [b0, b1]" "seq2 (uint b0) (uint b1)"
      using assms utf8_encode_seq2 by (metis scalar_def)
    then show ?thesis by (simp add: seq2_def)
  next
    case 2
    then obtain b0 b1 b2 where "utf8_encode n = [b0, b1, b2]" "seq3 (uint b0) (uint b1) (uint b2)"
      using assms utf8_encode_seq3 by metis
    then show ?thesis by (simp add: seq3_def)
  next
    case 3
    then obtain b0 b1 b2 b3 where "utf8_encode n = [b0, b1, b2, b3]"
        "seq4 (uint b0) (uint b1) (uint b2) (uint b3)"
      using assms utf8_encode_seq4 by metis
    then show ?thesis by (simp add: seq4_def)
  qed
qed

lemma scalar_word:
  assumes "scalar n"
  shows "uint (word_of_int n :: 32 word) = n"
  using assms by (simp add: scalar_def uint_word_of_int)

lemma assert_scalar:
  fixes a :: "32 word"
  assumes "scalar (uint a)"
  shows "a > 0x7f \<and> a < 0x110000 \<and> (a < 0xd800 \<or> a > 0xdfff)"
  using assms by (auto simp: scalar_def word_less_def)

text \<open>
  C15: every Unicode scalar value beyond ASCII that stands UTF-8 encoded in the input is
  consumed exactly and printed as its \<open>\[uXXXX]\<close> escape, and from then on the file is no
  longer considered as Latin-1.
\<close>

theorem preconv_encode_utf8:
  assumes "scalar n" and "enc_utf8 fe"
  shows "preconv_encode (pre @ utf8_encode n @ post) (length pre) ob fe
    = Some (1, length pre + length (utf8_encode n), ob @ print_u (nat n), fe\<lparr>enc_latin1 := False\<rparr>)"
proof -
  have hi: "rdb (pre @ utf8_encode n @ post) (length pre) = Some (hd (utf8_encode n))"
      "hd (utf8_encode n) AND 0x80 \<noteq> 0"
    using utf8_encode_high [OF assms(1)]
    by (auto simp: rdb_def nth_append high_byte hd_conv_nth)
  have "unat (word_of_int n :: 32 word) = nat n"
    using scalar_word [OF assms(1)] by (simp only: unat_eq_nat_uint)
  moreover have "scalar (uint (word_of_int n :: 32 word))"
    using assms(1) by (simp only: scalar_word)
  note assert_scalar [OF this]
  ultimately show ?thesis
    using assms(2) hi by (simp add: preconv_encode_def utf8_decode_complete [OF assms(1)])
qed

theorem preconv_encode_utf8_witness:
  "preconv_encode [0x41, 0xe2, 0x82, 0xac, 0x42] 1 [] cue_both
     = Some (1, 4, print_u 0x20ac, cue_utf8) \<and> print_u 0x20ac = BSLASH # ''[u20AC]''"
proof -
  have "preconv_encode ([0x41] @ utf8_encode 0x20ac @ [0x42]) (length [0x41 :: byte]) [] cue_both
      = Some (1, length [0x41 :: byte] + length (utf8_encode 0x20ac), [] @ print_u (nat 0x20ac),
          cue_both\<lparr>enc_latin1 := False\<rparr>)"
    by (rule preconv_encode_utf8) (simp_all add: scalar_def cue_both_def)
  moreover have "utf8_encode 0x20ac = [0xe2, 0x82, 0xac]" by (simp add: utf8_encode_def)
  moreover have "print_u 0x20ac = BSLASH # ''[u20AC]''"
    by (simp add: print_u_def pad4_def hex_digits.simps hex_char_def char_of_def bit_Suc_0_iff)
  ultimately show ?thesis by (simp add: cue_both_def cue_utf8_def)
qed

text \<open>
  conversely, whenever a character is accepted as UTF-8, the bytes consumed are the UTF-8
  form of a scalar value (no overlong form, no surrogate, nothing beyond U+10FFFF), and it is
  that value that is printed.
\<close>

theorem preconv_encode_utf8_only:
  assumes "preconv_encode ib ii ob fe = Some (1, i, ob', fe')" and "enc_utf8 fe'"
  shows "\<exists>n. scalar n \<and> take (i - ii) (drop ii ib) = utf8_encode n \<and>
           i = ii + length (utf8_encode n) \<and> ob' = ob @ print_u (nat n)"
proof -
  obtain c0 where c0: "rdb ib ii = Some c0" "c0 AND 0x80 \<noteq> 0"
    using assms(1) by (auto simp: preconv_encode_def bind_eq_Some_conv split: if_splits)
  then have ii: "ii < length ib" "0x80 \<le> uint (ib ! ii)"
    by (auto simp: rdb_def high_byte split: if_splits)
  obtain dec where dec: "(if enc_utf8 fe then utf8_decode ib ii else Some None) = Some dec"
    using assms(1) c0 by (auto simp: preconv_encode_def bind_eq_Some_conv)
  have "dec \<noteq> None"
  proof
    assume "dec = None"
    with assms c0 dec show False by (auto simp: preconv_encode_def split: if_splits)
  qed
  then obtain a j where a: "dec = Some (a, j)" by auto
  with assms(1) c0 dec have j: "j = i" "ob' = ob @ print_u (unat a)"
    by (simp_all add: preconv_encode_def split: if_splits)
  have a: "utf8_decode ib ii = Some (Some (a, i))" "ob' = ob @ print_u (unat a)"
    using dec a j by (auto split: if_splits)
  have "ob' = ob @ print_u (nat (uint a))" using a(2) by (simp only: unat_eq_nat_uint)
  with utf8_decode_sound [OF a(1) ii(2,1)] show ?thesis by blast
qed

theorem preconv_encode_utf8_only_witness:
  "\<exists>n. scalar n \<and> take 2 (drop 0 [0xc3, 0xa9]) = utf8_encode n \<and> (2::nat) = 0 + length (utf8_encode n) \<and>
     BSLASH # ''[u00E9]'' = [] @ print_u (nat n)"
proof -
  have "preconv_encode [0xc3, 0xa9] 0 [] cue_both = Some (1, 2, BSLASH # ''[u00E9]'', cue_utf8)"
    by code_simp
  from preconv_encode_utf8_only [OF this] show ?thesis by (simp add: cue_utf8_def)
qed

text \<open>
  with at least four bytes left in the buffer no assertion fails and nothing is read past
  the end, whatever the bytes are; the function either recodes the character or rejects it.
\<close>

lemma continuation_defined:
  "i + k \<le> length ib \<Longrightarrow> continuation ib i k a \<noteq> None"
  by (induction ib i k a rule: continuation.induct) (auto simp: rdb_def)

lemma utf8_decode_defined:
  assumes "ii + 4 \<le> length ib" "0x80 \<le> uint (ib ! ii)"
  shows "utf8_decode ib ii \<noteq> None"
proof -
  have "count_nby (ib ! ii) 1 \<le> 5" by (simp only: count_nby_eq [OF assms(2)]) simp
  then have "continuation ib (Suc ii) (count_nby (ib ! ii) 1 - 1) a \<noteq> None
      \<or> header_bits (ib ! ii) (count_nby (ib ! ii) 1) = None" for a
    using assms(1) continuation_defined [of "Suc ii" "count_nby (ib ! ii) 1 - 1" ib a]
    by (cases "count_nby (ib ! ii) 1 = 5") (auto simp: header_bits_def)
  then show ?thesis
    using assms(1) by (auto simp: utf8_decode_def rdb_def Let_def split: option.split)
qed

theorem preconv_encode_defined:
  assumes "ii + 4 \<le> length ib" and "0x80 \<le> uint (ib ! ii)"
  shows "\<exists>ret i ob' fe'. preconv_encode ib ii ob fe = Some (ret, i, ob', fe') \<and>
           (ret = 0 \<and> i = ii \<and> ob' = ob \<and> fe' = fe \<or>
            ret = 1 \<and> ii < i \<and> i \<le> ii + 4)"
proof -
  have c0: "rdb ib ii = Some (ib ! ii)" "ib ! ii AND 0x80 \<noteq> 0"
    using assms by (auto simp: rdb_def high_byte)
  obtain dec where dec: "(if enc_utf8 fe then utf8_decode ib ii else Some None) = Some dec"
    using utf8_decode_defined [OF assms] by (cases "enc_utf8 fe") auto
  show ?thesis
  proof (cases dec)
    case None
    with c0 dec show ?thesis by (simp add: preconv_encode_def)
  next
    case (Some r)
    obtain a i where r: "r = (a, i)" by fastforce
    with dec Some have d: "utf8_decode ib ii = Some (Some (a, i))" by (auto split: if_splits)
    note s = utf8_decode_sound [OF d assms(2)]
    have "ii < length ib" using assms(1) by simp
    note s = s [OF this]
    have "length (utf8_encode (uint a)) \<in> {2, 3, 4}" by (simp add: utf8_encode_def)
    with s(2) assert_scalar [OF s(1)] c0 dec Some r show ?thesis
      by (auto simp: preconv_encode_def)
  qed
qed

theorem preconv_encode_defined_witness:
  "\<exists>ret i ob' fe'. preconv_encode [0xff, 0xc0, 0x80, 0xf5] 0 [] cue_both = Some (ret, i, ob', fe') \<and>
     (ret = 0 \<and> i = 0 \<and> ob' = [] \<and> fe' = cue_both \<or> ret = 1 \<and> 0 < i \<and> i \<le> 0 + 4)"
  by (rule preconv_encode_defined) simp_all

subsection \<open>Correctness of the coding line parser\<close>

lemma strncaseeq_None:
  "strncaseeq b cs = None \<Longrightarrow> length b < length cs \<and> (\<forall>i < length b. tolower (b ! i) = tolower (cs ! i))"
proof (induction b cs rule: strncaseeq.induct)
  case (3 x b c cs)
  then show ?case by (auto simp: nth_Cons split: if_splits nat.splits)
qed simp_all

text \<open>
  Before a trailer \<open>-*-\<close> no comparison runs off the buffer unless the literal has a star.
\<close>

lemma strncaseeq_trailer:
  assumes "CHR ''*'' \<notin> set (map tolower cs)" "drop n b = ''-*-'' @ ys"
  shows "strncaseeq b cs \<noteq> None"
proof
  assume "strncaseeq b cs = None"
  note * = strncaseeq_None [OF this]
  have len: "Suc n < length b"
    using arg_cong [OF assms(2), of length] by simp
  have "b ! Suc n = drop n b ! 1" using len by simp
  then have "b ! Suc n = CHR ''*''" using assms(2) by simp
  with * len have "tolower (cs ! Suc n) = tolower (CHR ''*'')" "Suc n < length cs" by force+
  moreover have "tolower (CHR ''*'') = CHR ''*''" by (simp add: tolower_def isupper_def ord_of_def)
  ultimately show False using assms(1) nth_mem [of "Suc n" cs] by (metis imageI list.set_map)
qed

lemma no_star:
  "CHR ''*'' \<notin> set (map tolower ''coding:'')" "CHR ''*'' \<notin> set (map tolower ''utf-8'')"
  "CHR ''*'' \<notin> set (map tolower ''iso-latin-1'')"
  by code_simp+

lemma blanks_le: "blanks s \<le> length s"
  by (simp add: blanks_def length_takeWhile_le)

lemma phrase_size_le: "phrase_size s sz \<le> sz"
  by (simp add: phrase_size_def Let_def)

lemma cue_value_total:
  assumes "drop (ln + sz) b = ''-*-'' @ ys"
  shows "cue_value b ln sz phsz \<noteq> None"
proof -
  let ?k = "blanks (take sz (drop ln b))"
  have "?k \<le> sz" using blanks_le [of "take sz (drop ln b)"] by simp
  then have "drop (sz - ?k) (drop (ln + ?k) b) = ''-*-'' @ ys" using assms by (simp add: add.commute)
  note t = strncaseeq_trailer [OF no_star(2) this] strncaseeq_trailer [OF no_star(3) this]
  from t obtain u l where "strncaseeq (drop (ln + ?k) b) ''utf-8'' = Some u"
      "strncaseeq (drop (ln + ?k) b) ''iso-latin-1'' = Some l" by blast
  then show ?thesis by (simp add: cue_value_def Let_def)
qed

lemma cue_loop_total:
  "drop (ln + sz) b = ''-*-'' @ ys \<Longrightarrow> cue_loop b ln sz \<noteq> None"
proof (induction b ln sz rule: cue_loop.induct)
  case (1 b ln sz)
  define k where "k = blanks (take sz (drop ln b))"
  define phsz where "phsz = phrase_size (drop (ln + k) b) (sz - k)"
  have k: "k \<le> sz" using blanks_le [of "take sz (drop ln b)"] by (simp add: k_def)
  have p: "phsz \<le> sz - k" unfolding phsz_def by (rule phrase_size_le)
  have t: "drop (ln + k + (sz - k)) b = ''-*-'' @ ys" using k "1.prems" by simp
  then have "drop (sz - k) (drop (ln + k) b) = ''-*-'' @ ys" by (simp add: add.commute)
  then obtain m where m: "strncaseeq (drop (ln + k) b) ''coding:'' = Some m"
    using strncaseeq_trailer [OF no_star(1)] by blast
  have "ln + k + phsz + (sz - k - phsz) = ln + sz" using p k by simp
  then have next_ok: "drop (ln + k + phsz + (sz - k - phsz)) b = ''-*-'' @ ys" using "1.prems" by simp
  have IH: "cue_loop b (ln + k + phsz) (sz - k - phsz) \<noteq> None"
    if "sz - k \<noteq> 0" "phsz < 7 \<or> \<not> m"
    using that "1.IH" [OF k_def refl refl that(1) phsz_def] next_ok m by auto
  have "cue_value b (ln + k + 7) (sz - k - 7) phsz \<noteq> None" if "\<not> phsz < 7"
    using that p t by (intro cue_value_total) simp
  with IH m show ?case
    by (subst cue_loop.simps)
       (simp add: Let_def k_def [symmetric] phsz_def [symmetric] split: bool.split)
qed

text \<open>
  the detection of the encoding reads only bytes of the buffer and always decides, whatever
  stands on the line.
\<close>

theorem preconv_cue_total:
  assumes "offset \<le> length b"
  shows "\<exists>fe. preconv_cue b offset = Some fe"
proof -
  define line where "line = takeWhile (\<lambda>c. c \<noteq> NEWLINE) (drop offset b)"
  define sz where "sz = length line"
  have "cue_loop b (offset + 7) (sz - 10) \<noteq> None" if "10 \<le> sz" "drop (sz - 3) line = ''-*-''"
  proof -
    have "drop offset b = line @ dropWhile (\<lambda>c. c \<noteq> NEWLINE) (drop offset b)"
      by (simp add: line_def)
    then have "drop (sz - 3) (drop offset b) = ''-*-'' @ dropWhile (\<lambda>c. c \<noteq> NEWLINE) (drop offset b)"
      using that by (metis drop_append sz_def diff_is_0_eq diff_le_self drop_0)
    moreover have "offset + 7 + (sz - 10) = sz - 3 + offset" using that(1) by simp
    ultimately have "drop (offset + 7 + (sz - 10)) b
        = ''-*-'' @ dropWhile (\<lambda>c. c \<noteq> NEWLINE) (drop offset b)"
      by (simp only: drop_drop)
    then show ?thesis by (rule cue_loop_total)
  qed
  with assms show ?thesis
    by (auto simp: preconv_cue_def Let_def line_def [symmetric] sz_def [symmetric] not_less)
qed

theorem preconv_cue_total_witness:
  "\<exists>fe. preconv_cue (cue_header @ '' coding: UTF-8 -*-'') 0 = Some fe \<and> fe = cue_utf8"
proof -
  obtain fe where "preconv_cue (cue_header @ '' coding: UTF-8 -*-'') 0 = Some fe"
    using preconv_cue_total by blast
  moreover have "preconv_cue (cue_header @ '' coding: UTF-8 -*-'') 0 = Some cue_utf8"
    by code_simp
  ultimately show ?thesis by simp
qed

end
