(* ===== verification/Ohash.thy ===== *)
theory Ohash
  imports Prelude
begin

unbundle bit_operations_syntax

section \<open>The open hashing library: \<open>compat_ohash.c\<close>\<close>

text \<open>
  Open addressing with double hashing and tombstones.  A slot holds the hash value stored for
  it and NULL, the tombstone, or an entry.  Entries carry their key at a fixed offset; the
  model takes the function \<open>key\<close> that reads it.  Looking a key up may move its entry to an
  earlier tombstone, and writes the hash value into the slot that an insertion will use, so it
  returns the changed table.  Sizes and counters are natural numbers: a table of a size the
  32-bit counters could not hold would need \<open>2 ^ 30\<close> slots.  The probing loops take fuel;
  \<open>ohash_lookup_interval\<close> and \<open>ohash_resize\<close> give them one unit per slot, and the
  invariant shows below that this is always enough.
\<close>

datatype 'e cell = is_Null: Null | is_Deleted: Deleted | is_Entry: Entry (entry: 'e)

record 'e ohash =
  htab :: "(32 word \<times> 'e cell) list"
  hsize :: nat
  htotal :: nat
  hdeleted :: nat

definition MINSIZE :: nat where "MINSIZE = 16"
definition MINDELETED :: nat where "MINDELETED = 4"
definition UINT_MAX :: nat where "UINT_MAX = 4294967295"

subsection \<open>Hash values and the probe sequence\<close>

text \<open>A \<open>char\<close> promoted to \<open>uint32_t\<close>: the plain type is signed.\<close>

definition char_to_u32 :: "char \<Rightarrow> 32 word" where
  "char_to_u32 c = word_of_int (let n = int (ord_of c) in if n < 128 then n else n - 256)"

definition ohash_interval :: "string \<Rightarrow> 32 word" where
  "ohash_interval s =
     (case s of [] \<Rightarrow> 0
      | c # cs \<Rightarrow> foldl (\<lambda>k d. (push_bit 2 k OR drop_bit 30 k) XOR char_to_u32 d) (char_to_u32 c) cs)"

definition hash_start :: "32 word \<Rightarrow> nat \<Rightarrow> nat" where
  "hash_start hv n = unat hv mod n"

text \<open>\<open>((hv % (size - 2)) & ~1) + 1\<close>\<close>

definition hash_incr :: "32 word \<Rightarrow> nat \<Rightarrow> nat" where
  "hash_incr hv n = (let x = unat hv mod (n - 2) in x - x mod 2) + 1"

definition probe_next :: "nat \<Rightarrow> nat \<Rightarrow> nat \<Rightarrow> nat" where
  "probe_next n incr i = (if i + incr \<ge> n then i + incr - n else i + incr)"

definition cell_at :: "'e ohash \<Rightarrow> nat \<Rightarrow> 'e cell" where
  "cell_at h i = snd (htab h ! i)"

subsection \<open>Creation and inspection\<close>

definition ohash_init :: "nat \<Rightarrow> 'e ohash" where
  "ohash_init sz =
     (let n = max MINSIZE (2 ^ sz)
      in \<lparr>htab = replicate n (0, Null), hsize = n, htotal = 0, hdeleted = 0\<rparr>)"

definition ohash_find :: "'e ohash \<Rightarrow> nat \<Rightarrow> 'e option option" where
  "ohash_find h i =
     (if i < length (htab h)
      then Some (case cell_at h i of Entry e \<Rightarrow> Some e | _ \<Rightarrow> None) else None)"

definition ohash_entries :: "'e ohash \<Rightarrow> nat" where
  "ohash_entries h = htotal h - hdeleted h"

text \<open>\<open>ohash_next\<close>: the entry at the first used slot from \<open>pos\<close> on, and the slot after it.\<close>

function ohash_next :: "'e ohash \<Rightarrow> nat \<Rightarrow> ('e \<times> nat) option" where
  "ohash_next h pos =
     (if pos < hsize h
      then (case cell_at h pos of Entry e \<Rightarrow> Some (e, Suc pos) | _ \<Rightarrow> ohash_next h (Suc pos))
      else None)"
  by pat_completeness auto
termination
  by (relation "measure (\<lambda>(h, pos). hsize h - pos)") auto

declare ohash_next.simps [simp del]

definition ohash_first :: "'e ohash \<Rightarrow> ('e \<times> nat) option" where
  "ohash_first h = ohash_next h 0"

subsection \<open>Lookup\<close>

fun probe :: "nat \<Rightarrow> ('e \<Rightarrow> string) \<Rightarrow> 'e ohash \<Rightarrow> string \<Rightarrow> 32 word \<Rightarrow> nat \<Rightarrow> nat \<Rightarrow> nat \<Rightarrow>
    ('e ohash \<times> nat) option" where
  "probe 0 key h s hv incr i emp = None"
| "probe (Suc fuel) key h s hv incr i emp =
     (if i \<ge> length (htab h) then None
      else case cell_at h i of
        Null \<Rightarrow>
          let j = (if emp \<noteq> hsize h then emp else i)
          in Some (h\<lparr>htab := (htab h)[j := (hv, cell_at h j)]\<rparr>, j)
      | Deleted \<Rightarrow>
          probe fuel key h s hv incr (probe_next (hsize h) incr i) (if emp = hsize h then i else emp)
      | Entry e \<Rightarrow>
          if fst (htab h ! i) = hv \<and> key e = s
          then if emp \<noteq> hsize h
               then Some (h\<lparr>htab := (htab h)[emp := (hv, Entry e), i := (fst (htab h ! i), Deleted)]\<rparr>, emp)
               else Some (h, i)
          else probe fuel key h s hv incr (probe_next (hsize h) incr i) emp)"

definition ohash_lookup_interval ::
  "('e \<Rightarrow> string) \<Rightarrow> 'e ohash \<Rightarrow> string \<Rightarrow> 32 word \<Rightarrow> ('e ohash \<times> nat) option" where
  "ohash_lookup_interval key h s hv =
     probe (hsize h) key h s hv (hash_incr hv (hsize h)) (hash_start hv (hsize h)) (hsize h)"

definition ohash_qlookup :: "('e \<Rightarrow> string) \<Rightarrow> 'e ohash \<Rightarrow> string \<Rightarrow> ('e ohash \<times> nat) option" where
  "ohash_qlookup key h s = ohash_lookup_interval key h s (ohash_interval s)"

text \<open>
  \<open>ohash_lookup_memory\<close> is the same loop with another comparison: \<open>memcmp\<close> of \<open>size\<close> bytes,
  which is undefined when the stored key or the searched memory is shorter.  A key is here the
  whole memory that the entry provides for it.
\<close>

definition memcmp_eq :: "string \<Rightarrow> string \<Rightarrow> nat \<Rightarrow> bool option" where
  "memcmp_eq a b sz =
     (if sz \<le> length a \<and> sz \<le> length b then Some (take sz a = take sz b) else None)"

fun probe_mem :: "nat \<Rightarrow> ('e \<Rightarrow> string) \<Rightarrow> 'e ohash \<Rightarrow> string \<Rightarrow> nat \<Rightarrow> 32 word \<Rightarrow> nat \<Rightarrow> nat \<Rightarrow> nat \<Rightarrow>
    ('e ohash \<times> nat) option" where
  "probe_mem 0 key h k sz hv incr i emp = None"
| "probe_mem (Suc fuel) key h k sz hv incr i emp =
     (if i \<ge> length (htab h) then None
      else case cell_at h i of
        Null \<Rightarrow>
          let j = (if emp \<noteq> hsize h then emp else i)
          in Some (h\<lparr>htab := (htab h)[j := (hv, cell_at h j)]\<rparr>, j)
      | Deleted \<Rightarrow>
          probe_mem fuel key h k sz hv incr (probe_next (hsize h) incr i) (if emp = hsize h then i else emp)
      | Entry e \<Rightarrow> do {
          found \<leftarrow> (if fst (htab h ! i) = hv then memcmp_eq (key e) k sz else Some False);
          if found
          then if emp \<noteq> hsize h
               then Some (h\<lparr>htab := (htab h)[emp := (hv, Entry e), i := (fst (htab h ! i), Deleted)]\<rparr>, emp)
               else Some (h, i)
          else probe_mem fuel key h k sz hv incr (probe_next (hsize h) incr i) emp})"

definition ohash_lookup_memory ::
  "('e \<Rightarrow> string) \<Rightarrow> 'e ohash \<Rightarrow> string \<Rightarrow> nat \<Rightarrow> 32 word \<Rightarrow> ('e ohash \<times> nat) option" where
  "ohash_lookup_memory key h k sz hv =
     probe_mem (hsize h) key h k sz hv (hash_incr hv (hsize h)) (hash_start hv (hsize h)) (hsize h)"

subsection \<open>Resizing, insertion and removal\<close>

definition resize_size :: "'e ohash \<Rightarrow> nat" where
  "resize_size h =
     max MINSIZE
       (if 4 * hdeleted h < htotal h
        then (if hsize h \<ge> UINT_MAX div 2 then UINT_MAX else 2 * hsize h)
        else if 3 * hdeleted h > 2 * htotal h then hsize h div 2
        else hsize h)"

text \<open>The inner loop of \<open>ohash_resize\<close>: the first free slot of the new array.\<close>

fun free_slot :: "nat \<Rightarrow> (32 word \<times> 'e cell) list \<Rightarrow> nat \<Rightarrow> nat \<Rightarrow> nat option" where
  "free_slot 0 n incr i = None"
| "free_slot (Suc fuel) n incr i =
     (if i \<ge> length n then None
      else if is_Null (snd (n ! i)) then Some i
      else free_slot fuel n incr (probe_next (length n) incr i))"

fun rehash :: "(32 word \<times> 'e cell) list \<Rightarrow> (32 word \<times> 'e cell) list \<Rightarrow> (32 word \<times> 'e cell) list option" where
  "rehash [] n = Some n"
| "rehash ((hv, c) # t) n =
     (case c of Entry e \<Rightarrow>
        (case free_slot (length n) n (hash_incr hv (length n)) (hash_start hv (length n)) of
           None \<Rightarrow> None
         | Some i \<Rightarrow> rehash t (n[i := (hv, Entry e)]))
      | _ \<Rightarrow> rehash t n)"

definition ohash_resize :: "'e ohash \<Rightarrow> 'e ohash option" where
  "ohash_resize h = do {
     let ns = resize_size h;
     n \<leftarrow> rehash (htab h) (replicate ns (0, Null));
     Some \<lparr>htab = n, hsize = ns, htotal = htotal h - hdeleted h, hdeleted = 0\<rparr>}"

definition set_cell :: "'e ohash \<Rightarrow> nat \<Rightarrow> 'e cell \<Rightarrow> 'e ohash" where
  "set_cell h i c = h\<lparr>htab := (htab h)[i := (fst (htab h ! i), c)]\<rparr>"

definition ohash_insert :: "'e ohash \<Rightarrow> nat \<Rightarrow> 'e \<Rightarrow> 'e ohash option" where
  "ohash_insert h i e =
     (if i \<ge> length (htab h) then None
      else if is_Deleted (cell_at h i)
      then Some ((set_cell h i (Entry e))\<lparr>hdeleted := hdeleted h - 1\<rparr>)
      else let h' = (set_cell h i (Entry e))\<lparr>htotal := Suc (htotal h)\<rparr>
           in if htotal h' * 4 > hsize h' * 3 then ohash_resize h' else Some h')"

definition ohash_remove :: "'e ohash \<Rightarrow> nat \<Rightarrow> ('e ohash \<times> 'e option) option" where
  "ohash_remove h i =
     (if i \<ge> length (htab h) then None
      else case cell_at h i of
        Entry e \<Rightarrow>
          let h' = (set_cell h i Deleted)\<lparr>hdeleted := Suc (hdeleted h)\<rparr>
          in if hdeleted h' \<ge> MINDELETED \<and> 4 * hdeleted h' > htotal h'
             then map_option (\<lambda>h''. (h'', Some e)) (ohash_resize h')
             else Some (h', Some e)
      | _ \<Rightarrow> Some (h, None))"


subsection \<open>The probe sequence visits every slot\<close>

definition probe_pos :: "32 word \<Rightarrow> nat \<Rightarrow> nat \<Rightarrow> nat" where
  "probe_pos hv n m = (hash_start hv n + m * hash_incr hv n) mod n"

definition table_size :: "nat \<Rightarrow> bool" where
  "table_size n \<longleftrightarrow> (\<exists>k \<ge> 4. n = 2 ^ k)"

lemma table_size_ge: "table_size n \<Longrightarrow> 16 \<le> n"
  using power_increasing [of 4 _ "2::nat"] by (auto simp: table_size_def)

lemma probe_pos_0: "probe_pos hv n 0 = hash_start hv n"
  by (simp add: probe_pos_def hash_start_def)

lemma hash_incr_less: "16 \<le> n \<Longrightarrow> hash_incr hv n < n"
proof -
  assume "16 \<le> n"
  then have "unat hv mod (n - 2) < n - 2" by simp
  then show ?thesis by (simp add: hash_incr_def Let_def)
qed

lemma probe_pos_less: "16 \<le> n \<Longrightarrow> probe_pos hv n m < n"
  by (simp add: probe_pos_def)

lemma probe_next_pos:
  assumes "16 \<le> n"
  shows "probe_next n (hash_incr hv n) (probe_pos hv n m) = probe_pos hv n (Suc m)"
proof -
  let ?i = "probe_pos hv n m" and ?d = "hash_incr hv n"
  have lt: "?i < n" "?d < n" using assms by (simp_all add: probe_pos_less hash_incr_less)
  have "probe_pos hv n (Suc m) = (?i + ?d) mod n"
    by (simp add: probe_pos_def mod_simps algebra_simps)
  also have "\<dots> = probe_next n ?d ?i"
    using lt by (auto simp: probe_next_def mod_if le_mod_geq)
  finally show ?thesis by simp
qed

lemma odd_hash_incr: "odd (hash_incr hv n)"
  by (simp add: hash_incr_def Let_def)

lemma probe_pos_inj:
  assumes "table_size n"
  shows "inj_on (probe_pos hv n) {..<n}"
proof (rule linorder_inj_onI')
  fix a b assume ab: "a \<in> {..<n}" "b \<in> {..<n}" "a < b"
  show "probe_pos hv n a \<noteq> probe_pos hv n b"
  proof
    assume "probe_pos hv n a = probe_pos hv n b"
    then have "n dvd (hash_start hv n + b * hash_incr hv n) - (hash_start hv n + a * hash_incr hv n)"
      using mod_eq_dvd_iff_nat [of "hash_start hv n + a * hash_incr hv n"] ab
      by (metis probe_pos_def add_left_mono mult_le_mono1 less_imp_le)
    then have "n dvd (b - a) * hash_incr hv n" by (simp add: diff_mult_distrib)
    moreover have "coprime n (hash_incr hv n)"
      using assms odd_hash_incr [of hv n] by (auto simp: table_size_def)
    ultimately have "n dvd b - a" by (simp add: coprime_dvd_mult_left_iff)
    then show False using ab by (auto dest: dvd_imp_le)
  qed
qed

lemma probe_pos_surj:
  assumes "table_size n" "j < n"
  shows "\<exists>m < n. probe_pos hv n m = j"
proof -
  have "probe_pos hv n ` {..<n} \<subseteq> {..<n}"
    using table_size_ge [OF assms(1)] by (auto simp: probe_pos_less)
  then have "probe_pos hv n ` {..<n} = {..<n}"
    using probe_pos_inj [OF assms(1)] by (intro card_subset_eq) (simp_all add: card_image)
  with assms(2) show ?thesis by (metis imageE lessThan_iff)
qed


subsection \<open>The table invariant\<close>

type_synonym 'e slots = "(32 word \<times> 'e cell) list"

definition entries :: "'e slots \<Rightarrow> 'e list" where
  "entries t = concat (map (\<lambda>c. case snd c of Entry e \<Rightarrow> [e] | _ \<Rightarrow> []) t)"

text \<open>The finite map that a table represents.\<close>

definition slots_map :: "('e \<Rightarrow> string) \<Rightarrow> 'e slots \<Rightarrow> string \<Rightarrow> 'e option" where
  "slots_map key t = map_of (map (\<lambda>e. (key e, e)) (entries t))"

text \<open>Slot \<open>j\<close> is on the probe sequence of \<open>hv\<close> before the first empty slot, or is that slot.\<close>

definition reach :: "'e slots \<Rightarrow> 32 word \<Rightarrow> nat \<Rightarrow> bool" where
  "reach t hv j \<longleftrightarrow>
     (\<exists>m. j = probe_pos hv (length t) m \<and> (\<forall>m' < m. \<not> is_Null (snd (t ! probe_pos hv (length t) m'))))"

definition placed :: "('e \<Rightarrow> string) \<Rightarrow> 'e slots \<Rightarrow> bool" where
  "placed key t \<longleftrightarrow>
     table_size (length t) \<and>
     (\<forall>j < length t. \<forall>e. snd (t ! j) = Entry e \<longrightarrow>
        fst (t ! j) = ohash_interval (key e) \<and> reach t (ohash_interval (key e)) j) \<and>
     (\<forall>i < length t. \<forall>j < length t. \<forall>e e'.
        snd (t ! i) = Entry e \<longrightarrow> snd (t ! j) = Entry e' \<longrightarrow> key e = key e' \<longrightarrow> i = j)"

definition used :: "'e slots \<Rightarrow> nat" where
  "used t = length (filter (\<lambda>c. \<not> is_Null (snd c)) t)"

definition tombs :: "'e slots \<Rightarrow> nat" where
  "tombs t = length (filter (\<lambda>c. is_Deleted (snd c)) t)"

definition ohash_ok :: "('e \<Rightarrow> string) \<Rightarrow> 'e ohash \<Rightarrow> bool" where
  "ohash_ok key h \<longleftrightarrow>
     placed key (htab h) \<and> hsize h = length (htab h) \<and>
     htotal h = used (htab h) \<and> hdeleted h = tombs (htab h) \<and> 4 * htotal h \<le> 3 * hsize h"

definition ohash_map :: "('e \<Rightarrow> string) \<Rightarrow> 'e ohash \<Rightarrow> string \<Rightarrow> 'e option" where
  "ohash_map key h = slots_map key (htab h)"

lemma count_update:
  "i < length xs \<Longrightarrow>
   length (filter P (xs[i := x])) + (if P (xs ! i) then 1 else 0) =
   length (filter P xs) + (if P x then 1 else 0)"
proof (induction xs arbitrary: i)
  case (Cons y ys)
  then show ?case by (cases i) auto
qed simp

lemma used_update:
  "i < length t \<Longrightarrow> used (t[i := c]) + (if is_Null (snd (t ! i)) then 0 else 1) =
     used t + (if is_Null (snd c) then 0 else 1)"
  using count_update [of i t "\<lambda>c. \<not> is_Null (snd c)" c] by (simp add: used_def split: if_splits)

lemma tombs_update:
  "i < length t \<Longrightarrow> tombs (t[i := c]) + (if is_Deleted (snd (t ! i)) then 1 else 0) =
     tombs t + (if is_Deleted (snd c) then 1 else 0)"
  using count_update [of i t "\<lambda>c. is_Deleted (snd c)" c] by (simp add: tombs_def)

lemma used_less_Null: "used t < length t \<Longrightarrow> \<exists>i < length t. is_Null (snd (t ! i))"
  unfolding used_def using filter_True [of t "\<lambda>c. \<not> is_Null (snd c)"]
  by (metis in_set_conv_nth less_irrefl)

lemma entries_iff: "e \<in> set (entries t) \<longleftrightarrow> (\<exists>j < length t. snd (t ! j) = Entry e)"
proof -
  have "e \<in> set (entries t) \<longleftrightarrow> (\<exists>c \<in> set t. snd c = Entry e)"
    by (force simp: entries_def split: cell.splits)
  then show ?thesis by (metis in_set_conv_nth)
qed

lemma entries_Cons:
  "entries (c # t) = (case snd c of Entry e \<Rightarrow> e # entries t | _ \<Rightarrow> entries t)"
  by (auto simp: entries_def split: cell.splits)

lemma length_entries: "length (entries t) + tombs t = used t"
  by (induction t) (auto simp: entries_def tombs_def used_def split: cell.splits)

lemma slots_map_iff:
  assumes "placed key t"
  shows "slots_map key t k = Some e \<longleftrightarrow> key e = k \<and> (\<exists>j < length t. snd (t ! j) = Entry e)"
    (is "?L \<longleftrightarrow> ?R")
proof
  assume ?L
  then have "(k, e) \<in> set (map (\<lambda>e. (key e, e)) (entries t))"
    unfolding slots_map_def by (rule map_of_SomeD)
  then show ?R by (auto simp: entries_iff)
next
  assume R: ?R
  then have "e \<in> set (entries t)" by (simp add: entries_iff)
  then have "k \<in> fst ` set (map (\<lambda>e. (key e, e)) (entries t))" using R by force
  then obtain e' where e': "slots_map key t k = Some e'"
    unfolding slots_map_def by (metis map_of_eq_None_iff not_None_eq)
  then have "(k, e') \<in> set (map (\<lambda>e. (key e, e)) (entries t))"
    unfolding slots_map_def by (rule map_of_SomeD)
  then have "key e' = k" "\<exists>j < length t. snd (t ! j) = Entry e'" by (auto simp: entries_iff)
  with R assms have "e' = e" unfolding placed_def by (metis cell.inject)
  with e' show ?L by simp
qed

lemma slots_map_None:
  "slots_map key t k = None \<longleftrightarrow> (\<forall>j < length t. \<forall>e. snd (t ! j) = Entry e \<longrightarrow> key e \<noteq> k)"
proof -
  have "slots_map key t k = None \<longleftrightarrow> (\<forall>e \<in> set (entries t). key e \<noteq> k)"
    by (auto simp: slots_map_def map_of_eq_None_iff image_image)
  then show ?thesis by (auto simp: entries_iff)
qed

lemma map_Some_ext: "(\<And>k e. f k = Some e \<longleftrightarrow> g k = Some e) \<Longrightarrow> f = g"
  by (metis ext option.exhaust)

lemma reach_mono:
  assumes "reach t hv j" "length t' = length t" "16 \<le> length t"
    "\<And>i. i < length t \<Longrightarrow> \<not> is_Null (snd (t ! i)) \<Longrightarrow> \<not> is_Null (snd (t' ! i))"
  shows "reach t' hv j"
  using assms probe_pos_less [of "length t" hv] unfolding reach_def by metis

lemma placed_ge: "placed key t \<Longrightarrow> 16 \<le> length t"
  by (simp add: placed_def table_size_ge)

lemma placedD:
  assumes "placed key t" "j < length t" "snd (t ! j) = Entry e"
  shows "fst (t ! j) = ohash_interval (key e)" "reach t (ohash_interval (key e)) j"
  using assms by (auto simp: placed_def)

lemma placed_inj:
  assumes "placed key t" "i < length t" "snd (t ! i) = Entry e" "j < length t" "snd (t ! j) = Entry e'"
    "key e = key e'"
  shows "i = j"
  using assms unfolding placed_def by metis

lemma upd_at: "j < length t \<Longrightarrow> t[j := c] ! i = (if i = j then c else t ! i)"
  by (auto simp: nth_list_update)

lemma placed_update:
  assumes pl: "placed key t" and j: "j < length t"
    and null: "\<not> is_Null (snd (t ! j)) \<Longrightarrow> \<not> is_Null (snd c)"
    and new: "\<And>e. snd c = Entry e \<Longrightarrow> fst c = ohash_interval (key e) \<and> reach t (fst c) j \<and>
        (\<forall>i < length t. \<forall>e'. i \<noteq> j \<longrightarrow> snd (t ! i) = Entry e' \<longrightarrow> key e' \<noteq> key e)"
  shows "placed key (t[j := c])"
proof -
  have mono: "reach (t[j := c]) hv i" if "reach t hv i" for hv i
    using that by (rule reach_mono) (use placed_ge [OF pl] null in \<open>auto simp: nth_list_update j\<close>)
  have "fst (t[j := c] ! i) = ohash_interval (key e) \<and> reach (t[j := c]) (ohash_interval (key e)) i"
    if "i < length t" "snd (t[j := c] ! i) = Entry e" for i e
    using that j new [of e] placedD [OF pl, of i e] mono
    by (cases "i = j") (auto simp: nth_list_update)
  moreover have "i = i'"
    if "i < length t" "i' < length t" "snd (t[j := c] ! i) = Entry e" "snd (t[j := c] ! i') = Entry e'"
      "key e = key e'" for i i' e e'
    using that new placed_inj [OF pl, of i e i' e'] j
    by (cases "i = j"; cases "i' = j") (simp_all add: upd_at, metis+)
  ultimately show ?thesis
    using pl unfolding placed_def by simp
qed

lemma slots_map_store:
  assumes pl: "placed key t" and pl': "placed key (t[j := (hv, Entry e)])" and j: "j < length t"
    and old: "\<And>e'. snd (t ! j) \<noteq> Entry e'"
  shows "slots_map key (t[j := (hv, Entry e)]) = (slots_map key t)(key e \<mapsto> e)"
proof (rule map_Some_ext)
  fix k e'
  have fresh: "key a \<noteq> key e" if "i < length t" "snd (t ! i) = Entry a" for i a
    using placed_inj [OF pl', of i a j e] that j old
    by (cases "i = j") (auto simp: nth_list_update)
  show "slots_map key (t[j := (hv, Entry e)]) k = Some e' \<longleftrightarrow>
        ((slots_map key t)(key e \<mapsto> e)) k = Some e'"
    unfolding fun_upd_apply using fresh j old
    by (simp add: slots_map_iff [OF pl] slots_map_iff [OF pl'] upd_at) metis
qed

lemma slots_map_tomb:
  assumes pl: "placed key t" and pl': "placed key (t[j := (hv, Deleted)])" and j: "j < length t"
    and old: "snd (t ! j) = Entry e"
  shows "slots_map key (t[j := (hv, Deleted)]) = (slots_map key t)(key e := None)"
proof (rule map_Some_ext)
  fix k e'
  have at: "snd (t[j := (hv, Deleted)] ! i) = Entry e' \<longleftrightarrow> i \<noteq> j \<and> snd (t ! i) = Entry e'"
    if "i < length t" for i
    using that j by (simp add: upd_at)
  have other: "key e' \<noteq> key e \<longleftrightarrow> i \<noteq> j" if "i < length t" "snd (t ! i) = Entry e'" for i
    using placed_inj [OF pl, of i e' j e] that j old by auto
  show "slots_map key (t[j := (hv, Deleted)]) k = Some e' \<longleftrightarrow>
        ((slots_map key t)(key e := None)) k = Some e'"
    unfolding fun_upd_apply using at other
    by (simp add: slots_map_iff [OF pl] slots_map_iff [OF pl']) blast
qed

lemma entries_mark: "j < length t \<Longrightarrow> entries (t[j := (hv, snd (t ! j))]) = entries t"
proof (induction t arbitrary: j)
  case (Cons c t)
  then show ?case by (cases j) (auto simp: entries_def)
qed (simp add: entries_def)

lemma slots_map_mark: "j < length t \<Longrightarrow> slots_map key (t[j := (hv, snd (t ! j))]) = slots_map key t"
  by (simp add: slots_map_def entries_mark)


subsection \<open>Lookup by comparing memory\<close>

text \<open>
  If no key in the table is a longer key continuing the searched one, comparing \<open>size\<close> bytes
  finds the same slot as comparing whole keys, as long as no comparison leaves a shorter key;
  and none does if no entry with the same hash value has a shorter key.
\<close>

definition prefix_free :: "('e \<Rightarrow> string) \<Rightarrow> 'e ohash \<Rightarrow> string \<Rightarrow> bool" where
  "prefix_free key h k \<longleftrightarrow>
     (\<forall>i < length (htab h). \<forall>e. cell_at h i = Entry e \<longrightarrow> take (length k) (key e) = k \<longrightarrow> key e = k)"

definition long_keys :: "('e \<Rightarrow> string) \<Rightarrow> 'e ohash \<Rightarrow> 32 word \<Rightarrow> nat \<Rightarrow> bool" where
  "long_keys key h hv sz \<longleftrightarrow>
     (\<forall>i < length (htab h). \<forall>e. cell_at h i = Entry e \<longrightarrow> fst (htab h ! i) = hv \<longrightarrow> sz \<le> length (key e))"

lemma memcmp_eq_same [simp]: "memcmp_eq k k (length k) = Some True"
  by (simp add: memcmp_eq_def)

lemma memcmp_eq_whole:
  assumes "prefix_free key h k" "i < length (htab h)" "cell_at h i = Entry e"
  shows "memcmp_eq (key e) k (length k) \<in> {None, Some (key e = k)}"
  using assms by (auto simp: prefix_free_def memcmp_eq_def)

lemma probe_mem_probe:
  assumes "prefix_free key h k"
  shows "probe_mem fuel key h k (length k) hv incr i emp \<in> {None, probe fuel key h k hv incr i emp}"
proof (induction fuel arbitrary: i emp)
  case (Suc fuel)
  show ?case
  proof (cases "i < length (htab h) \<and> is_Entry (cell_at h i)")
    case True
    then obtain e where e: "cell_at h i = Entry e" by (cases "cell_at h i") auto
    show ?thesis
      using memcmp_eq_whole [OF assms _ e] True Suc.IH [of "probe_next (hsize h) incr i" emp]
      by (auto simp: e)
  next
    case False
    then show ?thesis
      using Suc.IH [of "probe_next (hsize h) incr i" "if emp = hsize h then i else emp"]
      by (auto split: cell.splits simp: Let_def)
  qed
qed simp

lemma probe_mem_total:
  assumes "prefix_free key h k" "long_keys key h hv (length k)"
  shows "probe_mem fuel key h k (length k) hv incr i emp = probe fuel key h k hv incr i emp"
proof (induction fuel arbitrary: i emp)
  case (Suc fuel)
  show ?case
  proof (cases "i < length (htab h) \<and> is_Entry (cell_at h i)")
    case True
    then obtain e where e: "cell_at h i = Entry e" by (cases "cell_at h i") auto
    have "fst (htab h ! i) = hv \<Longrightarrow> memcmp_eq (key e) k (length k) = Some (key e = k)"
      using assms True e by (auto simp: prefix_free_def long_keys_def memcmp_eq_def)
    then show ?thesis using True Suc.IH by (simp add: e)
  next
    case False
    then show ?thesis using Suc.IH by (auto split: cell.splits simp: Let_def)
  qed
qed simp

lemma lookup_memory_qlookup:
  assumes "prefix_free key h k"
  shows "ohash_lookup_memory key h k (length k) (ohash_interval k) \<in> {None, ohash_qlookup key h k}"
  unfolding ohash_lookup_memory_def ohash_qlookup_def ohash_lookup_interval_def
  by (rule probe_mem_probe [OF assms])

lemma lookup_memory_total:
  assumes "prefix_free key h k" "long_keys key h (ohash_interval k) (length k)"
  shows "ohash_lookup_memory key h k (length k) (ohash_interval k) = ohash_qlookup key h k"
  unfolding ohash_lookup_memory_def ohash_qlookup_def ohash_lookup_interval_def
  by (rule probe_mem_total [OF assms])

subsection \<open>Lookup finds the key or the slot where it belongs\<close>

text \<open>
  What a lookup of \<open>s\<close> promises about the slot \<open>j\<close> it returns: it is on the probe
  sequence of \<open>s\<close>, carries its hash value, and holds the entry with that key, if there is
  one, and otherwise no entry.
\<close>

definition slot_for :: "('e \<Rightarrow> string) \<Rightarrow> 'e ohash \<Rightarrow> string \<Rightarrow> nat \<Rightarrow> bool" where
  "slot_for key h s j \<longleftrightarrow>
     j < length (htab h) \<and> fst (htab h ! j) = ohash_interval s \<and>
     reach (htab h) (ohash_interval s) j \<and> ohash_find h j = Some (ohash_map key h s)"

definition looked_up :: "('e \<Rightarrow> string) \<Rightarrow> 'e ohash \<Rightarrow> string \<Rightarrow> 'e ohash \<Rightarrow> nat \<Rightarrow> bool" where
  "looked_up key h s h' j \<longleftrightarrow>
     ohash_ok key h' \<and> ohash_map key h' = ohash_map key h \<and> slot_for key h' s j \<and>
     hsize h' = hsize h \<and> htotal h' = htotal h \<and> hdeleted h' = hdeleted h"

lemma reachI:
  "\<forall>m' < m. \<not> is_Null (snd (t ! probe_pos hv (length t) m')) \<Longrightarrow> reach t hv (probe_pos hv (length t) m)"
  unfolding reach_def by blast

lemma ok_used_less: "ohash_ok key h \<Longrightarrow> used (htab h) < length (htab h)"
  using placed_ge [of key "htab h"] by (simp add: ohash_ok_def)

lemma ohash_find_Some:
  "j < length (htab h) \<Longrightarrow> ohash_find h j = Some (Some e) \<longleftrightarrow> cell_at h j = Entry e"
  by (auto simp: ohash_find_def split: cell.splits)

lemma ohash_find_None:
  "j < length (htab h) \<Longrightarrow> ohash_find h j = Some None \<longleftrightarrow> \<not> is_Entry (cell_at h j)"
  by (auto simp: ohash_find_def split: cell.splits)

lemma looked_up_here:
  assumes ok: "ohash_ok key h" and j: "j < length (htab h)" "cell_at h j = Entry e" "key e = s"
  shows "looked_up key h s h j"
proof -
  have pl: "placed key (htab h)" using ok by (simp add: ohash_ok_def)
  have "ohash_map key h s = Some e"
    using j by (auto simp: ohash_map_def slots_map_iff [OF pl] cell_at_def)
  then show ?thesis
    using ok j placedD [OF pl, of j e]
    by (simp add: looked_up_def slot_for_def ohash_find_Some cell_at_def)
qed

lemma looked_up_free:
  assumes ok: "ohash_ok key h" and j: "j < length (htab h)" "\<not> is_Entry (cell_at h j)"
    "reach (htab h) (ohash_interval s) j"
    and none: "ohash_map key h s = None"
  shows "looked_up key h s
    (h\<lparr>htab := (htab h)[j := (ohash_interval s, cell_at h j)]\<rparr>) j"
    (is "looked_up key h s ?h j")
proof -
  have pl: "placed key (htab h)" using ok by (simp add: ohash_ok_def)
  have pl': "placed key (htab ?h)"
    using j by (simp, intro placed_update [OF pl]) (auto simp: cell_at_def)
  have same: "ohash_map key ?h = ohash_map key h"
    using j slots_map_mark [of j "htab h"] by (simp add: ohash_map_def cell_at_def)
  have cnt: "used (htab ?h) = used (htab h)" "tombs (htab ?h) = tombs (htab h)"
    using used_update [of j "htab h" "(ohash_interval s, cell_at h j)"]
      tombs_update [of j "htab h" "(ohash_interval s, cell_at h j)"] j
    by (simp_all add: cell_at_def split: if_splits)
  have "reach (htab ?h) (ohash_interval s) j"
    by (rule reach_mono [OF j(3)]) (use placed_ge [OF pl] j in \<open>auto simp: upd_at cell_at_def\<close>)
  then show ?thesis
    using ok j pl' same none cnt
    by (simp add: looked_up_def slot_for_def ohash_find_None ohash_ok_def) (simp add: cell_at_def)
qed

lemma looked_up_moved:
  assumes ok: "ohash_ok key h" and i: "i < length (htab h)" "cell_at h i = Entry e" "key e = s"
    and j: "j < length (htab h)" "cell_at h j = Deleted" "reach (htab h) (ohash_interval s) j"
  shows "looked_up key h s
    (h\<lparr>htab := (htab h)[j := (ohash_interval s, Entry e), i := (hv, Deleted)]\<rparr>) j"
    (is "looked_up key h s ?h j")
proof -
  let ?t = "htab h" and ?t1 = "(htab h)[i := (hv, Deleted)]"
  have ij: "i \<noteq> j" using i j by auto
  have swap: "htab ?h = ?t1[j := (ohash_interval s, Entry e)]"
    using ij by (simp add: list_update_swap)
  have pl: "placed key ?t" using ok by (simp add: ohash_ok_def)
  have pl1: "placed key ?t1"
    by (rule placed_update [OF pl]) (use i in \<open>auto simp: cell_at_def\<close>)
  have r1: "reach ?t1 (ohash_interval s) j"
    by (rule reach_mono [OF j(3)]) (use placed_ge [OF pl] i in \<open>auto simp: upd_at cell_at_def\<close>)
  have uniq: "key a \<noteq> key e" if "k < length ?t" "k \<noteq> i" "snd (?t ! k) = Entry a" for k a
    using placed_inj [OF pl that(1) that(3) i(1)] i(2) that(2) by (auto simp: cell_at_def)
  have pl': "placed key (htab ?h)"
    unfolding swap
  proof (rule placed_update [OF pl1])
    fix e' assume "snd (ohash_interval s, Entry e) = Entry e'"
    then show "fst (ohash_interval s, Entry e) = ohash_interval (key e') \<and>
        reach ?t1 (fst (ohash_interval s, Entry e)) j \<and>
        (\<forall>ia < length ?t1. \<forall>e''. ia \<noteq> j \<longrightarrow> snd (?t1 ! ia) = Entry e'' \<longrightarrow> key e'' \<noteq> key e')"
      using r1 i(1,3) uniq by (auto simp: upd_at)
  qed (use j in auto)
  have "slots_map key (htab ?h) = (slots_map key ?t1)(key e \<mapsto> e)"
    unfolding swap by (rule slots_map_store [OF pl1 pl' [unfolded swap]])
      (use i j ij in \<open>auto simp: upd_at cell_at_def\<close>)
  also have "slots_map key ?t1 = (slots_map key ?t)(key e := None)"
    by (rule slots_map_tomb [OF pl pl1]) (use i in \<open>auto simp: cell_at_def\<close>)
  finally have upd: "ohash_map key ?h = (ohash_map key h)(s \<mapsto> e)"
    using i by (simp add: ohash_map_def fun_eq_iff)
  have old: "ohash_map key h s = Some e"
    using i by (auto simp: ohash_map_def slots_map_iff [OF pl] cell_at_def)
  have same: "ohash_map key ?h = ohash_map key h"
    using upd old by (auto simp: fun_eq_iff)
  have cnt: "used (htab ?h) = used ?t" "tombs (htab ?h) = tombs ?t"
    unfolding swap
    using used_update [of i ?t "(hv, Deleted)"] tombs_update [of i ?t "(hv, Deleted)"]
      used_update [of j ?t1 "(ohash_interval s, Entry e)"]
      tombs_update [of j ?t1 "(ohash_interval s, Entry e)"] i j ij
    by (simp_all add: cell_at_def)
  have "reach (htab ?h) (ohash_interval s) j"
    unfolding swap
    by (rule reach_mono [OF r1]) (use placed_ge [OF pl] j in \<open>auto simp: upd_at\<close>)
  then show ?thesis
    using ok j i ij pl' same old cnt
    by (simp add: looked_up_def slot_for_def ohash_find_Some ohash_ok_def) (simp add: cell_at_def)
qed


lemma no_entry_before_Null:
  assumes pl: "placed key t" and M: "is_Null (snd (t ! probe_pos (ohash_interval s) (length t) M))"
    and none: "\<And>m e. m < M \<Longrightarrow> snd (t ! probe_pos (ohash_interval s) (length t) m) = Entry e \<Longrightarrow> key e \<noteq> s"
  shows "slots_map key t s = None"
  unfolding slots_map_None
proof (intro allI impI notI)
  fix j e assume j: "j < length t" "snd (t ! j) = Entry e" "key e = s"
  then obtain m where m: "j = probe_pos (ohash_interval s) (length t) m"
    "\<forall>m' < m. \<not> is_Null (snd (t ! probe_pos (ohash_interval s) (length t) m'))"
    using placedD(2) [OF pl] unfolding reach_def by blast
  then have "m \<le> M" using M by (meson not_le)
  moreover have "m \<noteq> M" using m M j by auto
  ultimately show False using none [of m e] m j by auto
qed

lemma probe_looked_up:
  fixes s :: string and h :: "'e ohash"
  defines "hv \<equiv> ohash_interval s" and "n \<equiv> length (htab h)"
  assumes ok: "ohash_ok key h"
    and M: "is_Null (cell_at h (probe_pos hv n M))" "\<And>m. m < M \<Longrightarrow> \<not> is_Null (cell_at h (probe_pos hv n m))"
    and m: "m \<le> M" "M - m < fuel"
    and none: "\<And>k e. k < m \<Longrightarrow> cell_at h (probe_pos hv n k) = Entry e \<Longrightarrow> key e \<noteq> s"
    and emp: "emp = hsize h \<or> emp < n \<and> cell_at h emp = Deleted \<and> reach (htab h) hv emp"
  shows "\<exists>h' j. probe fuel key h s hv (hash_incr hv n) (probe_pos hv n m) emp = Some (h', j) \<and>
     looked_up key h s h' j"
  using m none emp
proof (induction fuel arbitrary: m emp)
  case 0
  then show ?case by simp
next
  case (Suc fuel)
  have pl: "placed key (htab h)" and sz: "hsize h = n" using ok by (simp_all add: ohash_ok_def n_def)
  have n16: "16 \<le> n" using placed_ge [OF pl] by (simp add: n_def)
  let ?i = "probe_pos hv n m"
  have i: "?i < n" using n16 by (rule probe_pos_less)
  have reach_i: "reach (htab h) hv ?i"
    unfolding n_def by (rule reachI) (use M Suc.prems in \<open>auto simp: cell_at_def n_def\<close>)
  have next_i: "probe_next (hsize h) (hash_incr hv n) ?i = probe_pos hv n (Suc m)"
    using probe_next_pos [OF n16] by (simp add: sz)
  show ?case
  proof (cases "cell_at h ?i")
    case Null
    then have "m = M" using M Suc.prems by (metis cell.disc(1) le_neq_implies_less)
    with Null Suc.prems have none_s: "ohash_map key h s = None"
      unfolding ohash_map_def
      by (intro no_entry_before_Null [OF pl, of s M]) (auto simp: cell_at_def hv_def n_def)
    show ?thesis
    proof (cases "emp = hsize h")
      case True
      then show ?thesis
        using Null i sz looked_up_free [OF ok, of ?i s] reach_i none_s by (auto simp: n_def hv_def Let_def)
    next
      case False
      then show ?thesis
        using Null i sz looked_up_free [OF ok, of emp s] Suc.prems none_s by (auto simp: n_def hv_def Let_def)
    qed
  next
    case Deleted
    then have "m < M" using M Suc.prems by (metis cell.disc(2) le_neq_implies_less)
    moreover have "k < Suc m \<Longrightarrow> cell_at h (probe_pos hv n k) = Entry e \<Longrightarrow> key e \<noteq> s" for k e
      using Suc.prems Deleted by (auto simp: less_Suc_eq)
    ultimately show ?thesis
      using Suc.IH [of "Suc m" "if emp = hsize h then ?i else emp"] Suc.prems Deleted i next_i reach_i
      by (auto simp: n_def)
  next
    case (Entry e)
    show ?thesis
    proof (cases "fst (htab h ! ?i) = hv \<and> key e = s")
      case True
      then show ?thesis
        using looked_up_here [OF ok _ Entry, of s]
          looked_up_moved [OF ok _ Entry, of s emp "fst (htab h ! ?i)"] Suc.prems Entry i sz
        by (auto simp: n_def hv_def)
    next
      case False
      then have "key e \<noteq> s"
        using placedD(1) [OF pl, of ?i e] Entry i by (auto simp: n_def hv_def cell_at_def)
      then have "k < Suc m \<Longrightarrow> cell_at h (probe_pos hv n k) = Entry e' \<Longrightarrow> key e' \<noteq> s" for k e'
        using Suc.prems Entry by (auto simp: less_Suc_eq)
      moreover have "m < M" using M Suc.prems Entry by (metis cell.disc(3) le_neq_implies_less)
      ultimately show ?thesis
        using Suc.IH [of "Suc m" emp] Suc.prems Entry i next_i False by (auto simp: n_def)
    qed
  qed
qed

lemma first_Null:
  assumes "table_size (length t)" "used t < length t"
  obtains M where "M < length t" "is_Null (snd (t ! probe_pos hv (length t) M))"
    "\<And>m. m < M \<Longrightarrow> \<not> is_Null (snd (t ! probe_pos hv (length t) m))"
proof -
  obtain i where "i < length t" "is_Null (snd (t ! i))" using used_less_Null [OF assms(2)] by blast
  then obtain k where k: "k < length t" "is_Null (snd (t ! probe_pos hv (length t) k))"
    using probe_pos_surj [OF assms(1)] by metis
  let ?P = "\<lambda>m. is_Null (snd (t ! probe_pos hv (length t) m))"
  have "?P (LEAST m. ?P m)" "(LEAST m. ?P m) \<le> k" "\<And>m. m < (LEAST m. ?P m) \<Longrightarrow> \<not> ?P m"
    using LeastI [of ?P, OF k(2)] Least_le [of ?P, OF k(2)] not_less_Least [of _ ?P] by blast+
  with k(1) that show thesis by (meson le_less_trans)
qed

lemma ohash_qlookup_ok:
  assumes ok: "ohash_ok key h"
  shows "\<exists>h' j. ohash_qlookup key h s = Some (h', j) \<and> looked_up key h s h' j"
proof -
  let ?hv = "ohash_interval s" and ?n = "length (htab h)"
  have ts: "table_size ?n" "hsize h = ?n" using ok by (simp_all add: ohash_ok_def placed_def)
  obtain M where "M < ?n" "is_Null (cell_at h (probe_pos ?hv ?n M))"
    "\<And>m. m < M \<Longrightarrow> \<not> is_Null (cell_at h (probe_pos ?hv ?n m))"
    using first_Null [OF ts(1) ok_used_less [OF ok], of ?hv] unfolding cell_at_def by metis
  then show ?thesis
    using probe_looked_up [OF ok, of s M 0 ?n "hsize h"]
    by (simp add: ohash_qlookup_def ohash_lookup_interval_def ts(2) probe_pos_0)
qed


subsection \<open>Resizing keeps the contents\<close>

lemma free_slot_ok:
  assumes "\<And>m. m < M \<Longrightarrow> \<not> is_Null (snd (t ! probe_pos hv (length t) m))"
    "is_Null (snd (t ! probe_pos hv (length t) M))" "16 \<le> length t" "m \<le> M" "M - m < fuel"
  shows "free_slot fuel t (hash_incr hv (length t)) (probe_pos hv (length t) m) = Some (probe_pos hv (length t) M)"
  using assms(4,5)
proof (induction fuel arbitrary: m)
  case (Suc fuel)
  have i: "probe_pos hv (length t) m < length t" using assms(3) by (rule probe_pos_less)
  show ?case
  proof (cases "m = M")
    case True
    then show ?thesis using assms(2) i by simp
  next
    case False
    then have "m < M" using Suc.prems by simp
    then show ?thesis
      using Suc.IH [of "Suc m"] Suc.prems assms(1) i probe_next_pos [OF assms(3)] by simp
  qed
qed simp

lemma free_slot_Some:
  assumes "table_size (length t)" "used t < length t"
  obtains j where "free_slot (length t) t (hash_incr hv (length t)) (hash_start hv (length t)) = Some j"
    "j < length t" "is_Null (snd (t ! j))" "reach t hv j"
proof -
  have n16: "16 \<le> length t" using assms(1) by (rule table_size_ge)
  obtain M where M: "M < length t" "is_Null (snd (t ! probe_pos hv (length t) M))"
    "\<And>m. m < M \<Longrightarrow> \<not> is_Null (snd (t ! probe_pos hv (length t) m))"
    using first_Null [OF assms] by metis
  show thesis
  proof (rule that)
    show "free_slot (length t) t (hash_incr hv (length t)) (hash_start hv (length t)) =
        Some (probe_pos hv (length t) M)"
      using free_slot_ok [OF M(3,2) n16, where m = 0 and fuel = "length t"] M(1) by (simp add: probe_pos_0)
    show "probe_pos hv (length t) M < length t" using n16 by (rule probe_pos_less)
    show "is_Null (snd (t ! probe_pos hv (length t) M))" by (rule M(2))
    show "reach t hv (probe_pos hv (length t) M)" by (rule reachI) (use M in blast)
  qed
qed

text \<open>The entries of the old array that are still to be moved all have new keys.\<close>

lemma rehash_ok:
  assumes "placed key n" "tombs n = 0" "used n + length (entries t) < length n"
    "\<forall>c \<in> set t. \<forall>e. snd c = Entry e \<longrightarrow> fst c = ohash_interval (key e)"
    "distinct (map key (entries t))" "\<forall>e \<in> set (entries t). slots_map key n (key e) = None"
  shows "\<exists>n'. rehash t n = Some n' \<and> placed key n' \<and> length n' = length n \<and> tombs n' = 0 \<and>
     used n' = used n + length (entries t) \<and>
     slots_map key n' = (slots_map key n) ++ map_of (map (\<lambda>e. (key e, e)) (rev (entries t)))"
  using assms
proof (induction t arbitrary: n)
  case Nil
  then show ?case by (simp add: entries_def)
next
  case (Cons c t)
  obtain hv x where c: "c = (hv, x)" by (cases c)
  show ?case
  proof (cases x)
    case (Entry e)
    have ent: "entries (c # t) = e # entries t" by (simp add: entries_def c Entry)
    have hv: "hv = ohash_interval (key e)" using Cons.prems(4) c Entry by simp
    have ts: "table_size (length n)" using Cons.prems(1) by (simp add: placed_def)
    have "used n < length n" using Cons.prems(3) by simp
    then obtain j where j: "free_slot (length n) n (hash_incr hv (length n)) (hash_start hv (length n)) = Some j"
      "j < length n" "is_Null (snd (n ! j))" "reach n hv j"
      using free_slot_Some [OF ts] by metis
    let ?n = "n[j := (hv, Entry e)]"
    have fresh: "slots_map key n (key e) = None" using Cons.prems(6) ent by simp
    have pl: "placed key ?n"
      by (rule placed_update [OF Cons.prems(1)])
         (use j hv fresh in \<open>auto simp: slots_map_None\<close>)
    have mp: "slots_map key ?n = (slots_map key n)(key e \<mapsto> e)"
      using slots_map_store [OF Cons.prems(1) pl j(2)] j(3) by (metis cell.disc(3) cell.distinct(3) is_Null_def)
    have cnt: "tombs ?n = 0" "used ?n = Suc (used n)"
      using used_update [OF j(2), of "(hv, Entry e)"] tombs_update [OF j(2), of "(hv, Entry e)"]
        j(3) Cons.prems(2) by auto
    have ne: "key a \<noteq> key e" if "a \<in> set (entries t)" for a
      using Cons.prems(5) ent that by (metis distinct.simps(2) image_eqI list.set_map list.simps(9))
    have "\<exists>n'. rehash t ?n = Some n' \<and> placed key n' \<and> length n' = length ?n \<and> tombs n' = 0 \<and>
       used n' = used ?n + length (entries t) \<and>
       slots_map key n' = (slots_map key ?n) ++ map_of (map (\<lambda>e. (key e, e)) (rev (entries t)))"
      by (rule Cons.IH) (use pl cnt mp ent ne Cons.prems in auto)
    then show ?thesis
      using j(1) c Entry ent mp cnt by (auto simp: map_of_append)
  qed (use Cons c in \<open>auto simp: entries_def\<close>)
qed


lemma distinct_entries:
  assumes "\<forall>i < length t. \<forall>j < length t. \<forall>e e'.
     snd (t ! i) = Entry e \<longrightarrow> snd (t ! j) = Entry e' \<longrightarrow> key e = key e' \<longrightarrow> i = j"
  shows "distinct (map key (entries t))"
  using assms
proof (induction t)
  case Nil
  then show ?case by (simp add: entries_def)
next
  case (Cons c t)
  have inj: "i = j" if "i < Suc (length t)" "j < Suc (length t)" "snd ((c # t) ! i) = Entry e"
    "snd ((c # t) ! j) = Entry e'" "key e = key e'" for i j e e'
    using Cons.prems that by (metis length_Cons)
  have "distinct (map key (entries t))"
    using inj [of "Suc _" "Suc _"] by (intro Cons.IH) fastforce
  moreover have "key a \<noteq> key e" if "snd c = Entry e" "a \<in> set (entries t)" for a e
    using that inj [of 0 "Suc _" e a] by (auto simp: entries_iff)
  ultimately show ?case
    using entries_Cons [of c t] by (cases "snd c") (simp, simp, simp, metis imageE)
qed

lemma placed_distinct: "placed key t \<Longrightarrow> distinct (map key (entries t))"
  by (rule distinct_entries) (auto simp: placed_def)

lemma placed_empty: "table_size n \<Longrightarrow> placed key (replicate n (0, Null))"
  by (simp add: placed_def)

lemma slots_map_empty: "slots_map key (replicate n (0, Null)) = Map.empty"
  by (simp add: slots_map_def entries_def)

lemma counts_empty: "used (replicate n (0, Null)) = 0" "tombs (replicate n (0, Null)) = 0"
  by (simp_all add: used_def tombs_def filter_replicate)

lemma table_size_double: "table_size n \<Longrightarrow> table_size (2 * n)"
  unfolding table_size_def by (metis le_SucI power_Suc)

lemma table_size_half: "table_size n \<Longrightarrow> table_size (max 16 (n div 2))"
proof -
  assume "table_size n"
  then obtain k where k: "4 \<le> k" "n = 2 ^ k" by (auto simp: table_size_def)
  show ?thesis
  proof (cases "k = 4")
    case True
    then show ?thesis using k by (auto simp: table_size_def intro!: exI [of _ 4])
  next
    case False
    then obtain m where m: "k = Suc m" "4 \<le> m" using k by (cases k) auto
    then have "(16::nat) \<le> 2 ^ m" using power_increasing [of 4 m "2::nat"] by simp
    with m k show ?thesis by (auto simp: table_size_def max_def)
  qed
qed

lemma resize_size_ok:
  assumes "table_size (hsize h)" "hsize h < 2 ^ 30" "4 * htotal h \<le> 3 * hsize h + 4"
    "hdeleted h \<le> htotal h"
  shows "table_size (resize_size h)" "4 * (htotal h - hdeleted h) \<le> 3 * resize_size h"
    "resize_size h \<le> 2 * hsize h"
proof -
  have n16: "16 \<le> hsize h" using assms(1) by (rule table_size_ge)
  have small: "\<not> UINT_MAX div 2 \<le> hsize h" using assms(2) by (simp add: UINT_MAX_def)
  show "table_size (resize_size h)"
    using assms(1) small n16 table_size_double [OF assms(1)] table_size_half [OF assms(1)]
    by (auto simp: resize_size_def MINSIZE_def max_def)
  show "4 * (htotal h - hdeleted h) \<le> 3 * resize_size h" "resize_size h \<le> 2 * hsize h"
    using assms(3,4) small n16 by (auto simp: resize_size_def MINSIZE_def)
qed

lemma map_of_rev_distinct: "distinct (map fst xs) \<Longrightarrow> map_of (rev xs) = map_of xs"
  by (subst map_of_inject_set) (simp_all add: rev_map [symmetric])

lemma ohash_resize_ok:
  assumes pl: "placed key (htab h)" and sz: "hsize h = length (htab h)" "hsize h < 2 ^ 30"
    and cnt: "htotal h = used (htab h)" "hdeleted h = tombs (htab h)" "4 * htotal h \<le> 3 * hsize h + 4"
  shows "\<exists>h'. ohash_resize h = Some h' \<and> ohash_ok key h' \<and> ohash_map key h' = ohash_map key h \<and>
    hsize h' \<le> 2 * hsize h \<and> htotal h' = htotal h - hdeleted h"
proof -
  let ?t = "htab h" and ?ns = "resize_size h"
  have ts: "table_size (hsize h)" using pl sz by (simp add: placed_def)
  have del: "hdeleted h \<le> htotal h" using length_entries [of ?t] cnt by simp
  have len: "length (entries ?t) = htotal h - hdeleted h" using length_entries [of ?t] cnt by simp
  note rs = resize_size_ok [OF ts sz(2) cnt(3) del]
  have "16 \<le> ?ns" using rs(1) by (rule table_size_ge)
  have vals: "\<forall>c \<in> set ?t. \<forall>e. snd c = Entry e \<longrightarrow> fst c = ohash_interval (key e)"
    using placedD(1) [OF pl] by (metis in_set_conv_nth)
  obtain n' where n': "rehash ?t (replicate ?ns (0, Null)) = Some n'" "placed key n'"
    "length n' = ?ns" "tombs n' = 0" "used n' = length (entries ?t)"
    "slots_map key n' = map_of (map (\<lambda>e. (key e, e)) (rev (entries ?t)))"
    using rehash_ok [of key "replicate ?ns (0, Null)" ?t] rs len placed_distinct [OF pl] vals \<open>16 \<le> ?ns\<close>
    by (auto simp: placed_empty slots_map_empty counts_empty)
  have "slots_map key n' = slots_map key ?t"
    using map_of_rev_distinct [of "map (\<lambda>e. (key e, e)) (entries ?t)"] placed_distinct [OF pl] n'(6)
    by (simp add: slots_map_def rev_map o_def)
  then show ?thesis
    using n' rs len by (simp add: ohash_resize_def ohash_ok_def ohash_map_def)
qed


subsection \<open>Initialisation, insertion and removal\<close>

lemma ohash_init_ok:
  "ohash_ok key (ohash_init sz)" "ohash_map key (ohash_init sz) = Map.empty"
proof -
  have "table_size (max MINSIZE (2 ^ sz))"
  proof (cases "4 \<le> sz")
    case True
    then have "(16::nat) \<le> 2 ^ sz" using power_increasing [of 4 sz "2::nat"] by simp
    with True show ?thesis by (auto simp: table_size_def MINSIZE_def max_def)
  next
    case False
    then have "(2::nat) ^ sz \<le> 16" using power_increasing [of sz 4 "2::nat"] by simp
    then have "max MINSIZE (2 ^ sz) = 2 ^ 4" by (simp add: MINSIZE_def max_def)
    then show ?thesis unfolding table_size_def by blast
  qed
  then show "ohash_ok key (ohash_init sz)"
    by (simp add: ohash_init_def Let_def ohash_ok_def placed_empty counts_empty)
  show "ohash_map key (ohash_init sz) = Map.empty"
    by (simp add: ohash_init_def Let_def ohash_map_def slots_map_empty)
qed

lemma ohash_insert_ok:
  assumes ok: "ohash_ok key h" and slot: "slot_for key h (key e) j"
    and free: "ohash_map key h (key e) = None" and small: "hsize h < 2 ^ 30"
  shows "\<exists>h'. ohash_insert h j e = Some h' \<and> ohash_ok key h' \<and>
    ohash_map key h' = (ohash_map key h)(key e \<mapsto> e) \<and>
    htotal h' \<le> Suc (htotal h) \<and> hsize h' \<le> max (hsize h) (3 * Suc (htotal h))"
proof -
  let ?t = "htab h" and ?t' = "(htab h)[j := (fst (htab h ! j), Entry e)]"
  have pl: "placed key ?t" and inv: "hsize h = length ?t" "htotal h = used ?t"
    "hdeleted h = tombs ?t" "4 * htotal h \<le> 3 * hsize h" using ok by (simp_all add: ohash_ok_def)
  have j: "j < length ?t" "fst (?t ! j) = ohash_interval (key e)" "reach ?t (ohash_interval (key e)) j"
    "\<not> is_Entry (cell_at h j)"
    using slot free by (auto simp: slot_for_def ohash_find_None)
  have pl': "placed key ?t'"
    by (rule placed_update [OF pl])
       (use j free in \<open>auto simp: ohash_map_def slots_map_None\<close>)
  have mp: "slots_map key ?t' = (slots_map key ?t)(key e \<mapsto> e)"
    by (rule slots_map_store [OF pl pl' j(1)]) (use j in \<open>auto simp: cell_at_def\<close>)
  note cnt = used_update [OF j(1), of "(fst (?t ! j), Entry e)"]
    tombs_update [OF j(1), of "(fst (?t ! j), Entry e)"]
  show ?thesis
  proof (cases "cell_at h j")
    case Deleted
    then show ?thesis
      using j pl' mp inv cnt
      by (simp add: ohash_insert_def ohash_ok_def ohash_map_def set_cell_def) (simp add: cell_at_def)
  next
    case Null
    let ?h = "(set_cell h j (Entry e))\<lparr>htotal := Suc (htotal h)\<rparr>"
    have c: "used ?t' = Suc (used ?t)" "tombs ?t' = tombs ?t"
      using Null cnt by (simp_all add: cell_at_def)
    show ?thesis
    proof (cases "htotal ?h * 4 > hsize ?h * 3")
      case True
      then show ?thesis
        using ohash_resize_ok [of key ?h] Null j pl' mp inv c small
        by (auto simp: ohash_insert_def ohash_map_def set_cell_def)
    next
      case False
      then show ?thesis
        using Null j pl' mp inv c
        by (auto simp: ohash_insert_def ohash_map_def set_cell_def ohash_ok_def)
    qed
  qed (use j in auto)
qed

lemma ohash_remove_ok:
  assumes ok: "ohash_ok key h" and j: "j < length (htab h)" "ohash_find h j = Some (Some e)"
    and small: "hsize h < 2 ^ 30"
  shows "\<exists>h'. ohash_remove h j = Some (h', Some e) \<and> ohash_ok key h' \<and>
    ohash_map key h' = (ohash_map key h)(key e := None)"
proof -
  let ?t = "htab h" and ?t' = "(htab h)[j := (fst (htab h ! j), Deleted)]"
  have pl: "placed key ?t" and inv: "hsize h = length ?t" "htotal h = used ?t"
    "hdeleted h = tombs ?t" "4 * htotal h \<le> 3 * hsize h" using ok by (simp_all add: ohash_ok_def)
  have cell: "cell_at h j = Entry e" using j by (simp add: ohash_find_Some)
  have pl': "placed key ?t'"
    by (rule placed_update [OF pl]) (use j in auto)
  have mp: "slots_map key ?t' = (slots_map key ?t)(key e := None)"
    by (rule slots_map_tomb [OF pl pl' j(1)]) (use cell in \<open>auto simp: cell_at_def\<close>)
  have c: "used ?t' = used ?t" "tombs ?t' = Suc (tombs ?t)"
    using used_update [OF j(1), of "(fst (?t ! j), Deleted)"] cell
      tombs_update [OF j(1), of "(fst (?t ! j), Deleted)"] by (simp_all add: cell_at_def)
  let ?h = "(set_cell h j Deleted)\<lparr>hdeleted := Suc (hdeleted h)\<rparr>"
  have rs: "\<exists>h'. ohash_resize ?h = Some h' \<and> ohash_ok key h' \<and> ohash_map key h' = ohash_map key ?h \<and>
    hsize h' \<le> 2 * hsize ?h \<and> htotal h' = htotal ?h - hdeleted ?h"
    by (rule ohash_resize_ok) (use pl' inv c small in \<open>auto simp: set_cell_def\<close>)
  have mph: "ohash_map key ?h = (ohash_map key h)(key e := None)"
    using mp by (simp add: ohash_map_def set_cell_def)
  have okh: "ohash_ok key ?h" using pl' inv c by (simp add: ohash_ok_def set_cell_def)
  show ?thesis
    unfolding ohash_remove_def using j cell rs mph okh by (auto simp: Let_def simp del: fun_upd_apply)
qed

text \<open>Iterating with \<open>ohash_first\<close> and \<open>ohash_next\<close> visits every entry once, in slot order.\<close>

fun ohash_iter :: "nat \<Rightarrow> 'e ohash \<Rightarrow> nat \<Rightarrow> 'e list" where
  "ohash_iter 0 h p = []"
| "ohash_iter (Suc fuel) h p =
     (case ohash_next h p of None \<Rightarrow> [] | Some (e, p') \<Rightarrow> e # ohash_iter fuel h p')"

lemma ohash_next_entries:
  assumes "hsize h = length (htab h)"
  shows "case ohash_next h p of
      None \<Rightarrow> entries (drop p (htab h)) = []
    | Some (e, p') \<Rightarrow> p < p' \<and> entries (drop p (htab h)) = e # entries (drop p' (htab h))"
  using assms
proof (induction h p rule: ohash_next.induct)
  case (1 h p)
  show ?case
  proof (cases "p < length (htab h)")
    case True
    then have dr: "drop p (htab h) = (htab h ! p) # drop (Suc p) (htab h)"
      by (simp add: Cons_nth_drop_Suc)
    show ?thesis
      using 1 True dr by (subst ohash_next.simps)
        (auto simp: entries_Cons cell_at_def split: cell.splits option.splits prod.splits dest: Suc_lessD)
  next
    case False
    then show ?thesis using 1 by (simp add: ohash_next.simps entries_def)
  qed
qed

lemma ohash_iter_entries:
  assumes "hsize h = length (htab h)" "length (htab h) - p \<le> fuel"
  shows "ohash_iter fuel h p = entries (drop p (htab h))"
  using assms(2)
proof (induction fuel arbitrary: p)
  case 0
  then show ?case by (simp add: entries_def)
next
  case (Suc fuel)
  show ?case
  proof (cases "ohash_next h p")
    case None
    then show ?thesis using ohash_next_entries [OF assms(1), of p] by simp
  next
    case (Some r)
    obtain e p' where r: "r = (e, p')" by (cases r)
    with Some have n: "p < p'" "entries (drop p (htab h)) = e # entries (drop p' (htab h))"
      using ohash_next_entries [OF assms(1), of p] by simp_all
    then show ?thesis using Some r Suc.IH [of p'] Suc.prems by simp
  qed
qed


lemma ohash_iter_facts:
  assumes "ohash_ok key h"
  shows "length (ohash_iter (hsize h) h 0) = ohash_entries h"
    "distinct (map key (ohash_iter (hsize h) h 0))"
    "set (ohash_iter (hsize h) h 0) = {e. ohash_map key h (key e) = Some e}"
proof -
  have ok: "placed key (htab h)" "hsize h = length (htab h)" using assms by (simp_all add: ohash_ok_def)
  have it: "ohash_iter (hsize h) h 0 = entries (htab h)"
    using ohash_iter_entries [of h 0 "hsize h"] ok(2) by simp
  show "length (ohash_iter (hsize h) h 0) = ohash_entries h" "distinct (map key (ohash_iter (hsize h) h 0))"
    "set (ohash_iter (hsize h) h 0) = {e. ohash_map key h (key e) = Some e}"
    unfolding it using assms length_entries [of "htab h"] placed_distinct [OF ok(1)]
    by (auto simp: ohash_entries_def ohash_ok_def ohash_map_def slots_map_iff entries_iff)
qed

lemma ohash_map_key: "ohash_ok key h \<Longrightarrow> ohash_map key h k = Some e \<Longrightarrow> key e = k"
  by (simp add: ohash_ok_def ohash_map_def slots_map_iff)

subsection \<open>The interface the clients use\<close>

text \<open>
  A table of entries addressed by a string key: \<open>lookup\<close> returns a slot for a key, which may
  rearrange the table but not its contents; \<open>find\<close> reads a slot; \<open>insert\<close> fills the slot
  a lookup returned for an absent key.  \<open>room h n\<close> says that \<open>n\<close> more insertions are
  within the range of the counters.
\<close>

locale string_table =
  fixes inv :: "'h \<Rightarrow> bool" and abs :: "'h \<Rightarrow> string \<Rightarrow> 'e option" and key :: "'e \<Rightarrow> string"
    and slot :: "'h \<Rightarrow> string \<Rightarrow> nat \<Rightarrow> bool" and room :: "'h \<Rightarrow> nat \<Rightarrow> bool"
    and lookup :: "'h \<Rightarrow> string \<Rightarrow> ('h \<times> nat) option"
    and find :: "'h \<Rightarrow> nat \<Rightarrow> 'e option option"
    and insert :: "'h \<Rightarrow> nat \<Rightarrow> 'e \<Rightarrow> 'h option"
  assumes lookup_law: "inv h \<Longrightarrow> \<exists>h' j. lookup h s = Some (h', j) \<and> inv h' \<and> abs h' = abs h \<and>
      slot h' s j \<and> (\<forall>n. room h n \<longrightarrow> room h' n)"
    and find_law: "inv h \<Longrightarrow> slot h s j \<Longrightarrow> find h j = Some (abs h s)"
    and insert_law: "inv h \<Longrightarrow> slot h (key e) j \<Longrightarrow> abs h (key e) = None \<Longrightarrow> room h (Suc n) \<Longrightarrow>
      \<exists>h'. insert h j e = Some h' \<and> inv h' \<and> abs h' = (abs h)(key e \<mapsto> e) \<and> room h' n"
begin

text \<open>
  The client idioms: read the entry for a key, enter a key that is asserted to be new, and
  fill a table.
\<close>

definition get :: "'h \<Rightarrow> string \<Rightarrow> ('h \<times> 'e option) option" where
  "get h s = do { (h', j) \<leftarrow> lookup h s; r \<leftarrow> find h' j; Some (h', r) }"

definition add :: "'h \<Rightarrow> 'e \<Rightarrow> 'h option" where
  "add h e = do {
     (h', j) \<leftarrow> lookup h (key e);
     r \<leftarrow> find h' j;
     if r = None then insert h' j e else None }"

primrec fill :: "'h \<Rightarrow> 'e list \<Rightarrow> 'h option" where
  "fill h [] = Some h"
| "fill h (e # es) = do { h' \<leftarrow> add h e; fill h' es }"

lemma get_ok:
  assumes "inv h"
  shows "\<exists>h'. get h s = Some (h', abs h s) \<and> inv h' \<and> abs h' = abs h \<and> (\<forall>n. room h n \<longrightarrow> room h' n)"
  using lookup_law [OF assms, of s] find_law by (auto simp: get_def)

lemma add_ok:
  assumes "inv h" "abs h (key e) = None" "room h (Suc n)"
  shows "\<exists>h'. add h e = Some h' \<and> inv h' \<and> abs h' = (abs h)(key e \<mapsto> e) \<and> room h' n"
proof -
  obtain h' j where "lookup h (key e) = Some (h', j)" "inv h'" "abs h' = abs h" "slot h' (key e) j"
    "room h' (Suc n)"
    using lookup_law [OF assms(1), of "key e"] assms(3) by blast
  then show ?thesis
    using insert_law [of h' e j n] find_law [of h' "key e" j] assms(2) by (simp add: add_def)
qed

lemma fill_ok:
  assumes "inv h" "distinct (map key es)" "\<And>e. e \<in> set es \<Longrightarrow> abs h (key e) = None"
    "room h (length es)"
  shows "\<exists>h'. fill h es = Some h' \<and> inv h' \<and> abs h' = abs h ++ map_of (map (\<lambda>e. (key e, e)) es)"
  using assms
proof (induction es arbitrary: h)
  case (Cons e es)
  obtain h1 where h1: "add h e = Some h1" "inv h1" "abs h1 = (abs h)(key e \<mapsto> e)" "room h1 (length es)"
    using add_ok [of h e "length es"] Cons.prems by auto
  have "abs h1 (key a) = None" if "a \<in> set es" for a
    using h1(3) Cons.prems(2,3) that by (auto simp: image_iff)
  then obtain h2 where h2: "fill h1 es = Some h2" "inv h2"
    "abs h2 = abs h1 ++ map_of (map (\<lambda>e. (key e, e)) es)"
    using Cons.IH [OF h1(2)] h1(4) Cons.prems(2) by auto
  have "key e \<notin> dom (map_of (map (\<lambda>e. (key e, e)) es))"
    using Cons.prems(2) by (auto simp: dom_map_of_conv_image_fst image_image)
  then have "abs h2 = abs h ++ map_of (map (\<lambda>e. (key e, e)) (e # es))"
    by (auto simp: h2(3) h1(3) map_add_def fun_eq_iff split: option.splits)
  then show ?case
    by (intro exI [of _ h2] conjI) (simp add: h1 h2, rule h2(2))
qed simp

end

definition ohash_room :: "'e ohash \<Rightarrow> nat \<Rightarrow> bool" where
  "ohash_room h n \<longleftrightarrow> hsize h < 2 ^ 30 \<and> 3 * (htotal h + n) < 2 ^ 30"

interpretation oht: string_table "ohash_ok key" "ohash_map key" key "slot_for key" ohash_room
    "ohash_qlookup key" ohash_find ohash_insert for key
proof
  fix h :: "'a ohash" and s
  assume "ohash_ok key h"
  then show "\<exists>h' j. ohash_qlookup key h s = Some (h', j) \<and> ohash_ok key h' \<and>
      ohash_map key h' = ohash_map key h \<and> slot_for key h' s j \<and>
      (\<forall>n. ohash_room h n \<longrightarrow> ohash_room h' n)"
    using ohash_qlookup_ok [of key h s] by (auto simp: looked_up_def ohash_room_def)
next
  fix h :: "'a ohash" and s j
  assume "slot_for key h s j"
  then show "ohash_find h j = Some (ohash_map key h s)" by (simp add: slot_for_def)
next
  fix h :: "'a ohash" and e j n
  assume "ohash_ok key h" "slot_for key h (key e) j" "ohash_map key h (key e) = None"
    "ohash_room h (Suc n)"
  then show "\<exists>h'. ohash_insert h j e = Some h' \<and> ohash_ok key h' \<and>
      ohash_map key h' = (ohash_map key h)(key e \<mapsto> e) \<and> ohash_room h' n"
    using ohash_insert_ok [of key h e j] by (fastforce simp: ohash_room_def)
qed

text \<open>A table that holds the single entry \<open>ab\<close>, entries being their own keys.\<close>

lemma one_entry_table:
  "\<exists>h :: string ohash. ohash_ok id h \<and> ohash_map id h = [''ab'' \<mapsto> ''ab''] \<and> ohash_room h 5"
proof -
  have "ohash_room (ohash_init 4 :: string ohash) (Suc 5)"
    by (simp add: ohash_room_def ohash_init_def MINSIZE_def Let_def)
  then show ?thesis
    using oht.add_ok [of id "ohash_init 4" "''ab''" 5] ohash_init_ok [of id 4] by auto
qed

subsection \<open>Properties\<close>

text \<open>
  C14: looking up any key in a well-formed table ends (the probe loop needs at most one step per
  slot), keeps the table well-formed and its contents unchanged, and \<open>ohash_find\<close> on the
  returned slot gives exactly the entry the table holds for the key, or NULL.\<close>

theorem ohash_lookup_correct:
  assumes "ohash_ok key h"
  shows "\<exists>h' j. ohash_qlookup key h s = Some (h', j) \<and> ohash_ok key h' \<and>
     ohash_map key h' = ohash_map key h \<and> ohash_find h' j = Some (ohash_map key h s)"
  using oht.lookup_law [OF assms, of s] oht.find_law by metis

theorem ohash_lookup_correct_witness:
  "\<exists>h h' j h2 j2. ohash_ok id h \<and> ohash_qlookup id h ''ab'' = Some (h', j) \<and>
     ohash_find h' j = Some (Some ''ab'') \<and> ohash_qlookup id h ''xy'' = Some (h2, j2) \<and>
     ohash_find h2 j2 = Some None"
proof -
  obtain h where h: "ohash_ok id h" "ohash_map id h = [''ab'' \<mapsto> ''ab'']" using one_entry_table by auto
  show ?thesis
    using ohash_lookup_correct [OF h(1), of "''ab''"] ohash_lookup_correct [OF h(1), of "''xy''"] h
    by fastforce
qed

text \<open>
  C35: entering a new key, that is inserting at the slot a lookup of it returned, adds exactly
  this entry and keeps the table well-formed, also when the insertion resizes the table.\<close>

theorem ohash_insert_correct:
  assumes "ohash_ok key h" "ohash_map key h (key e) = None" "ohash_room h 1"
    "ohash_qlookup key h (key e) = Some (h1, j)"
  shows "\<exists>h'. ohash_insert h1 j e = Some h' \<and> ohash_ok key h' \<and>
     ohash_map key h' = (ohash_map key h)(key e \<mapsto> e)"
proof -
  have "\<exists>h' j. ohash_qlookup key h (key e) = Some (h', j) \<and> ohash_ok key h' \<and>
      ohash_map key h' = ohash_map key h \<and> slot_for key h' (key e) j \<and>
      (\<forall>n. ohash_room h n \<longrightarrow> ohash_room h' n)"
    by (rule oht.lookup_law [OF assms(1)])
  then show ?thesis using oht.insert_law [of key h1 e j 0] assms by auto
qed

theorem ohash_insert_correct_witness:
  "\<exists>h h1 j h'. ohash_qlookup id h ''xy'' = Some (h1, j) \<and> ohash_insert h1 j ''xy'' = Some h' \<and>
     ohash_map id h' = [''ab'' \<mapsto> ''ab'', ''xy'' \<mapsto> ''xy'']"
proof -
  obtain h where h: "ohash_ok id h" "ohash_map id h = [''ab'' \<mapsto> ''ab'']" "ohash_room h 5"
    using one_entry_table by auto
  then obtain h1 j where l: "ohash_qlookup id h ''xy'' = Some (h1, j)"
    using ohash_qlookup_ok by blast
  have "ohash_map id h (id ''xy'') = None" "ohash_room h 1"
    using h by (simp_all add: ohash_room_def)
  with ohash_insert_correct [OF h(1), of "''xy''" h1 j] l h(2) show ?thesis by auto
qed

text \<open>
  C36: removing the entry of a key, at the slot a lookup of it returned, returns that entry,
  deletes exactly its key and keeps the table well-formed, also when the removal resizes the
  table.\<close>

theorem ohash_remove_correct:
  assumes "ohash_ok key h" "ohash_map key h s = Some e" "hsize h < 2 ^ 30"
    "ohash_qlookup key h s = Some (h1, j)"
  shows "\<exists>h'. ohash_remove h1 j = Some (h', Some e) \<and> ohash_ok key h' \<and>
     ohash_map key h' = (ohash_map key h)(s := None)"
proof -
  have l: "looked_up key h s h1 j"
    using ohash_qlookup_ok [OF assms(1), of s] assms(4) by simp
  have "key e = s"
    using assms(1,2) by (auto simp: ohash_map_def ohash_ok_def slots_map_iff)
  then show ?thesis
    using ohash_remove_ok [of key h1 j e] l assms by (simp add: looked_up_def slot_for_def)
qed

theorem ohash_remove_correct_witness:
  "\<exists>h h1 j h'. ohash_qlookup id h ''ab'' = Some (h1, j) \<and>
     ohash_remove h1 j = Some (h', Some ''ab'') \<and> ohash_map id h' = Map.empty"
proof -
  obtain h where h: "ohash_ok id h" "ohash_map id h = [''ab'' \<mapsto> ''ab'']" "ohash_room h 5"
    using one_entry_table by auto
  then obtain h1 j where l: "ohash_qlookup id h ''ab'' = Some (h1, j)"
    using ohash_qlookup_ok by blast
  have "ohash_map id h ''ab'' = Some ''ab''" "hsize h < 2 ^ 30"
    using h by (simp_all add: ohash_room_def)
  with ohash_remove_correct [OF h(1) _ _ l] h(2) l show ?thesis by auto
qed

text \<open>
  iterating over a well-formed table with \<open>ohash_first\<close> and \<open>ohash_next\<close> ends and
  yields each entry of the table exactly once, \<open>ohash_entries\<close> of them.\<close>

theorem ohash_iter_correct:
  assumes "ohash_ok key h"
  shows "length (ohash_iter (hsize h) h 0) = ohash_entries h \<and>
     distinct (map key (ohash_iter (hsize h) h 0)) \<and>
     (e \<in> set (ohash_iter (hsize h) h 0) \<longleftrightarrow> ohash_map key h (key e) = Some e)"
  using ohash_iter_facts [OF assms] by auto

theorem ohash_iter_correct_witness:
  "\<exists>h. ohash_ok id h \<and> ''ab'' \<in> set (ohash_iter (hsize h) h 0) \<and> ''xy'' \<notin> set (ohash_iter (hsize h) h 0)"
proof -
  obtain h where h: "ohash_ok id h" "ohash_map id h = [''ab'' \<mapsto> ''ab'']" using one_entry_table by auto
  show ?thesis
    using ohash_iter_correct [OF h(1), of "''ab''"] ohash_iter_correct [OF h(1), of "''xy''"] h by auto
qed

end
