(* ===== verification/Chars.thy ===== *)
theory Chars
  imports Mandoc_Util Ohash
begin

section \<open>Special characters: \<open>chars.c\<close>\<close>

text \<open>
  The table of the roff special characters, the hash table that \<open>mchars_alloc\<close> builds from
  it (a client of the string table interface of \<open>Ohash\<close>), and the conversion functions the
  formatters call.  The global variable \<open>mchars\<close> is passed explicitly and returned, since a
  lookup may rearrange it.
\<close>

record ln =
  roffcode :: string
  ascii :: string
  unicode :: int

definition mk_ln :: "string \<Rightarrow> string \<Rightarrow> int \<Rightarrow> ln" where
  "mk_ln r a u = \<lparr>roffcode = r, ascii = a, unicode = u\<rparr>"

text \<open>The initialiser of \<open>lines\<close>, in four parts.\<close>

definition lines_1 :: "ln list" where
  "lines_1 = [
    mk_ln '' '' [CHR 0x1F] 0x00A0,
    mk_ln ''~'' [CHR 0x1F] 0x00A0,
    mk_ln ''0'' [CHR 0x1F] 0x00A0,
    mk_ln '':'' [CHR 0x1D] 0x0000,
    mk_ln ''ba'' ''|'' 0x007C,
    mk_ln ''br'' ''|'' 0x2502,
    mk_ln ''ul'' ''_'' 0x005F,
    mk_ln ''_'' ''_'' 0x005F,
    mk_ln ''ru'' ''_'' 0x005F,
    mk_ln ''rn'' ''-'' 0x203E,
    mk_ln ''bb'' ''|'' 0x00A6,
    mk_ln ''sl'' ''/'' 0x002F,
    mk_ln ''rs'' [CHR 0x5C] 0x005C,
    mk_ln ''ci'' ''O'' 0x25CB,
    mk_ln ''bu'' [CHR ''+'', CHR 0x08, CHR ''o''] 0x2022,
    mk_ln ''dd'' ''<**>'' 0x2021,
    mk_ln ''dg'' ''<*>'' 0x2020,
    mk_ln ''lz'' ''<>'' 0x25CA,
    mk_ln ''sq'' ''[]'' 0x25A1,
    mk_ln ''ps'' ''<paragraph>'' 0x00B6,
    mk_ln ''sc'' ''<section>'' 0x00A7,
    mk_ln ''lh'' ''<='' 0x261C,
    mk_ln ''rh'' ''=>'' 0x261E,
    mk_ln ''at'' ''@'' 0x0040,
    mk_ln ''sh'' ''#'' 0x0023,
    mk_ln ''CR'' ''<cr>'' 0x21B5,
    mk_ln ''OK'' [CHR 0x5C, CHR ''/''] 0x2713,
    mk_ln ''CL'' ''C'' 0x2663,
    mk_ln ''SP'' ''S'' 0x2660,
    mk_ln ''HE'' ''H'' 0x2665,
    mk_ln ''DI'' ''D'' 0x2666,
    mk_ln ''co'' ''(C)'' 0x00A9,
    mk_ln ''rg'' ''(R)'' 0x00AE,
    mk_ln ''tm'' ''tm'' 0x2122,
    mk_ln ''em'' ''--'' 0x2014,
    mk_ln ''en'' ''-'' 0x2013,
    mk_ln ''hy'' ''-'' 0x2010,
    mk_ln ''e'' [CHR 0x5C] 0x005C,
    mk_ln ''r!'' ''!'' 0x00A1,
    mk_ln ''r?'' ''?'' 0x00BF,
    mk_ln ''Bq'' '',,'' 0x201E,
    mk_ln ''bq'' '','' 0x201A,
    mk_ln ''lq'' [CHR 0x22] 0x201C,
    mk_ln ''rq'' [CHR 0x22] 0x201D,
    mk_ln ''Lq'' [CHR 0x22] 0x201C,
    mk_ln ''Rq'' [CHR 0x22] 0x201D,
    mk_ln ''oq'' [CHR 0x60] 0x2018,
    mk_ln ''cq'' [CHR 0x27] 0x2019,
    mk_ln ''aq'' [CHR 0x27] 0x0027,
    mk_ln ''dq'' [CHR 0x22] 0x0022,
    mk_ln ''Fo'' ''<<'' 0x00AB,
    mk_ln ''Fc'' ''>>'' 0x00BB,
    mk_ln ''fo'' ''<'' 0x2039,
    mk_ln ''fc'' ''>'' 0x203A,
    mk_ln ''lB'' ''['' 0x005B,
    mk_ln ''rB'' '']'' 0x005D,
    mk_ln ''lC'' ''{'' 0x007B,
    mk_ln ''rC'' ''}'' 0x007D,
    mk_ln ''la'' ''<'' 0x27E8,
    mk_ln ''ra'' ''>'' 0x27E9,
    mk_ln ''bv'' ''|'' 0x23AA,
    mk_ln ''braceex'' ''|'' 0x23AA,
    mk_ln ''bracketlefttp'' ''|'' 0x23A1,
    mk_ln ''bracketleftbt'' ''|'' 0x23A3,
    mk_ln ''bracketleftex'' ''|'' 0x23A2,
    mk_ln ''bracketrighttp'' ''|'' 0x23A4,
    mk_ln ''bracketrightbt'' ''|'' 0x23A6,
    mk_ln ''bracketrightex'' ''|'' 0x23A5,
    mk_ln ''lt'' '',-'' 0x23A7,
    mk_ln ''bracelefttp'' '',-'' 0x23A7,
    mk_ln ''lk'' ''{'' 0x23A8,
    mk_ln ''braceleftmid'' ''{'' 0x23A8,
    mk_ln ''lb'' [CHR 0x60, CHR ''-''] 0x23A9,
    mk_ln ''braceleftbt'' [CHR 0x60, CHR ''-''] 0x23A9,
    mk_ln ''braceleftex'' ''|'' 0x23AA,
    mk_ln ''rt'' ''-.'' 0x23AB,
    mk_ln ''bracerighttp'' ''-.'' 0x23AB,
    mk_ln ''rk'' ''}'' 0x23AC,
    mk_ln ''bracerightmid'' ''}'' 0x23AC,
    mk_ln ''rb'' [CHR ''-'', CHR 0x27] 0x23AD,
    mk_ln ''bracerightbt'' [CHR ''-'', CHR 0x27] 0x23AD,
    mk_ln ''bracerightex'' ''|'' 0x23AA,
    mk_ln ''parenlefttp'' ''/'' 0x239B,
    mk_ln ''parenleftbt'' [CHR 0x5C] 0x239D,
    mk_ln ''parenleftex'' ''|'' 0x239C,
    mk_ln ''parenrighttp'' [CHR 0x5C] 0x239E,
    mk_ln ''parenrightbt'' ''/'' 0x23A0,
    mk_ln ''parenrightex'' ''|'' 0x239F]"

definition lines_2 :: "ln list" where
  "lines_2 = [
    mk_ln ''<-'' ''<-'' 0x2190,
    mk_ln ''->'' ''->'' 0x2192,
    mk_ln ''<>'' ''<->'' 0x2194,
    mk_ln ''da'' [CHR ''|'', CHR 0x08, CHR ''v''] 0x2193,
    mk_ln ''ua'' [CHR ''|'', CHR 0x08, CHR ''^''] 0x2191,
    mk_ln ''va'' ''^v'' 0x2195,
    mk_ln ''lA'' ''<='' 0x21D0,
    mk_ln ''rA'' ''=>'' 0x21D2,
    mk_ln ''hA'' ''<=>'' 0x21D4,
    mk_ln ''uA'' [CHR ''='', CHR 0x08, CHR ''^''] 0x21D1,
    mk_ln ''dA'' [CHR ''='', CHR 0x08, CHR ''v''] 0x21D3,
    mk_ln ''vA'' ''^=v'' 0x21D5,
    mk_ln ''an'' ''-'' 0x23AF,
    mk_ln ''AN'' ''^'' 0x2227,
    mk_ln ''OR'' ''v'' 0x2228,
    mk_ln ''no'' ''~'' 0x00AC,
    mk_ln ''tno'' ''~'' 0x00AC,
    mk_ln ''te'' [CHR ''<'', CHR ''t'', CHR ''h'', CHR ''e'', CHR ''r'', CHR ''e'', CHR 0x1F, CHR ''e'', CHR ''x'', CHR ''i'', CHR ''s'', CHR ''t'', CHR ''s'', CHR ''>''] 0x2203,
    mk_ln ''fa'' [CHR ''<'', CHR ''f'', CHR ''o'', CHR ''r'', CHR 0x1F, CHR ''a'', CHR ''l'', CHR ''l'', CHR ''>''] 0x2200,
    mk_ln ''st'' [CHR ''<'', CHR ''s'', CHR ''u'', CHR ''c'', CHR ''h'', CHR 0x1F, CHR ''t'', CHR ''h'', CHR ''a'', CHR ''t'', CHR ''>''] 0x220B,
    mk_ln ''tf'' ''<therefore>'' 0x2234,
    mk_ln ''3d'' ''<therefore>'' 0x2234,
    mk_ln ''or'' ''|'' 0x007C,
    mk_ln ''pl'' ''+'' 0x002B,
    mk_ln ''mi'' ''-'' 0x2212,
    mk_ln ''-'' ''-'' 0x002D,
    mk_ln ''-+'' ''-+'' 0x2213,
    mk_ln ''+-'' ''+-'' 0x00B1,
    mk_ln ''t+-'' ''+-'' 0x00B1,
    mk_ln ''pc'' ''.'' 0x00B7,
    mk_ln ''md'' ''.'' 0x22C5,
    mk_ln ''mu'' ''x'' 0x00D7,
    mk_ln ''tmu'' ''x'' 0x00D7,
    mk_ln ''c*'' [CHR ''O'', CHR 0x08, CHR ''x''] 0x2297,
    mk_ln ''c+'' [CHR ''O'', CHR 0x08, CHR ''+''] 0x2295,
    mk_ln ''di'' ''/'' 0x00F7,
    mk_ln ''tdi'' ''/'' 0x00F7,
    mk_ln ''f/'' ''/'' 0x2044,
    mk_ln ''**'' ''*'' 0x2217,
    mk_ln ''<='' ''<='' 0x2264,
    mk_ln ''>='' ''>='' 0x2265,
    mk_ln ''<<'' ''<<'' 0x226A,
    mk_ln ''>>'' ''>>'' 0x226B,
    mk_ln ''eq'' ''='' 0x003D,
    mk_ln ''!='' ''!='' 0x2260,
    mk_ln ''=='' ''=='' 0x2261,
    mk_ln ''ne'' ''!=='' 0x2262,
    mk_ln ''ap'' ''~'' 0x223C,
    mk_ln ''|='' ''-~'' 0x2243,
    mk_ln ''=~'' ''=~'' 0x2245,
    mk_ln ''~~'' ''~~'' 0x2248,
    mk_ln ''~='' ''~='' 0x2248,
    mk_ln ''pt'' [CHR ''<'', CHR ''p'', CHR ''r'', CHR ''o'', CHR ''p'', CHR ''o'', CHR ''r'', CHR ''t'', CHR ''i'', CHR ''o'', CHR ''n'', CHR ''a'', CHR ''l'', CHR 0x1F, CHR ''t'', CHR ''o'', CHR ''>''] 0x221D,
    mk_ln ''es'' ''{}'' 0x2205,
    mk_ln ''mo'' [CHR ''<'', CHR ''e'', CHR ''l'', CHR ''e'', CHR ''m'', CHR ''e'', CHR ''n'', CHR ''t'', CHR 0x1F, CHR ''o'', CHR ''f'', CHR ''>''] 0x2208,
    mk_ln ''nm'' [CHR ''<'', CHR ''n'', CHR ''o'', CHR ''t'', CHR 0x1F, CHR ''e'', CHR ''l'', CHR ''e'', CHR ''m'', CHR ''e'', CHR ''n'', CHR ''t'', CHR 0x1F, CHR ''o'', CHR ''f'', CHR ''>''] 0x2209,
    mk_ln ''sb'' [CHR ''<'', CHR ''p'', CHR ''r'', CHR ''o'', CHR ''p'', CHR ''e'', CHR ''r'', CHR 0x1F, CHR ''s'', CHR ''u'', CHR ''b'', CHR ''s'', CHR ''e'', CHR ''t'', CHR ''>''] 0x2282,
    mk_ln ''nb'' [CHR ''<'', CHR ''n'', CHR ''o'', CHR ''t'', CHR 0x1F, CHR ''s'', CHR ''u'', CHR ''b'', CHR ''s'', CHR ''e'', CHR ''t'', CHR ''>''] 0x2284,
    mk_ln ''sp'' [CHR ''<'', CHR ''p'', CHR ''r'', CHR ''o'', CHR ''p'', CHR ''e'', CHR ''r'', CHR 0x1F, CHR ''s'', CHR ''u'', CHR ''p'', CHR ''e'', CHR ''r'', CHR ''s'', CHR ''e'', CHR ''t'', CHR ''>''] 0x2283,
    mk_ln ''nc'' [CHR ''<'', CHR ''n'', CHR ''o'', CHR ''t'', CHR 0x1F, CHR ''s'', CHR ''u'', CHR ''p'', CHR ''e'', CHR ''r'', CHR ''s'', CHR ''e'', CHR ''t'', CHR ''>''] 0x2285,
    mk_ln ''ib'' [CHR ''<'', CHR ''s'', CHR ''u'', CHR ''b'', CHR ''s'', CHR ''e'', CHR ''t'', CHR 0x1F, CHR ''o'', CHR ''r'', CHR 0x1F, CHR ''e'', CHR ''q'', CHR ''u'', CHR ''a'', CHR ''l'', CHR ''>''] 0x2286,
    mk_ln ''ip'' [CHR ''<'', CHR ''s'', CHR ''u'', CHR ''p'', CHR ''e'', CHR ''r'', CHR ''s'', CHR ''e'', CHR ''t'', CHR 0x1F, CHR ''o'', CHR ''r'', CHR 0x1F, CHR ''e'', CHR ''q'', CHR ''u'', CHR ''a'', CHR ''l'', CHR ''>''] 0x2287,
    mk_ln ''ca'' ''<intersection>'' 0x2229,
    mk_ln ''cu'' ''<union>'' 0x222A,
    mk_ln ''/_'' ''<angle>'' 0x2220,
    mk_ln ''pp'' ''<perpendicular>'' 0x22A5,
    mk_ln ''is'' ''<integral>'' 0x222B,
    mk_ln ''integral'' ''<integral>'' 0x222B,
    mk_ln ''sum'' ''<sum>'' 0x2211,
    mk_ln ''product'' ''<product>'' 0x220F,
    mk_ln ''coproduct'' ''<coproduct>'' 0x2210,
    mk_ln ''gr'' ''<nabla>'' 0x2207,
    mk_ln ''sr'' ''<sqrt>'' 0x221A,
    mk_ln ''sqrt'' ''<sqrt>'' 0x221A,
    mk_ln ''lc'' ''|~'' 0x2308,
    mk_ln ''rc'' ''~|'' 0x2309,
    mk_ln ''lf'' ''|_'' 0x230A,
    mk_ln ''rf'' ''_|'' 0x230B,
    mk_ln ''if'' ''<infinity>'' 0x221E,
    mk_ln ''Ah'' ''<Aleph>'' 0x2135,
    mk_ln ''Im'' ''<Im>'' 0x2111,
    mk_ln ''Re'' ''<Re>'' 0x211C,
    mk_ln ''wp'' ''p'' 0x2118,
    mk_ln ''pd'' ''<del>'' 0x2202,
    mk_ln ''-h'' ''/h'' 0x210F,
    mk_ln ''hbar'' ''/h'' 0x210F,
    mk_ln ''12'' ''1/2'' 0x00BD,
    mk_ln ''14'' ''1/4'' 0x00BC,
    mk_ln ''34'' ''3/4'' 0x00BE,
    mk_ln ''18'' ''1/8'' 0x215B,
    mk_ln ''38'' ''3/8'' 0x215C,
    mk_ln ''58'' ''5/8'' 0x215D,
    mk_ln ''78'' ''7/8'' 0x215E,
    mk_ln ''S1'' ''^1'' 0x00B9,
    mk_ln ''S2'' ''^2'' 0x00B2,
    mk_ln ''S3'' ''^3'' 0x00B3,
    mk_ln ''ff'' ''ff'' 0xFB00,
    mk_ln ''fi'' ''fi'' 0xFB01,
    mk_ln ''fl'' ''fl'' 0xFB02,
    mk_ln ''Fi'' ''ffi'' 0xFB03,
    mk_ln ''Fl'' ''ffl'' 0xFB04,
    mk_ln ''AE'' ''AE'' 0x00C6,
    mk_ln ''ae'' ''ae'' 0x00E6]"

definition lines_3 :: "ln list" where
  "lines_3 = [
    mk_ln ''OE'' ''OE'' 0x0152,
    mk_ln ''oe'' ''oe'' 0x0153,
    mk_ln ''ss'' ''ss'' 0x00DF,
    mk_ln ''IJ'' ''IJ'' 0x0132,
    mk_ln ''ij'' ''ij'' 0x0133,
    mk_ln [CHR ''a'', CHR 0x22] [CHR 0x22] 0x02DD,
    mk_ln ''a-'' ''-'' 0x00AF,
    mk_ln ''a.'' ''.'' 0x02D9,
    mk_ln ''a^'' ''^'' 0x005E,
    mk_ln ''aa'' [CHR 0x27] 0x00B4,
    mk_ln [CHR 0x27] [CHR 0x27] 0x00B4,
    mk_ln ''ga'' [CHR 0x60] 0x0060,
    mk_ln [CHR 0x60] [CHR 0x60] 0x0060,
    mk_ln ''ab'' [CHR 0x27, CHR 0x08, CHR 0x60] 0x02D8,
    mk_ln ''ac'' '','' 0x00B8,
    mk_ln ''ad'' [CHR 0x22] 0x00A8,
    mk_ln ''ah'' ''v'' 0x02C7,
    mk_ln ''ao'' ''o'' 0x02DA,
    mk_ln ''a~'' ''~'' 0x007E,
    mk_ln ''ho'' '','' 0x02DB,
    mk_ln ''ha'' ''^'' 0x005E,
    mk_ln ''ti'' ''~'' 0x007E,
    mk_ln ''u02DC'' ''~'' 0x02DC,
    mk_ln [CHR 0x27, CHR ''A''] [CHR 0x27, CHR 0x08, CHR ''A''] 0x00C1,
    mk_ln [CHR 0x27, CHR ''E''] [CHR 0x27, CHR 0x08, CHR ''E''] 0x00C9,
    mk_ln [CHR 0x27, CHR ''I''] [CHR 0x27, CHR 0x08, CHR ''I''] 0x00CD,
    mk_ln [CHR 0x27, CHR ''O''] [CHR 0x27, CHR 0x08, CHR ''O''] 0x00D3,
    mk_ln [CHR 0x27, CHR ''U''] [CHR 0x27, CHR 0x08, CHR ''U''] 0x00DA,
    mk_ln [CHR 0x27, CHR ''Y''] [CHR 0x27, CHR 0x08, CHR ''Y''] 0x00DD,
    mk_ln [CHR 0x27, CHR ''a''] [CHR 0x27, CHR 0x08, CHR ''a''] 0x00E1,
    mk_ln [CHR 0x27, CHR ''e''] [CHR 0x27, CHR 0x08, CHR ''e''] 0x00E9,
    mk_ln [CHR 0x27, CHR ''i''] [CHR 0x27, CHR 0x08, CHR ''i''] 0x00ED,
    mk_ln [CHR 0x27, CHR ''o''] [CHR 0x27, CHR 0x08, CHR ''o''] 0x00F3,
    mk_ln [CHR 0x27, CHR ''u''] [CHR 0x27, CHR 0x08, CHR ''u''] 0x00FA,
    mk_ln [CHR 0x27, CHR ''y''] [CHR 0x27, CHR 0x08, CHR ''y''] 0x00FD,
    mk_ln [CHR 0x60, CHR ''A''] [CHR 0x60, CHR 0x08, CHR ''A''] 0x00C0,
    mk_ln [CHR 0x60, CHR ''E''] [CHR 0x60, CHR 0x08, CHR ''E''] 0x00C8,
    mk_ln [CHR 0x60, CHR ''I''] [CHR 0x60, CHR 0x08, CHR ''I''] 0x00CC,
    mk_ln [CHR 0x60, CHR ''O''] [CHR 0x60, CHR 0x08, CHR ''O''] 0x00D2,
    mk_ln [CHR 0x60, CHR ''U''] [CHR 0x60, CHR 0x08, CHR ''U''] 0x00D9,
    mk_ln [CHR 0x60, CHR ''a''] [CHR 0x60, CHR 0x08, CHR ''a''] 0x00E0,
    mk_ln [CHR 0x60, CHR ''e''] [CHR 0x60, CHR 0x08, CHR ''e''] 0x00E8,
    mk_ln [CHR 0x60, CHR ''i''] [CHR 0x60, CHR 0x08, CHR ''i''] 0x00EC,
    mk_ln [CHR 0x60, CHR ''o''] [CHR 0x60, CHR 0x08, CHR ''o''] 0x00F2,
    mk_ln [CHR 0x60, CHR ''u''] [CHR 0x60, CHR 0x08, CHR ''u''] 0x00F9,
    mk_ln ''~A'' [CHR ''~'', CHR 0x08, CHR ''A''] 0x00C3,
    mk_ln ''~N'' [CHR ''~'', CHR 0x08, CHR ''N''] 0x00D1,
    mk_ln ''~O'' [CHR ''~'', CHR 0x08, CHR ''O''] 0x00D5,
    mk_ln ''~a'' [CHR ''~'', CHR 0x08, CHR ''a''] 0x00E3,
    mk_ln ''~n'' [CHR ''~'', CHR 0x08, CHR ''n''] 0x00F1,
    mk_ln ''~o'' [CHR ''~'', CHR 0x08, CHR ''o''] 0x00F5,
    mk_ln '':A'' [CHR 0x22, CHR 0x08, CHR ''A''] 0x00C4,
    mk_ln '':E'' [CHR 0x22, CHR 0x08, CHR ''E''] 0x00CB,
    mk_ln '':I'' [CHR 0x22, CHR 0x08, CHR ''I''] 0x00CF,
    mk_ln '':O'' [CHR 0x22, CHR 0x08, CHR ''O''] 0x00D6,
    mk_ln '':U'' [CHR 0x22, CHR 0x08, CHR ''U''] 0x00DC,
    mk_ln '':a'' [CHR 0x22, CHR 0x08, CHR ''a''] 0x00E4,
    mk_ln '':e'' [CHR 0x22, CHR 0x08, CHR ''e''] 0x00EB,
    mk_ln '':i'' [CHR 0x22, CHR 0x08, CHR ''i''] 0x00EF,
    mk_ln '':o'' [CHR 0x22, CHR 0x08, CHR ''o''] 0x00F6,
    mk_ln '':u'' [CHR 0x22, CHR 0x08, CHR ''u''] 0x00FC,
    mk_ln '':y'' [CHR 0x22, CHR 0x08, CHR ''y''] 0x00FF,
    mk_ln ''^A'' [CHR ''^'', CHR 0x08, CHR ''A''] 0x00C2,
    mk_ln ''^E'' [CHR ''^'', CHR 0x08, CHR ''E''] 0x00CA,
    mk_ln ''^I'' [CHR ''^'', CHR 0x08, CHR ''I''] 0x00CE,
    mk_ln ''^O'' [CHR ''^'', CHR 0x08, CHR ''O''] 0x00D4,
    mk_ln ''^U'' [CHR ''^'', CHR 0x08, CHR ''U''] 0x00DB,
    mk_ln ''^a'' [CHR ''^'', CHR 0x08, CHR ''a''] 0x00E2,
    mk_ln ''^e'' [CHR ''^'', CHR 0x08, CHR ''e''] 0x00EA,
    mk_ln ''^i'' [CHR ''^'', CHR 0x08, CHR ''i''] 0x00EE,
    mk_ln ''^o'' [CHR ''^'', CHR 0x08, CHR ''o''] 0x00F4,
    mk_ln ''^u'' [CHR ''^'', CHR 0x08, CHR ''u''] 0x00FB,
    mk_ln '',C'' [CHR '','', CHR 0x08, CHR ''C''] 0x00C7,
    mk_ln '',c'' [CHR '','', CHR 0x08, CHR ''c''] 0x00E7,
    mk_ln ''/L'' [CHR ''/'', CHR 0x08, CHR ''L''] 0x0141,
    mk_ln ''/l'' [CHR ''/'', CHR 0x08, CHR ''l''] 0x0142,
    mk_ln ''/O'' [CHR ''/'', CHR 0x08, CHR ''O''] 0x00D8,
    mk_ln ''/o'' [CHR ''/'', CHR 0x08, CHR ''o''] 0x00F8,
    mk_ln ''oA'' [CHR ''o'', CHR 0x08, CHR ''A''] 0x00C5,
    mk_ln ''oa'' [CHR ''o'', CHR 0x08, CHR ''a''] 0x00E5,
    mk_ln ''-D'' ''Dh'' 0x00D0,
    mk_ln ''Sd'' ''dh'' 0x00F0,
    mk_ln ''TP'' ''Th'' 0x00DE,
    mk_ln ''Tp'' ''th'' 0x00FE]"

definition lines_4 :: "ln list" where
  "lines_4 = [
    mk_ln ''.i'' ''i'' 0x0131,
    mk_ln ''.j'' ''j'' 0x0237,
    mk_ln ''Do'' ''$'' 0x0024,
    mk_ln ''ct'' [CHR ''/'', CHR 0x08, CHR ''c''] 0x00A2,
    mk_ln ''Eu'' ''EUR'' 0x20AC,
    mk_ln ''eu'' ''EUR'' 0x20AC,
    mk_ln ''Ye'' [CHR ''='', CHR 0x08, CHR ''Y''] 0x00A5,
    mk_ln ''Po'' [CHR ''-'', CHR 0x08, CHR ''L''] 0x00A3,
    mk_ln ''Cs'' [CHR ''o'', CHR 0x08, CHR ''x''] 0x00A4,
    mk_ln ''Fn'' [CHR '','', CHR 0x08, CHR ''f''] 0x0192,
    mk_ln ''de'' ''<degree>'' 0x00B0,
    mk_ln ''%0'' ''<permille>'' 0x2030,
    mk_ln ''fm'' [CHR 0x27] 0x2032,
    mk_ln ''sd'' [CHR 0x22] 0x2033,
    mk_ln ''mc'' ''<micro>'' 0x00B5,
    mk_ln ''Of'' [CHR ''_'', CHR 0x08, CHR ''a''] 0x00AA,
    mk_ln ''Om'' [CHR ''_'', CHR 0x08, CHR ''o''] 0x00BA,
    mk_ln ''*A'' ''A'' 0x0391,
    mk_ln ''*B'' ''B'' 0x0392,
    mk_ln ''*G'' ''<Gamma>'' 0x0393,
    mk_ln ''*D'' ''<Delta>'' 0x0394,
    mk_ln ''*E'' ''E'' 0x0395,
    mk_ln ''*Z'' ''Z'' 0x0396,
    mk_ln ''*Y'' ''H'' 0x0397,
    mk_ln ''*H'' ''<Theta>'' 0x0398,
    mk_ln ''*I'' ''I'' 0x0399,
    mk_ln ''*K'' ''K'' 0x039A,
    mk_ln ''*L'' ''<Lambda>'' 0x039B,
    mk_ln ''*M'' ''M'' 0x039C,
    mk_ln ''*N'' ''N'' 0x039D,
    mk_ln ''*C'' ''<Xi>'' 0x039E,
    mk_ln ''*O'' ''O'' 0x039F,
    mk_ln ''*P'' ''<Pi>'' 0x03A0,
    mk_ln ''*R'' ''P'' 0x03A1,
    mk_ln ''*S'' ''<Sigma>'' 0x03A3,
    mk_ln ''*T'' ''T'' 0x03A4,
    mk_ln ''*U'' ''Y'' 0x03A5,
    mk_ln ''*F'' ''<Phi>'' 0x03A6,
    mk_ln ''*X'' ''X'' 0x03A7,
    mk_ln ''*Q'' ''<Psi>'' 0x03A8,
    mk_ln ''*W'' ''<Omega>'' 0x03A9,
    mk_ln ''*a'' ''<alpha>'' 0x03B1,
    mk_ln ''*b'' ''<beta>'' 0x03B2,
    mk_ln ''*g'' ''<gamma>'' 0x03B3,
    mk_ln ''*d'' ''<delta>'' 0x03B4,
    mk_ln ''*e'' ''<epsilon>'' 0x03B5,
    mk_ln ''*z'' ''<zeta>'' 0x03B6,
    mk_ln ''*y'' ''<eta>'' 0x03B7,
    mk_ln ''*h'' ''<theta>'' 0x03B8,
    mk_ln ''*i'' ''<iota>'' 0x03B9,
    mk_ln ''*k'' ''<kappa>'' 0x03BA,
    mk_ln ''*l'' ''<lambda>'' 0x03BB,
    mk_ln ''*m'' ''<mu>'' 0x03BC,
    mk_ln ''*n'' ''<nu>'' 0x03BD,
    mk_ln ''*c'' ''<xi>'' 0x03BE,
    mk_ln ''*o'' ''o'' 0x03BF,
    mk_ln ''*p'' ''<pi>'' 0x03C0,
    mk_ln ''*r'' ''<rho>'' 0x03C1,
    mk_ln ''*s'' ''<sigma>'' 0x03C3,
    mk_ln ''*t'' ''<tau>'' 0x03C4,
    mk_ln ''*u'' ''<upsilon>'' 0x03C5,
    mk_ln ''*f'' ''<phi>'' 0x03D5,
    mk_ln ''*x'' ''<chi>'' 0x03C7,
    mk_ln ''*q'' ''<psi>'' 0x03C8,
    mk_ln ''*w'' ''<omega>'' 0x03C9,
    mk_ln ''+h'' ''<theta>'' 0x03D1,
    mk_ln ''+f'' ''<phi>'' 0x03C6,
    mk_ln ''+p'' ''<pi>'' 0x03D6,
    mk_ln ''+e'' ''<epsilon>'' 0x03F5,
    mk_ln ''ts'' ''<sigma>'' 0x03C2]"

definition lines_all :: "ln list" where
  "lines_all = lines_1 @ lines_2 @ lines_3 @ lines_4"

subsection \<open>Operations\<close>

primrec mchars_enter :: "ln ohash \<Rightarrow> ln list \<Rightarrow> ln ohash option" where
  "mchars_enter h [] = Some h"
| "mchars_enter h (l # ls) = do {
     (h', slot) \<leftarrow> ohash_qlookup roffcode h (roffcode l);
     r \<leftarrow> ohash_find h' slot;
     if r = None then do { h'' \<leftarrow> ohash_insert h' slot l; mchars_enter h'' ls } else None }"

definition mchars_alloc :: "ln ohash option" where
  "mchars_alloc = mchars_enter (ohash_init 9) lines_all"

text \<open>The key that is looked up is the \<open>sz\<close> bytes at \<open>p\<close>.\<close>

definition mchars_spec2cp :: "ln ohash \<Rightarrow> string \<Rightarrow> nat \<Rightarrow> (ln ohash \<times> int) option" where
  "mchars_spec2cp h p sz = do {
     (h', slot) \<leftarrow> ohash_qlookup roffcode h (take sz p);
     r \<leftarrow> ohash_find h' slot;
     Some (h', case r of Some l \<Rightarrow> unicode l | None \<Rightarrow> -1) }"

definition mchars_num2char :: "string \<Rightarrow> nat \<Rightarrow> int option" where
  "mchars_num2char p sz = do {
     i \<leftarrow> mandoc_strntoi p sz 10;
     Some (if 0 \<le> i \<and> i < 256 then i else -1) }"

definition mchars_num2uc :: "string \<Rightarrow> nat \<Rightarrow> int option" where
  "mchars_num2uc p sz = do {
     i \<leftarrow> mandoc_strntoi p sz 16;
     if 0 \<le> i \<and> i \<le> 0x10FFFF then Some i else None }"

definition mchars_spec2str :: "ln ohash \<Rightarrow> string \<Rightarrow> nat \<Rightarrow> (ln ohash \<times> (string \<times> nat) option) option" where
  "mchars_spec2str h p sz = do {
     (h', slot) \<leftarrow> ohash_qlookup roffcode h (take sz p);
     r \<leftarrow> ohash_find h' slot;
     Some (h', case r of None \<Rightarrow> None | Some l \<Rightarrow> Some (ascii l, length (ascii l))) }"

definition mchars_uc2str :: "int \<Rightarrow> string" where
  "mchars_uc2str uc = (case find (\<lambda>l. uc = unicode l) lines_all of Some l \<Rightarrow> ascii l | None \<Rightarrow> ''<?>'')"

subsection \<open>The table has no duplicate codes\<close>

text \<open>Checked on numbers that encode the codes, entered one by one into a search tree.\<close>

definition code_num :: "string \<Rightarrow> int" where
  "code_num s = foldl (\<lambda>n c. 256 * n + of_char c) 1 s"

datatype itree = Leaf | Node itree int itree

fun tree_set :: "itree \<Rightarrow> int set" where
  "tree_set Leaf = {}"
| "tree_set (Node l x r) = tree_set l \<union> {x} \<union> tree_set r"

fun search_tree :: "itree \<Rightarrow> bool" where
  "search_tree Leaf \<longleftrightarrow> True"
| "search_tree (Node l x r) \<longleftrightarrow>
     search_tree l \<and> search_tree r \<and> (\<forall>y \<in> tree_set l. y < x) \<and> (\<forall>y \<in> tree_set r. x < y)"

text \<open>Insertion that fails on a number the tree already has.\<close>

fun tree_add :: "int \<Rightarrow> itree \<Rightarrow> itree option" where
  "tree_add x Leaf = Some (Node Leaf x Leaf)"
| "tree_add x (Node l y r) =
     (if x < y then (case tree_add x l of None \<Rightarrow> None | Some l' \<Rightarrow> Some (Node l' y r))
      else if y < x then (case tree_add x r of None \<Rightarrow> None | Some r' \<Rightarrow> Some (Node l y r'))
      else None)"

fun tree_adds :: "int list \<Rightarrow> itree \<Rightarrow> itree option" where
  "tree_adds [] t = Some t"
| "tree_adds (x # xs) t = (case tree_add x t of None \<Rightarrow> None | Some t' \<Rightarrow> tree_adds xs t')"

lemma tree_add_Some:
  "search_tree t \<Longrightarrow> tree_add x t = Some t' \<Longrightarrow>
   search_tree t' \<and> tree_set t' = insert x (tree_set t) \<and> x \<notin> tree_set t"
proof (induction t arbitrary: t')
  case (Node l y r)
  consider l' where "x < y" "tree_add x l = Some l'" "t' = Node l' y r"
    | r' where "y < x" "tree_add x r = Some r'" "t' = Node l y r'"
    using Node.prems(2) by (auto split: if_splits option.splits)
  then show ?case
  proof cases
    case 1
    with Node.IH(1) [of l'] Node.prems(1) have "search_tree l'" "tree_set l' = insert x (tree_set l)"
      "x \<notin> tree_set l" "\<forall>y' \<in> tree_set r. y < y'" by simp_all
    with 1 Node.prems(1) show ?thesis by auto
  next
    case 2
    with Node.IH(2) [of r'] Node.prems(1) have "search_tree r'" "tree_set r' = insert x (tree_set r)"
      "x \<notin> tree_set r" "\<forall>y' \<in> tree_set l. y' < y" by simp_all
    with 2 Node.prems(1) show ?thesis by auto
  qed
qed auto

lemma tree_adds_distinct:
  "search_tree t \<Longrightarrow> tree_adds xs t = Some t' \<Longrightarrow> distinct xs \<and> set xs \<inter> tree_set t = {}"
  by (induction xs t rule: tree_adds.induct)
     (auto split: option.splits dest: tree_add_Some)

lemma tree_adds_codes: "tree_adds (map (\<lambda>l. code_num (roffcode l)) lines_all) Leaf \<noteq> None"
  by code_simp

lemma distinct_codes: "distinct (map roffcode lines_all)"
proof -
  have "distinct (map code_num (map roffcode lines_all))"
    using tree_adds_codes tree_adds_distinct [of Leaf] by (auto simp: o_def)
  then show ?thesis by (simp only: distinct_map)
qed

lemma length_lines: "length lines_all < 400"
  by code_simp

definition mchars_table :: "string \<Rightarrow> ln option" where
  "mchars_table = map_of (map (\<lambda>l. (roffcode l, l)) lines_all)"

definition mchars_ok :: "ln ohash \<Rightarrow> bool" where
  "mchars_ok h \<longleftrightarrow> ohash_ok roffcode h \<and> ohash_map roffcode h = mchars_table"

lemma mchars_enter_fill: "mchars_enter h ls = oht.fill roffcode h ls"
proof (induction ls arbitrary: h)
  case (Cons l ls)
  then show ?case
    by (cases "ohash_qlookup roffcode h (roffcode l)")
       (auto simp: oht.add_def split: Option.bind_splits)
qed simp

lemma mchars_alloc_ok: "\<exists>h. mchars_alloc = Some h \<and> mchars_ok h"
proof -
  have "ohash_room (ohash_init 9 :: ln ohash) (length lines_all)"
    using length_lines by (simp add: ohash_room_def ohash_init_def MINSIZE_def Let_def)
  then show ?thesis
    using oht.fill_ok [of roffcode "ohash_init 9" lines_all] distinct_codes
    by (auto simp: mchars_alloc_def mchars_enter_fill mchars_ok_def mchars_table_def ohash_init_ok)
qed

subsection \<open>Properties\<close>

text \<open>
  building the character table never fails its assertion (no code is listed twice); in the
  table built, and in every table that results from it by lookups, \<open>mchars_spec2cp\<close> returns
  the code point listed for a character name, and -1 exactly for the names that are not
  listed.\<close>

theorem mchars_spec2cp_correct:
  "(\<exists>h. mchars_alloc = Some h \<and> mchars_ok h) \<and>
   (\<forall>h p sz. mchars_ok h \<longrightarrow>
      (\<exists>h'. mchars_ok h' \<and> mchars_spec2cp h p sz =
        Some (h', case mchars_table (take sz p) of Some l \<Rightarrow> unicode l | None \<Rightarrow> -1)))"
proof (intro conjI allI impI)
  show "\<exists>h. mchars_alloc = Some h \<and> mchars_ok h" by (rule mchars_alloc_ok)
next
  fix h p sz
  assume "mchars_ok h"
  then have "ohash_ok roffcode h" "ohash_map roffcode h = mchars_table" by (simp_all add: mchars_ok_def)
  then show "\<exists>h'. mchars_ok h' \<and> mchars_spec2cp h p sz =
        Some (h', case mchars_table (take sz p) of Some l \<Rightarrow> unicode l | None \<Rightarrow> -1)"
    using oht.get_ok [of roffcode h "take sz p"]
    by (auto simp: oht.get_def mchars_spec2cp_def mchars_ok_def split: bind_splits)
qed

theorem mchars_spec2cp_correct_witness:
  "\<exists>h h1 h2. mchars_alloc = Some h \<and> mchars_spec2cp h ''bu]'' 2 = Some (h1, 8226) \<and>
     mchars_spec2cp h1 ''nosuch'' 6 = Some (h2, -1)"
proof -
  obtain h where h: "mchars_alloc = Some h" "mchars_ok h" using mchars_spec2cp_correct by blast
  have t: "map_option unicode (mchars_table ''bu'') = Some 8226" "mchars_table ''nosuch'' = None"
    by code_simp+
  have "\<exists>h1. mchars_ok h1 \<and> mchars_spec2cp h ''bu]'' 2 = Some (h1, 8226)"
    using conjunct2 [OF mchars_spec2cp_correct, rule_format, OF h(2), of "''bu]''" 2] t(1) by (auto simp: numeral_2_eq_2)
  then obtain h1 where h1: "mchars_ok h1" "mchars_spec2cp h ''bu]'' 2 = Some (h1, 8226)" by blast
  have "\<exists>h2. mchars_spec2cp h1 ''nosuch'' 6 = Some (h2, -1)"
    using conjunct2 [OF mchars_spec2cp_correct, rule_format, OF h1(1), of "''nosuch''" 6] t(2) by auto
  with h h1 show ?thesis by blast
qed

text \<open>
  \<open>mchars_spec2str\<close> returns the ASCII rendering listed for a character name, with its
  length, and NULL exactly for the names that are not listed.\<close>

theorem mchars_spec2str_correct:
  assumes "mchars_ok h"
  shows "\<exists>h'. mchars_ok h' \<and> mchars_spec2str h p sz =
     Some (h', map_option (\<lambda>l. (ascii l, length (ascii l))) (mchars_table (take sz p)))"
proof -
  have "ohash_ok roffcode h" "ohash_map roffcode h = mchars_table"
    using assms by (simp_all add: mchars_ok_def)
  then show ?thesis
    using oht.get_ok [of roffcode h "take sz p"]
    by (auto simp: oht.get_def mchars_spec2str_def mchars_ok_def map_option_case split: bind_splits)
qed

theorem mchars_spec2str_correct_witness:
  "\<exists>h h'. mchars_alloc = Some h \<and> mchars_spec2str h ''co'' 2 = Some (h', Some (''(C)'', 3))"
proof -
  obtain h where h: "mchars_alloc = Some h" "mchars_ok h" using mchars_alloc_ok by blast
  have t: "map_option ascii (mchars_table ''co'') = Some ''(C)''" by code_simp
  have "\<exists>h'. mchars_spec2str h ''co'' 2 = Some (h', Some (''(C)'', 3))"
    using mchars_spec2str_correct [OF h(2), of "''co''" 2] t by auto
  with h show ?thesis by blast
qed

text \<open>
  The value every \<open>mchars_spec2cp\<close> call returns once the table is built: callers that only
  need the number use this function of the name.
\<close>

definition special_cp :: "string \<Rightarrow> int" where
  "special_cp s = (case mchars_table s of Some l \<Rightarrow> unicode l | None \<Rightarrow> -1)"

lemma lines_unicode: "list_all (\<lambda>l. 0 \<le> unicode l \<and> unicode l \<le> 0x10FFFF) lines_all"
  by code_simp

end
