(* ===== verification/Roff_Escape.thy ===== *)
theory Roff_Escape
  imports Chars
begin

section \<open>The escape sequence parser: \<open>roff_escape.c\<close>\<close>

text \<open>
  \<open>roff_escape\<close> parses the escape sequence whose leading escape character is at byte
  \<open>aesc\<close> of the line \<open>buf\<close> and reports its class and the positions of its name, its
  argument and its end; a nested sequence that must be expanded first is reported instead of
  the outer one.  Each labelled part of the function is a definition that takes the local
  variables as a record and returns them updated, with \<open>Inl\<close> for a jump to the label
  \<open>out\<close> (or \<open>out_sub\<close>) and \<open>Inr\<close> for going on.  \<open>maxl\<close> is None for INT_MAX;
  \<open>argl\<close> is None while the variable is uninitialised.  The recursive call is a parameter of
  the parts that make it; \<open>roff_escape_rec\<close> ties the knot with fuel, and the depth of the
  recursion is bounded by the length of the line.
\<close>

record esc_state =
  e_rval :: mandoc_esc
  e_inam :: nat
  e_iarg :: nat
  e_iendarg :: nat
  e_iend :: nat
  e_maxl :: "nat option"
  e_term :: char
  e_err :: mandocerr
  e_argl :: "nat option"
  e_msgs :: "msg list"

record esc_out =
  o_rval :: mandoc_esc
  o_iesc :: nat
  o_inam :: nat
  o_iarg :: nat
  o_iendarg :: nat
  o_iend :: nat
  o_msgs :: "msg list"

text \<open>A jump to \<open>out\<close> keeps the variables; \<open>out_sub\<close> takes over those of the sub-escape.\<close>

datatype esc_exit = Goto_out esc_state | Goto_out_sub esc_state esc_out

abbreviation BSPACE :: char where "BSPACE \<equiv> CHR 0x08"

definition esc_init :: "nat \<Rightarrow> esc_state" where
  "esc_init inam = \<lparr>e_rval = ESCAPE_UNDEF, e_inam = inam, e_iarg = inam + 1, e_iendarg = inam + 1,
     e_iend = inam + 1, e_maxl = None, e_term = NUL, e_err = MANDOCERR_OK, e_argl = None, e_msgs = []\<rparr>"

text \<open>Escape sequences taking no arguments at all.\<close>

definition esc_noarg :: "char \<Rightarrow> esc_state \<Rightarrow> esc_state option" where
  "esc_noarg c st =
     (if c \<in> set ''!?r'' then Some (st\<lparr>e_rval := ESCAPE_UNSUPP\<rparr>)
      else if c \<in> set ''%&),/^adtu{|}'' then Some (st\<lparr>e_rval := ESCAPE_IGNORE\<rparr>)
      else if c = NUL then
        Some (st\<lparr>e_iend := e_iend st - 1, e_iendarg := e_iend st - 1, e_iarg := e_iarg st - 1,
                 e_rval := ESCAPE_UNDEF\<rparr>)
      else if c = SQUOTE \<or> c = CHR 0x60 \<or> c \<in> set '' -0:_e~'' then
        Some (st\<lparr>e_iarg := e_iarg st - 1, e_argl := Some 1, e_rval := ESCAPE_SPECIAL\<rparr>)
      else if c = CHR ''p'' then Some (st\<lparr>e_rval := ESCAPE_BREAK\<rparr>)
      else if c = CHR ''c'' then Some (st\<lparr>e_rval := ESCAPE_NOSPACE\<rparr>)
      else if c = CHR ''z'' then Some (st\<lparr>e_rval := ESCAPE_SKIPCHAR\<rparr>)
      else None)"

text \<open>Sizes support both forms, with additional peculiarities.\<close>

definition size_two :: "string \<Rightarrow> nat \<Rightarrow> char \<Rightarrow> bool option" where
  "size_two buf iarg d =
     (if d \<in> set ''123'' then do {
        p \<leftarrow> rd buf (iarg - 1);
        if p = CHR ''s'' then do { x \<leftarrow> rd buf (iarg + 1); Some (isdigit x) } else Some False }
      else Some False)"

definition esc_size_at :: "string \<Rightarrow> nat \<Rightarrow> esc_state \<Rightarrow> esc_state option" where
  "esc_size_at buf iarg st = do {
     d \<leftarrow> rd buf iarg;
     two \<leftarrow> size_two buf iarg d;
     let st1 = (if d = CHR ''('' then st\<lparr>e_maxl := Some 2, e_iarg := iarg + 1\<rparr>
                else if d = CHR ''['' then st\<lparr>e_term := CHR '']'', e_iarg := iarg + 1\<rparr>
                else if d = SQUOTE then st\<lparr>e_term := SQUOTE, e_iarg := iarg + 1\<rparr>
                else if two then st\<lparr>e_maxl := Some 2, e_iarg := iarg\<rparr>
                else st\<lparr>e_maxl := Some 1, e_iarg := iarg\<rparr>);
     Some (st1\<lparr>e_rval := ESCAPE_IGNORE, e_iendarg := e_iarg st1, e_iend := e_iarg st1\<rparr>)}"

definition esc_size :: "string \<Rightarrow> esc_state \<Rightarrow> esc_state option" where
  "esc_size buf st = do {
     c \<leftarrow> rd buf (e_iarg st);
     esc_size_at buf
       (if c = CHR ''+'' \<or> c = CHR ''-'' \<or> c = ASCII_HYPH then e_iarg st + 1 else e_iarg st) st}"

text \<open>Standard and quoted arguments; \<open>None\<close> inside when the name is in no group.\<close>

definition esc_form :: "string \<Rightarrow> char \<Rightarrow> esc_state \<Rightarrow> esc_state option option" where
  "esc_form buf c st =
     (if c \<in> set ''$*Vgn'' then Some (Some (st\<lparr>e_rval := ESCAPE_EXPAND\<rparr>))
      else if c \<in> set ''FMOYkm'' then Some (Some (st\<lparr>e_rval := ESCAPE_IGNORE\<rparr>))
      else if c = CHR ''('' \<or> c = CHR ''['' then
        Some (Some (st\<lparr>e_rval := ESCAPE_SPECIAL, e_iarg := e_iarg st - 1,
                       e_iendarg := e_iarg st - 1, e_iend := e_iarg st - 1\<rparr>))
      else if c = CHR ''f'' then Some (Some (st\<lparr>e_rval := ESCAPE_FONT\<rparr>))
      else if c \<in> set ''ABw'' then Some (Some (st\<lparr>e_rval := ESCAPE_EXPAND, e_term := BSPACE\<rparr>))
      else if c \<in> set ''DHLRSXZbvx'' then
        Some (Some (st\<lparr>e_rval := ESCAPE_IGNORE, e_term := BSPACE\<rparr>))
      else if c = CHR ''C'' then Some (Some (st\<lparr>e_rval := ESCAPE_SPECIAL, e_term := BSPACE\<rparr>))
      else if c = CHR ''N'' then Some (Some (st\<lparr>e_rval := ESCAPE_NUMBERED, e_term := BSPACE\<rparr>))
      else if c = CHR ''h'' then Some (Some (st\<lparr>e_rval := ESCAPE_HORIZ, e_term := BSPACE\<rparr>))
      else if c = CHR ''l'' then Some (Some (st\<lparr>e_rval := ESCAPE_HLINE, e_term := BSPACE\<rparr>))
      else if c = CHR ''o'' then Some (Some (st\<lparr>e_rval := ESCAPE_OVERSTRIKE, e_term := BSPACE\<rparr>))
      else if c = CHR ''s'' then map_option Some (esc_size buf st)
      else Some None)"

text \<open>The whole switch on the name; its \<open>default\<close> label is in the group without arguments.\<close>

definition esc_switch :: "string \<Rightarrow> esc_state \<Rightarrow> (esc_exit + esc_state) option" where
  "esc_switch buf st = do {
     c \<leftarrow> rd buf (e_inam st);
     case esc_noarg c st of
       Some st' \<Rightarrow> Some (Inl (Goto_out st'))
     | None \<Rightarrow> do {
         r \<leftarrow> esc_form buf c st;
         case r of
           Some st' \<Rightarrow> Some (Inr st')
         | None \<Rightarrow> Some (Inl (Goto_out (st\<lparr>e_iarg := e_iarg st - 1, e_rval := ESCAPE_UNDEF\<rparr>)))}}"

text \<open>Mandatory argument is missing.\<close>

definition esc_missing :: "string \<Rightarrow> esc_state \<Rightarrow> (esc_exit + esc_state) option" where
  "esc_missing buf st = do {
     c \<leftarrow> rd buf (e_iarg st);
     Some (if c = NUL \<and> (e_term st \<noteq> NUL \<or> e_maxl st \<noteq> None)
           then Inl (Goto_out (st\<lparr>e_err := MANDOCERR_ESC_INCOMPLETE\<rparr>)) else Inr st)}"

text \<open>
  Decide how to end the argument.  First a sub-escape at the start of the argument is parsed;
  the result is its output, if there is one.
\<close>

definition esc_sub :: "(nat \<Rightarrow> esc_out option) \<Rightarrow> string \<Rightarrow> nat \<Rightarrow> esc_state \<Rightarrow>
    (esc_exit + esc_state \<times> esc_out option) option" where
  "esc_sub sub buf iesc st = do {
     a \<leftarrow> rd buf (e_iarg st);
     e \<leftarrow> rd buf iesc;
     if (e_term st = BSPACE \<or> e_term st = NUL \<and> e_maxl st = None) \<and> a = e then do {
       r \<leftarrow> sub (e_iendarg st);
       Some (if o_rval r = ESCAPE_EXPAND then Inl (Goto_out_sub st r)
             else Inr (st\<lparr>e_msgs := e_msgs st @ o_msgs r\<rparr>, Some r))}
     else Some (Inr (st, None))}"

text \<open>The delimiter of a quoted argument; the second component is \<open>escterm\<close>.\<close>

definition esc_term :: "string \<Rightarrow> bool \<Rightarrow> esc_state \<Rightarrow> (esc_exit + esc_state \<times> bool) option" where
  "esc_term buf escterm st =
     (if e_term st = BSPACE then do {
        c \<leftarrow> rd buf (e_iarg st);
        Some (Inr (st\<lparr>e_term := c, e_iarg := e_iarg st + 1\<rparr>, escterm))}
      else Some (Inr (st, escterm)))"

definition esc_delim :: "string \<Rightarrow> char \<Rightarrow> esc_state \<Rightarrow> (esc_exit + esc_state \<times> bool) option" where
  "esc_delim buf nam st =
     (if strchr ''BDHLRSvxNhl'' nam then do {
        a \<leftarrow> rd buf (e_iarg st);
        if strchr '' %&()*+-./0123456789:<=>'' a then
          let st' = st\<lparr>e_err := MANDOCERR_ESC_DELIM,
                       e_rval := (if e_rval st \<noteq> ESCAPE_EXPAND then ESCAPE_ERROR else e_rval st)\<rparr>
          in if nam \<noteq> CHR ''D''
             then Some (Inl (Goto_out (st'\<lparr>e_iendarg := e_iarg st + 1, e_iend := e_iarg st + 1\<rparr>)))
             else esc_term buf False st'
        else esc_term buf False st}
      else esc_term buf False st)"

definition esc_quoted :: "string \<Rightarrow> char \<Rightarrow> esc_state \<Rightarrow> esc_out option \<Rightarrow>
    (esc_exit + esc_state \<times> bool) option" where
  "esc_quoted buf nam st so =
     (case so of
        None \<Rightarrow> esc_delim buf nam st
      | Some r \<Rightarrow>
          if o_rval r = ESCAPE_UNDEF then esc_delim buf nam (st\<lparr>e_iarg := e_iarg st + 1\<rparr>)
          else do {
            sn \<leftarrow> rd buf (o_inam r);
            if strchr ''BHLRSNhlvx'' nam \<and> strchr '' ,.0DLOXYZ^abdhlortuvx|~'' sn
            then Some (Inl (Goto_out (st\<lparr>e_err := MANDOCERR_ESC_DELIM, e_iend := o_iend r,
                              e_iarg := o_iesc r, e_iendarg := o_iesc r\<rparr>)))
            else esc_term buf True (st\<lparr>e_iarg := o_iend r, e_term := sn\<rparr>)})"

text \<open>The standard forms: one byte, two bytes after a parenthesis, or bracketed.\<close>

definition esc_standard_at :: "string \<Rightarrow> nat \<Rightarrow> esc_state \<Rightarrow> (esc_exit + esc_state \<times> bool) option" where
  "esc_standard_at buf iarg st = do {
     b \<leftarrow> rd buf iarg;
     if b = CHR ''('' then Some (Inr (st\<lparr>e_maxl := Some 2, e_iarg := iarg + 1\<rparr>, False))
     else if b = CHR ''['' then do {
       d \<leftarrow> rd buf (iarg + 1);
       Some (if d = CHR '' ''
             then Inl (Goto_out (st\<lparr>e_iarg := iarg + 1, e_iendarg := iarg + 2, e_iend := iarg + 2,
                               e_err := MANDOCERR_ESC_ARG, e_rval := ESCAPE_ERROR\<rparr>))
             else Inr (st\<lparr>e_iarg := iarg + 1, e_term := CHR '']''\<rparr>, False))}
     else Some (Inr (st\<lparr>e_maxl := Some 1, e_iarg := iarg\<rparr>, False))}"

definition esc_standard :: "string \<Rightarrow> char \<Rightarrow> esc_state \<Rightarrow> (esc_exit + esc_state \<times> bool) option" where
  "esc_standard buf nam st = do {
     a \<leftarrow> rd buf (e_iarg st);
     esc_standard_at buf
       (if nam = CHR ''n'' \<and> (a = CHR ''+'' \<or> a = CHR ''-'') then e_iarg st + 1 else e_iarg st) st}"

definition esc_start :: "string \<Rightarrow> esc_state \<Rightarrow> esc_out option \<Rightarrow> (esc_exit + esc_state \<times> bool) option" where
  "esc_start buf st so = do {
     nam \<leftarrow> rd buf (e_inam st);
     if e_term st = BSPACE then esc_quoted buf nam st so
     else if e_term st = NUL \<and> e_maxl st = None then esc_standard buf nam st
     else Some (Inr (st, False))}"

text \<open>Advance to the end of the argument; the second component is \<open>valid_A\<close>.\<close>

fun esc_loop :: "nat \<Rightarrow> (nat \<Rightarrow> esc_out option) \<Rightarrow> string \<Rightarrow> char \<Rightarrow> char \<Rightarrow> bool \<Rightarrow> esc_state \<Rightarrow> bool \<Rightarrow>
    (esc_exit + esc_state \<times> bool) option" where
  "esc_loop 0 sub buf esc nam escterm st valid = None"
| "esc_loop (Suc fuel) sub buf esc nam escterm st valid =
     (if e_maxl st = Some 0 then Some (Inr (st, valid))
      else do {
        c \<leftarrow> rd buf (e_iendarg st);
        if c = NUL then
          Some (Inr (st\<lparr>e_err := MANDOCERR_ESC_INCOMPLETE,
                  e_rval := (if e_rval st \<noteq> ESCAPE_EXPAND \<and> e_rval st \<noteq> ESCAPE_OVERSTRIKE
                             then ESCAPE_ERROR else e_rval st),
                  e_iendarg := (if strchr ''Aow'' nam then e_iendarg st else e_iarg st)\<rparr>, valid))
        else if \<not> escterm \<and> c = e_term st then
          Some (Inr (st\<lparr>e_iend := e_iendarg st + 1\<rparr>, valid))
        else if c = esc then do {
          r \<leftarrow> sub (e_iendarg st);
          if o_rval r = ESCAPE_EXPAND then Some (Inl (Goto_out_sub st r))
          else do {
            let st' = st\<lparr>e_iend := o_iend r, e_msgs := e_msgs st @ o_msgs r\<rparr>;
            sn \<leftarrow> (if escterm then rd buf (o_inam r) else Some NUL);
            if escterm \<and> (sn = e_term st \<or> nam = CHR ''N'') then Some (Inr (st', valid))
            else esc_loop fuel sub buf esc nam escterm (st'\<lparr>e_iendarg := o_iend r\<rparr>)
                   (valid \<and> o_rval r = ESCAPE_UNDEF)}}
        else if nam = CHR ''N'' \<and> \<not> isdigit c then
          Some (Inr (st\<lparr>e_iend := e_iendarg st + 1\<rparr>, valid))
        else
          esc_loop fuel sub buf esc nam escterm
            (st\<lparr>e_maxl := map_option (\<lambda>n. n - 1) (e_maxl st), e_iendarg := e_iendarg st + 1,
               e_iend := e_iendarg st + 1\<rparr>)
            (valid \<and> c \<noteq> CHR '' '' \<and> c \<noteq> TAB)})"

text \<open>Post-process depending on the content of the argument.\<close>

definition esc_post :: "bool \<Rightarrow> string \<Rightarrow> char \<Rightarrow> bool \<Rightarrow> nat \<Rightarrow> esc_state \<Rightarrow> esc_state option" where
  "esc_post resc_null buf nam valid argl st =
     (if nam = CHR ''*'' then
        if resc_null \<and> argl = 2 then do {
          a \<leftarrow> rd buf (e_iarg st);
          b \<leftarrow> (if a = CHR ''.'' then rd buf (e_iarg st + 1) else Some NUL);
          Some (if b = CHR ''T'' then st\<lparr>e_rval := ESCAPE_DEVICE\<rparr> else st)}
        else Some st
      else if nam = CHR ''A'' then
        Some (if \<not> valid then st\<lparr>e_iendarg := e_iarg st\<rparr> else st)
      else if nam = CHR ''O'' then do {
        a \<leftarrow> rd buf (e_iarg st);
        p \<leftarrow> (if a = CHR ''5'' then rd buf (e_iarg st - 1) else Some NUL);
        Some (if a = CHR ''0'' then st\<lparr>e_rval := ESCAPE_UNSUPP\<rparr>
              else if a \<in> set ''1234'' \<and> argl = 1 then st\<lparr>e_rval := ESCAPE_IGNORE\<rparr>
              else if a = CHR ''5'' \<and> p = CHR ''['' then st\<lparr>e_rval := ESCAPE_UNSUPP\<rparr>
              else st\<lparr>e_err := MANDOCERR_ESC_ARG, e_rval := ESCAPE_ERROR\<rparr>)}
      else Some st)"

text \<open>\<open>strspn\<close>, and the decimal value the loop over \<open>\[char...]\<close> computes.\<close>

definition strspn :: "string \<Rightarrow> nat \<Rightarrow> string \<Rightarrow> nat" where
  "strspn buf i cs = length (takeWhile (\<lambda>c. c \<in> set cs) (drop i buf))"

definition char_value :: "string \<Rightarrow> nat \<Rightarrow> nat \<Rightarrow> int" where
  "char_value buf i n = foldl (\<lambda>c x. 10 * c + digit_val x) 0 (take n (drop i buf))"

definition bad_codepoint :: "int \<Rightarrow> bool" where
  "bad_codepoint c \<longleftrightarrow> c < 0x21 \<or> (0x7e < c \<and> c < 0xa0) \<or> 0xff < c"

definition esc_special_char :: "string \<Rightarrow> nat \<Rightarrow> esc_state \<Rightarrow> esc_state" where
  "esc_special_char buf argl st =
     (if argl < 6 \<or> argl > 7 \<or> take 4 (drop (e_iarg st) buf) \<noteq> ''char'' \<or>
         strspn buf (e_iarg st + 4) ''0123456789'' + 4 < argl then st
      else if bad_codepoint (char_value buf (e_iarg st) (e_iendarg st - e_iarg st))
      then st\<lparr>e_err := MANDOCERR_ESC_BADCHAR\<rparr>
      else st\<lparr>e_iarg := e_iarg st + 4, e_rval := ESCAPE_NUMBERED\<rparr>)"

definition esc_special_unicode :: "string \<Rightarrow> nat \<Rightarrow> esc_state \<Rightarrow> esc_state option" where
  "esc_special_unicode buf argl st = do {
     let i = e_iarg st;
     let bad = st\<lparr>e_err := MANDOCERR_ESC_BADCHAR\<rparr>;
     a \<leftarrow> rd buf i;
     if a \<noteq> CHR ''u'' \<or> argl < 5 \<or> argl > 7 then Some st
     else do {
       b \<leftarrow> rd buf (i + 1);
       c \<leftarrow> (if argl = 7 \<and> b = CHR ''1'' \<or> argl = 5 \<and> toupper b = CHR ''D''
             then rd buf (i + 2) else Some NUL);
       Some (if argl = 7 \<and> (b \<noteq> CHR ''1'' \<or> c \<noteq> CHR ''0'') then bad
             else if argl = 6 \<and> b = CHR ''0'' then bad
             else if argl = 5 \<and> toupper b = CHR ''D'' \<and> strchr ''89ABCDEFabcdef'' c then bad
             else if strspn buf (i + 1) ''0123456789ABCDEFabcdef'' + 1 = argl
             then st\<lparr>e_rval := ESCAPE_UNICODE\<rparr> else st)}}"

definition esc_special :: "string \<Rightarrow> nat \<Rightarrow> esc_state \<Rightarrow> esc_state option" where
  "esc_special buf argl st =
     (if argl = 0 then Some (st\<lparr>e_err := MANDOCERR_ESC_BADCHAR, e_rval := ESCAPE_ERROR\<rparr>)
      else do {
        a \<leftarrow> rd buf (e_iarg st);
        if e_term st \<noteq> NUL \<and> argl = 1 \<and> a \<noteq> CHR ''-''
        then Some (st\<lparr>e_err := MANDOCERR_ESC_BADCHAR, e_rval := ESCAPE_ERROR\<rparr>)
        else if a = CHR ''c'' then Some (esc_special_char buf argl st)
        else esc_special_unicode buf argl st})"

definition esc_class :: "string \<Rightarrow> nat \<Rightarrow> esc_state \<Rightarrow> esc_state option" where
  "esc_class buf argl st =
     (case e_rval st of
        ESCAPE_FONT \<Rightarrow> do {
          f \<leftarrow> mandoc_font buf (e_iarg st) argl;
          Some (st\<lparr>e_rval := f, e_err := (if f = ESCAPE_ERROR then MANDOCERR_ESC_ARG else e_err st)\<rparr>)}
      | ESCAPE_SPECIAL \<Rightarrow> esc_special buf argl st
      | _ \<Rightarrow> Some st)"

text \<open>The label \<open>out\<close>: diagnostics are only issued when called from the parser.\<close>

definition esc_diag :: "string \<Rightarrow> esc_state \<Rightarrow> mandocerr option" where
  "esc_diag buf st =
     (case e_rval st of
        ESCAPE_UNSUPP \<Rightarrow> Some MANDOCERR_ESC_UNSUPP
      | ESCAPE_UNDEF \<Rightarrow> do {
          c \<leftarrow> rd buf (e_inam st);
          Some (if c \<noteq> BSLASH \<and> c \<noteq> CHR ''.'' then MANDOCERR_ESC_UNDEF else e_err st)}
      | ESCAPE_SPECIAL \<Rightarrow> do {
          argl \<leftarrow> e_argl st;
          Some (if 0 \<le> special_cp (take argl (drop (e_iarg st) buf)) then MANDOCERR_OK
                else if e_err st = MANDOCERR_OK then MANDOCERR_ESC_UNKCHAR else e_err st)}
      | _ \<Rightarrow> Some (e_err st))"

definition esc_out_msgs :: "string \<Rightarrow> nat \<Rightarrow> nat \<Rightarrow> esc_state \<Rightarrow> msg list option" where
  "esc_out_msgs buf ln iesc st =
     (if ln = 0 then Some (e_msgs st)
      else do {
        err \<leftarrow> esc_diag buf st;
        Some (e_msgs st @ (if err = MANDOCERR_OK then []
              else [(err, ln, iesc, take (e_iend st - iesc) (drop iesc buf))]))})"

definition esc_return :: "string \<Rightarrow> nat \<Rightarrow> nat \<Rightarrow> esc_state \<Rightarrow> esc_out option" where
  "esc_return buf ln iesc st = do {
     ms \<leftarrow> esc_out_msgs buf ln iesc st;
     Some \<lparr>o_rval = e_rval st, o_iesc = iesc, o_inam = e_inam st, o_iarg = e_iarg st,
           o_iendarg = e_iendarg st, o_iend = e_iend st, o_msgs = ms\<rparr>}"

text \<open>\<open>out_sub\<close> takes over the positions of the sub-escape and falls through to \<open>out\<close>.\<close>

definition esc_exit_at :: "string \<Rightarrow> nat \<Rightarrow> nat \<Rightarrow> esc_exit \<Rightarrow> esc_out option" where
  "esc_exit_at buf ln iesc x =
     (case x of
        Goto_out st \<Rightarrow> esc_return buf ln iesc st
      | Goto_out_sub st r \<Rightarrow>
          esc_return buf ln (o_iesc r)
            (st\<lparr>e_inam := o_inam r, e_iarg := o_iarg r, e_iendarg := o_iendarg r,
               e_iend := o_iend r, e_rval := ESCAPE_EXPAND, e_msgs := e_msgs st @ o_msgs r\<rparr>))"

text \<open>Running a part and, unless it jumped to one of the labels, the rest of the function.\<close>

definition esc_then :: "string \<Rightarrow> nat \<Rightarrow> nat \<Rightarrow> (esc_exit + 'a) option \<Rightarrow> ('a \<Rightarrow> esc_out option) \<Rightarrow> esc_out option" where
  "esc_then buf ln iesc m k =
     (case m of None \<Rightarrow> None | Some (Inl x) \<Rightarrow> esc_exit_at buf ln iesc x | Some (Inr a) \<Rightarrow> k a)"

definition esc_finish :: "bool \<Rightarrow> string \<Rightarrow> nat \<Rightarrow> nat \<Rightarrow> char \<Rightarrow> esc_state \<times> bool \<Rightarrow> esc_out option" where
  "esc_finish resc_null buf ln aesc nam = (\<lambda>(st, valid). do {
     let argl = e_iendarg st - e_iarg st;
     st1 \<leftarrow> esc_post resc_null buf nam valid argl (st\<lparr>e_argl := Some argl\<rparr>);
     st2 \<leftarrow> esc_class buf argl st1;
     esc_exit_at buf ln aesc (Goto_out st2)})"

definition esc_argument :: "(nat \<Rightarrow> esc_out option) \<Rightarrow> bool \<Rightarrow> string \<Rightarrow> nat \<Rightarrow> nat \<Rightarrow> esc_state \<times> bool \<Rightarrow>
    esc_out option" where
  "esc_argument sub resc_null buf ln aesc = (\<lambda>(st, escterm). do {
     nam \<leftarrow> rd buf (e_inam st);
     esc \<leftarrow> rd buf aesc;
     esc_then buf ln aesc
       (esc_loop (Suc (Suc (length buf))) sub buf esc nam escterm (st\<lparr>e_iendarg := e_iarg st\<rparr>) True)
       (esc_finish resc_null buf ln aesc nam)})"

definition esc_body :: "(nat \<Rightarrow> esc_out option) \<Rightarrow> bool \<Rightarrow> string \<Rightarrow> nat \<Rightarrow> nat \<Rightarrow> esc_out option" where
  "esc_body sub resc_null buf ln aesc = do {
     inam \<leftarrow> scan_while (\<lambda>c. c = CHR ''E'') buf (aesc + 1);
     esc_then buf ln aesc (esc_switch buf (esc_init inam)) (\<lambda>st.
     esc_then buf ln aesc (esc_missing buf st) (\<lambda>st.
     esc_then buf ln aesc (esc_sub sub buf aesc st) (\<lambda>(st, so).
     esc_then buf ln aesc (esc_start buf st so) (esc_argument sub resc_null buf ln aesc))))}"

text \<open>The sub-escapes are parsed with all result pointers present.\<close>

fun roff_escape_rec :: "nat \<Rightarrow> bool \<Rightarrow> string \<Rightarrow> nat \<Rightarrow> nat \<Rightarrow> esc_out option" where
  "roff_escape_rec 0 resc_null buf ln aesc = None"
| "roff_escape_rec (Suc fuel) resc_null buf ln aesc =
     esc_body (roff_escape_rec fuel False buf ln) resc_null buf ln aesc"

definition roff_escape :: "bool \<Rightarrow> string \<Rightarrow> nat \<Rightarrow> nat \<Rightarrow> esc_out option" where
  "roff_escape resc_null buf ln aesc = roff_escape_rec (Suc (length buf)) resc_null buf ln aesc"

text \<open>
  \<open>mandoc_escape\<close>, on the string that starts at the escape character (one byte before
  \<open>*rendarg\<close>): the class, the offset and length of the argument, and the offset at which
  \<open>*rendarg\<close> is left.
\<close>

definition mandoc_escape :: "string \<Rightarrow> (mandoc_esc \<times> nat \<times> nat \<times> nat) option" where
  "mandoc_escape s = do {
     r \<leftarrow> roff_escape True s 0 0;
     if o_rval r = ESCAPE_EXPAND then None
     else Some (o_rval r, o_iarg r, o_iendarg r - o_iarg r, o_iend r)}"


subsection \<open>Memory safety and termination\<close>

text \<open>
  The line ends in an escape character, possibly followed by the letters E that the parser
  skips: the name of the last escape sequence is the terminator.  And: it ends in such a
  sequence with the name C.
\<close>

definition trailing_esc :: "char \<Rightarrow> string \<Rightarrow> bool" where
  "trailing_esc c s \<longleftrightarrow> (case dropWhile (\<lambda>x. x = CHR ''E'') (rev s) of [] \<Rightarrow> False | x # _ \<Rightarrow> x = c)"

definition trailing_C :: "char \<Rightarrow> string \<Rightarrow> bool" where
  "trailing_C c s \<longleftrightarrow> s \<noteq> [] \<and> last s = CHR ''C'' \<and> trailing_esc c (butlast s)"

definition line_ok :: "string \<Rightarrow> char \<Rightarrow> nat \<Rightarrow> bool" where
  "line_ok buf c ln \<longleftrightarrow>
     c \<noteq> NUL \<and> c \<noteq> CHR ''E'' \<and> cstring buf \<and> \<not> trailing_esc c buf \<and> (ln = 0 \<or> \<not> trailing_C c buf)"

definition res_ok :: "string \<Rightarrow> char \<Rightarrow> nat \<Rightarrow> esc_out \<Rightarrow> bool" where
  "res_ok buf c aesc r \<longleftrightarrow>
     aesc \<le> o_iesc r \<and> o_iesc r < length buf \<and> buf ! o_iesc r = c \<and>
     o_iesc r < o_inam r \<and> o_inam r \<le> length buf \<and>
     o_iarg r \<le> o_iendarg r \<and> o_iendarg r \<le> length buf \<and>
     o_iesc r < o_iend r \<and> o_iend r \<le> length buf \<and>
     (o_rval r \<noteq> ESCAPE_EXPAND \<longrightarrow> o_iesc r = aesc) \<and>
     (rd buf (o_inam r) = Some BSPACE \<longrightarrow> o_rval r = ESCAPE_UNDEF)"

text \<open>The variables at the label \<open>out\<close>, and between the parts.\<close>

definition out_ok :: "string \<Rightarrow> nat \<Rightarrow> nat \<Rightarrow> esc_state \<Rightarrow> bool" where
  "out_ok buf ln aesc st \<longleftrightarrow>
     aesc < e_inam st \<and> e_inam st \<le> length buf \<and> e_iarg st \<le> e_iendarg st \<and>
     e_iendarg st \<le> length buf \<and> aesc < e_iend st \<and> e_iend st \<le> length buf \<and>
     (ln \<noteq> 0 \<longrightarrow> e_rval st = ESCAPE_SPECIAL \<longrightarrow> e_argl st \<noteq> None) \<and>
     (rd buf (e_inam st) = Some BSPACE \<longrightarrow> e_rval st = ESCAPE_UNDEF)"

fun exit_ok :: "string \<Rightarrow> char \<Rightarrow> nat \<Rightarrow> nat \<Rightarrow> esc_exit \<Rightarrow> bool" where
  "exit_ok buf c ln aesc (Goto_out st) \<longleftrightarrow> out_ok buf ln aesc st"
| "exit_ok buf c ln aesc (Goto_out_sub st r) \<longleftrightarrow>
     o_rval r = ESCAPE_EXPAND \<and> (\<exists>p > aesc. res_ok buf c p r)"

definition mid_ok :: "string \<Rightarrow> nat \<Rightarrow> esc_state \<Rightarrow> bool" where
  "mid_ok buf aesc st \<longleftrightarrow>
     aesc < e_inam st \<and> e_inam st < length buf \<and> e_inam st \<le> e_iarg st \<and> e_iarg st \<le> length buf \<and>
     aesc < e_iend st \<and> e_iend st \<le> length buf \<and>
     buf ! e_inam st \<noteq> BSPACE \<and>
     (e_rval st = ESCAPE_SPECIAL \<longrightarrow> buf ! e_inam st \<in> set ''([C'')"

definition returns_ok :: "string \<Rightarrow> char \<Rightarrow> nat \<Rightarrow> esc_out option \<Rightarrow> bool" where
  "returns_ok buf c aesc m \<longleftrightarrow> (\<exists>r. m = Some r \<and> res_ok buf c aesc r)"

definition step_ok :: "string \<Rightarrow> char \<Rightarrow> nat \<Rightarrow> nat \<Rightarrow> ('a \<Rightarrow> bool) \<Rightarrow> (esc_exit + 'a) option \<Rightarrow> bool" where
  "step_ok buf c ln aesc Q m \<longleftrightarrow>
     (\<exists>x. m = Some x \<and> (case x of Inl e \<Rightarrow> exit_ok buf c ln aesc e | Inr a \<Rightarrow> Q a))"

lemma step_ok_Inl [simp]: "step_ok buf c ln aesc Q (Some (Inl e)) \<longleftrightarrow> exit_ok buf c ln aesc e"
  by (simp add: step_ok_def)

lemma step_ok_Inr [simp]: "step_ok buf c ln aesc Q (Some (Inr a)) \<longleftrightarrow> Q a"
  by (simp add: step_ok_def)

lemma esc_return_ok:
  assumes "out_ok buf ln aesc st" "aesc < length buf" "buf ! aesc = c"
  shows "returns_ok buf c aesc (esc_return buf ln aesc st)"
proof -
  obtain nam where "rd buf (e_inam st) = Some nam"
    using assms(1) rd_le_Some [of "e_inam st" buf] by (auto simp: out_ok_def)
  then have "ln \<noteq> 0 \<Longrightarrow> \<exists>e. esc_diag buf st = Some e"
    using assms(1) by (cases "e_rval st") (auto simp: esc_diag_def out_ok_def)
  then obtain ms where "esc_out_msgs buf ln aesc st = Some ms"
    by (cases "ln = 0") (auto simp: esc_out_msgs_def)
  then show ?thesis
    using assms by (simp add: esc_return_def returns_ok_def res_ok_def out_ok_def)
qed

lemma esc_exit_at_ok:
  assumes "exit_ok buf c ln aesc x" "aesc < length buf" "buf ! aesc = c"
  shows "returns_ok buf c aesc (esc_exit_at buf ln aesc x)"
proof (cases x)
  case (Goto_out st)
  then show ?thesis using assms esc_return_ok [of buf ln aesc st] by (simp add: esc_exit_at_def)
next
  case (Goto_out_sub st r)
  then obtain p where p: "aesc < p" "res_ok buf c p r" "o_rval r = ESCAPE_EXPAND" using assms by auto
  let ?st = "st\<lparr>e_inam := o_inam r, e_iarg := o_iarg r, e_iendarg := o_iendarg r,
               e_iend := o_iend r, e_rval := ESCAPE_EXPAND, e_msgs := e_msgs st @ o_msgs r\<rparr>"
  have "out_ok buf ln (o_iesc r) ?st" using p by (simp add: out_ok_def res_ok_def)
  then obtain r' where r': "esc_return buf ln (o_iesc r) ?st = Some r'" "res_ok buf c (o_iesc r) r'"
    using esc_return_ok [of buf ln "o_iesc r" ?st c] p by (auto simp: returns_ok_def res_ok_def)
  moreover have "o_rval r' = ESCAPE_EXPAND"
    using r'(1) by (auto simp: esc_return_def split: bind_splits)
  ultimately show ?thesis
    using p by (auto simp: esc_exit_at_def Goto_out_sub returns_ok_def res_ok_def)
qed

lemma esc_then_ok:
  assumes "step_ok buf c ln aesc Q m" "aesc < length buf" "buf ! aesc = c"
    "\<And>a. Q a \<Longrightarrow> returns_ok buf c aesc (k a)"
  shows "returns_ok buf c aesc (esc_then buf ln aesc m k)"
proof -
  obtain x where x: "m = Some x" "case x of Inl e \<Rightarrow> exit_ok buf c ln aesc e | Inr a \<Rightarrow> Q a"
    using assms(1) by (auto simp: step_ok_def)
  then show ?thesis
    using assms(4) esc_exit_at_ok [OF _ assms(2,3)] by (cases x) (simp_all add: esc_then_def)
qed


text \<open>What a part before the loop establishes when it goes on.\<close>

definition form_ok :: "string \<Rightarrow> nat \<Rightarrow> nat \<Rightarrow> esc_state \<Rightarrow> bool" where
  "form_ok buf aesc inam st \<longleftrightarrow> mid_ok buf aesc st \<and> e_inam st = inam \<and> e_iendarg st = e_iarg st \<and>
     (e_rval st = ESCAPE_SPECIAL \<longrightarrow> e_term st = NUL \<and> e_maxl st = None \<or>
        buf ! e_inam st = CHR ''C'' \<and> e_iarg st = e_inam st + 1)"

definition given_ok :: "string \<Rightarrow> nat \<Rightarrow> nat \<Rightarrow> esc_state \<Rightarrow> bool" where
  "given_ok buf aesc inam st \<longleftrightarrow> form_ok buf aesc inam st \<and>
     (e_term st \<noteq> NUL \<or> e_maxl st \<noteq> None \<longrightarrow> e_iarg st < length buf)"

lemma given_ok_msgs [simp]: "given_ok buf aesc inam (st\<lparr>e_msgs := ms\<rparr>) = given_ok buf aesc inam st"
  by (simp add: given_ok_def form_ok_def mid_ok_def)

lemma esc_noarg_ok:
  assumes "esc_noarg nam (esc_init inam) = Some st" "aesc < inam" "inam \<le> length buf"
    "nam \<noteq> NUL \<Longrightarrow> inam < length buf" "rd buf inam = Some nam"
  shows "out_ok buf ln aesc st"
proof (cases "nam = NUL")
  case True
  with assms show ?thesis by (auto simp: esc_noarg_def esc_init_def out_ok_def)
next
  case False
  with assms(4) have "inam < length buf" by blast
  moreover have "nam \<noteq> BSPACE" using assms(1) by (auto simp: esc_noarg_def)
  ultimately show ?thesis using assms(1,2,5)
    by (auto simp: esc_noarg_def esc_init_def out_ok_def split: if_split_asm simp del: list.set)
qed

lemma esc_size_at_ok:
  assumes "aesc < inam" "inam < i" "i \<le> length buf" "buf ! inam = CHR ''s''"
  shows "\<exists>st. esc_size_at buf i (esc_init inam) = Some st \<and> form_ok buf aesc inam st"
proof -
  obtain d where d: "rd buf i = Some d" using assms(3) rd_le_Some by blast
  have less: "d \<noteq> NUL \<Longrightarrow> i < length buf" using rd_not_NUL_less [OF d] .
  obtain p where "rd buf (i - 1) = Some p" using rd_le_Some [of "i - 1" buf] assms(3) by fastforce
  moreover have "\<exists>x. rd buf (i + 1) = Some x" if "d \<in> set ''123''"
    using that less rd_le_Some [of "i + 1" buf] by auto
  ultimately have "\<exists>b. size_two buf i d = Some b"
    by (cases "d \<in> set ''123''") (auto simp: size_two_def simp del: list.set)
  then obtain b where "size_two buf i d = Some b" ..
  then show ?thesis
    using d assms less
    by (simp add: esc_size_at_def form_ok_def mid_ok_def esc_init_def Let_def Suc_le_eq)
qed

lemma esc_size_ok:
  assumes "aesc < inam" "inam < length buf" "buf ! inam = CHR ''s''"
  shows "\<exists>st. esc_size buf (esc_init inam) = Some st \<and> form_ok buf aesc inam st"
proof -
  obtain c where c: "rd buf (inam + 1) = Some c" using rd_le_Some [of "inam + 1" buf] assms by auto
  have "c \<noteq> NUL \<Longrightarrow> inam + 1 < length buf" using rd_not_NUL_less [OF c] .
  then show ?thesis
    using c assms esc_size_at_ok [of aesc inam _ buf]
    by (auto simp: esc_size_def esc_init_def [of inam, THEN arg_cong [of _ _ e_iarg]] Suc_le_eq)
qed

lemma esc_form_ok:
  assumes "aesc < inam" "inam < length buf" "nam = buf ! inam"
  shows "\<exists>r. esc_form buf nam (esc_init inam) = Some r \<and> (\<forall>st. r = Some st \<longrightarrow> form_ok buf aesc inam st)"
proof (cases "nam = CHR ''s''")
  case True
  then show ?thesis using assms esc_size_ok [OF assms(1,2)] by (simp add: esc_form_def) blast
next
  case False
  then show ?thesis
    using assms by (auto simp: esc_form_def form_ok_def mid_ok_def esc_init_def)
qed

lemma esc_switch_ok:
  assumes "aesc < inam" "inam \<le> length buf" "cstring buf"
  shows "step_ok buf c ln aesc (form_ok buf aesc inam) (esc_switch buf (esc_init inam))"
proof -
  obtain nam where nam: "rd buf inam = Some nam" using assms rd_le_Some by blast
  have less: "nam \<noteq> NUL \<Longrightarrow> inam < length buf" using rd_not_NUL_less [OF nam] .
  show ?thesis
  proof (cases "esc_noarg nam (esc_init inam)")
    case (Some st)
    then show ?thesis
      using nam esc_noarg_ok [OF Some assms(1,2) less nam, of ln]
      by (simp add: esc_switch_def esc_init_def)
  next
    case None
    then have lt: "inam < length buf" using less by (auto simp: esc_noarg_def split: if_splits)
    then have "nam = buf ! inam" using nam by (simp add: rd_in)
    then obtain r where r: "esc_form buf nam (esc_init inam) = Some r" "\<forall>st. r = Some st \<longrightarrow> form_ok buf aesc inam st"
      using esc_form_ok [OF assms(1) lt] by blast
    have i: "e_inam (esc_init inam) = inam" by (simp add: esc_init_def)
    show ?thesis
    proof (cases r)
      case (Some st)
      then show ?thesis using r nam None by (simp add: esc_switch_def i)
    next
      case None': None
      then show ?thesis
        using r nam None lt assms by (simp add: esc_switch_def i) (simp add: esc_init_def out_ok_def)
    qed
  qed
qed


lemma trailing_escI:
  assumes "p < length s" "s ! p = c" "c \<noteq> CHR ''E''" "\<And>i. p < i \<Longrightarrow> i < length s \<Longrightarrow> s ! i = CHR ''E''"
  shows "trailing_esc c s"
proof -
  have "rev s = rev (drop (Suc p) s) @ c # rev (take p s)"
    using assms(1,2) id_take_nth_drop [of p s] by (metis append.assoc append_Cons append_Nil rev.simps(2) rev_append)
  moreover have "dropWhile (\<lambda>x. x = CHR ''E'') (rev (drop (Suc p) s) @ c # rev (take p s)) = c # rev (take p s)"
    using assms(3,4) by (subst dropWhile_append2) (auto simp: in_set_conv_nth)
  ultimately show ?thesis by (simp add: trailing_esc_def)
qed

lemma name_after_esc:
  assumes "line_ok buf c ln" "aesc < length buf" "buf ! aesc = c"
    "scan_while (\<lambda>c. c = CHR ''E'') buf (aesc + 1) = Some inam"
  shows "aesc < inam" "inam < length buf"
proof -
  show "aesc < inam" using scan_while_ge [OF assms(4)] by simp
  have le: "inam \<le> length buf" using scan_while_le [OF assms(4)] .
  have all: "buf ! i = CHR ''E''" if "aesc < i" "i < inam" for i
    using scan_while_range [OF assms(4), of i] that le by (auto simp: rd_in)
  show "inam < length buf"
  proof (rule ccontr)
    assume "\<not> inam < length buf"
    then have "trailing_esc c buf"
      using assms all le by (intro trailing_escI [of aesc]) (auto simp: line_ok_def)
    with assms(1) show False by (simp add: line_ok_def)
  qed
qed

lemma trailing_C_scan:
  assumes "line_ok buf c ln" "aesc < length buf" "buf ! aesc = c"
    "scan_while (\<lambda>c. c = CHR ''E'') buf (aesc + 1) = Some inam"
    "buf ! inam = CHR ''C''" "Suc inam = length buf"
  shows "trailing_C c buf"
proof -
  have lt: "aesc < inam" using name_after_esc [OF assms(1-4)] by simp
  have all: "buf ! i = CHR ''E''" if "aesc < i" "i < inam" for i
    using scan_while_range [OF assms(4), of i] that assms(6) by (auto simp: rd_in)
  have len: "length (butlast buf) = inam" using assms(6) by (simp flip: assms(6))
  have "last buf = CHR ''C''" using assms(5,6) by (metis diff_Suc_1 last_conv_nth length_0_conv nat.distinct(1))
  moreover have "trailing_esc c (butlast buf)"
    using assms all lt len by (intro trailing_escI [of aesc]) (auto simp: line_ok_def nth_butlast)
  ultimately show ?thesis using assms(2) by (auto simp: trailing_C_def)
qed

lemma esc_missing_ok:
  assumes "line_ok buf c ln" "aesc < length buf" "buf ! aesc = c"
    "scan_while (\<lambda>c. c = CHR ''E'') buf (aesc + 1) = Some inam" "form_ok buf aesc inam st"
  shows "step_ok buf c ln aesc (given_ok buf aesc inam) (esc_missing buf st)"
proof -
  have m: "mid_ok buf aesc st" "e_inam st = inam" "e_iendarg st = e_iarg st"
    "e_rval st = ESCAPE_SPECIAL \<longrightarrow> e_term st = NUL \<and> e_maxl st = None \<or>
        buf ! inam = CHR ''C'' \<and> e_iarg st = inam + 1"
    using assms(5) by (auto simp: form_ok_def)
  then obtain a where a: "rd buf (e_iarg st) = Some a" using rd_le_Some by (auto simp: mid_ok_def)
  show ?thesis
  proof (cases "a = NUL \<and> (e_term st \<noteq> NUL \<or> e_maxl st \<noteq> None)")
    case True
    then have "e_iarg st = length buf" using a assms(1) rd_NUL_iff by (auto simp: line_ok_def)
    then have "ln \<noteq> 0 \<longrightarrow> e_rval st \<noteq> ESCAPE_SPECIAL"
      using m(4) True trailing_C_scan [OF assms(1-4)] assms(1) by (auto simp: line_ok_def)
    then show ?thesis
      using True a m by (simp add: esc_missing_def out_ok_def mid_ok_def rd_in)
  next
    case False
    then have "e_term st \<noteq> NUL \<or> e_maxl st \<noteq> None \<longrightarrow> e_iarg st < length buf"
      using a rd_not_NUL_less by blast
    then show ?thesis using False a assms(5) by (auto simp: esc_missing_def given_ok_def)
  qed
qed

text \<open>The contract of the recursive call.\<close>

definition sub_ok :: "string \<Rightarrow> char \<Rightarrow> nat \<Rightarrow> (nat \<Rightarrow> esc_out option) \<Rightarrow> bool" where
  "sub_ok buf c aesc sub \<longleftrightarrow>
     (\<forall>p. aesc < p \<longrightarrow> p < length buf \<longrightarrow> buf ! p = c \<longrightarrow> returns_ok buf c p (sub p))"

lemma sub_okD:
  assumes "sub_ok buf c aesc sub" "aesc < p" "p < length buf" "buf ! p = c"
  obtains r where "sub p = Some r" "res_ok buf c p r"
  using assms by (auto simp: sub_ok_def returns_ok_def)

lemma esc_sub_ok:
  assumes "line_ok buf c ln" "aesc < length buf" "buf ! aesc = c" "sub_ok buf c aesc sub"
    "given_ok buf aesc inam st"
  shows "step_ok buf c ln aesc
    (\<lambda>(st', so). given_ok buf aesc inam st' \<and>
       (\<forall>r. so = Some r \<longrightarrow> e_iarg st' < length buf \<and> buf ! e_iarg st' = c \<and> res_ok buf c (e_iarg st') r \<and>
          o_rval r \<noteq> ESCAPE_EXPAND))
    (esc_sub sub buf aesc st)"
proof -
  have m: "mid_ok buf aesc st" "e_iendarg st = e_iarg st" using assms(5) by (auto simp: given_ok_def form_ok_def)
  then obtain a where a: "rd buf (e_iarg st) = Some a" using rd_le_Some by (auto simp: mid_ok_def)
  have e: "rd buf aesc = Some c" using assms(2,3) by (simp add: rd_in)
  show ?thesis
  proof (cases "(e_term st = BSPACE \<or> e_term st = NUL \<and> e_maxl st = None) \<and> a = c")
    case True
    then have lt: "e_iarg st < length buf" using a rd_not_NUL_less assms(1) by (auto simp: line_ok_def)
    then have "buf ! e_iarg st = c" using a True by (simp add: rd_in)
    moreover have "aesc < e_iarg st" using m by (simp add: mid_ok_def)
    ultimately obtain r where r: "sub (e_iarg st) = Some r" "res_ok buf c (e_iarg st) r"
      using sub_okD [OF assms(4)] lt by blast
    then have "\<exists>p > aesc. res_ok buf c p r" using \<open>aesc < e_iarg st\<close> by blast
    then show ?thesis
      using True a e r m(2) lt \<open>buf ! e_iarg st = c\<close> assms(5) by (simp add: esc_sub_def)
  next
    case False
    then show ?thesis using a e assms(5) by (auto simp: esc_sub_def)
  qed
qed


definition begun_ok :: "string \<Rightarrow> nat \<Rightarrow> nat \<Rightarrow> esc_state \<times> bool \<Rightarrow> bool" where
  "begun_ok buf aesc inam x \<longleftrightarrow> mid_ok buf aesc (fst x) \<and> e_inam (fst x) = inam"

lemma esc_term_ok:
  assumes "mid_ok buf aesc st" "e_inam st = inam" "e_term st = BSPACE \<Longrightarrow> e_iarg st < length buf"
  shows "step_ok buf c ln aesc (begun_ok buf aesc inam) (esc_term buf b st)"
  using assms by (auto simp: esc_term_def rd_in begun_ok_def mid_ok_def)

lemma esc_delim_ok:
  assumes "mid_ok buf aesc st" "e_inam st = inam" "e_iarg st < length buf"
  shows "step_ok buf c ln aesc (begun_ok buf aesc inam) (esc_delim buf nam st)"
proof -
  let ?st = "st\<lparr>e_err := MANDOCERR_ESC_DELIM,
               e_rval := (if e_rval st \<noteq> ESCAPE_EXPAND then ESCAPE_ERROR else e_rval st)\<rparr>"
  have st': "mid_ok buf aesc ?st" "e_inam ?st = inam" "e_iarg ?st < length buf"
    using assms by (auto simp: mid_ok_def)
  have "out_ok buf ln aesc (?st\<lparr>e_iendarg := e_iarg st + 1, e_iend := e_iarg st + 1\<rparr>)"
    using assms by (auto simp: mid_ok_def out_ok_def rd_in)
  then show ?thesis
    using assms esc_term_ok [OF st'(1,2)] esc_term_ok [OF assms(1,2)]
    by (simp add: esc_delim_def rd_in Let_def)
qed

lemma esc_quoted_ok:
  assumes line: "line_ok buf c ln" and st: "given_ok buf aesc inam st" "e_term st = BSPACE"
    and so: "\<And>r. so = Some r \<Longrightarrow> e_iarg st < length buf \<and> buf ! e_iarg st = c \<and>
        res_ok buf c (e_iarg st) r \<and> o_rval r \<noteq> ESCAPE_EXPAND"
  shows "step_ok buf c ln aesc (begun_ok buf aesc inam) (esc_quoted buf (buf ! inam) st so)"
proof -
  have m: "mid_ok buf aesc st" "e_inam st = inam" "e_iarg st < length buf"
    using st by (auto simp: given_ok_def form_ok_def)
  show ?thesis
  proof (cases so)
    case None
    then show ?thesis using esc_delim_ok [OF m] by (simp add: esc_quoted_def)
  next
    case (Some r)
    then have r: "buf ! e_iarg st = c" "res_ok buf c (e_iarg st) r" "o_rval r \<noteq> ESCAPE_EXPAND"
      using so by auto
    show ?thesis
    proof (cases "o_rval r = ESCAPE_UNDEF")
      case True
      have "Suc (e_iarg st) \<noteq> length buf"
        using trailing_escI [of "e_iarg st" buf c] r m(3) line by (auto simp: line_ok_def)
      then have "mid_ok buf aesc (st\<lparr>e_iarg := e_iarg st + 1\<rparr>)" "Suc (e_iarg st) < length buf"
        using m by (auto simp: mid_ok_def)
      then show ?thesis
        using True Some m(2) esc_delim_ok [of buf aesc "st\<lparr>e_iarg := e_iarg st + 1\<rparr>" inam c ln]
        by (simp add: esc_quoted_def)
    next
      case False
      obtain sn where sn: "rd buf (o_inam r) = Some sn" using r(2) rd_le_Some by (auto simp: res_ok_def)
      have nb: "sn \<noteq> BSPACE" using r(2) sn False by (auto simp: res_ok_def)
      have "inam < length buf" using m by (auto simp: mid_ok_def)
      then have nam: "buf ! inam \<noteq> NUL" using line by (metis cstring_def line_ok_def nth_mem)
      have o: "o_iesc r = e_iarg st" "o_iesc r < o_iend r" "o_iend r \<le> length buf"
        using r by (auto simp: res_ok_def)
      have ex: "out_ok buf ln aesc (st\<lparr>e_err := MANDOCERR_ESC_DELIM, e_iend := o_iend r,
                              e_iarg := o_iesc r, e_iendarg := o_iesc r\<rparr>)"
        if "strchr ''BHLRSNhlvx'' (buf ! inam)"
        using that m o nam by (auto simp: out_ok_def mid_ok_def rd_in strchr_def)
      have "mid_ok buf aesc (st\<lparr>e_iarg := o_iend r, e_term := sn\<rparr>)"
        using m o by (auto simp: mid_ok_def)
      then show ?thesis
        using esc_term_ok [of buf aesc "st\<lparr>e_iarg := o_iend r, e_term := sn\<rparr>" inam c ln True] ex m(2) nb
          Some False sn by (simp add: esc_quoted_def)
    qed
  qed
qed

lemma esc_standard_at_ok:
  assumes "mid_ok buf aesc st" "e_inam st = inam" "e_iarg st \<le> i" "i \<le> length buf"
  shows "step_ok buf c ln aesc (begun_ok buf aesc inam) (esc_standard_at buf i st)"
proof -
  obtain b where b: "rd buf i = Some b" using assms(4) rd_le_Some by blast
  have lt: "b \<noteq> NUL \<Longrightarrow> i < length buf" using rd_not_NUL_less [OF b] .
  show ?thesis
  proof (cases "b = CHR ''[''")
    case True
    then obtain d where d: "rd buf (i + 1) = Some d" using lt rd_le_Some [of "i + 1" buf] by auto
    then have "d = CHR '' '' \<Longrightarrow> i + 1 < length buf" using rd_not_NUL_less [OF d] by simp
    then show ?thesis
      using True b d lt assms
      by (auto simp: esc_standard_at_def out_ok_def begun_ok_def mid_ok_def rd_in [of "e_inam st"])
  next
    case False
    then show ?thesis
      using b lt assms by (auto simp: esc_standard_at_def begun_ok_def mid_ok_def)
  qed
qed

lemma esc_standard_ok:
  assumes "mid_ok buf aesc st" "e_inam st = inam"
  shows "step_ok buf c ln aesc (begun_ok buf aesc inam) (esc_standard buf nam st)"
proof -
  obtain a where a: "rd buf (e_iarg st) = Some a" using assms rd_le_Some by (auto simp: mid_ok_def)
  have "a \<noteq> NUL \<Longrightarrow> e_iarg st < length buf" using rd_not_NUL_less [OF a] .
  then show ?thesis
    using a assms esc_standard_at_ok [OF assms] by (auto simp: esc_standard_def mid_ok_def)
qed

lemma esc_start_ok:
  assumes "line_ok buf c ln" "given_ok buf aesc inam st"
    "\<And>r. so = Some r \<Longrightarrow> e_iarg st < length buf \<and> buf ! e_iarg st = c \<and>
        res_ok buf c (e_iarg st) r \<and> o_rval r \<noteq> ESCAPE_EXPAND"
  shows "step_ok buf c ln aesc (begun_ok buf aesc inam) (esc_start buf st so)"
proof -
  have m: "mid_ok buf aesc st" "e_inam st = inam"
    using assms(2) by (auto simp: given_ok_def form_ok_def)
  have nam: "rd buf (e_inam st) = Some (buf ! inam)" using m by (auto simp: mid_ok_def rd_in)
  show ?thesis
    using nam esc_quoted_ok [OF assms(1,2) _ assms(3)] esc_standard_ok [OF m] m
    by (simp add: esc_start_def begun_ok_def)
qed


definition loop_ok :: "string \<Rightarrow> nat \<Rightarrow> nat \<Rightarrow> esc_state \<Rightarrow> bool" where
  "loop_ok buf aesc inam st \<longleftrightarrow> mid_ok buf aesc st \<and> e_inam st = inam \<and>
     e_iarg st \<le> e_iendarg st \<and> e_iendarg st \<le> length buf"

lemma esc_loop_ok:
  assumes line: "line_ok buf c ln" and sub: "sub_ok buf c aesc sub"
    and st: "loop_ok buf aesc inam st" "length buf - e_iendarg st < fuel"
  shows "step_ok buf c ln aesc (\<lambda>(st', v). loop_ok buf aesc inam st')
     (esc_loop fuel sub buf c nam escterm st valid)"
  using st
proof (induction fuel arbitrary: st valid)
  case (Suc fuel)
  have le: "e_iendarg st \<le> length buf" "e_iarg st \<le> e_iendarg st" and m: "mid_ok buf aesc st" "e_inam st = inam"
    using Suc.prems by (auto simp: loop_ok_def)
  obtain x where x: "rd buf (e_iendarg st) = Some x" using le(1) rd_le_Some by blast
  have lt: "x \<noteq> NUL \<Longrightarrow> e_iendarg st < length buf" using rd_not_NUL_less [OF x] .
  have aesc: "aesc < e_iendarg st" using m le by (auto simp: mid_ok_def)
  consider (stop) "e_maxl st = Some 0" | (nul) "e_maxl st \<noteq> Some 0" "x = NUL"
    | (trm) "e_maxl st \<noteq> Some 0" "x \<noteq> NUL" "\<not> escterm" "x = e_term st"
    | (esc) "e_maxl st \<noteq> Some 0" "x \<noteq> NUL" "\<not> (\<not> escterm \<and> x = e_term st)" "x = c"
    | (num) "e_maxl st \<noteq> Some 0" "x \<noteq> NUL" "\<not> (\<not> escterm \<and> x = e_term st)" "x \<noteq> c"
        "nam = CHR ''N''" "\<not> isdigit x"
    | (byte) "e_maxl st \<noteq> Some 0" "x \<noteq> NUL" "\<not> (\<not> escterm \<and> x = e_term st)" "x \<noteq> c"
        "\<not> (nam = CHR ''N'' \<and> \<not> isdigit x)"
    by blast
  then show ?case
  proof cases
    case stop
    then show ?thesis using Suc.prems by simp
  next
    case nul
    then show ?thesis using x Suc.prems by (auto simp: loop_ok_def mid_ok_def)
  next
    case trm
    then show ?thesis using x Suc.prems lt by (auto simp: loop_ok_def mid_ok_def)
  next
    case esc
    then have lt': "e_iendarg st < length buf" using lt by blast
    then have "buf ! e_iendarg st = c" using x esc by (simp add: rd_in)
    then obtain r where r: "sub (e_iendarg st) = Some r" "res_ok buf c (e_iendarg st) r"
      using sub_okD [OF sub aesc lt'] by blast
    show ?thesis
    proof (cases "o_rval r = ESCAPE_EXPAND")
      case True
      then show ?thesis using esc x r aesc by auto
    next
      case False
      obtain sn where sn: "rd buf (o_inam r) = Some sn" using r(2) rd_le_Some by (auto simp: res_ok_def)
      have o: "e_iendarg st < o_iend r" "o_iend r \<le> length buf" using r False by (auto simp: res_ok_def)
      let ?st = "st\<lparr>e_iend := o_iend r, e_msgs := e_msgs st @ o_msgs r\<rparr>"
      have ok: "loop_ok buf aesc inam ?st" "loop_ok buf aesc inam (?st\<lparr>e_iendarg := o_iend r\<rparr>)"
        using Suc.prems(1) o aesc by (auto simp: loop_ok_def mid_ok_def)
      have "length buf - o_iend r < fuel" using Suc.prems(2) o by simp
      then show ?thesis
        using Suc.IH [OF ok(2)] ok(1) esc x r(1) sn False by (auto simp: Let_def)
    qed
  next
    case num
    then show ?thesis using x Suc.prems lt by (auto simp: loop_ok_def mid_ok_def)
  next
    case byte
    let ?st = "st\<lparr>e_maxl := map_option (\<lambda>n. n - 1) (e_maxl st), e_iendarg := e_iendarg st + 1,
               e_iend := e_iendarg st + 1\<rparr>"
    have "loop_ok buf aesc inam ?st" "length buf - e_iendarg ?st < fuel"
      using Suc.prems lt byte by (auto simp: loop_ok_def mid_ok_def)
    then show ?thesis using Suc.IH [of ?st] byte x by auto
  qed
qed simp

lemma esc_post_ok:
  assumes "loop_ok buf aesc inam st" "argl = e_iendarg st - e_iarg st"
  shows "\<exists>st'. esc_post rn buf (buf ! inam) valid argl (st\<lparr>e_argl := Some argl\<rparr>) = Some st' \<and>
    loop_ok buf aesc inam st' \<and> e_iarg st' + argl \<le> length buf \<and> e_argl st' = Some argl \<and>
    (buf ! inam \<noteq> CHR ''A'' \<longrightarrow> e_iendarg st' = e_iarg st' + argl)"
proof -
  have l: "e_iarg st \<le> length buf" "e_iarg st + argl \<le> length buf" "e_iarg st + argl = e_iendarg st"
    using assms by (auto simp: loop_ok_def)
  obtain a where a: "rd buf (e_iarg st) = Some a" using l(1) rd_le_Some by blast
  obtain p where p: "rd buf (e_iarg st - 1) = Some p"
    using l(1) rd_le_Some [of "e_iarg st - 1" buf] by fastforce
  have b: "argl = 2 \<Longrightarrow> \<exists>b. rd buf (Suc (e_iarg st)) = Some b"
    using l(2) rd_le_Some [of "Suc (e_iarg st)" buf] by auto
  note ok = assms(1) [unfolded loop_ok_def mid_ok_def]
  consider "buf ! inam = CHR ''*''" | "buf ! inam = CHR ''A''" | "buf ! inam = CHR ''O''"
    | "buf ! inam \<notin> {CHR ''*'', CHR ''A'', CHR ''O''}" by blast
  then show ?thesis
  proof cases
    case 1
    then show ?thesis using ok l a b by (auto simp: esc_post_def loop_ok_def mid_ok_def)
  next
    case 2
    then show ?thesis using ok l by (auto simp: esc_post_def loop_ok_def mid_ok_def)
  next
    case 3
    then show ?thesis using ok l a p by (auto simp: esc_post_def loop_ok_def mid_ok_def)
  next
    case 4
    then show ?thesis using ok l by (auto simp: esc_post_def loop_ok_def mid_ok_def)
  qed
qed


lemma loop_out_ok: "loop_ok buf aesc inam st \<Longrightarrow> e_argl st \<noteq> None \<Longrightarrow> out_ok buf ln aesc st"
  by (auto simp: loop_ok_def mid_ok_def out_ok_def rd_in)

lemma esc_special_ok:
  assumes "loop_ok buf aesc inam st" "e_iendarg st = e_iarg st + argl" "e_argl st \<noteq> None"
  shows "\<exists>st'. esc_special buf argl st = Some st' \<and> out_ok buf ln aesc st'"
proof (cases "argl = 0")
  case True
  then show ?thesis using assms by (auto simp: esc_special_def loop_ok_def mid_ok_def out_ok_def rd_in)
next
  case False
  have l: "e_iarg st + argl \<le> length buf" using assms by (auto simp: loop_ok_def)
  note ok = loop_out_ok [OF assms(1,3), of ln]
  obtain a where a: "rd buf (e_iarg st) = Some a" using l rd_le_Some [of "e_iarg st" buf] by auto
  have err: "out_ok buf ln aesc (st\<lparr>e_err := e\<rparr>)" "r \<noteq> ESCAPE_SPECIAL \<Longrightarrow> out_ok buf ln aesc (st\<lparr>e_err := e, e_rval := r\<rparr>)"
    "r \<noteq> ESCAPE_SPECIAL \<Longrightarrow> out_ok buf ln aesc (st\<lparr>e_rval := r\<rparr>)" for e r
    using ok assms(1) by (auto simp: out_ok_def loop_ok_def mid_ok_def rd_in)
  have "out_ok buf ln aesc (esc_special_char buf argl st)"
  proof (cases "argl < 6")
    case False
    then have "out_ok buf ln aesc (st\<lparr>e_iarg := e_iarg st + 4, e_rval := ESCAPE_NUMBERED\<rparr>)"
      using ok assms(1,2) by (auto simp: out_ok_def loop_ok_def mid_ok_def rd_in)
    then show ?thesis using ok err by (simp add: esc_special_char_def)
  qed (use ok in \<open>simp add: esc_special_char_def\<close>)
  moreover have "\<exists>st'. esc_special_unicode buf argl st = Some st' \<and> out_ok buf ln aesc st'"
  proof (cases "argl < 5")
    case False
    then obtain b c where "rd buf (e_iarg st + 1) = Some b" "rd buf (e_iarg st + 2) = Some c"
      using l rd_le_Some [of "e_iarg st + 1" buf] rd_le_Some [of "e_iarg st + 2" buf] by auto
    then show ?thesis using a ok err by (simp add: esc_special_unicode_def Let_def)
  qed (use a ok in \<open>simp add: esc_special_unicode_def Let_def\<close>)
  ultimately show ?thesis using False a err(2) by (auto simp: esc_special_def)
qed

lemma esc_class_ok:
  assumes "loop_ok buf aesc inam st" "e_iarg st + argl \<le> length buf" "e_argl st = Some argl"
    "buf ! inam \<noteq> CHR ''A'' \<longrightarrow> e_iendarg st = e_iarg st + argl"
  shows "\<exists>st'. esc_class buf argl st = Some st' \<and> out_ok buf ln aesc st'"
proof -
  note ok = loop_out_ok [OF assms(1), of ln]
  consider "e_rval st = ESCAPE_FONT" | "e_rval st = ESCAPE_SPECIAL"
    | "e_rval st \<noteq> ESCAPE_FONT" "e_rval st \<noteq> ESCAPE_SPECIAL" by blast
  then show ?thesis
  proof cases
    case 1
    obtain f where "mandoc_font buf (e_iarg st) argl = Some f" "f \<in> font_classes"
      using mandoc_font_total [OF assms(2)] by blast
    then show ?thesis
      using 1 assms(1,3) by (auto simp: esc_class_def loop_ok_def mid_ok_def out_ok_def rd_in)
  next
    case 2
    then have "buf ! inam \<noteq> CHR ''A''" using assms(1) by (auto simp: loop_ok_def mid_ok_def)
    then show ?thesis
      using 2 esc_special_ok [OF assms(1), of argl ln] assms(3,4) by (simp add: esc_class_def)
  next
    case 3
    then show ?thesis using ok assms(3) by (cases "e_rval st") (simp_all add: esc_class_def)
  qed
qed

lemma esc_finish_ok:
  assumes "loop_ok buf aesc inam (fst x)" "aesc < length buf" "buf ! aesc = c"
  shows "returns_ok buf c aesc (esc_finish rn buf ln aesc (buf ! inam) x)"
proof -
  obtain st valid where x: "x = (st, valid)" by (cases x)
  then have ok: "loop_ok buf aesc inam st" using assms(1) by simp
  let ?argl = "e_iendarg st - e_iarg st"
  obtain st1 where st1: "esc_post rn buf (buf ! inam) valid ?argl (st\<lparr>e_argl := Some ?argl\<rparr>) = Some st1"
    "loop_ok buf aesc inam st1" "e_iarg st1 + ?argl \<le> length buf" "e_argl st1 = Some ?argl"
    "buf ! inam \<noteq> CHR ''A'' \<longrightarrow> e_iendarg st1 = e_iarg st1 + ?argl"
    using esc_post_ok [OF ok refl] by blast
  obtain st2 where "esc_class buf ?argl st1 = Some st2" "out_ok buf ln aesc st2"
    using esc_class_ok [OF st1(2-5)] by blast
  then show ?thesis
    using x st1(1) esc_exit_at_ok [of buf c ln aesc "Goto_out st2"] assms(2,3)
    by (simp add: esc_finish_def Let_def)
qed

lemma esc_argument_ok:
  assumes line: "line_ok buf c ln" and a: "aesc < length buf" "buf ! aesc = c"
    and sub: "sub_ok buf c aesc sub" and x: "begun_ok buf aesc inam x"
  shows "returns_ok buf c aesc (esc_argument sub rn buf ln aesc x)"
proof -
  obtain st escterm where x': "x = (st, escterm)" by (cases x)
  let ?st = "st\<lparr>e_iendarg := e_iarg st\<rparr>"
  have ok: "loop_ok buf aesc inam ?st" "e_inam st = inam"
    using x by (auto simp: x' begun_ok_def loop_ok_def mid_ok_def)
  have rds: "rd buf inam = Some (buf ! inam)" "rd buf aesc = Some c"
    using ok a by (auto simp: loop_ok_def mid_ok_def rd_in)
  have "returns_ok buf c aesc (esc_then buf ln aesc
       (esc_loop (Suc (Suc (length buf))) sub buf c (buf ! inam) escterm ?st True)
       (esc_finish rn buf ln aesc (buf ! inam)))"
    by (rule esc_then_ok [OF esc_loop_ok [OF line sub ok(1)] a])
       (use a in \<open>auto intro: esc_finish_ok\<close>)
  then show ?thesis using rds ok(2) by (simp add: esc_argument_def x')
qed

lemma esc_body_ok:
  assumes line: "line_ok buf c ln" and a: "aesc < length buf" "buf ! aesc = c"
    and sub: "sub_ok buf c aesc sub"
  shows "returns_ok buf c aesc (esc_body sub rn buf ln aesc)"
proof -
  obtain inam where inam: "scan_while (\<lambda>c. c = CHR ''E'') buf (aesc + 1) = Some inam"
    using scan_while_total [of "aesc + 1" buf "\<lambda>c. c = CHR ''E''"] a by auto
  note pos = name_after_esc [OF line a inam]
  have cs: "cstring buf" using line by (simp add: line_ok_def)
  show ?thesis
    unfolding esc_body_def inam bind.bind_lunit
  proof (rule esc_then_ok [OF esc_switch_ok a])
    fix st assume "form_ok buf aesc inam st"
    then show "returns_ok buf c aesc (esc_then buf ln aesc (esc_missing buf st) (\<lambda>st.
      esc_then buf ln aesc (esc_sub sub buf aesc st) (\<lambda>(st, so).
      esc_then buf ln aesc (esc_start buf st so) (esc_argument sub rn buf ln aesc))))"
      by (rule esc_then_ok [OF esc_missing_ok [OF line a inam] a])
         (auto intro!: esc_then_ok [OF esc_sub_ok [OF line a sub] a]
            esc_then_ok [OF esc_start_ok [OF line] a] intro: esc_argument_ok [OF line a sub])
  qed (use pos cs in auto)
qed

lemma roff_escape_rec_ok:
  assumes "line_ok buf c ln" "aesc < length buf" "buf ! aesc = c" "length buf - aesc < fuel"
  shows "returns_ok buf c aesc (roff_escape_rec fuel rn buf ln aesc)"
  using assms(2-4)
proof (induction fuel arbitrary: aesc rn)
  case (Suc fuel)
  have "sub_ok buf c aesc (roff_escape_rec fuel False buf ln)"
    using Suc by (auto simp: sub_ok_def)
  then show ?case using esc_body_ok [OF assms(1) Suc.prems(1,2)] by simp
qed simp

lemma roff_escape_ok:
  assumes "line_ok buf c ln" "aesc < length buf" "buf ! aesc = c"
  shows "returns_ok buf c aesc (roff_escape rn buf ln aesc)"
  unfolding roff_escape_def by (rule roff_escape_rec_ok [OF assms]) simp

subsection \<open>Plain arguments\<close>

text \<open>The loop passes over bytes that are neither terminators nor escape characters.\<close>

lemma esc_loop_plain:
  assumes "e_iendarg st \<le> j" "j < length buf" "buf ! j = e_term st" "e_term st \<noteq> NUL" "e_maxl st = None"
    "\<And>i. e_iendarg st \<le> i \<Longrightarrow> i < j \<Longrightarrow> buf ! i \<notin> {NUL, e_term st, esc}"
    "nam \<noteq> CHR ''N''" "j - e_iendarg st < fuel"
  shows "\<exists>v. esc_loop fuel sub buf esc nam False st valid =
    Some (Inr (st\<lparr>e_iendarg := j, e_iend := j + 1\<rparr>, v))"
  using assms
proof (induction fuel arbitrary: st valid)
  case (Suc fuel)
  show ?case
  proof (cases "e_iendarg st = j")
    case True
    then have "st\<lparr>e_iendarg := j, e_iend := j + 1\<rparr> = st\<lparr>e_iend := j + 1\<rparr>" by simp
    then show ?thesis using Suc.prems True by (simp add: rd_in)
  next
    case False
    then have lt: "e_iendarg st < j" using Suc.prems(1) by simp
    let ?st = "st\<lparr>e_maxl := map_option (\<lambda>n. n - 1) (e_maxl st), e_iendarg := e_iendarg st + 1,
       e_iend := e_iendarg st + 1\<rparr>"
    have x: "rd buf (e_iendarg st) = Some (buf ! e_iendarg st)"
      "buf ! e_iendarg st \<notin> {NUL, e_term st, esc}"
      using lt Suc.prems(2) Suc.prems(6) [of "e_iendarg st"] by (simp_all add: rd_in)
    have "\<exists>v. esc_loop fuel sub buf esc nam False ?st (valid \<and> buf ! e_iendarg st \<noteq> CHR '' '' \<and> buf ! e_iendarg st \<noteq> TAB) =
      Some (Inr (?st\<lparr>e_iendarg := j, e_iend := j + 1\<rparr>, v))"
      by (rule Suc.IH) (use Suc.prems lt in auto)
    then show ?thesis using Suc.prems(5,7) x by auto
  qed
qed simp

text \<open>The switch, up to the argument, for a bracketed special character name.\<close>

definition bracket_state :: esc_state where
  "bracket_state = \<lparr>e_rval = ESCAPE_SPECIAL, e_inam = 1, e_iarg = 2, e_iendarg = 1, e_iend = 1,
     e_maxl = None, e_term = CHR '']'', e_err = MANDOCERR_OK, e_argl = None, e_msgs = []\<rparr>"

lemma esc_body_bracket:
  assumes "x \<noteq> CHR '' ''"
  shows "esc_body sub rn (BSLASH # CHR ''['' # x # xs) 0 0 =
    esc_argument sub rn (BSLASH # CHR ''['' # x # xs) 0 0 (bracket_state, False)"
  using assms
  by (simp add: esc_body_def scan_while.simps rd_def esc_switch_def esc_init_def esc_noarg_def
      esc_form_def esc_then_def esc_missing_def esc_sub_def esc_start_def esc_standard_def
      esc_standard_at_def bracket_state_def numeral_2_eq_2)

lemma esc_argument_bracket:
  assumes "list_all (\<lambda>c. c \<notin> {NUL, CHR '']'', BSLASH}) s"
  shows "\<exists>v. esc_argument sub rn (BSLASH # CHR ''['' # s @ CHR '']'' # rest) 0 0 (bracket_state, False) =
    esc_finish rn (BSLASH # CHR ''['' # s @ CHR '']'' # rest) 0 0 (CHR ''['')
      (bracket_state\<lparr>e_iendarg := length s + 2, e_iend := length s + 3\<rparr>, v)"
proof -
  let ?buf = "BSLASH # CHR ''['' # s @ CHR '']'' # rest" and ?st = "bracket_state\<lparr>e_iendarg := 2\<rparr>"
  have at: "?buf ! (length s + 2) = CHR '']''" by (simp add: nth_append)
  have plain: "?buf ! i \<notin> {NUL, CHR '']'', BSLASH}" if "2 \<le> i" "i < length s + 2" for i
  proof -
    from that have "?buf ! i = s ! (i - 2)" "i - 2 < length s"
      by (auto simp: nth_append nth_Cons' numeral_2_eq_2)
    then show ?thesis using assms by (simp add: list_all_length)
  qed
  have "\<exists>v. esc_loop (Suc (Suc (length ?buf))) sub ?buf BSLASH (CHR ''['') False ?st True =
    Some (Inr (?st\<lparr>e_iendarg := length s + 2, e_iend := length s + 2 + 1\<rparr>, v))"
    by (rule esc_loop_plain) (use at plain in \<open>auto simp: bracket_state_def\<close>)
  then obtain v where v: "esc_loop (Suc (Suc (length ?buf))) sub ?buf BSLASH (CHR ''['') False ?st True =
    Some (Inr (?st\<lparr>e_iendarg := length s + 2, e_iend := length s + 3\<rparr>, v))" by auto
  have st: "e_inam bracket_state = 1" "e_iarg bracket_state = 2" by (simp_all add: bracket_state_def)
  show ?thesis
    using v by (intro exI [of _ v]) (simp add: esc_argument_def st rd_def esc_then_def del: esc_loop.simps)
qed

subsection \<open>Properties\<close>

text \<open>
  C13: on every line that does not end in an escape character (nor, when called by the parser, in
  an escape sequence C without an argument) the parser of escape sequences ends, never reads
  outside the line or an uninitialised variable, and reports positions inside the line: a name
  after the escape character, an argument whose begin is not after its end, and an end after
  the escape character.  Unless a nested sequence has to be expanded, the sequence reported is
  the one that was asked for.\<close>

theorem roff_escape_safe:
  assumes "line_ok buf c ln" "aesc < length buf" "buf ! aesc = c"
  shows "\<exists>r. roff_escape rn buf ln aesc = Some r \<and>
     aesc \<le> o_iesc r \<and> o_iesc r < o_inam r \<and> o_inam r \<le> length buf \<and>
     o_iarg r \<le> o_iendarg r \<and> o_iendarg r \<le> length buf \<and>
     o_iesc r < o_iend r \<and> o_iend r \<le> length buf \<and> buf ! o_iesc r = c \<and>
     (o_rval r \<noteq> ESCAPE_EXPAND \<longrightarrow> o_iesc r = aesc)"
  using roff_escape_ok [OF assms, of rn] by (auto simp: returns_ok_def res_ok_def)

theorem roff_escape_safe_witness:
  "\<exists>r. roff_escape False (BSLASH # ''w'' @ SQUOTE # BSLASH # ''nxab'' @ [SQUOTE]) 1 0 = Some r \<and> o_iend r \<le> 9"
proof -
  let ?b = "BSLASH # ''w'' @ SQUOTE # BSLASH # ''nxab'' @ [SQUOTE]"
  have "line_ok ?b BSLASH 1"
    by (simp add: line_ok_def cstring_def trailing_esc_def trailing_C_def)
  from roff_escape_safe [OF this, of 0 False] show ?thesis by auto
qed


definition hexset :: string where
  "hexset = ''0123456789ABCDEFabcdef''"

lemma hexset_plain: "c \<in> set hexset \<Longrightarrow> c \<notin> {NUL, CHR '']'', BSLASH}"
  by (auto simp: hexset_def)

text \<open>
  a bracketed Unicode escape with four to six hexadecimal digits that denote a code point, in
  the form groff defines (five digits not beginning with 0, six digits beginning with 10, no
  surrogate), is classified as a Unicode escape, its argument is the letter u with all the
  digits, and the parser goes on after the closing bracket.\<close>

theorem mandoc_escape_unicode:
  assumes "list_all (\<lambda>c. c \<in> set hexset) ds" "4 \<le> length ds" "length ds \<le> 6"
    "length ds = 6 \<longrightarrow> ds ! 0 = CHR ''1'' \<and> ds ! 1 = CHR ''0''" "length ds = 5 \<longrightarrow> ds ! 0 \<noteq> CHR ''0''"
    "length ds = 4 \<longrightarrow> \<not> (toupper (ds ! 0) = CHR ''D'' \<and> ds ! 1 \<in> set ''89ABCDEFabcdef'')"
  shows "mandoc_escape (BSLASH # ''[u'' @ ds @ '']'' @ rest) =
    Some (ESCAPE_UNICODE, 2, Suc (length ds), length ds + 4)"
proof -
  let ?s = "CHR ''u'' # ds" and ?hex = hexset
  let ?buf = "BSLASH # CHR ''['' # ?s @ CHR '']'' # rest"
  have hex: "set ds \<subseteq> set ?hex" using assms(1) by (auto simp: list_all_iff)
  have "c \<notin> {NUL, CHR '']'', BSLASH}" if "c \<in> set ds" for c using that hex hexset_plain by blast
  then have plain: "list_all (\<lambda>c. c \<notin> {NUL, CHR '']'', BSLASH}) ?s" by (auto simp: list_all_iff)
  then obtain v where v: "esc_argument (roff_escape_rec (length ?buf) False ?buf 0) True ?buf 0 0 (bracket_state, False) =
      esc_finish True ?buf 0 0 (CHR ''['') (bracket_state\<lparr>e_iendarg := length ?s + 2, e_iend := length ?s + 3\<rparr>, v)"
    using esc_argument_bracket by blast
  have span: "strspn ?buf 3 ?hex = length ds"
  proof -
    have "takeWhile (\<lambda>c. c \<in> set ?hex) (ds @ CHR '']'' # rest) = ds"
      using hex hexset_plain [of "CHR '']''"] by (subst takeWhile_append2) auto
    then show ?thesis by (simp add: strspn_def numeral_3_eq_3)
  qed
  have d: "rd ?buf 2 = Some (CHR ''u'')" "rd ?buf 3 = Some (ds ! 0)" "rd ?buf 4 = Some (ds ! 1)"
    using assms(2) by (auto simp: rd_def nth_append nth_Cons' )
  have "ds ! 1 \<in> set hexset" using hex assms(2) by (meson less_le_trans nth_mem one_less_numeral_iff semiring_norm(76) subsetD)
  then have ne: "ds ! 1 \<noteq> NUL" using hexset_plain by blast
  have cls: "esc_special_unicode ?buf (Suc (length ds)) st = Some (st\<lparr>e_rval := ESCAPE_UNICODE\<rparr>)"
    if "e_iarg st = 2" for st
    using that d span [unfolded hexset_def] assms(2-6) ne
    by (auto simp: esc_special_unicode_def Let_def strchr_def simp del: list.set)
  have "ds \<noteq> []" using assms(2) by auto
  have sp: "esc_special ?buf (Suc (length ds)) st = Some (st\<lparr>e_rval := ESCAPE_UNICODE\<rparr>)"
    if "e_iarg st = 2" for st
    using that cls d(1) \<open>ds \<noteq> []\<close> by (simp add: esc_special_def)
  have body: "esc_body (roff_escape_rec (length ?buf) False ?buf 0) True ?buf 0 0 =
      esc_argument (roff_escape_rec (length ?buf) False ?buf 0) True ?buf 0 0 (bracket_state, False)"
    using esc_body_bracket [of "CHR ''u''"] by simp
  have "roff_escape True ?buf 0 0 =
      Some \<lparr>o_rval = ESCAPE_UNICODE, o_iesc = 0, o_inam = 1, o_iarg = 2, o_iendarg = length ds + 3,
        o_iend = length ds + 4, o_msgs = []\<rparr>"
    unfolding roff_escape_def roff_escape_rec.simps body v esc_finish_def
    by (simp add: esc_post_def esc_class_def bracket_state_def sp
        esc_exit_at_def esc_return_def esc_out_msgs_def del: append.simps)
  then show ?thesis by (simp add: mandoc_escape_def)
qed

theorem mandoc_escape_unicode_witness:
  "mandoc_escape (BSLASH # ''[u20AC] costs'') = Some (ESCAPE_UNICODE, 2, 5, 8)"
  using mandoc_escape_unicode [of "''20AC''" "'' costs''"]
  by (simp add: hexset_def ctype_defs)

lemma char_value_ge: "256 \<le> c \<Longrightarrow> 256 \<le> foldl (\<lambda>c x. 10 * c + digit_val x) c s"
proof (induction s arbitrary: c)
  case (Cons x s)
  have "- 48 \<le> digit_val x" by (simp add: digit_val_def)
  with Cons.prems have "256 \<le> 10 * c + digit_val x" by simp
  with Cons.IH show ?case by simp
qed simp

text \<open>
  the code that should turn \<open>\[charNN]\<close> into a numbered character never does so: the loop
  that computes the number starts at the letters of the name instead of after them, so the
  number is out of range for every argument.\<close>

theorem esc_char_never_numbered:
  assumes "e_iendarg st = e_iarg st + argl" "e_rval st \<noteq> ESCAPE_NUMBERED"
  shows "e_rval (esc_special_char buf argl st) \<noteq> ESCAPE_NUMBERED"
proof (cases "argl < 6 \<or> take 4 (drop (e_iarg st) buf) \<noteq> ''char''")
  case True
  then show ?thesis using assms(2) by (auto simp: esc_special_char_def)
next
  case False
  then have "take argl (drop (e_iarg st) buf) = ''char'' @ take (argl - 4) (drop 4 (drop (e_iarg st) buf))"
    using take_add [of 4 "argl - 4" "drop (e_iarg st) buf"] by simp
  then have "256 \<le> char_value buf (e_iarg st) argl"
    using char_value_ge by (simp add: char_value_def digit_val_def ord_of_def)
  then show ?thesis using assms by (simp add: esc_special_char_def bad_codepoint_def)
qed

theorem esc_char_never_numbered_witness:
  "e_rval (esc_special_char (BSLASH # ''[char65]'') 6
     (bracket_state\<lparr>e_iendarg := 8, e_iend := 9\<rparr>)) \<noteq> ESCAPE_NUMBERED \<and>
   mandoc_escape (BSLASH # ''[char65]'') = Some (ESCAPE_SPECIAL, 2, 6, 9)"
proof
  show "e_rval (esc_special_char (BSLASH # ''[char65]'') 6
     (bracket_state\<lparr>e_iendarg := 8, e_iend := 9\<rparr>)) \<noteq> ESCAPE_NUMBERED"
    by (rule esc_char_never_numbered) (simp_all add: bracket_state_def)
  show "mandoc_escape (BSLASH # ''[char65]'') = Some (ESCAPE_SPECIAL, 2, 6, 9)"
    by code_simp
qed

text \<open>
  an escape sequence C at the end of the line makes the parser read the variable
  \<open>argl\<close> before it is set: the behaviour is undefined.\<close>

theorem roff_escape_C_undefined:
  assumes "ln \<noteq> 0" "c \<noteq> NUL"
  shows "roff_escape rn (pre @ [c, CHR ''C'']) ln (length pre) = None"
proof -
  let ?buf = "pre @ [c, CHR ''C'']" and ?n = "length pre"
  have r: "rd ?buf (Suc ?n) = Some (CHR ''C'')" "rd ?buf (Suc (Suc ?n)) = Some NUL"
    by (simp_all add: rd_def nth_append)
  have "scan_while (\<lambda>c. c = CHR ''E'') ?buf (Suc ?n) = Some (Suc ?n)"
    using r(1) by (simp add: scan_while.simps)
  with r assms(1) show ?thesis
    by (simp add: roff_escape_def esc_body_def esc_switch_def esc_init_def esc_noarg_def esc_form_def
        esc_then_def esc_missing_def esc_exit_at_def esc_return_def esc_out_msgs_def esc_diag_def)
qed

theorem roff_escape_C_undefined_witness:
  "roff_escape False (''see '' @ [BSLASH, CHR ''C'']) 7 4 = None"
  using roff_escape_C_undefined [of 7 BSLASH False "''see ''"] by (simp add: eval_nat_numeral)

text \<open>
  a quoted escape sequence whose delimiter would be an escape character at the end of the
  line makes the parser run past the terminating NUL: for h and the other sequences that check
  their delimiter the reported end is behind the terminator, for A and the others the next byte
  read is out of bounds.\<close>

theorem roff_escape_past_end:
  assumes "c \<noteq> NUL" "c \<noteq> CHR ''E''" "c \<noteq> CHR ''h''" "c \<noteq> CHR ''A''"
  shows "(\<exists>r. roff_escape rn (pre @ [c, CHR ''h'', c]) 0 (length pre) = Some r \<and>
           o_iend r = Suc (length (pre @ [c, CHR ''h'', c]))) \<and>
         roff_escape rn (pre @ [c, CHR ''A'', c]) 0 (length pre) = None"
proof -
  let ?n = "length pre"
  have r: "rd (pre @ [c, x, c]) ?n = Some c" "rd (pre @ [c, x, c]) (Suc ?n) = Some x"
    "rd (pre @ [c, x, c]) (Suc (Suc ?n)) = Some c" "rd (pre @ [c, x, c]) (Suc (Suc (Suc ?n))) = Some NUL"
    "rd (pre @ [c, x, c]) (Suc (Suc (Suc (Suc ?n)))) = None" for x
    by (simp_all add: rd_def nth_append)
  have s: "x \<noteq> CHR ''E'' \<Longrightarrow> scan_while (\<lambda>c. c = CHR ''E'') (pre @ [c, x, c]) (Suc ?n) = Some (Suc ?n)"
    "scan_while (\<lambda>c. c = CHR ''E'') (pre @ [c, x, c]) (Suc (Suc (Suc ?n))) = Some (Suc (Suc (Suc ?n)))" for x
    using r by (simp_all add: scan_while.simps)
  have sub: "roff_escape_rec (Suc f) False (pre @ [c, x, c]) 0 (Suc (Suc ?n)) =
      Some \<lparr>o_rval = ESCAPE_UNDEF, o_iesc = Suc (Suc ?n), o_inam = Suc (Suc (Suc ?n)),
        o_iarg = Suc (Suc (Suc ?n)), o_iendarg = Suc (Suc (Suc ?n)), o_iend = Suc (Suc (Suc ?n)), o_msgs = []\<rparr>" for x f
    using r s by (simp add: esc_body_def esc_switch_def esc_init_def esc_noarg_def
        esc_then_def esc_exit_at_def esc_return_def esc_out_msgs_def)
  have top: "roff_escape rn (pre @ [c, x, c]) 0 ?n =
      esc_body (roff_escape_rec (Suc (Suc (Suc ?n))) False (pre @ [c, x, c]) 0) rn (pre @ [c, x, c]) 0 ?n" for x
    by (simp add: roff_escape_def)
  show ?thesis
    unfolding top using assms r s sub
    by (simp add: esc_body_def esc_switch_def esc_init_def esc_noarg_def esc_form_def
        esc_then_def esc_missing_def esc_sub_def esc_start_def esc_quoted_def esc_delim_def esc_term_def
        strchr_def esc_argument_def
        esc_exit_at_def esc_return_def esc_out_msgs_def del: roff_escape_rec.simps(2))
qed

theorem roff_escape_past_end_witness:
  "(\<exists>r. roff_escape True (BSLASH # ''h'' @ [BSLASH]) 0 0 = Some r \<and> o_iend r = 4) \<and>
   roff_escape True (BSLASH # ''A'' @ [BSLASH]) 0 0 = None"
  using roff_escape_past_end [of BSLASH True "[]"] by (simp add: eval_nat_numeral)

end
