(* ===== verification/Roff_Num.thy ===== *)
theory Roff_Num
  imports Mandoc_Util
begin

section \<open>Numeric expressions and string conditions: \<open>roff.c\<close>\<close>

text \<open>
  The evaluator of roff numeric expressions: single numbers with scaling units
  (\<open>roff_getnum\<close>), operators (\<open>roff_getop\<close>), parenthesised operands
  (\<open>roff_evalpar\<close>) and whole expressions, evaluated from left to right
  (\<open>roff_evalnum\<close>), and the comparison of two delimited strings
  (\<open>roff_evalstrcond\<close>).  Numbers are computed in \<open>double\<close> and converted to
  \<open>int\<close>; a value that does not fit, and an \<open>int\<close> operation that overflows, is
  undefined behaviour (None).  The mutual recursion takes fuel.
\<close>

subsection \<open>Binary floating point numbers\<close>

text \<open>
  A finite \<open>double\<close> is a mantissa and a binary exponent.  Every operation is exact and then
  rounded to 53 bits, to nearest with ties to even.  The range of the exponent is not limited:
  a value above the largest \<open>double\<close> is far above \<open>INT_MAX\<close>, and a value below the
  smallest one does not change the result of the conversion to \<open>int\<close>.
\<close>

type_synonym dbl = "int \<times> int"

function bits :: "int \<Rightarrow> int" where
  "bits m = (if m \<le> 0 then 0 else 1 + bits (m div 2))"
  by pat_completeness auto
termination by (relation "measure nat") auto

declare bits.simps [simp del]

definition d_round :: "int \<Rightarrow> int \<Rightarrow> dbl" where
  "d_round m e =
     (let k = bits \<bar>m\<bar> - 53 in
      if k \<le> 0 then (m, e)
      else let q = \<bar>m\<bar> div 2 ^ nat k; r = \<bar>m\<bar> mod 2 ^ nat k; h = 2 ^ nat (k - 1);
               q' = (if r > h \<or> r = h \<and> odd q then q + 1 else q)
           in (if m < 0 then - q' else q', e + k))"

definition d_mul :: "dbl \<Rightarrow> dbl \<Rightarrow> dbl" where
  "d_mul x y = d_round (fst x * fst y) (snd x + snd y)"

definition d_add :: "dbl \<Rightarrow> dbl \<Rightarrow> dbl" where
  "d_add x y =
     (let e = min (snd x) (snd y)
      in d_round (fst x * 2 ^ nat (snd x - e) + fst y * 2 ^ nat (snd y - e)) e)"

text \<open>Division by a small positive integer: 64 more bits than needed and a sticky bit.\<close>

definition d_div :: "dbl \<Rightarrow> int \<Rightarrow> dbl" where
  "d_div x c =
     (let n = \<bar>fst x\<bar> * 2 ^ 128; q = 2 * (n div c) + (if n mod c = 0 then 0 else 1)
      in d_round (if fst x < 0 then - q else q) (snd x - 129))"

definition d_int :: "int \<Rightarrow> dbl" where
  "d_int n = (n, 0)"

text \<open>The constant 0.1.\<close>

definition d_tenth :: dbl where
  "d_tenth = (3602879701896397, -55)"

text \<open>Conversion to \<open>int\<close> truncates; out of range it is undefined.\<close>

definition d_trunc :: "dbl \<Rightarrow> int" where
  "d_trunc x =
     (if snd x \<ge> 0 then fst x * 2 ^ nat (snd x)
      else let a = \<bar>fst x\<bar> div 2 ^ nat (- snd x) in if fst x < 0 then - a else a)"

definition d_to_int :: "dbl \<Rightarrow> int option" where
  "d_to_int x = ck_int (d_trunc x)"

subsection \<open>A single number: \<open>roff_getnum\<close>\<close>

function getnum_int :: "string \<Rightarrow> nat \<Rightarrow> dbl \<Rightarrow> (dbl \<times> nat) option" where
  "getnum_int v p myres =
     (case rd v p of None \<Rightarrow> None
      | Some c \<Rightarrow>
          if isdigit c then getnum_int v (Suc p) (d_add (d_mul myres (d_int 10)) (d_int (digit_val c)))
          else Some (myres, p))"
  by pat_completeness auto
termination
  by (relation "measure (\<lambda>(v, p, r). Suc (length v) - p)") (auto simp: rd_def split: if_splits)

declare getnum_int.simps [simp del]

text \<open>The loop over the fraction starts at the decimal point, \<open>++p\<close> moves to each digit.\<close>

function getnum_frac :: "string \<Rightarrow> nat \<Rightarrow> dbl \<Rightarrow> dbl \<Rightarrow> (dbl \<times> nat) option" where
  "getnum_frac v p frac myres =
     (case rd v (Suc p) of None \<Rightarrow> None
      | Some c \<Rightarrow>
          if isdigit c then
            getnum_frac v (Suc p) (d_mul frac d_tenth) (d_add myres (d_mul frac (d_int (digit_val c))))
          else Some (myres, Suc p))"
  by pat_completeness auto
termination
  by (relation "measure (\<lambda>(v, p, f, r). Suc (length v) - p)") (auto simp: rd_def split: if_splits)

declare getnum_frac.simps [simp del]

definition scale_unit :: "char \<Rightarrow> dbl \<Rightarrow> dbl" where
  "scale_unit unit x =
     (if unit = CHR ''f'' then d_mul x (d_int 65536)
      else if unit = CHR ''i'' then d_mul x (d_int 240)
      else if unit = CHR ''c'' then d_div (d_mul x (d_int 24000)) 254
      else if unit = CHR ''v'' \<or> unit = CHR ''P'' then d_mul x (d_int 40)
      else if unit = CHR ''m'' \<or> unit = CHR ''n'' then d_mul x (d_int 24)
      else if unit = CHR ''p'' then d_div (d_mul x (d_int 40)) 12
      else if unit = CHR ''M'' then d_div (d_mul x (d_int 24)) 100
      else x)"

definition isunit :: "char \<Rightarrow> bool" where
  "isunit c \<longleftrightarrow> c \<in> set ''ficvPmnpuM''"

text \<open>
  The result is the return value, the new parse point and what was stored in \<open>*res\<close>.
  \<open>want\<close> says that \<open>res\<close> is not NULL.
\<close>

definition getnum_start :: "bool \<Rightarrow> string \<Rightarrow> nat \<Rightarrow> (bool \<times> nat) option" where
  "getnum_start skipspace v pos = do {
     c \<leftarrow> rd v pos;
     let n = (c = CHR ''-'');
     let p = (if n \<or> c = CHR ''+'' then Suc pos else pos);
     p \<leftarrow> (if skipspace then scan_while isspace v p else Some p);
     Some (n, p)}"

definition roff_getnum :: "bool \<Rightarrow> string \<Rightarrow> nat \<Rightarrow> char \<Rightarrow> bool \<Rightarrow> (bool \<times> nat \<times> int option) option" where
  "roff_getnum want v pos unit skipspace = do {
     (n, p) \<leftarrow> getnum_start skipspace v pos;
     (x, p) \<leftarrow> getnum_int v p (d_int 0);
     c \<leftarrow> rd v p;
     (x, p) \<leftarrow> (if c = CHR ''.'' then getnum_frac v p d_tenth x else Some (x, p));
     if p = pos + (if n then 1 else 0) then Some (False, pos, None)
     else do {
       let x = (if n then d_mul x (d_int (-1)) else x);
       u \<leftarrow> rd v p;
       let unit' = (if u \<noteq> NUL \<and> isunit u \<and> unit \<noteq> NUL then u else unit);
       let p = (if u \<noteq> NUL \<and> isunit u then Suc p else p);
       let x = scale_unit unit' x;
       if want then do { r \<leftarrow> d_to_int x; Some (True, p, Some r) }
       else Some (True, p, None)}}"

subsection \<open>Operators: \<open>roff_getop\<close>\<close>

text \<open>The operator, under the letter the code gives it, and the new parse point.\<close>

definition roff_getop :: "string \<Rightarrow> nat \<Rightarrow> (char option \<times> nat) option" where
  "roff_getop v pos = do {
     c \<leftarrow> rd v pos;
     if c \<in> set ''+-*/%&:'' then Some (Some c, Suc pos)
     else if c = CHR ''<'' then do {
       d \<leftarrow> rd v (Suc pos);
       Some (if d = CHR ''='' then (Some (CHR ''l''), Suc (Suc pos))
             else if d = CHR ''>'' then (Some (CHR ''!''), Suc (Suc pos))
             else if d = CHR ''?'' then (Some (CHR ''i''), Suc (Suc pos))
             else (Some c, Suc pos))}
     else if c = CHR ''>'' then do {
       d \<leftarrow> rd v (Suc pos);
       Some (if d = CHR ''='' then (Some (CHR ''g''), Suc (Suc pos))
             else if d = CHR ''?'' then (Some (CHR ''a''), Suc (Suc pos))
             else (Some c, Suc pos))}
     else if c = CHR ''='' then do {
       d \<leftarrow> rd v (Suc pos);
       Some (if d = CHR ''='' then (Some c, Suc (Suc pos)) else (Some c, Suc pos))}
     else Some (None, pos)}"

subsection \<open>Expressions: \<open>roff_evalpar\<close> and \<open>roff_evalnum\<close>\<close>

text \<open>
  One binary operation on \<open>int\<close>: the new value of \<open>*res\<close> and whether division by
  zero is reported.
\<close>

definition apply_op :: "char \<Rightarrow> int \<Rightarrow> int \<Rightarrow> (int \<times> bool) option" where
  "apply_op op a b =
     (if op = CHR ''+'' then map_option (\<lambda>x. (x, False)) (ck_int (a + b))
      else if op = CHR ''-'' then map_option (\<lambda>x. (x, False)) (ck_int (a - b))
      else if op = CHR ''*'' then map_option (\<lambda>x. (x, False)) (ck_int (a * b))
      else if op = CHR ''/'' then
        (if b = 0 then Some (0, True) else map_option (\<lambda>x. (x, False)) (ck_int (a sdiv b)))
      else if op = CHR ''%'' then
        (if b = 0 then Some (0, True)
         else if ck_int (a sdiv b) = None then None else Some (a smod b, False))
      else if op = CHR ''<'' then Some (c_bool (a < b), False)
      else if op = CHR ''>'' then Some (c_bool (a > b), False)
      else if op = CHR ''l'' then Some (c_bool (a \<le> b), False)
      else if op = CHR ''g'' then Some (c_bool (a \<ge> b), False)
      else if op = CHR ''='' then Some (c_bool (a = b), False)
      else if op = CHR ''!'' then Some (c_bool (a \<noteq> b), False)
      else if op = CHR ''&'' then Some (c_bool (a \<noteq> 0 \<and> b \<noteq> 0), False)
      else if op = CHR '':'' then Some (c_bool (a \<noteq> 0 \<or> b \<noteq> 0), False)
      else if op = CHR ''i'' then Some (min a b, False)
      else if op = CHR ''a'' then Some (max a b, False)
      else None)"

definition skip_if :: "bool \<Rightarrow> string \<Rightarrow> nat \<Rightarrow> nat option" where
  "skip_if skipspace v pos = (if skipspace then scan_while isspace v pos else Some pos)"

record num_out =
  n_ok :: bool
  n_pos :: nat
  n_res :: "int option"
  n_msgs :: "msg list"

abbreviation num_result :: "bool \<Rightarrow> nat \<Rightarrow> int option \<Rightarrow> msg list \<Rightarrow> num_out" where
  "num_result b p r ms \<equiv> \<lparr>n_ok = b, n_pos = p, n_res = r, n_msgs = ms\<rparr>"

text \<open>
  The recursive call of \<open>roff_evalnum\<close> for a parenthesised expression is the parameter
  \<open>num\<close>, a function of the flag \<open>want\<close> and the parse point (white space is always
  skipped inside parentheses).
\<close>

definition evalpar :: "(bool \<Rightarrow> nat \<Rightarrow> num_out option) \<Rightarrow> bool \<Rightarrow> string \<Rightarrow> char \<Rightarrow> bool \<Rightarrow> nat \<Rightarrow>
    num_out option" where
  "evalpar num want v unit sp pos = do {
     c \<leftarrow> rd v pos;
     if c \<noteq> CHR ''('' then do {
       (ok, p, r) \<leftarrow> roff_getnum want v pos unit sp;
       Some (num_result ok p r [])}
     else do {
       r \<leftarrow> num want (Suc pos);
       if \<not> n_ok r then Some r
       else do {
         d \<leftarrow> rd v (n_pos r);
         Some (if d = CHR '')'' then r\<lparr>n_pos := Suc (n_pos r)\<rparr>
               else if \<not> want then r\<lparr>n_ok := False\<rparr> else r)}}}"

text \<open>What the loop does after the operator and its operand \<open>r\<close>, ending at \<open>pos\<close>.\<close>

definition combine :: "nat \<Rightarrow> bool \<Rightarrow> string \<Rightarrow> char \<Rightarrow> nat \<Rightarrow> int option \<Rightarrow> num_out \<Rightarrow>
    (int option \<times> msg list) option" where
  "combine ln want v opr pos res r =
     (if \<not> want then Some (res, [])
      else do {
        a \<leftarrow> res;
        b \<leftarrow> n_res r;
        (x, dz) \<leftarrow> apply_op opr a b;
        Some (Some x, if dz then [(MANDOCERR_DIVZERO, ln, pos, v)] else [])})"

fun evalloop :: "nat \<Rightarrow> (bool \<Rightarrow> nat \<Rightarrow> num_out option) \<Rightarrow> nat \<Rightarrow> bool \<Rightarrow> string \<Rightarrow> bool \<Rightarrow> nat \<Rightarrow>
    int option \<Rightarrow> msg list \<Rightarrow> num_out option" where
  "evalloop 0 par ln want v sp pos res ms = None"
| "evalloop (Suc n) par ln want v sp pos res ms = do {
     pos \<leftarrow> skip_if sp v pos;
     (op, pos) \<leftarrow> roff_getop v pos;
     case op of
       None \<Rightarrow> Some (num_result True pos res ms)
     | Some opr \<Rightarrow> do {
         pos \<leftarrow> skip_if sp v pos;
         r \<leftarrow> par True pos;
         if \<not> n_ok r then Some (num_result False (n_pos r) res (ms @ n_msgs r))
         else do {
           pos \<leftarrow> skip_if sp v (n_pos r);
           (res', ms') \<leftarrow> combine ln want v opr pos res r;
           evalloop n par ln want v sp pos res' (ms @ n_msgs r @ ms')}}}"

fun evalnum :: "nat \<Rightarrow> nat \<Rightarrow> string \<Rightarrow> char \<Rightarrow> bool \<Rightarrow> bool \<Rightarrow> nat \<Rightarrow> num_out option" where
  "evalnum 0 ln v unit sp want pos = None"
| "evalnum (Suc n) ln v unit sp want pos = do {
     let par = (\<lambda>w p. evalpar (evalnum n ln v unit True) w v unit sp p);
     pos \<leftarrow> skip_if sp v pos;
     r \<leftarrow> par want pos;
     if \<not> n_ok r then Some r
     else evalloop (Suc (length v)) par ln want v sp (n_pos r) (n_res r) (n_msgs r)}"

text \<open>One level of recursion per opening parenthesis, one turn of the loop per operator.\<close>

definition roff_evalnum :: "nat \<Rightarrow> bool \<Rightarrow> string \<Rightarrow> nat \<Rightarrow> char \<Rightarrow> bool \<Rightarrow> num_out option" where
  "roff_evalnum ln want v pos unit sp = evalnum (Suc (length v)) ln v unit sp want pos"

subsection \<open>String comparison: \<open>roff_evalstrcond\<close>\<close>

text \<open>\<open>strchr(v + i, c)\<close>: the first position from \<open>i\<close> on that holds \<open>c\<close>.\<close>

definition strchr_from :: "string \<Rightarrow> nat \<Rightarrow> char \<Rightarrow> nat option" where
  "strchr_from v i c =
     (let n = length (takeWhile (\<lambda>x. x \<noteq> c) (drop i v))
      in if i + n < length v then Some (i + n) else if c = NUL then Some (length v) else None)"

text \<open>
  The loop \<open>while ('\0' != *++s3)\<close>: the result is \<open>match\<close>, \<open>s2\<close> and \<open>s3\<close>,
  which is None for NULL.
\<close>

fun strcond_loop :: "nat \<Rightarrow> string \<Rightarrow> char \<Rightarrow> nat \<Rightarrow> nat \<Rightarrow> (bool \<times> nat \<times> nat option) option" where
  "strcond_loop 0 v d s2 s3 = None"
| "strcond_loop (Suc n) v d s2 s3 = do {
     c3 \<leftarrow> rd v (Suc s3);
     if c3 = NUL then Some (False, s2, Some (Suc s3))
     else do {
       c2 \<leftarrow> rd v s2;
       if c2 \<noteq> c3 then Some (False, s2, strchr_from v (Suc s3) d)
       else if c3 = d then Some (True, s2, Some (Suc s3))
       else strcond_loop n v d (Suc s2) (Suc s3)}}"

definition roff_evalstrcond :: "string \<Rightarrow> nat \<Rightarrow> (bool \<times> nat) option" where
  "roff_evalstrcond v pos = do {
     d \<leftarrow> rd v pos;
     (match, s2, s3) \<leftarrow>
       (if Suc pos > length v then None
        else case strchr_from v (Suc pos) d of
          None \<Rightarrow> Some (False, Suc pos, None)
        | Some s3 \<Rightarrow> strcond_loop (Suc (length v)) v d (Suc pos) s3);
     case s3 of
       None \<Rightarrow> Some (match, length v)
     | Some j \<Rightarrow> do { c \<leftarrow> rd v j; Some (match, if c \<noteq> NUL then Suc j else j) }}"


subsection \<open>Integer literals are exact\<close>

lemma bits_le: "m < 2 ^ n \<Longrightarrow> bits m \<le> int n"
proof (induction n arbitrary: m)
  case 0
  then show ?case by (simp add: bits.simps)
next
  case (Suc n)
  then have "m div 2 < 2 ^ n" by simp
  with Suc.IH have "bits (m div 2) \<le> int n" by blast
  then show ?case by (simp add: bits.simps [of m])
qed

lemma d_round_exact: "\<bar>m\<bar> < 2 ^ 53 \<Longrightarrow> d_round m e = (m, e)"
  using bits_le [of "\<bar>m\<bar>" 53] by (simp add: d_round_def)

lemma d_mul_exact: "\<bar>a * b\<bar> < 2 ^ 53 \<Longrightarrow> d_mul (a, 0) (d_int b) = (a * b, 0)"
  by (simp add: d_mul_def d_int_def d_round_exact)

lemma d_add_exact: "\<bar>a + b\<bar> < 2 ^ 53 \<Longrightarrow> d_add (a, 0) (d_int b) = (a + b, 0)"
  by (simp add: d_add_def d_int_def d_round_exact)

definition dec_from :: "int \<Rightarrow> string \<Rightarrow> int" where
  "dec_from k ds = foldl (\<lambda>v c. 10 * v + digit_val c) k ds"

abbreviation dec_value :: "string \<Rightarrow> int" where
  "dec_value ds \<equiv> dec_from 0 ds"

lemma digit_val_range: "isdigit c \<Longrightarrow> 0 \<le> digit_val c \<and> digit_val c \<le> 9"
  by (auto simp: isdigit_def digit_val_def ord_of_def)

lemma dec_from_ge: "list_all isdigit ds \<Longrightarrow> 0 \<le> k \<Longrightarrow> k \<le> dec_from k ds"
proof (induction ds arbitrary: k)
  case (Cons c ds)
  then have d: "0 \<le> digit_val c" using digit_val_range by simp
  with Cons.prems have "k \<le> 10 * k + digit_val c" by simp
  also have "\<dots> \<le> dec_from (10 * k + digit_val c) ds" using Cons d by simp
  finally show ?case by (simp add: dec_from_def)
qed (simp add: dec_from_def)

lemma rd_pre: "rd (pre @ c # s) (length pre) = Some c"
  by (simp add: rd_def nth_append)

lemma rd_pre1: "rd (pre @ c # d # s) (Suc (length pre)) = Some d"
  by (simp add: rd_def nth_append)

definition head :: "string \<Rightarrow> char" where
  "head s = (case s of [] \<Rightarrow> NUL | c # _ \<Rightarrow> c)"

lemma rd_head: "rd (pre @ s) (length pre) = Some (head s)"
  by (cases s) (simp_all add: rd_def nth_append head_def)

lemma rd_head_add: "p = length pre \<Longrightarrow> rd (pre @ s) p = Some (head s)"
  by (simp add: rd_head)

lemma getnum_int_digits:
  assumes "list_all isdigit ds" "0 \<le> k" "dec_from k ds < 2 ^ 53" "\<not> isdigit (head rest)"
  shows "getnum_int (pre @ ds @ rest) (length pre) (k, 0) =
    Some ((dec_from k ds, 0), length pre + length ds)"
  using assms
proof (induction ds arbitrary: pre k)
  case Nil
  then show ?case by (simp add: getnum_int.simps rd_head dec_from_def)
next
  case (Cons c ds)
  then have d: "isdigit c" "0 \<le> digit_val c" using digit_val_range by simp_all
  let ?k = "10 * k + digit_val c"
  have nx: "dec_from k (c # ds) = dec_from ?k ds" by (simp add: dec_from_def)
  have "?k < 2 ^ 53" using dec_from_ge [of ds ?k] Cons.prems d nx by simp
  then have step: "d_add (d_mul (k, 0) (d_int 10)) (d_int (digit_val c)) = (?k, 0)"
    using Cons.prems(2) d by (simp add: d_mul_exact d_add_exact mult.commute)
  have "getnum_int ((pre @ [c]) @ ds @ rest) (length (pre @ [c])) (?k, 0) =
      Some ((dec_from ?k ds, 0), length (pre @ [c]) + length ds)"
    by (rule Cons.IH) (use Cons.prems d nx in simp_all)
  then show ?case
    using d step nx by (subst getnum_int.simps) (simp add: rd_pre)
qed

text \<open>What may follow a number so that it ends there.\<close>

definition num_end :: "string \<Rightarrow> bool" where
  "num_end rest \<longleftrightarrow> \<not> isdigit (head rest) \<and> head rest \<noteq> CHR ''.'' \<and> \<not> isunit (head rest)"

lemma skip_if_here: "sp \<longrightarrow> \<not> isspace (head s) \<Longrightarrow> skip_if sp (pre @ s) (length pre) = Some (length pre)"
  by (simp add: skip_if_def scan_while.simps rd_head)

lemma isdigit_plain: "isdigit c \<Longrightarrow> c \<noteq> CHR ''-'' \<and> c \<noteq> CHR ''+'' \<and> c \<noteq> CHR ''('' \<and> \<not> isspace c"
  by (auto simp: isdigit_def isspace_def)

lemma roff_getnum_digits:
  assumes "list_all isdigit ds" "ds \<noteq> []" "dec_value ds \<le> INT_MAX" "num_end rest"
  shows "roff_getnum True (pre @ ds @ rest) (length pre) (CHR ''u'') sp =
    Some (True, length pre + length ds, Some (dec_value ds))"
proof -
  have hd: "isdigit (head (ds @ rest))" using assms(1,2) by (cases ds) (simp_all add: head_def)
  then have st: "getnum_start sp (pre @ ds @ rest) (length pre) = Some (False, length pre)"
    using isdigit_plain [OF hd] skip_if_here [of sp "ds @ rest" pre]
    by (simp add: getnum_start_def rd_head skip_if_def)
  have ge: "0 \<le> dec_value ds" using dec_from_ge [OF assms(1), of 0] by simp
  have i: "getnum_int (pre @ ds @ rest) (length pre) (0, 0) = Some ((dec_value ds, 0), length pre + length ds)"
    by (rule getnum_int_digits) (use assms in \<open>simp_all add: num_end_def INT_MAX_def\<close>)
  have r: "rd (pre @ ds @ rest) (length pre + length ds) = Some (head rest)"
    using rd_head [of "pre @ ds" rest] by simp
  show ?thesis
    using st i r assms ge
    by (simp add: roff_getnum_def d_int_def num_end_def scale_unit_def d_to_int_def d_trunc_def ck_int_def
        in_int_def int_limits)
qed


subsection \<open>Abstract syntax and its meaning\<close>

text \<open>
  Expressions of decimal numbers, binary operators without precedence, and parentheses: a
  right operand is a number or a parenthesised expression.
\<close>

datatype nop = Add | Sub | Mul | Div | Mod | Lt | Gt | Le | Ge | Equ | Neq | Conj | Disj | Minimum | Maximum

datatype operand = Num string | Par nexp
  and nexp = Atom operand | Bin nexp nop operand

fun print_op :: "nop \<Rightarrow> string" where
  "print_op Add = ''+''" | "print_op Sub = ''-''" | "print_op Mul = ''*''" | "print_op Div = ''/''"
| "print_op Mod = ''%''" | "print_op Lt = ''<''" | "print_op Gt = ''>''" | "print_op Le = ''<=''"
| "print_op Ge = ''>=''" | "print_op Equ = ''=''" | "print_op Neq = ''<>''" | "print_op Conj = ''&''"
| "print_op Disj = '':''" | "print_op Minimum = ''<?''" | "print_op Maximum = ''>?''"

primrec print_operand :: "operand \<Rightarrow> string" and print_exp :: "nexp \<Rightarrow> string" where
  "print_operand (Num ds) = ds"
| "print_operand (Par e) = ''('' @ print_exp e @ '')''"
| "print_exp (Atom a) = print_operand a"
| "print_exp (Bin e opr a) = print_exp e @ print_op opr @ print_operand a"

text \<open>C semantics: truncating division, 0 for a division by 0, undefined on overflow.\<close>

fun meaning :: "nop \<Rightarrow> int \<Rightarrow> int \<Rightarrow> int option" where
  "meaning Add a b = ck_int (a + b)"
| "meaning Sub a b = ck_int (a - b)"
| "meaning Mul a b = ck_int (a * b)"
| "meaning Div a b = (if b = 0 then Some 0 else ck_int (a sdiv b))"
| "meaning Mod a b = (if b = 0 then Some 0 else if in_int (a sdiv b) then Some (a smod b) else None)"
| "meaning Lt a b = Some (c_bool (a < b))"
| "meaning Gt a b = Some (c_bool (b < a))"
| "meaning Le a b = Some (c_bool (a \<le> b))"
| "meaning Ge a b = Some (c_bool (b \<le> a))"
| "meaning Equ a b = Some (c_bool (a = b))"
| "meaning Neq a b = Some (c_bool (a \<noteq> b))"
| "meaning Conj a b = Some (c_bool (a \<noteq> 0 \<and> b \<noteq> 0))"
| "meaning Disj a b = Some (c_bool (a \<noteq> 0 \<or> b \<noteq> 0))"
| "meaning Minimum a b = Some (min a b)"
| "meaning Maximum a b = Some (max a b)"

primrec value_operand :: "operand \<Rightarrow> int option" and value_exp :: "nexp \<Rightarrow> int option" where
  "value_operand (Num ds) =
     (if ds \<noteq> [] \<and> list_all isdigit ds then ck_int (dec_value ds) else None)"
| "value_operand (Par e) = value_exp e"
| "value_exp (Atom a) = value_operand a"
| "value_exp (Bin e opr a) = do { x \<leftarrow> value_exp e; y \<leftarrow> value_operand a; meaning opr x y }"

primrec depth_operand :: "operand \<Rightarrow> nat" and depth_exp :: "nexp \<Rightarrow> nat" where
  "depth_operand (Num ds) = 0"
| "depth_operand (Par e) = Suc (depth_exp e)"
| "depth_exp (Atom a) = depth_operand a"
| "depth_exp (Bin e opr a) = max (depth_exp e) (depth_operand a)"

primrec ops_exp :: "nexp \<Rightarrow> nat" where
  "ops_exp (Atom a) = 0"
| "ops_exp (Bin e opr a) = Suc (ops_exp e)"

fun op_letter :: "nop \<Rightarrow> char" where
  "op_letter Add = CHR ''+''" | "op_letter Sub = CHR ''-''" | "op_letter Mul = CHR ''*''"
| "op_letter Div = CHR ''/''" | "op_letter Mod = CHR ''%''" | "op_letter Lt = CHR ''<''"
| "op_letter Gt = CHR ''>''" | "op_letter Le = CHR ''l''" | "op_letter Ge = CHR ''g''"
| "op_letter Equ = CHR ''=''" | "op_letter Neq = CHR ''!''" | "op_letter Conj = CHR ''&''"
| "op_letter Disj = CHR '':''" | "op_letter Minimum = CHR ''i''" | "op_letter Maximum = CHR ''a''"

lemma apply_op_meaning:
  "meaning opr a b = Some x \<Longrightarrow> \<exists>dz. apply_op (op_letter opr) a b = Some (x, dz)"
  by (cases opr) (auto simp: apply_op_def ck_int_def split: if_splits)

text \<open>The first byte of an operand: a digit or a parenthesis.\<close>

definition operand_head :: "char \<Rightarrow> bool" where
  "operand_head c \<longleftrightarrow> isdigit c \<or> c = CHR ''(''"

lemma head_append: "s \<noteq> [] \<Longrightarrow> head (s @ t) = head s"
  by (cases s) (simp_all add: head_def)

lemma head_Cons [simp]: "head (c # s) = c"
  by (simp add: head_def)

lemma value_operand_head:
  "value_operand a = Some x \<Longrightarrow> operand_head (head (print_operand a @ rest)) \<and> print_operand a \<noteq> []"
  by (cases a) (auto simp: operand_head_def list_all_iff neq_Nil_conv split: if_splits)

lemma value_exp_head:
  "value_exp e = Some x \<Longrightarrow> operand_head (head (print_exp e @ rest)) \<and> print_exp e \<noteq> []"
proof (induction e arbitrary: x rest rule: nexp.induct [of "\<lambda>_. True"])
  case (Atom a)
  then show ?case using value_operand_head by simp
next
  case (Bin e opr a)
  then obtain y where y: "value_exp e = Some y" by (auto simp: bind_eq_Some_conv)
  show ?case
    using Bin.IH(1) [OF y, of "print_op opr @ print_operand a @ rest"] by simp
qed auto

lemma operand_head_not_space: "operand_head c \<Longrightarrow> \<not> isspace c"
  by (auto simp: operand_head_def isdigit_def isspace_def)

lemma getop_print:
  assumes "operand_head (head rest)"
  shows "roff_getop (pre @ print_op opr @ rest) (length pre) =
    Some (Some (op_letter opr), length pre + length (print_op opr))"
proof -
  have h: "head rest \<noteq> CHR ''=''" "head rest \<noteq> CHR ''>''" "head rest \<noteq> CHR ''?''"
    using assms by (auto simp: operand_head_def isdigit_def)
  have r: "rd (pre @ c # rest) (Suc (length pre)) = Some (head rest)" for c
    using rd_head [of "pre @ [c]" rest] by simp
  show ?thesis
    using h by (cases opr) (simp_all add: roff_getop_def rd_pre rd_pre1 r)
qed

lemma print_op_head: "num_end (print_op opr @ rest)" "\<not> isspace (head (print_op opr @ rest))"
  by (cases opr; simp add: num_end_def isunit_def isdigit_def isspace_def)+

text \<open>What may follow an expression so that it ends there.\<close>

definition exp_end :: "bool \<Rightarrow> string \<Rightarrow> bool" where
  "exp_end sp rest \<longleftrightarrow> num_end rest \<and> (sp \<longrightarrow> \<not> isspace (head rest)) \<and> head rest \<notin> set ''+-*/%&:<>=''"

lemma getop_end: "exp_end sp rest \<Longrightarrow> roff_getop (pre @ rest) (length pre) = Some (None, length pre)"
  by (auto simp: roff_getop_def rd_head exp_end_def)

lemma exp_end_simps: "exp_end sp rest \<Longrightarrow> num_end rest" "exp_end sp rest \<Longrightarrow> sp \<longrightarrow> \<not> isspace (head rest)"
  by (simp_all add: exp_end_def)


lemma ops_le: "ops_exp e \<le> length (print_exp e)"
proof (induction e rule: nexp.induct [of "\<lambda>_. True"])
  case (Bin e opr a)
  then show ?case by (cases opr) simp_all
qed auto

definition start :: "nat \<Rightarrow> (bool \<Rightarrow> nat \<Rightarrow> num_out option) \<Rightarrow> nat \<Rightarrow> string \<Rightarrow> bool \<Rightarrow> nat \<Rightarrow> num_out option" where
  "start N par ln v sp pos = do {
     r \<leftarrow> par True pos;
     if \<not> n_ok r then Some r else evalloop N par ln True v sp (n_pos r) (n_res r) (n_msgs r)}"

abbreviation par_at :: "nat \<Rightarrow> nat \<Rightarrow> string \<Rightarrow> bool \<Rightarrow> bool \<Rightarrow> nat \<Rightarrow> num_out option" where
  "par_at n ln v sp \<equiv> (\<lambda>w p. evalpar (evalnum n ln v (CHR ''u'') True) w v (CHR ''u'') sp p)"

lemma evalnum_start:
  "evalnum (Suc m) ln v (CHR ''u'') sp True pos = do {
     p \<leftarrow> skip_if sp v pos; start (Suc (length v)) (par_at m ln v sp) ln v sp p}"
  by (simp add: start_def Let_def)

text \<open>Reading one more operator and operand in the loop.\<close>

lemma evalloop_operand:
  assumes "par True (length (pre @ print_op opr)) =
      Some (num_result True (length (pre @ print_op opr @ s)) (Some y) ms')"
    "operand_head (head (s @ rest))" "sp \<longrightarrow> \<not> isspace (head rest)" "meaning opr x y = Some z"
  shows "\<exists>ms''. evalloop (Suc N) par ln True (pre @ print_op opr @ s @ rest) sp (length pre) (Some x) ms =
    evalloop N par ln True (pre @ print_op opr @ s @ rest) sp (length (pre @ print_op opr @ s)) (Some z) ms''"
proof -
  let ?v = "pre @ print_op opr @ s @ rest"
  have s1: "skip_if sp ?v (length pre) = Some (length pre)"
    using skip_if_here [of sp "print_op opr @ s @ rest" pre] print_op_head(2) by simp
  have s2: "skip_if sp ?v (length (pre @ print_op opr)) = Some (length (pre @ print_op opr))"
    using skip_if_here [of sp "s @ rest" "pre @ print_op opr"] operand_head_not_space [OF assms(2)] by simp
  have s3: "skip_if sp ?v (length (pre @ print_op opr @ s)) = Some (length (pre @ print_op opr @ s))"
    using skip_if_here [of sp rest "pre @ print_op opr @ s"] assms(3) by simp
  obtain dz where "apply_op (op_letter opr) x y = Some (z, dz)" using apply_op_meaning [OF assms(4)] ..
  then show ?thesis
    using s1 s2 s3 assms(1) getop_print [OF assms(2), of pre opr] by (simp add: combine_def) blast
qed

lemma eval_print:
  shows "value_operand a = Some x \<Longrightarrow> num_end rest \<Longrightarrow> depth_operand a \<le> n \<Longrightarrow>
      \<exists>ms. par_at n ln (pre @ print_operand a @ rest) sp True (length pre) =
        Some (num_result True (length (pre @ print_operand a)) (Some x) ms)"
    and "value_exp e = Some x \<Longrightarrow> num_end rest \<Longrightarrow> sp \<longrightarrow> \<not> isspace (head rest) \<Longrightarrow> depth_exp e \<le> n \<Longrightarrow>
      \<exists>ms. start (N + ops_exp e) (par_at n ln (pre @ print_exp e @ rest) sp) ln (pre @ print_exp e @ rest) sp (length pre) =
        evalloop N (par_at n ln (pre @ print_exp e @ rest) sp) ln True (pre @ print_exp e @ rest) sp
          (length (pre @ print_exp e)) (Some x) ms"
proof (induction a and e arbitrary: x rest n pre sp and x rest n pre sp N)
  case (Num ds)
  then have d: "ds \<noteq> []" "list_all isdigit ds" "dec_value ds \<le> INT_MAX" "x = dec_value ds"
    by (auto simp: in_int_def split: if_splits)
  then have "isdigit (head (ds @ rest))" by (cases ds) simp_all
  then show ?case
    using roff_getnum_digits [OF d(2,1,3) Num.prems(2)] d(4) isdigit_plain
    by (auto simp: evalpar_def rd_head)
next
  case (Par e)
  obtain m where n: "n = Suc m" "depth_exp e \<le> m" using Par.prems(3) by (cases n) auto
  let ?v = "pre @ print_operand (Par e) @ rest" and ?pre = "pre @ ''(''" and ?rest = "'')'' @ rest"
  have v: "?v = ?pre @ print_exp e @ ?rest" by simp
  have val: "value_exp e = Some x" using Par.prems(1) by simp
  have sk: "skip_if True ?v (length ?pre) = Some (length ?pre)"
    unfolding v using value_exp_head [OF val] operand_head_not_space by (intro skip_if_here) blast
  have ends: "num_end ?rest" "\<not> isspace (head ?rest)" "exp_end True ?rest"
    by (simp_all add: num_end_def exp_end_def isdigit_def isunit_def isspace_def)
  have "ops_exp e \<le> length ?v" using ops_le [of e] by simp
  then obtain N where N: "Suc (length ?v) = Suc N + ops_exp e" by (metis Suc_diff_le add_Suc le_add_diff_inverse2)
  obtain ms where "start (Suc N + ops_exp e) (par_at m ln ?v True) ln ?v True (length ?pre) =
      evalloop (Suc N) (par_at m ln ?v True) ln True ?v True (length (?pre @ print_exp e)) (Some x) ms"
    using Par.IH [where sp = True and N = "Suc N" and pre = ?pre, OF val ends(1) _ n(2)] ends(2) unfolding v by blast
  then have "evalnum n ln ?v (CHR ''u'') True True (length ?pre) =
      evalloop (Suc N) (par_at m ln ?v True) ln True ?v True (length (?pre @ print_exp e)) (Some x) ms"
    unfolding n(1) evalnum_start sk N by simp
  moreover have "skip_if True ?v (length (?pre @ print_exp e)) = Some (length (?pre @ print_exp e))"
    using skip_if_here [of True ?rest "?pre @ print_exp e"] ends(2) by simp
  moreover have "roff_getop ?v (length (?pre @ print_exp e)) = Some (None, length (?pre @ print_exp e))"
    using getop_end [OF ends(3), of "?pre @ print_exp e"] by simp
  moreover have "rd ?v (length (?pre @ print_exp e)) = Some (CHR '')'')"
    using rd_head [of "?pre @ print_exp e" ?rest] by simp
  moreover have "rd ?v (length pre) = Some (CHR ''('')" using rd_pre [of pre "CHR ''(''"] by simp
  ultimately show ?case by (simp add: evalpar_def)
next
  case (Atom a)
  then obtain ms where "par_at n ln (pre @ print_operand a @ rest) sp True (length pre) =
        Some (num_result True (length (pre @ print_operand a)) (Some x) ms)" by fastforce
  then show ?case by (auto simp: start_def)
next
  case (Bin e opr a)
  then obtain y z where yz: "value_exp e = Some y" "value_operand a = Some z" "meaning opr y z = Some x"
    by (auto simp: bind_eq_Some_conv)
  let ?rest = "print_op opr @ print_operand a @ rest"
  let ?v = "pre @ print_exp e @ ?rest"
  have d: "depth_exp e \<le> n" "depth_operand a \<le> n" using Bin.prems(4) by simp_all
  obtain ms where 1: "start (Suc N + ops_exp e) (par_at n ln ?v sp) ln ?v sp (length pre) =
      evalloop (Suc N) (par_at n ln ?v sp) ln True ?v sp (length (pre @ print_exp e)) (Some y) ms"
    using Bin.IH(1) [where rest = ?rest and N = "Suc N" and pre = pre and sp = sp, OF yz(1) _ _ d(1)] print_op_head by blast
  obtain ms' where 2: "par_at n ln ?v sp True (length ((pre @ print_exp e) @ print_op opr)) =
      Some (num_result True (length ((pre @ print_exp e) @ print_op opr @ print_operand a)) (Some z) ms')"
    using Bin.IH(2) [OF yz(2) Bin.prems(2) d(2), of "(pre @ print_exp e) @ print_op opr" sp] by auto
  obtain ms'' where "evalloop (Suc N) (par_at n ln ?v sp) ln True ?v sp (length (pre @ print_exp e)) (Some y) ms =
      evalloop N (par_at n ln ?v sp) ln True ?v sp (length ((pre @ print_exp e) @ print_op opr @ print_operand a)) (Some x) ms''"
    using evalloop_operand [where par = "par_at n ln ?v sp" and pre = "pre @ print_exp e" and opr = opr
        and s = "print_operand a" and sp = sp and ln = ln and ms = ms and N = N, OF 2 _ Bin.prems(3) yz(3)] value_operand_head [OF yz(2)] by auto
  with 1 show ?case by auto
qed


lemma depth_le: "depth_operand a \<le> length (print_operand a)" "depth_exp e \<le> length (print_exp e)"
  by (induction a and e) auto

subsection \<open>Comparing delimited strings\<close>

lemma strchr_from_pre:
  assumes "d \<notin> set s"
  shows "strchr_from (pre @ s @ d # rest) (length pre) d = Some (length pre + length s)"
proof -
  have "takeWhile (\<lambda>x. x \<noteq> d) (s @ d # rest) = s" using assms by (subst takeWhile_append2) auto
  then show ?thesis by (simp add: strchr_from_def)
qed

text \<open>
  The loop after the common beginning \<open>w\<close> of both strings; \<open>s3\<close> is incremented before
  it is read.
\<close>

lemma strcond_loop_correct:
  assumes "d \<notin> set a" "d \<notin> set b" "NUL \<notin> set b" "d \<noteq> NUL" "length b < n"
  shows "\<exists>s2. strcond_loop n (pre @ d # w @ a @ d # w @ b @ d # rest) d (length (pre @ d # w)) (length (pre @ d # w @ a @ w)) =
    Some (a = b, s2, Some (length (pre @ d # w @ a @ d # w @ b)))"
  using assms
proof (induction b arbitrary: a w n)
  case Nil
  let ?v = "pre @ d # w @ a @ d # w @ [] @ d # rest"
  obtain m where n: "n = Suc m" using Nil.prems(5) by (cases n) auto
  have c3: "rd ?v (Suc (length (pre @ d # w @ a @ w))) = Some d"
    using rd_pre [of "pre @ d # w @ a @ d # w" d rest] by simp
  have c2: "rd ?v (length (pre @ d # w)) = Some (head (a @ d # w @ d # rest))"
    using rd_head [of "pre @ d # w" "a @ d # w @ d # rest"] by simp
  have st: "strchr_from ?v (Suc (length (pre @ d # w @ a @ w))) d = Some (Suc (length (pre @ d # w @ a @ w)))"
    using strchr_from_pre [of d "[]" "pre @ d # w @ a @ d # w" rest] by simp
  show ?case
  proof (cases a)
    case Nil': Nil
    then show ?thesis using n c2 c3 Nil.prems(4) by simp
  next
    case (Cons y ys)
    then have "y \<noteq> d" using Nil.prems(1) by auto
    then show ?thesis using n c2 c3 st Nil.prems(4) Cons by simp
  qed
next
  case (Cons x xs)
  let ?v = "pre @ d # w @ a @ d # w @ (x # xs) @ d # rest"
  obtain m where n: "n = Suc m" "length xs < m" using Cons.prems(5) by (cases n) auto
  have x: "x \<noteq> d" "x \<noteq> NUL" using Cons.prems by auto
  have c3: "rd ?v (Suc (length (pre @ d # w @ a @ w))) = Some x"
    using rd_pre [of "pre @ d # w @ a @ d # w" x "xs @ d # rest"] by simp
  have c2: "rd ?v (length (pre @ d # w)) = Some (head (a @ d # w @ (x # xs) @ d # rest))"
    using rd_head [of "pre @ d # w" "a @ d # w @ (x # xs) @ d # rest"] by simp
  have st: "strchr_from ?v (Suc (length (pre @ d # w @ a @ w))) d =
      Some (length (pre @ d # w @ a @ d # w @ x # xs))"
    using strchr_from_pre [of d "x # xs" "pre @ d # w @ a @ d # w" rest] Cons.prems(2) by simp
  show ?case
  proof (cases "a \<noteq> [] \<and> hd a = x")
    case False
    then have "head (a @ d # w @ (x # xs) @ d # rest) \<noteq> x" "a \<noteq> x # xs"
      using x by (cases a; auto)+
    then show ?thesis using n(1) c2 c3 st x by simp
  next
    case True
    then obtain ys where a: "a = x # ys" by (cases a) auto
    have "\<exists>s2. strcond_loop m (pre @ d # (w @ [x]) @ ys @ d # (w @ [x]) @ xs @ d # rest) d
        (length (pre @ d # (w @ [x]))) (length (pre @ d # (w @ [x]) @ ys @ (w @ [x]))) =
      Some (ys = xs, s2, Some (length (pre @ d # (w @ [x]) @ ys @ d # (w @ [x]) @ xs)))"
      by (rule Cons.IH) (use Cons.prems a n in auto)
    then show ?thesis using n(1) c2 c3 x a by simp
  qed
qed

subsection \<open>Properties\<close>

text \<open>
  on a delimiter, a string, the delimiter, a string and the delimiter, the string condition
  holds exactly if the two strings are equal, and the parse point moves after the third
  delimiter.\<close>

theorem roff_evalstrcond_correct:
  assumes "d \<notin> set a" "d \<notin> set b" "cstring b" "d \<noteq> NUL"
  shows "roff_evalstrcond (pre @ d # a @ d # b @ d # rest) (length pre) =
    Some (a = b, length (pre @ d # a @ d # b @ [d]))"
proof -
  let ?v = "pre @ d # a @ d # b @ d # rest"
  have s: "strchr_from ?v (Suc (length pre)) d = Some (length (pre @ d # a))"
    using strchr_from_pre [of d a "pre @ [d]" "b @ d # rest"] assms(1) by simp
  have "\<exists>s2. strcond_loop (Suc (length ?v)) (pre @ d # [] @ a @ d # [] @ b @ d # rest) d
      (length (pre @ d # [])) (length (pre @ d # [] @ a @ [])) =
    Some (a = b, s2, Some (length (pre @ d # [] @ a @ d # [] @ b)))"
    by (rule strcond_loop_correct) (use assms in \<open>auto simp: cstring_def\<close>)
  then obtain s2 where "strcond_loop (Suc (length ?v)) ?v d (Suc (length pre)) (length (pre @ d # a)) =
      Some (a = b, s2, Some (length (pre @ d # a @ d # b)))" by auto
  moreover have "rd ?v (length (pre @ d # a @ d # b)) = Some d"
    using rd_pre [of "pre @ d # a @ d # b" d rest] by simp
  ultimately show ?thesis
    using s assms(4) by (simp add: roff_evalstrcond_def rd_pre del: strcond_loop.simps)
qed

theorem roff_evalstrcond_correct_witness:
  "roff_evalstrcond (''.if '' @ SQUOTE # ''ab'' @ SQUOTE # ''ab'' @ SQUOTE # '' yes'') 4 = Some (True, 11)"
  using roff_evalstrcond_correct [of SQUOTE "''ab''" "''ab''" "''.if ''" "'' yes''"]
  by (simp add: cstring_def eval_nat_numeral)

text \<open>
  C39: the evaluator computes what an expression means: on the text of any expression of decimal
  numbers, the fifteen operators and nested parentheses, \<open>roff_evalnum\<close> succeeds, stops
  right after it, and stores the value of the expression evaluated strictly from left to right
  in C arithmetic, whenever that value is defined.\<close>

theorem roff_evalnum_correct:
  assumes "value_exp e = Some x" "exp_end sp rest"
  shows "\<exists>ms. roff_evalnum ln True (pre @ print_exp e @ rest) (length pre) (CHR ''u'') sp =
    Some (num_result True (length (pre @ print_exp e)) (Some x) ms)"
proof -
  let ?v = "pre @ print_exp e @ rest"
  have "ops_exp e \<le> length ?v" using ops_le [of e] by simp
  then obtain N where N: "Suc (length ?v) = Suc N + ops_exp e" by (metis Suc_diff_le add_Suc le_add_diff_inverse2)
  have "depth_exp e \<le> length ?v" using depth_le(2) [of e] by simp
  then obtain ms where st: "start (Suc N + ops_exp e) (par_at (length ?v) ln ?v sp) ln ?v sp (length pre) =
      evalloop (Suc N) (par_at (length ?v) ln ?v sp) ln True ?v sp (length (pre @ print_exp e)) (Some x) ms"
    using eval_print(2) [where n = "length ?v" and N = "Suc N" and ln = ln and pre = pre, OF assms(1) exp_end_simps [OF assms(2)]] by blast
  have sk: "skip_if sp ?v (length pre) = Some (length pre)"
    using value_exp_head [OF assms(1)] operand_head_not_space by (intro skip_if_here) blast
  have "roff_evalnum ln True ?v (length pre) (CHR ''u'') sp =
      evalloop (Suc N) (par_at (length ?v) ln ?v sp) ln True ?v sp (length (pre @ print_exp e)) (Some x) ms"
    using st N evalnum_start [of "length ?v" ln ?v sp "length pre"] sk unfolding roff_evalnum_def
    by (simp only: Option.bind.bind_lunit)
  then show ?thesis
    using skip_if_here [of sp rest "pre @ print_exp e"] getop_end [OF assms(2), of "pre @ print_exp e"]
      exp_end_simps(2) [OF assms(2)] by simp
qed

theorem roff_evalnum_correct_witness:
  "\<exists>ms. roff_evalnum 1 True (''.if '' @ ''2+(3*4)/2>=7'' @ '' .br'') 4 (CHR ''u'') False =
    Some (num_result True 16 (Some 1) ms)"
proof -
  let ?e = "Bin (Bin (Bin (Atom (Num ''2'')) Add (Par (Bin (Atom (Num ''3'')) Mul (Num ''4'')))) Div (Num ''2'')) Ge (Num ''7'')"
  have "value_exp ?e = Some 1" by code_simp
  moreover have "exp_end False '' .br''" by (simp add: exp_end_def num_end_def isunit_def isdigit_def)
  ultimately show ?thesis
    using roff_evalnum_correct [of ?e 1 False "'' .br''" 1 "''.if ''"] by (simp add: eval_nat_numeral)
qed

text \<open>
  the comment on \<open>roff_getnum\<close> says that it fails unless there is at least one digit;
  the code succeeds on a plus sign or a decimal point alone, with the value 0.\<close>

theorem roff_getnum_no_digit:
  assumes "num_end rest" "c = CHR ''+'' \<or> c = CHR ''.''"
  shows "roff_getnum True (pre @ c # rest) (length pre) (CHR ''u'') False = Some (True, Suc (length pre), Some 0)"
proof -
  have r: "rd (pre @ c # rest) (length pre) = Some c" "rd (pre @ c # rest) (Suc (length pre)) = Some (head rest)"
    using rd_head [of "pre @ [c]" rest] by (simp_all add: rd_pre)
  show ?thesis
    using assms r
    by (auto simp: roff_getnum_def getnum_start_def getnum_int.simps getnum_frac.simps num_end_def
        isdigit_def scale_unit_def d_to_int_def d_int_def d_trunc_def ck_int_def in_int_def int_limits)
qed

theorem roff_getnum_no_digit_witness:
  "roff_getnum True ''+'' 0 (CHR ''u'') False = Some (True, 1, Some 0)"
  using roff_getnum_no_digit [of "[]" "CHR ''+''" "[]"]
  by (simp add: num_end_def head_def isdigit_def isunit_def)

text \<open>
  dividing the smallest \<open>int\<close> by -1 is undefined in C and traps on common machines; the
  evaluator only excludes the divisor 0, so that an expression of the form
  \<open>-2147483648/-1\<close> reaches it.\<close>

theorem roff_evalnum_div_undefined:
  "roff_evalnum ln True ''-2147483648/-1'' 0 (CHR ''u'') False = None"
  by code_simp

end
