(* ===== verification/Term_Tab.thy ===== *)
theory Term_Tab
  imports Prelude
begin

section \<open>Tabulator positions: \<open>term_tab.c\<close>\<close>

text \<open>
  The global structure \<open>tabs\<close> as a record: the list of tab positions for lookup, the list of
  periodic positions that \<open>term_tab_next\<close> appends when it runs past the end, the list being
  recorded (NULL until the first call), and the default width.  Positions are \<open>size_t\<close>
  values, so additions wrap at 64 bits.  The arrays grow before every store, so that they are
  lists here.  Parsing a width and converting it to basic units goes through a function pointer
  of the output device; it is the parameter \<open>width\<close>, which maps an argument and a default
  unit to the distance \<open>term_hspan\<close> returns, an \<open>int\<close>, or to None where
  \<open>a2roffsu\<close> fails.
\<close>

type_synonym pos64 = "64 word"

datatype tablist = List_a | List_p

datatype roffscale = SCALE_IN | SCALE_EM

record tabs =
  tab_a :: "pos64 list"
  tab_p :: "pos64 list"
  tab_r :: "tablist option"
  tab_d :: pos64

definition tabs_zero :: tabs where
  "tabs_zero = \<lparr>tab_a = [], tab_p = [], tab_r = None, tab_d = 0\<rparr>"

text \<open>Appending to the list being recorded, relative to its last element if asked for.\<close>

definition tab_append :: "bool \<Rightarrow> pos64 \<Rightarrow> pos64 list \<Rightarrow> pos64 list" where
  "tab_append add x ts = ts @ [if add \<and> ts \<noteq> [] then x + last ts else x]"

definition term_tab_set :: "(string \<Rightarrow> roffscale \<Rightarrow> int option) \<Rightarrow> string option \<Rightarrow> tabs \<Rightarrow> tabs option" where
  "term_tab_set width arg t =
     (case arg of
        None \<Rightarrow> do {
          d \<leftarrow> (if tab_d t = 0 then map_option word_of_int (width ''.8i'' SCALE_IN) else Some (tab_d t));
          Some (t\<lparr>tab_a := [], tab_p := [], tab_r := Some List_a, tab_d := d\<rparr>)}
      | Some s \<Rightarrow>
          if s = ''T'' then Some (t\<lparr>tab_r := Some List_p\<rparr>)
          else
            let add = (s \<noteq> [] \<and> hd s = CHR ''+'') in
            case width (if add then tl s else s) SCALE_EM of
              None \<Rightarrow> Some t
            | Some w \<Rightarrow>
                (case tab_r t of
                   None \<Rightarrow> None
                 | Some List_a \<Rightarrow> Some (t\<lparr>tab_a := tab_append add (word_of_int w) (tab_a t)\<rparr>)
                 | Some List_p \<Rightarrow> Some (t\<lparr>tab_p := tab_append add (word_of_int w) (tab_p t)\<rparr>)))"

text \<open>One more period, relative to the last position there is.\<close>

definition tab_extend :: "pos64 list \<Rightarrow> pos64 list \<Rightarrow> pos64 list" where
  "tab_extend a p = a @ map (\<lambda>x. x + (if a \<noteq> [] then last a else 0)) p"

text \<open>The endless loop of \<open>term_tab_next\<close>; None means that it does not end.\<close>

partial_function (option) tab_from :: "pos64 list \<Rightarrow> pos64 list \<Rightarrow> pos64 \<Rightarrow> nat \<Rightarrow>
    (pos64 \<times> pos64 list) option" where
  "tab_from a p prev i =
     (if i = length a \<and> p = [] then Some (prev, a)
      else let a' = (if i = length a then tab_extend a p else a)
           in if prev < a' ! i then Some (a' ! i, a') else tab_from a' p prev (Suc i))"

definition term_tab_next :: "pos64 \<Rightarrow> tabs \<Rightarrow> (pos64 \<times> tabs) option" where
  "term_tab_next prev t =
     map_option (\<lambda>(v, a). (v, t\<lparr>tab_a := a\<rparr>)) (tab_from (tab_a t) (tab_p t) prev 0)"

definition term_tab_free :: "tabs \<Rightarrow> tabs" where
  "term_tab_free t = tabs_zero\<lparr>tab_r := Some List_a\<rparr>"

subsection \<open>The next tab position\<close>

definition first_above :: "pos64 \<Rightarrow> pos64 list \<Rightarrow> pos64 \<Rightarrow> bool" where
  "first_above prev a v \<longleftrightarrow> (\<exists>i < length a. a ! i = v \<and> prev < v \<and> (\<forall>k < i. a ! k \<le> prev))"

lemma tab_extend_nth: "i < length a \<Longrightarrow> tab_extend a p ! i = a ! i"
  by (simp add: tab_extend_def nth_append)

lemma length_tab_extend: "length (tab_extend a p) = length a + length p"
  by (simp add: tab_extend_def)

definition base :: "pos64 list \<Rightarrow> pos64" where
  "base a = (if a = [] then 0 else last a)"

lemma base_le: "(\<And>k. k < length a \<Longrightarrow> a ! k \<le> prev) \<Longrightarrow> base a \<le> prev"
  by (simp add: base_def last_conv_nth)

lemma base_extend: "p \<noteq> [] \<Longrightarrow> base (tab_extend a p) = last p + base a"
  by (simp add: base_def tab_extend_def last_map)

lemma unat_add_less: "unat a + unat b < 2 ^ 64 \<Longrightarrow> unat (a + b) = unat a + unat b" for a b :: pos64
  by (simp add: unat_word_ariths)

text \<open>The loop within the positions there are: it stops at the first one above, or passes over all.\<close>

lemma tab_from_step:
  "i < length a \<Longrightarrow> a ! i \<le> prev \<Longrightarrow> tab_from a p prev i = tab_from a p prev (Suc i)"
  by (subst tab_from.simps) (simp add: Let_def not_less [symmetric])

lemma tab_from_stop: "i < length a \<Longrightarrow> prev < a ! i \<Longrightarrow> tab_from a p prev i = Some (a ! i, a)"
  by (subst tab_from.simps) (simp add: Let_def)

lemma tab_from_hit:
  assumes "i \<le> j" "j < length a" "prev < a ! j" "\<And>k. i \<le> k \<Longrightarrow> k < j \<Longrightarrow> a ! k \<le> prev"
  shows "tab_from a p prev i = Some (a ! j, a)"
  using assms
proof (induction "j - i" arbitrary: i)
  case 0
  then show ?case by (simp add: tab_from_stop)
next
  case (Suc d)
  have "tab_from a p prev (Suc i) = Some (a ! j, a)" by (rule Suc.hyps(1)) (use Suc in auto)
  moreover have "i < length a" "a ! i \<le> prev" using Suc by auto
  ultimately show ?case by (simp add: tab_from_step)
qed

lemma tab_from_skip:
  assumes "i \<le> length a" "\<And>k. i \<le> k \<Longrightarrow> k < length a \<Longrightarrow> a ! k \<le> prev"
  shows "tab_from a p prev i = tab_from a p prev (length a)"
  using assms
proof (induction "length a - i" arbitrary: i)
  case 0
  then show ?case by simp
next
  case (Suc d)
  have "tab_from a p prev (Suc i) = tab_from a p prev (length a)"
    by (rule Suc.hyps(1)) (use Suc in auto)
  moreover have "i < length a" "a ! i \<le> prev" using Suc by auto
  ultimately show ?case by (simp add: tab_from_step)
qed

lemma tab_from_extend:
  assumes "p \<noteq> []"
  shows "tab_from a p prev (length a) = tab_from (tab_extend a p) p prev (length a)"
proof -
  have "length a < length (tab_extend a p)" using assms by (simp add: length_tab_extend)
  then show ?thesis
    using assms by (subst (1 2) tab_from.simps) (simp add: Let_def)
qed

lemma least_above:
  fixes prev :: pos64
  assumes "i \<le> j" "j < length a" "prev < a ! j"
  obtains m where "i \<le> m" "m < length a" "prev < a ! m" "\<And>k. i \<le> k \<Longrightarrow> k < m \<Longrightarrow> a ! k \<le> prev"
proof -
  define P where "P m \<longleftrightarrow> i \<le> m \<and> m < length a \<and> prev < a ! m" for m
  define m where "m = (LEAST m. P m)"
  have "P j" using assms by (simp add: P_def)
  then have m: "P m" unfolding m_def by (rule LeastI)
  have "a ! k \<le> prev" if "i \<le> k" "k < m" for k
  proof -
    have "\<not> P k" using that(2) unfolding m_def by (rule not_less_Least)
    with that m have "\<not> prev < a ! k" by (auto simp: P_def)
    then show ?thesis by (rule leI)
  qed
  with m show thesis using that [of m] by (simp add: P_def)
qed

text \<open>
  With a last period of positive width, and no overflow, the search ends: every extension moves
  the last position forward.
\<close>

lemma tab_from_returns:
  assumes "p \<noteq> []" "last p \<noteq> 0" "unat prev + unat (last p) < 2 ^ 64"
    "i \<le> length a" "\<And>k. k < i \<Longrightarrow> a ! k \<le> prev"
  shows "\<exists>v a'. tab_from a p prev i = Some (v, a') \<and> first_above prev a' v \<and> (\<exists>more. a' = a @ more)"
  using assms(4,5)
proof (induction "Suc (unat prev) - unat (base a)" arbitrary: a i rule: less_induct)
  case less
  show ?case
  proof (cases "\<exists>j. i \<le> j \<and> j < length a \<and> prev < a ! j")
    case True
    then obtain m where m: "i \<le> m" "m < length a" "prev < a ! m" "\<And>k. i \<le> k \<Longrightarrow> k < m \<Longrightarrow> a ! k \<le> prev"
      by (elim exE conjE) (rule least_above, assumption+, blast)
    have "a ! k \<le> prev" if "k < m" for k using m(4) less.prems that by (cases "k < i") auto
    then have "first_above prev a (a ! m)" unfolding first_above_def using m by blast
    then show ?thesis using tab_from_hit [OF m] by auto
  next
    case False
    then have skip: "tab_from a p prev i = tab_from a p prev (length a)"
      using less.prems by (intro tab_from_skip) (auto simp: not_less)
    have below: "a ! k \<le> prev" if "k < length a" for k
      using False less.prems that by (cases "k < i") (auto simp: not_less)
    then have b: "base a \<le> prev" by (rule base_le)
    then have "unat (last p) + unat (base a) < 2 ^ 64"
      using assms(3) by (simp add: word_le_nat_alt)
    then have u: "unat (base (tab_extend a p)) = unat (last p) + unat (base a)"
      using assms(1) by (simp add: base_extend unat_add_less)
    have "0 < unat (last p)" using assms(2) by (simp add: unat_gt_0)
    then have dec: "Suc (unat prev) - unat (base (tab_extend a p)) < Suc (unat prev) - unat (base a)"
      using u b by (simp add: word_le_nat_alt)
    have "\<exists>v a'. tab_from (tab_extend a p) p prev (length a) = Some (v, a') \<and> first_above prev a' v \<and>
        (\<exists>more. a' = tab_extend a p @ more)"
      by (rule less.hyps [OF dec]) (auto simp: length_tab_extend tab_extend_nth below)
    then show ?thesis
      unfolding skip tab_from_extend [OF assms(1)] by (auto simp: tab_extend_def)
  qed
qed

definition stuck :: "pos64 list \<Rightarrow> pos64 list \<Rightarrow> pos64 \<Rightarrow> nat \<Rightarrow> bool" where
  "stuck a p prev i \<longleftrightarrow>
     p \<noteq> [] \<and> (\<forall>x \<in> set p. x = 0) \<and> i \<le> length a \<and> (\<forall>x \<in> set a. x \<le> prev)"

lemma stuck_step:
  assumes "stuck a p prev i"
  defines "a' \<equiv> if i = length a then tab_extend a p else a"
  shows "\<not> prev < a' ! i" "stuck a' p prev (Suc i)"
proof -
  have "\<forall>x \<in> set a'. x \<le> prev" "i < length a'"
    using assms by (auto simp: stuck_def tab_extend_def)
  then show "\<not> prev < a' ! i" "stuck a' p prev (Suc i)"
    using assms(1) by (auto simp: stuck_def not_less)
qed

lemma tab_from_diverges:
  assumes "stuck a p prev i"
  shows "tab_from a p prev i = None"
proof -
  have step: "\<not> stuck a p prev i"
    if IH: "\<And>a p prev i r. f a p prev i = Some r \<Longrightarrow> \<not> stuck a p prev i"
      and run: "(if i = length a \<and> p = [] then Some (prev, a)
        else let a' = (if i = length a then tab_extend a p else a)
             in if prev < a' ! i then Some (a' ! i, a') else f a' p prev (Suc i)) = Some r"
    for f a p prev i and r :: "pos64 \<times> pos64 list"
  proof
    assume st: "stuck a p prev i"
    note s = stuck_step [OF st]
    have "p \<noteq> []" using st by (simp add: stuck_def)
    then have "f (if i = length a then tab_extend a p else a) p prev (Suc i) = Some r"
      using run s(1) by (simp add: Let_def)
    with IH s(2) show False by blast
  qed
  have "\<not> stuck a p prev i" if "tab_from a p prev i = Some r" for a p prev i r
    by (rule tab_from.raw_induct [OF step that])
  with assms show ?thesis by (metis option.exhaust)
qed

subsection \<open>Properties\<close>

text \<open>
  when the last periodic tab has a positive width and the positions do not overflow,
  \<open>term_tab_next\<close> ends and returns a position above the previous one: the first such
  position of the list, which is extended by whole periods as needed and keeps the tabs it
  had.\<close>

theorem term_tab_next_returns:
  assumes "tab_p t \<noteq> []" "last (tab_p t) \<noteq> 0" "unat prev + unat (last (tab_p t)) < 2 ^ 64"
  shows "\<exists>v t' more. term_tab_next prev t = Some (v, t') \<and> prev < v \<and>
     tab_a t' = tab_a t @ more \<and> first_above prev (tab_a t') v \<and> tab_p t' = tab_p t"
proof -
  have "\<exists>v a'. tab_from (tab_a t) (tab_p t) prev 0 = Some (v, a') \<and> first_above prev a' v \<and>
      (\<exists>more. a' = tab_a t @ more)"
    by (rule tab_from_returns [OF assms]) auto
  then obtain v a' more where "tab_from (tab_a t) (tab_p t) prev 0 = Some (v, a')"
    "first_above prev a' v" "a' = tab_a t @ more" by blast
  moreover from this have "prev < v" by (auto simp: first_above_def)
  ultimately show ?thesis by (simp add: term_tab_next_def)
qed

theorem term_tab_next_returns_witness:
  "\<exists>v t' more. term_tab_next 100 \<lparr>tab_a = [24], tab_p = [48], tab_r = Some List_p, tab_d = 0\<rparr> = Some (v, t') \<and>
     100 < v \<and> tab_a t' = [24] @ more"
  using term_tab_next_returns [of "\<lparr>tab_a = [24], tab_p = [48], tab_r = Some List_p, tab_d = 0\<rparr>" 100]
  by auto

text \<open>
  C38: when all periodic tabs have width 0, as after the request \<open>.ta T 0\<close>, and no explicit
  tab lies above the previous position, \<open>term_tab_next\<close> never returns.\<close>

theorem term_tab_next_diverges:
  assumes "tab_p t \<noteq> []" "\<forall>x \<in> set (tab_p t). x = 0" "\<forall>x \<in> set (tab_a t). x \<le> prev"
  shows "term_tab_next prev t = None"
proof -
  have "stuck (tab_a t) (tab_p t) prev 0" using assms by (simp add: stuck_def)
  then show ?thesis by (simp add: term_tab_next_def tab_from_diverges)
qed

definition demo_width :: "string \<Rightarrow> roffscale \<Rightarrow> int option" where
  "demo_width s u = (if s = ''0'' then Some 0 else if s = ''.8i'' then Some 192 else None)"

theorem term_tab_next_diverges_witness:
  "(do { t1 \<leftarrow> term_tab_set demo_width None tabs_zero;
         t2 \<leftarrow> term_tab_set demo_width (Some ''T'') t1;
         t3 \<leftarrow> term_tab_set demo_width (Some ''0'') t2;
         Some (tab_p t3, term_tab_next 24 t3)}) = Some ([0], None)"
proof -
  have "term_tab_next 24 \<lparr>tab_a = [], tab_p = [0], tab_r = Some List_p, tab_d = 192\<rparr> = None"
    by (rule term_tab_next_diverges) simp_all
  then show ?thesis
    by (simp add: term_tab_set_def demo_width_def tabs_zero_def tab_append_def)
qed

text \<open>
  without periodic tabs, \<open>term_tab_next\<close> returns the first tab above the previous
  position and the previous position itself if there is none, and changes nothing.\<close>

theorem term_tab_next_plain:
  assumes "tab_p t = []"
  shows "term_tab_next prev t = Some (case find (\<lambda>x. prev < x) (tab_a t) of Some v \<Rightarrow> v | None \<Rightarrow> prev, t)"
proof (cases "find (\<lambda>x. prev < x) (tab_a t)")
  case None
  then have "a ! k \<le> prev" if "k < length a" "a = tab_a t" for k a
    using that by (auto simp: find_None_iff not_less)
  then have "tab_from (tab_a t) [] prev 0 = tab_from (tab_a t) [] prev (length (tab_a t))"
    by (intro tab_from_skip) auto
  then show ?thesis
    using None assms by (simp add: term_tab_next_def tab_from.simps [of _ _ _ "length (tab_a t)"])
next
  case (Some v)
  then obtain i where "i < length (tab_a t)" "prev < tab_a t ! i" "v = tab_a t ! i"
    "\<And>k. k < i \<Longrightarrow> tab_a t ! k \<le> prev"
    by (auto simp: find_Some_iff not_less)
  then show ?thesis
    using Some assms tab_from_hit [of 0 i "tab_a t" prev "[]"] by (simp add: term_tab_next_def)
qed

theorem term_tab_next_plain_witness:
  "term_tab_next 30 \<lparr>tab_a = [24, 48], tab_p = [], tab_r = Some List_a, tab_d = 0\<rparr> =
     Some (48, \<lparr>tab_a = [24, 48], tab_p = [], tab_r = Some List_a, tab_d = 0\<rparr>)"
  using term_tab_next_plain [of "\<lparr>tab_a = [24, 48], tab_p = [], tab_r = Some List_a, tab_d = 0\<rparr>" 30]
  by simp

end
