(* ===== verification/C_Sort.thy ===== *)
theory C_Sort
  imports Prelude "HOL-Library.Multiset"
begin

section \<open>Comparing and sorting C strings\<close>

text \<open>
  \<open>strcmp\<close> compares bytes as \<open>unsigned char\<close>; only the sign of its result is specified
  and used.  \<open>strcasecmp\<close> compares the lower-case forms.
\<close>

fun strcmp :: "string \<Rightarrow> string \<Rightarrow> int" where
  "strcmp [] [] = 0"
| "strcmp [] (d # ds) = - int (ord_of d)"
| "strcmp (c # cs) [] = int (ord_of c)"
| "strcmp (c # cs) (d # ds) = (if c = d then strcmp cs ds else int (ord_of c) - int (ord_of d))"

definition strcasecmp :: "string \<Rightarrow> string \<Rightarrow> int" where
  "strcasecmp s t = strcmp (map tolower s) (map tolower t)"

text \<open>
  \<open>qsort\<close> with a comparison function.  The order in which it leaves entries that compare
  equal is not specified; the comparison functions it is used with here compare equal on equal
  strings only, so the result is the same for every sorting algorithm.
\<close>

primrec insert_by :: "('a \<Rightarrow> 'a \<Rightarrow> int) \<Rightarrow> 'a \<Rightarrow> 'a list \<Rightarrow> 'a list" where
  "insert_by cmp x [] = [x]"
| "insert_by cmp x (y # ys) = (if cmp x y \<le> 0 then x # y # ys else y # insert_by cmp x ys)"

definition qsort :: "('a \<Rightarrow> 'a \<Rightarrow> int) \<Rightarrow> 'a list \<Rightarrow> 'a list" where
  "qsort cmp xs = foldr (insert_by cmp) xs []"

lemma mset_insert_by: "mset (insert_by cmp x ys) = add_mset x (mset ys)"
  by (induction ys) auto

lemma mset_qsort [simp]: "mset (qsort cmp xs) = mset xs"
  by (induction xs) (simp_all add: qsort_def mset_insert_by)

lemma set_qsort [simp]: "set (qsort cmp xs) = set xs"
  by (metis mset_qsort set_mset_mset)

lemma length_qsort [simp]: "length (qsort cmp xs) = length xs"
  by (metis mset_qsort size_mset)

lemma distinct_qsort [simp]: "distinct (qsort cmp xs) = distinct xs"
  by (metis mset_qsort distinct_count_atmost_1 set_mset_mset)

lemma qsort_id:
  assumes "sorted_wrt (\<lambda>x y. cmp x y \<le> 0) xs"
  shows "qsort cmp xs = xs"
  using assms
proof (induction xs)
  case (Cons x xs)
  then show ?case by (cases xs) (auto simp: qsort_def)
qed (simp add: qsort_def)

subsection \<open>What a comparison function promises\<close>

locale comparison =
  fixes cmp :: "'a \<Rightarrow> 'a \<Rightarrow> int" and D :: "'a set"
  assumes flip: "x \<in> D \<Longrightarrow> y \<in> D \<Longrightarrow> cmp y x \<le> 0 \<longleftrightarrow> 0 \<le> cmp x y"
    and eqD: "x \<in> D \<Longrightarrow> y \<in> D \<Longrightarrow> cmp x y = 0 \<Longrightarrow> x = y"
    and trans: "x \<in> D \<Longrightarrow> y \<in> D \<Longrightarrow> z \<in> D \<Longrightarrow> cmp x y \<le> 0 \<Longrightarrow> cmp y z \<le> 0 \<Longrightarrow> cmp x z \<le> 0"
begin

lemma antisym: "x \<in> D \<Longrightarrow> y \<in> D \<Longrightarrow> cmp x y \<le> 0 \<Longrightarrow> cmp y x \<le> 0 \<Longrightarrow> x = y"
  using flip [of x y] eqD [of x y] by simp

lemma strict_trans:
  assumes "x \<in> D" "y \<in> D" "z \<in> D" "cmp x y \<le> 0" "cmp y z \<le> 0" "cmp x y < 0 \<or> cmp y z < 0"
  shows "cmp x z < 0"
proof (rule ccontr)
  assume "\<not> cmp x z < 0"
  then have "cmp z x \<le> 0" using flip [of x z] assms by simp
  then have "cmp y x \<le> 0" "cmp z y \<le> 0"
    using trans [of y z x] trans [of z x y] assms by auto
  then show False using flip [of x y] flip [of y z] assms by auto
qed

lemma insert_by_sorted:
  "set (x # ys) \<subseteq> D \<Longrightarrow> sorted_wrt (\<lambda>x y. cmp x y \<le> 0) ys \<Longrightarrow>
    sorted_wrt (\<lambda>x y. cmp x y \<le> 0) (insert_by cmp x ys)"
proof (induction ys)
  case (Cons y ys)
  show ?case
  proof (cases "cmp x y \<le> 0")
    case True
    then show ?thesis using Cons.prems by (auto intro: trans [of x y])
  next
    case False
    then have "cmp y x \<le> 0" using flip [of x y] Cons.prems by simp
    moreover have "set (insert_by cmp x ys) = insert x (set ys)"
      by (metis mset_insert_by set_mset_add_mset_insert set_mset_mset)
    ultimately show ?thesis using Cons False by auto
  qed
qed simp

lemma qsort_sorted: "set xs \<subseteq> D \<Longrightarrow> sorted_wrt (\<lambda>x y. cmp x y \<le> 0) (qsort cmp xs)"
proof (induction xs)
  case (Cons x xs)
  then have "sorted_wrt (\<lambda>x y. cmp x y \<le> 0) (insert_by cmp x (qsort cmp xs))"
    by (intro insert_by_sorted) auto
  then show ?case by (simp add: qsort_def)
qed (simp add: qsort_def)

lemma qsort_idem: "set xs \<subseteq> D \<Longrightarrow> qsort cmp (qsort cmp xs) = qsort cmp xs"
  by (intro qsort_id qsort_sorted)

lemma sorted_unique:
  "mset xs = mset ys \<Longrightarrow> set xs \<subseteq> D \<Longrightarrow> sorted_wrt (\<lambda>x y. cmp x y \<le> 0) xs \<Longrightarrow>
    sorted_wrt (\<lambda>x y. cmp x y \<le> 0) ys \<Longrightarrow> xs = ys"
proof (induction xs arbitrary: ys)
  case (Cons x xs)
  then obtain y ys' where ys: "ys = y # ys'" by (cases ys) auto
  have "set ys = set (x # xs)" using Cons.prems(1) by (metis set_mset_mset)
  then have "y \<in> set (x # xs)" "x \<in> set (y # ys')" using ys by auto
  then have "x = y"
    using Cons.prems ys by (auto intro: antisym)
  then show ?case using Cons ys by auto
qed simp

lemma qsort_unique:
  assumes "mset xs = mset ys" "set xs \<subseteq> D"
  shows "qsort cmp xs = qsort cmp ys"
proof -
  have "set ys \<subseteq> D" using assms by (metis set_mset_mset)
  then show ?thesis using assms by (intro sorted_unique qsort_sorted) simp_all
qed

end

lemma ord_of_inj: "ord_of c = ord_of d \<longleftrightarrow> c = d"
  by (simp add: ord_of_def)

lemma ord_of_0: "ord_of c = 0 \<longleftrightarrow> c = NUL"
  using ord_of_inj [of c NUL] by (simp add: ord_of_def)

lemma strcmp_flip: "strcmp t s = - strcmp s t"
  by (induction s t rule: strcmp.induct) auto

lemma strcmp_0: "cstring s \<Longrightarrow> cstring t \<Longrightarrow> strcmp s t = 0 \<longleftrightarrow> s = t"
  by (induction s t rule: strcmp.induct) (auto simp: cstring_def ord_of_0 ord_of_inj split: if_splits)

lemma strcmp_trans: "cstring s \<Longrightarrow> strcmp s t \<le> 0 \<Longrightarrow> strcmp t u \<le> 0 \<Longrightarrow> strcmp s u \<le> 0"
proof (induction s t arbitrary: u rule: strcmp.induct)
  case (4 c cs d ds)
  then show ?case
  proof (cases u)
    case (Cons e es)
    then show ?thesis using 4 by (auto simp: ord_of_inj cstring_def split: if_splits)
  qed (use 4 in \<open>auto split: if_splits\<close>)
next
  case (3 c cs)
  then show ?case by (auto simp: cstring_def ord_of_0)
next
  case (2 d ds)
  then show ?case by (cases u) auto
qed simp

interpretation strcmp: comparison strcmp "Collect cstring"
proof
  show "strcmp y x \<le> 0 \<longleftrightarrow> 0 \<le> strcmp x y" for x y by (simp add: strcmp_flip [of y x])
  show "x = y" if "x \<in> Collect cstring" "y \<in> Collect cstring" "strcmp x y = 0" for x y
    using that strcmp_0 by simp
  show "strcmp x z \<le> 0" if "x \<in> Collect cstring" "strcmp x y \<le> 0" "strcmp y z \<le> 0" for x y z
    using that strcmp_trans [of x y z] by simp
qed


subsection \<open>Comparing by several criteria\<close>

definition lex_cmp :: "('a \<Rightarrow> 'a \<Rightarrow> int) \<Rightarrow> ('a \<Rightarrow> 'a \<Rightarrow> int) \<Rightarrow> 'a \<Rightarrow> 'a \<Rightarrow> int" where
  "lex_cmp f g x y = (if f x y \<noteq> 0 then f x y else g x y)"

text \<open>A criterion may leave different elements equal.\<close>

definition criterion :: "('a \<Rightarrow> 'a \<Rightarrow> int) \<Rightarrow> 'a set \<Rightarrow> bool" where
  "criterion f D \<longleftrightarrow> (\<forall>x y. f y x = - f x y) \<and>
     (\<forall>x \<in> D. \<forall>y \<in> D. \<forall>z \<in> D. f x y \<le> 0 \<longrightarrow> f y z \<le> 0 \<longrightarrow> f x z \<le> 0)"

lemma criterion_flip: "criterion f D \<Longrightarrow> f y x = - f x y"
  unfolding criterion_def by blast

lemma criterion_trans:
  "criterion f D \<Longrightarrow> x \<in> D \<Longrightarrow> y \<in> D \<Longrightarrow> z \<in> D \<Longrightarrow> f x y \<le> 0 \<Longrightarrow> f y z \<le> 0 \<Longrightarrow> f x z \<le> 0"
  unfolding criterion_def by blast

lemma criterion_eq:
  assumes f: "criterion f D" and D: "x \<in> D" "y \<in> D" "z \<in> D" and z: "f x z = 0" "f x y \<le> 0" "f y z \<le> 0"
  shows "f x y = 0 \<and> f y z = 0"
proof -
  have "f z x \<le> 0" using z(1) criterion_flip [OF f, of z x] by simp
  then have "f y x \<le> 0" "f z y \<le> 0"
    using criterion_trans [OF f D(2,3,1) z(3)] criterion_trans [OF f D(3,1,2) _ z(2)] by simp_all
  then show ?thesis using z criterion_flip [OF f, of y x] criterion_flip [OF f, of z y] by simp
qed

lemma criterion_lex:
  assumes f: "criterion f D" and g: "criterion g D"
  shows "criterion (lex_cmp f g) D"
  unfolding criterion_def
proof (intro conjI ballI allI impI)
  show "lex_cmp f g y x = - lex_cmp f g x y" for x y
    using criterion_flip [OF f, of y x] criterion_flip [OF g, of y x] by (simp add: lex_cmp_def)
  fix x y z assume D: "x \<in> D" "y \<in> D" "z \<in> D" and le: "lex_cmp f g x y \<le> 0" "lex_cmp f g y z \<le> 0"
  then have "f x y \<le> 0" "f y z \<le> 0" by (auto simp: lex_cmp_def split: if_splits)
  then show "lex_cmp f g x z \<le> 0"
    using criterion_trans [OF f D] criterion_eq [OF f D] criterion_trans [OF g D] le
    by (auto simp: lex_cmp_def split: if_splits)
qed

lemma criterion_comparison:
  assumes "criterion f D" "\<And>x y. x \<in> D \<Longrightarrow> y \<in> D \<Longrightarrow> f x y = 0 \<Longrightarrow> x = y"
  shows "comparison f D"
proof
  show "f y x \<le> 0 \<longleftrightarrow> 0 \<le> f x y" for x y using criterion_flip [OF assms(1), of y x] by simp
  show "x = y" if "x \<in> D" "y \<in> D" "f x y = 0" for x y using assms(2) that .
  show "f x z \<le> 0" if "x \<in> D" "y \<in> D" "z \<in> D" "f x y \<le> 0" "f y z \<le> 0" for x y z
    using criterion_trans [OF assms(1)] that .
qed

lemma criterion_strcmp:
  assumes "\<forall>x \<in> D. cstring (h x)"
  shows "criterion (\<lambda>x y. strcmp (h x) (h y)) D"
  using assms strcmp_trans strcmp_flip unfolding criterion_def by blast

lemma cstring_tolower: "cstring s \<Longrightarrow> cstring (map tolower s)"
proof -
  have "tolower c = NUL \<Longrightarrow> c = NUL" for c
  proof -
    assume "tolower c = NUL"
    then have "ord_of (tolower c) = 0" by (simp add: ord_of_def)
    then have "ord_of c = 0"
      by (auto simp: tolower_def isupper_def ord_of_def split: if_splits)
    then show "c = NUL" by (simp add: ord_of_0)
  qed
  then show "cstring s \<Longrightarrow> cstring (map tolower s)" by (auto simp: cstring_def) metis
qed

lemma criterion_strcasecmp:
  assumes "\<forall>x \<in> D. cstring (h x)"
  shows "criterion (\<lambda>x y. strcasecmp (h x) (h y)) D"
  using criterion_strcmp [of D "\<lambda>x. map tolower (h x)"] assms cstring_tolower
  by (simp add: strcasecmp_def)

end
