(* ===== verification/Dba_Array.thy ===== *)
theory Dba_Array
  imports C_Sort
begin

section \<open>Arrays and the output file of the mandoc database: \<open>dba_array.c\<close>, \<open>dba_write.c\<close>\<close>

text \<open>
  An array of pointers.  A pointer is an option value, \<open>None\<close> being NULL; the number of
  entries used, \<open>eu\<close> in the C code, is the length of the list of entries, and the list of
  map positions has the same length: what the C arrays hold beyond \<open>eu\<close> is never read.  An
  entry whose map position is \<open>- 1\<close> has been deleted.  Strings are values, so the
  \<open>strdup\<close> that the flag \<open>DBA_STR\<close> asks for is the identity.

  In this component \<open>None\<close> is a failed assertion, an access out of bounds, or the exit of
  the process by \<open>err\<close> when the file grows too large.
\<close>

datatype dba_flag = DBA_STR | DBA_GROW

record 'a dba_array =
  ep :: "'a option list"
  em :: "int list"
  aflags :: "dba_flag set"
  ea :: int
  ed :: int
  ec :: nat
  apos :: int

abbreviation eu :: "'a dba_array \<Rightarrow> nat" where
  "eu a \<equiv> length (ep a)"

definition dba_array_new :: "int \<Rightarrow> dba_flag set \<Rightarrow> 'a dba_array option" where
  "dba_array_new n flags =
     (if n > 0
      then Some \<lparr>ep = [], em = [], aflags = flags, ea = n, ed = 0, ec = 0, apos = 0\<rparr> else None)"

definition dba_array_set :: "'a dba_array \<Rightarrow> int \<Rightarrow> 'a option \<Rightarrow> 'a dba_array option" where
  "dba_array_set a ie x =
     (if 0 \<le> ie \<and> ie < ea a \<and> ie \<le> int (eu a)
      then Some (if ie = int (eu a) then a\<lparr>ep := ep a @ [x], em := em a @ [0]\<rparr>
                 else a\<lparr>ep := (ep a)[nat ie := x], em := (em a)[nat ie := 0]\<rparr>)
      else None)"

definition dba_array_add :: "'a dba_array \<Rightarrow> 'a option \<Rightarrow> 'a dba_array option" where
  "dba_array_add a x = do {
     a \<leftarrow> (if int (eu a) = ea a
           then if DBA_GROW \<in> aflags a
                then do { n \<leftarrow> ck_int (2 * ea a); Some (a\<lparr>ea := n\<rparr>) }
                else None
           else Some a);
     dba_array_set a (int (eu a)) x}"

definition dba_array_get :: "'a dba_array \<Rightarrow> int \<Rightarrow> 'a option" where
  "dba_array_get a ie =
     (if ie < 0 \<or> ie \<ge> int (eu a) \<or> em a ! nat ie = - 1 then None else ep a ! nat ie)"

subsection \<open>Iteration\<close>

definition dba_array_start :: "'a dba_array \<Rightarrow> 'a dba_array" where
  "dba_array_start a = a\<lparr>ec := eu a\<rparr>"

function skip_deleted :: "'a dba_array \<Rightarrow> nat \<Rightarrow> nat" where
  "skip_deleted a i = (if i < eu a \<and> em a ! i = - 1 then skip_deleted a (Suc i) else i)"
  by pat_completeness auto
termination
  by (relation "measure (\<lambda>(a, i). eu a - i)") auto

declare skip_deleted.simps [simp del]

definition dba_array_next :: "'a dba_array \<Rightarrow> 'a dba_array \<times> 'a option" where
  "dba_array_next a =
     (let i = skip_deleted a (if ec a < eu a then Suc (ec a) else 0)
      in (a\<lparr>ec := i\<rparr>, if i < eu a then ep a ! i else None))"

definition dba_array_del :: "'a dba_array \<Rightarrow> 'a dba_array" where
  "dba_array_del a =
     (if ec a < eu a \<and> em a ! ec a \<noteq> - 1 then a\<lparr>em := (em a)[ec a := - 1], ed := ed a + 1\<rparr> else a)"

definition dba_array_undel :: "'a dba_array \<Rightarrow> 'a dba_array" where
  "dba_array_undel a = a\<lparr>em := replicate (eu a) 0\<rparr>"

definition dba_array_setpos :: "'a dba_array \<Rightarrow> nat \<Rightarrow> int \<Rightarrow> 'a dba_array option" where
  "dba_array_setpos a ie p = (if ie < eu a then Some (a\<lparr>em := (em a)[ie := p]\<rparr>) else None)"

definition dba_array_getpos :: "'a dba_array \<Rightarrow> int" where
  "dba_array_getpos a = apos a"

text \<open>
  The macro \<open>dba_array_FOREACH\<close>: \<open>dba_array_start\<close>, then \<open>dba_array_next\<close> until it
  returns NULL.  The model collects the positions of the cursor at which the body runs.  The
  bodies in the sources delete the current entry at most, which \<open>dba_array_next\<close> has passed
  then, so the positions do not depend on what the body does.
\<close>

fun foreach_loop :: "nat \<Rightarrow> 'a dba_array \<Rightarrow> nat list" where
  "foreach_loop 0 a = []"
| "foreach_loop (Suc fuel) a =
     (case dba_array_next a of
        (a', Some x) \<Rightarrow> ec a' # foreach_loop fuel a'
      | (a', None) \<Rightarrow> [])"

definition foreach_idx :: "'a dba_array \<Rightarrow> nat list" where
  "foreach_idx a = foreach_loop (Suc (eu a)) (dba_array_start a)"

definition foreach :: "'a dba_array \<Rightarrow> 'a list" where
  "foreach a = map (\<lambda>i. the (ep a ! i)) (foreach_idx a)"

subsection \<open>Sorting\<close>

definition dba_array_sort :: "('a \<Rightarrow> 'a \<Rightarrow> int) \<Rightarrow> 'a dba_array \<Rightarrow> 'a dba_array option" where
  "dba_array_sort cmp a =
     (if ed a = 0 \<and> None \<notin> set (ep a)
      then Some (a\<lparr>ep := map Some (qsort cmp (map the (ep a)))\<rparr>) else None)"


section \<open>The output file\<close>

text \<open>
  The file that is being written: its bytes and the position of the stream.  Errors of the
  operating system are left out; the only failure modelled is the limit on the file size.
\<close>

record ofile =
  fbytes :: string
  fpos :: nat

definition fput :: "string \<Rightarrow> ofile \<Rightarrow> ofile" where
  "fput s f =
     \<lparr>fbytes = take (fpos f) (fbytes f) @ replicate (fpos f - length (fbytes f)) NUL @ s @
        drop (fpos f + length s) (fbytes f),
      fpos = fpos f + length s\<rparr>"

definition be32 :: "int \<Rightarrow> string" where
  "be32 i = (let n = nat (i mod 4294967296)
     in [char_of (n div 16777216), char_of (n div 65536 mod 256), char_of (n div 256 mod 256),
         char_of (n mod 256)])"

definition dba_open :: ofile where
  "dba_open = \<lparr>fbytes = [], fpos = 0\<rparr>"

definition dba_tell :: "ofile \<Rightarrow> int option" where
  "dba_tell f = (if int (fpos f) \<ge> INT_MAX then None else Some (int (fpos f)))"

definition dba_seek :: "int \<Rightarrow> ofile \<Rightarrow> ofile option" where
  "dba_seek p f = (if p < 0 then None else Some (f\<lparr>fpos := nat p\<rparr>))"

definition dba_char_write :: "char \<Rightarrow> ofile \<Rightarrow> ofile" where
  "dba_char_write c f = fput [c] f"

definition dba_str_write :: "string \<Rightarrow> ofile \<Rightarrow> ofile" where
  "dba_str_write s f = dba_char_write NUL (fput s f)"

definition dba_int_write :: "int \<Rightarrow> ofile \<Rightarrow> ofile" where
  "dba_int_write i f = fput (be32 i) f"

text \<open>At most three bytes are missing to a multiple of four, so four rounds are enough.\<close>

fun align_loop :: "nat \<Rightarrow> int \<Rightarrow> ofile \<Rightarrow> (int \<times> ofile) option" where
  "align_loop 0 p f = None"
| "align_loop (Suc n) p f =
     (if p mod 4 \<noteq> 0
      then do { p' \<leftarrow> ck_int (p + 1); align_loop n p' (dba_char_write NUL f) }
      else Some (p, f))"

definition dba_align :: "ofile \<Rightarrow> (int \<times> ofile) option" where
  "dba_align f = do { p \<leftarrow> dba_tell f; align_loop 4 p f }"

primrec skip_loop :: "nat \<Rightarrow> nat \<Rightarrow> ofile \<Rightarrow> ofile" where
  "skip_loop nmemb 0 f = f"
| "skip_loop nmemb (Suc n) f = skip_loop nmemb n (fput (replicate (4 * nmemb) NUL) f)"

definition dba_skip :: "int \<Rightarrow> int \<Rightarrow> ofile \<Rightarrow> (int \<times> ofile) option" where
  "dba_skip nmemb sz f =
     (if 0 \<le> sz \<and> 0 < nmemb \<and> nmemb \<le> 5
      then do { p \<leftarrow> dba_tell f; Some (p, skip_loop (nat nmemb) (nat sz) f) }
      else None)"

subsection \<open>Writing arrays\<close>

definition dba_array_writelen :: "'a dba_array \<Rightarrow> int \<Rightarrow> ofile \<Rightarrow> (int \<times> ofile) option" where
  "dba_array_writelen a nmemb f =
     dba_skip nmemb (int (eu a) - ed a) (dba_int_write (int (eu a) - ed a) f)"

definition dba_array_writepos :: "'a dba_array \<Rightarrow> ofile \<Rightarrow> ('a dba_array \<times> ofile) option" where
  "dba_array_writepos a f = do {
     p \<leftarrow> dba_tell f;
     Some (a\<lparr>apos := p\<rparr>, fold (\<lambda>m f. if m \<noteq> - 1 then dba_int_write m f else f) (em a) f)}"

definition dba_array_writelst :: "string dba_array \<Rightarrow> ofile \<Rightarrow> ofile" where
  "dba_array_writelst a f = dba_char_write NUL (fold dba_str_write (foreach a) f)"


subsection \<open>The invariant of arrays\<close>

definition array_ok :: "'a dba_array \<Rightarrow> bool" where
  "array_ok a \<longleftrightarrow>
     length (em a) = eu a \<and> ed a = int (count_list (em a) (- 1)) \<and> int (eu a) \<le> ea a \<and> 0 < ea a"

definition live_idx :: "'a dba_array \<Rightarrow> nat list" where
  "live_idx a = filter (\<lambda>i. em a ! i \<noteq> - 1) [0..<eu a]"

lemma skip_deleted_cases:
  assumes "i \<le> eu a"
  shows "skip_deleted a i = eu a \<and> filter (\<lambda>i. em a ! i \<noteq> - 1) [i..<eu a] = [] \<or>
     skip_deleted a i < eu a \<and>
       filter (\<lambda>i. em a ! i \<noteq> - 1) [i..<eu a] =
         skip_deleted a i # filter (\<lambda>i. em a ! i \<noteq> - 1) [Suc (skip_deleted a i)..<eu a]"
  using assms
proof (induction a i rule: skip_deleted.induct)
  case (1 a i)
  show ?case
  proof (cases "i < eu a")
    case True
    then have "[i..<eu a] = i # [Suc i..<eu a]" by (rule upt_conv_Cons)
    then show ?thesis using "1.IH" True by (simp add: skip_deleted.simps [of a i])
  qed (use "1.prems" in \<open>auto simp: skip_deleted.simps [of a "eu a"]\<close>)
qed

lemma skip_deleted_cursor [simp]: "skip_deleted (a\<lparr>ec := c\<rparr>) i = skip_deleted a i"
  by (induction a i rule: skip_deleted.induct) (subst (1 2) skip_deleted.simps, simp)

lemma foreach_loop_from:
  assumes "Suc (eu a) - i \<le> fuel" "i \<le> eu a"
    "(if ec a < eu a then Suc (ec a) else 0) = i"
  shows "foreach_loop fuel a =
    takeWhile (\<lambda>i. ep a ! i \<noteq> None) (filter (\<lambda>i. em a ! i \<noteq> - 1) [i..<eu a])"
  using assms
proof (induction fuel arbitrary: a i)
  case (Suc fuel)
  let ?j = "skip_deleted a i"
  have n: "dba_array_next a = (a\<lparr>ec := ?j\<rparr>, if ?j < eu a then ep a ! ?j else None)"
    using Suc.prems(3) by (simp add: dba_array_next_def Let_def)
  show ?case
  proof (cases "?j < eu a \<and> ep a ! ?j \<noteq> None")
    case True
    have "i \<le> ?j"
      by (induction a i rule: skip_deleted.induct) (subst skip_deleted.simps, auto)
    then have "foreach_loop fuel (a\<lparr>ec := ?j\<rparr>) =
        takeWhile (\<lambda>i. ep a ! i \<noteq> None) (filter (\<lambda>i. em a ! i \<noteq> - 1) [Suc ?j..<eu a])"
      using Suc.IH [of "a\<lparr>ec := ?j\<rparr>" "Suc ?j"] Suc.prems True by simp
    then show ?thesis using n True skip_deleted_cases [OF Suc.prems(2)] by auto
  next
    case False
    then show ?thesis using n skip_deleted_cases [OF Suc.prems(2)] by auto
  qed
qed simp

lemma foreach_idx_live:
  "foreach_idx a = takeWhile (\<lambda>i. ep a ! i \<noteq> None) (live_idx a)"
  using foreach_loop_from [of "dba_array_start a" 0 "Suc (eu a)"]
  by (simp add: foreach_idx_def live_idx_def dba_array_start_def del: foreach_loop.simps)

lemma live_idx_bound: "i \<in> set (live_idx a) \<Longrightarrow> i < eu a"
  by (simp add: live_idx_def)

lemma foreach_idx_bound: "i \<in> set (foreach_idx a) \<Longrightarrow> i < eu a \<and> ep a ! i \<noteq> None \<and> em a ! i \<noteq> - 1"
  by (auto simp: foreach_idx_live live_idx_def dest: set_takeWhileD)

lemma foreach_idx_no_NULL: "None \<notin> set (ep a) \<Longrightarrow> foreach_idx a = live_idx a"
  unfolding foreach_idx_live takeWhile_eq_all_conv by (metis live_idx_bound nth_mem)

lemma distinct_foreach_idx: "distinct (foreach_idx a)"
  by (simp add: foreach_idx_live live_idx_def distinct_takeWhile)

lemma length_live_idx:
  assumes "array_ok a"
  shows "int (length (live_idx a)) = int (eu a) - ed a"
proof -
  have "length (filter (\<lambda>i. m ! i \<noteq> - 1) [0..<length m]) = length m - count_list m (- 1)" for m :: "int list"
  proof -
    have "map ((!) m) (filter (\<lambda>i. m ! i \<noteq> - 1) [0..<length m]) = filter (\<lambda>x. x \<noteq> - 1) m"
      using filter_map [of "\<lambda>x. x \<noteq> - 1" "(!) m" "[0..<length m]"] by (simp add: map_nth comp_def)
    then have "length (filter (\<lambda>i. m ! i \<noteq> - 1) [0..<length m]) = length (filter (\<lambda>x. x \<noteq> - 1) m)"
      by (metis length_map)
    also have "\<dots> + count_list m (- 1) = length m"
      by (induction m) auto
    then have "length (filter (\<lambda>x. x \<noteq> - 1) m) = length m - count_list m (- 1)" by simp
    finally show ?thesis .
  qed
  moreover have "count_list (em a) (- 1) \<le> length (em a)" by (rule count_le_length)
  ultimately show ?thesis using assms by (simp add: live_idx_def array_ok_def) (metis of_nat_diff)
qed

subsection \<open>Arrays without NULL and without deleted entries\<close>

text \<open>
  Such an array is just the list of its entries.  An array that may grow holds at most
  \<open>n\<close> entries more than it was created for, or twice the number of entries used.
\<close>

definition plain :: "'a dba_array \<Rightarrow> 'a list \<Rightarrow> bool" where
  "plain a xs \<longleftrightarrow> array_ok a \<and> ep a = map Some xs \<and> - 1 \<notin> set (em a)"

definition grows :: "'a dba_array \<Rightarrow> int \<Rightarrow> bool" where
  "grows a n \<longleftrightarrow> DBA_GROW \<in> aflags a \<and> ea a \<le> max n (2 * int (eu a))"

lemma plain_foreach_idx: "plain a xs \<Longrightarrow> foreach_idx a = [0..<length xs]"
proof -
  assume p: "plain a xs"
  then have "em a ! i \<noteq> - 1" if "i < length xs" for i
    using that by (auto simp: plain_def array_ok_def in_set_conv_nth)
  then have "live_idx a = [0..<length xs]" using p by (simp add: live_idx_def plain_def)
  moreover have "takeWhile (\<lambda>i. ep a ! i \<noteq> None) [0..<length xs] = [0..<length xs]"
    using p by (simp add: plain_def takeWhile_eq_all_conv)
  ultimately show ?thesis by (simp add: foreach_idx_live)
qed

lemma plain_foreach: "plain a xs \<Longrightarrow> foreach a = xs"
proof -
  assume p: "plain a xs"
  then have "foreach a = map (\<lambda>i. the (map Some xs ! i)) [0..<length xs]"
    by (simp add: foreach_def plain_foreach_idx) (simp add: plain_def)
  also have "\<dots> = map ((!) xs) [0..<length xs]" by (rule map_cong) auto
  finally show ?thesis by (simp add: map_nth)
qed

lemma plain_unique: "plain a xs \<Longrightarrow> plain a ys \<Longrightarrow> xs = ys"
  by (metis plain_foreach)

lemma plain_ed: "plain a xs \<Longrightarrow> ed a = 0"
  by (auto simp: plain_def array_ok_def)

lemma plain_new: "dba_array_new n flags = Some a \<Longrightarrow> plain a [] \<and> aflags a = flags \<and> ea a = n \<and> apos a = 0"
  by (auto simp: dba_array_new_def plain_def array_ok_def split: if_splits)

lemma plain_add:
  assumes "plain a xs" "int (length xs) < ea a \<or> grows a n \<and> n < 2 ^ 30 \<and> int (length xs) < 2 ^ 29"
  shows "\<exists>a'. dba_array_add a (Some x) = Some a' \<and> plain a' (xs @ [x]) \<and> aflags a' = aflags a \<and>
    em a' = em a @ [0] \<and> apos a' = apos a \<and> (grows a n \<longrightarrow> grows a' n) \<and>
    (int (length xs) < ea a \<longrightarrow> ea a' = ea a)"
proof -
  have eu: "eu a = length xs" "length (em a) = length xs" using assms(1) by (auto simp: plain_def array_ok_def)
  show ?thesis
  proof (cases "int (length xs) < ea a")
    case True
    then show ?thesis using assms(1) eu
      by (auto simp: dba_array_add_def dba_array_set_def plain_def array_ok_def grows_def)
  next
    case False
    then have g: "grows a n" "n < 2 ^ 30" "int (length xs) < 2 ^ 29" and e: "ea a = int (length xs)"
      using assms eu by (auto simp: plain_def array_ok_def)
    have pos: "0 < ea a" using assms(1) by (simp add: plain_def array_ok_def)
    then show ?thesis
      using assms(1) eu g e
      by (cases xs) (auto simp: dba_array_add_def dba_array_set_def plain_def array_ok_def grows_def
          ck_int_def in_int_def int_limits)
  qed
qed

lemma plain_sort:
  assumes "plain a xs"
  shows "\<exists>a'. dba_array_sort cmp a = Some a' \<and> plain a' (qsort cmp xs) \<and> aflags a' = aflags a \<and> ea a' = ea a"
  using assms plain_ed [OF assms]
  by (auto simp: dba_array_sort_def plain_def array_ok_def comp_def)

lemma plain_put:
  "plain a xs \<Longrightarrow> i < length xs \<Longrightarrow> plain (a\<lparr>ep := (ep a)[i := Some x]\<rparr>) (xs[i := x])"
  by (auto simp: plain_def array_ok_def map_update)

subsection \<open>Writing at a position of a file\<close>

definition fat :: "string \<Rightarrow> string \<Rightarrow> ofile" where
  "fat b r = \<lparr>fbytes = b @ r, fpos = length b\<rparr>"

named_theorems fat_simps "writing at a position of a file"

lemma fput_fat [fat_simps]: "fput s (fat b r) = fat (b @ s) (drop (length s) r)"
  by (simp add: fput_def fat_def)

lemma fbytes_fat: "fbytes (fat b r) = b @ r"
  by (simp add: fat_def)

lemma dba_open_fat: "dba_open = fat [] []"
  by (simp add: dba_open_def fat_def)

lemma dba_tell_fat [fat_simps]: "int (length b) < INT_MAX \<Longrightarrow> dba_tell (fat b r) = Some (int (length b))"
  by (simp add: dba_tell_def fat_def)

lemma dba_tell_big: "INT_MAX \<le> int (length b) \<Longrightarrow> dba_tell (fat b r) = None"
  by (simp add: dba_tell_def fat_def)

lemma dba_seek_fat: "length b1 = n \<Longrightarrow> b1 @ r1 = b @ r \<Longrightarrow> dba_seek (int n) (fat b r) = Some (fat b1 r1)"
  by (simp add: dba_seek_def fat_def)

lemma dba_char_write_fat [fat_simps]: "dba_char_write c (fat b r) = fat (b @ [c]) (drop 1 r)"
  by (simp add: dba_char_write_def fat_simps)

lemma dba_str_write_fat [fat_simps]:
  "dba_str_write s (fat b r) = fat (b @ s @ [NUL]) (drop (Suc (length s)) r)"
  by (simp add: dba_str_write_def fat_simps add.commute)

lemma length_be32 [simp]: "length (be32 i) = 4"
  by (simp add: be32_def Let_def)

lemma dba_int_write_fat [fat_simps]: "dba_int_write i (fat b r) = fat (b @ be32 i) (drop 4 r)"
  by (simp add: dba_int_write_def fat_simps)

definition pad4 :: "nat \<Rightarrow> string" where
  "pad4 n = replicate ((4 - n mod 4) mod 4) NUL"

lemma pad4_aligned: "(n + length (pad4 n)) mod 4 = 0"
proof -
  have "n mod 4 < 4" by simp
  then consider "n mod 4 = 0" | "n mod 4 = 1" | "n mod 4 = 2" | "n mod 4 = 3" by linarith
  then show ?thesis by cases (simp_all add: pad4_def, presburger+)
qed

lemma align_loop_fat:
  assumes "(length b + k) mod 4 = 0" "k < 4" "k \<le> m" "int (length b) + int k \<le> INT_MAX"
  shows "align_loop (Suc m) (int (length b)) (fat b []) =
     Some (int (length b + k), fat (b @ replicate k NUL) [])"
  using assms
proof (induction k arbitrary: b m)
  case 0
  then have "int (length b) mod 4 = 0" by presburger
  then show ?case by simp
next
  case (Suc k)
  then obtain m' where m: "m = Suc m'" by (cases m) auto
  have "int (length b) mod 4 \<noteq> 0" using Suc.prems by presburger
  moreover have "ck_int (int (length b) + 1) = Some (int (length (b @ [NUL])))"
    using Suc.prems by (simp add: ck_int_def in_int_def int_limits)
  ultimately have "align_loop (Suc m) (int (length b)) (fat b []) =
      align_loop m (int (length (b @ [NUL]))) (fat (b @ [NUL]) [])"
    by (simp add: fat_simps ck_int_def add.commute)
  also have "\<dots> = Some (int (length (b @ [NUL]) + k), fat ((b @ [NUL]) @ replicate k NUL) [])"
    using Suc.prems m by (subst m, intro Suc.IH) auto
  finally show ?case by (simp add: replicate_app_Cons_same)
qed

lemma dba_align_fat [fat_simps]:
  assumes "int (length b + length (pad4 (length b))) < INT_MAX"
  shows "dba_align (fat b []) =
     Some (int (length b + length (pad4 (length b))), fat (b @ pad4 (length b)) [])"
proof -
  have "align_loop (Suc 3) (int (length b)) (fat b []) =
     Some (int (length b + (4 - length b mod 4) mod 4), fat (b @ replicate ((4 - length b mod 4) mod 4) NUL) [])"
  proof (rule align_loop_fat)
    show "(length b + (4 - length b mod 4) mod 4) mod 4 = 0"
      using pad4_aligned [of "length b"] by (simp add: pad4_def)
    have l: "(4 - length b mod 4) mod 4 < 4" by simp
    then show "(4 - length b mod 4) mod 4 < 4" "(4 - length b mod 4) mod 4 \<le> 3" by linarith+
    show "int (length b) + int ((4 - length b mod 4) mod 4) \<le> INT_MAX"
      using assms by (simp add: pad4_def)
  qed
  then have "align_loop 4 (int (length b)) (fat b []) =
     Some (int (length b + length (pad4 (length b))), fat (b @ pad4 (length b)) [])"
    by (simp add: pad4_def del: align_loop.simps)
  moreover have "int (length b) < INT_MAX" using assms by simp
  ultimately show ?thesis
    by (simp add: dba_align_def dba_tell_fat del: align_loop.simps)
qed

lemma skip_loop_fat: "skip_loop k n (fat b r) = fat (b @ replicate (4 * k * n) NUL) (drop (4 * k * n) r)"
  by (induction n arbitrary: b r) (simp_all add: fat_simps replicate_add [symmetric] add.commute)

lemma dba_skip_fat [fat_simps]:
  assumes "0 < k" "k \<le> 5" "int (length b) < INT_MAX"
  shows "dba_skip (int k) (int n) (fat b r) =
    Some (int (length b), fat (b @ replicate (4 * k * n) NUL) (drop (4 * k * n) r))"
  using assms by (simp add: dba_skip_def fat_simps skip_loop_fat)

lemma fold_int_write_fat:
  "fold dba_int_write is (fat b r) = fat (b @ concat (map be32 is)) (drop (4 * length is) r)"
  by (induction "is" arbitrary: b r) (simp_all add: fat_simps add.commute)

lemma fold_str_write_fat:
  "fold dba_str_write ss (fat b r) =
     fat (b @ concat (map (\<lambda>s. s @ [NUL]) ss)) (drop (length (concat (map (\<lambda>s. s @ [NUL]) ss))) r)"
  by (induction ss arbitrary: b r) (simp_all add: fat_simps add.commute)

end
