(* ===== verification/Dba.thy ===== *)
theory Dba
  imports Dba_Array Ohash
begin

section \<open>The mandoc database in memory: \<open>dba.c\<close>\<close>

text \<open>
  A page is an array of five fields: the arrays of names, sections and architectures (NULL for
  a page that is independent of the machine), the description, and the array of file names.
  The first byte of a name is its mask, the first byte of the first file name is the format.
  The table of pages owns the pages; a pointer to a page elsewhere is its index in that table,
  since pages are only ever appended.  Each macro has a hash table that maps macro values to
  arrays of pages; these arrays live in the component \<open>heap\<close>, and the pointer in a
  \<open>macro_entry\<close> is an index into it.
\<close>

datatype pfield = Arr "string dba_array" | Str string

type_synonym page = "pfield dba_array"

record macro_entry =
  mvalue :: string
  mpages :: nat

record dba =
  pages :: "page dba_array"
  macros :: "macro_entry ohash dba_array"
  heap :: "nat dba_array list"

definition DBP_NAME :: nat where "DBP_NAME = 0"
definition DBP_SECT :: nat where "DBP_SECT = 1"
definition DBP_ARCH :: nat where "DBP_ARCH = 2"
definition DBP_DESC :: nat where "DBP_DESC = 3"
definition DBP_FILE :: nat where "DBP_FILE = 4"
definition DBP_MAX :: int where "DBP_MAX = 5"

lemmas dbp_defs = DBP_NAME_def DBP_SECT_def DBP_ARCH_def DBP_DESC_def DBP_FILE_def DBP_MAX_def

definition MACRO_MAX :: nat where "MACRO_MAX = 36"
definition MANDOCDB_MAGIC :: int where "MANDOCDB_MAGIC = 0x3a7d0cdb"
definition MANDOCDB_VERSION :: int where "MANDOCDB_VERSION = 1"
definition NAME_MASK :: nat where "NAME_MASK = 0x1f"

text \<open>What a pointer refers to, replaced in place: the map positions stay as they are.\<close>

definition put_entry :: "'a dba_array \<Rightarrow> nat \<Rightarrow> 'a \<Rightarrow> 'a dba_array" where
  "put_entry a i x = a\<lparr>ep := (ep a)[i := Some x]\<rparr>"

subsection \<open>Creating a database\<close>

primrec new_macros :: "nat \<Rightarrow> macro_entry ohash dba_array \<Rightarrow> macro_entry ohash dba_array option" where
  "new_macros 0 a = Some a"
| "new_macros (Suc n) a = do { a \<leftarrow> new_macros n a; dba_array_set a (int n) (Some (ohash_init 4)) }"

definition dba_new :: "int \<Rightarrow> dba option" where
  "dba_new npages = do {
     ps \<leftarrow> dba_array_new npages {DBA_GROW};
     ms \<leftarrow> dba_array_new (int MACRO_MAX) {};
     ms \<leftarrow> new_macros MACRO_MAX ms;
     Some \<lparr>pages = ps, macros = ms, heap = []\<rparr>}"

subsection \<open>Pages\<close>

definition prepend :: "string \<Rightarrow> char \<Rightarrow> string" where
  "prepend s c = c # s"

abbreviation new_strs :: "string dba_array option" where
  "new_strs \<equiv> dba_array_new 1 {DBA_STR, DBA_GROW}"

definition dba_page_new :: "page dba_array \<Rightarrow> string option \<Rightarrow> string \<Rightarrow> string \<Rightarrow> char \<Rightarrow>
    (page dba_array \<times> nat) option" where
  "dba_page_new ps arch desc file form = do {
     page \<leftarrow> dba_array_new DBP_MAX {};
     e \<leftarrow> new_strs;
     page \<leftarrow> dba_array_add page (Some (Arr e));
     e \<leftarrow> new_strs;
     page \<leftarrow> dba_array_add page (Some (Arr e));
     e \<leftarrow> (case arch of
             Some (c # cs) \<Rightarrow> do { e \<leftarrow> new_strs; e \<leftarrow> dba_array_add e (Some (c # cs)); Some (Some (Arr e)) }
           | _ \<Rightarrow> Some None);
     page \<leftarrow> dba_array_add page e;
     page \<leftarrow> dba_array_add page (Some (Str desc));
     e \<leftarrow> new_strs;
     e \<leftarrow> dba_array_add e (Some (prepend file form));
     page \<leftarrow> dba_array_add page (Some (Arr e));
     ps \<leftarrow> dba_array_add ps (Some page);
     Some (ps, eu ps - 1)}"

text \<open>
  The first byte of a file name is skipped when it is smaller than a blank, \<open>char\<close> being
  signed.  The search for an equal entry.
\<close>

definition skip_form :: "string \<Rightarrow> string option" where
  "skip_form s =
     (case s of [] \<Rightarrow> None | c # cs \<Rightarrow> Some (if ord_of c < 32 \<or> 128 \<le> ord_of c then cs else s))"

fun page_has :: "nat \<Rightarrow> string list \<Rightarrow> string \<Rightarrow> bool option" where
  "page_has ie [] s = Some False"
| "page_has ie (e # es) s = do {
     e' \<leftarrow> (if ie = DBP_FILE then skip_form e else Some e);
     if strcmp e' s = 0 then Some True else page_has ie es s}"

definition dba_page_add :: "page \<Rightarrow> nat \<Rightarrow> string option \<Rightarrow> page option" where
  "dba_page_add page ie str =
     (let entries = dba_array_get page (int ie)
      in if ie = DBP_ARCH \<and> entries = None then Some page
         else if ie = DBP_ARCH \<and> (str = None \<or> str = Some []) then dba_array_set page (int DBP_ARCH) None
         else case str of
           None \<Rightarrow> None
         | Some [] \<Rightarrow> Some page
         | Some s \<Rightarrow>
             (case entries of
                Some (Arr a) \<Rightarrow> do {
                  found \<leftarrow> page_has ie (foreach a) s;
                  if found then Some page
                  else do { a \<leftarrow> dba_array_add a (Some s); Some (put_entry page ie (Arr a)) }}
              | _ \<Rightarrow> None))"

fun alias_index :: "string list \<Rightarrow> string \<Rightarrow> nat option option" where
  "alias_index [] name = Some None"
| "alias_index (e # es) name =
     (case e of [] \<Rightarrow> None
      | c # cs \<Rightarrow> if strcmp cs name = 0 then Some (Some 0)
                 else map_option (map_option Suc) (alias_index es name))"

definition or_mask :: "char \<Rightarrow> string \<Rightarrow> string" where
  "or_mask b s = (case s of [] \<Rightarrow> [] | c # cs \<Rightarrow> char_of (or (ord_of c) (ord_of b)) # cs)"

definition dba_page_alias :: "page \<Rightarrow> string \<Rightarrow> nat \<Rightarrow> page option" where
  "dba_page_alias page name msk =
     (if name = [] then Some page
      else let maskbyte = char_of (and msk NAME_MASK)
        in case dba_array_get page (int DBP_NAME) of
          Some (Arr a) \<Rightarrow> do {
            r \<leftarrow> alias_index (foreach a) name;
            a \<leftarrow> (case r of
                    Some k \<Rightarrow> Some (put_entry a (foreach_idx a ! k) (or_mask maskbyte (foreach a ! k)))
                  | None \<Rightarrow> dba_array_add a (Some (prepend name maskbyte)));
            Some (put_entry page DBP_NAME (Arr a))}
        | _ \<Rightarrow> None)"

definition compare_names :: "string \<Rightarrow> string \<Rightarrow> int" where
  "compare_names s t =
     (let d = int (ord_of (hd t)) - int (ord_of (hd s)); e = strcasecmp (tl s) (tl t)
      in if d \<noteq> 0 then d else if e \<noteq> 0 then e else strcmp (tl s) (tl t))"

definition compare_strings :: "string \<Rightarrow> string \<Rightarrow> int" where
  "compare_strings s t = strcmp s t"

text \<open>
  \<open>dba_pages_write\<close>: a loop over the pages for each field, each writing the data of the field
  and recording its position in the page, then one more loop for the positions.
\<close>

fun each_page :: "(page \<Rightarrow> ofile \<Rightarrow> (page \<times> ofile) option) \<Rightarrow> nat list \<Rightarrow> page dba_array \<Rightarrow> ofile \<Rightarrow>
    (page dba_array \<times> ofile) option" where
  "each_page body [] ps f = Some (ps, f)"
| "each_page body (i # is) ps f = do {
     page \<leftarrow> ep ps ! i;
     (page, f) \<leftarrow> body page f;
     each_page body is (put_entry ps i page) f}"

abbreviation foreach_page :: "(page \<Rightarrow> ofile \<Rightarrow> (page \<times> ofile) option) \<Rightarrow> page dba_array \<Rightarrow> ofile \<Rightarrow>
    (page dba_array \<times> ofile) option" where
  "foreach_page body ps f \<equiv> each_page body (foreach_idx ps) ps f"

text \<open>Sort one list of a page and write it.\<close>

definition write_list :: "nat \<Rightarrow> (string \<Rightarrow> string \<Rightarrow> int) option \<Rightarrow> page \<Rightarrow> ofile \<Rightarrow> (page \<times> ofile) option" where
  "write_list ie cmp page f = do {
     p \<leftarrow> dba_tell f;
     page \<leftarrow> dba_array_setpos page ie p;
     case dba_array_get page (int ie) of
       Some (Arr a) \<Rightarrow> do {
         a \<leftarrow> (case cmp of None \<Rightarrow> Some a | Some c \<Rightarrow> dba_array_sort c a);
         Some (put_entry page ie (Arr a), dba_array_writelst a f)}
     | _ \<Rightarrow> None}"

definition write_arch :: "page \<Rightarrow> ofile \<Rightarrow> (page \<times> ofile) option" where
  "write_arch page f =
     (case dba_array_get page (int DBP_ARCH) of
        None \<Rightarrow> do { page \<leftarrow> dba_array_setpos page DBP_ARCH 0; Some (page, f) }
      | Some _ \<Rightarrow> write_list DBP_ARCH (Some compare_strings) page f)"

definition write_desc :: "page \<Rightarrow> ofile \<Rightarrow> (page \<times> ofile) option" where
  "write_desc page f = do {
     p \<leftarrow> dba_tell f;
     page \<leftarrow> dba_array_setpos page DBP_DESC p;
     case dba_array_get page (int DBP_DESC) of
       Some (Str s) \<Rightarrow> Some (page, dba_str_write s f)
     | _ \<Rightarrow> None}"

definition dba_pages_write :: "page dba_array \<Rightarrow> ofile \<Rightarrow> (page dba_array \<times> ofile) option" where
  "dba_pages_write ps f = do {
     (pos_pages, f) \<leftarrow> dba_array_writelen ps 5 f;
     (ps, f) \<leftarrow> foreach_page (write_list DBP_NAME (Some compare_names)) ps f;
     (ps, f) \<leftarrow> foreach_page (write_list DBP_SECT (Some compare_strings)) ps f;
     (ps, f) \<leftarrow> foreach_page write_arch ps f;
     (ps, f) \<leftarrow> foreach_page write_desc ps f;
     (ps, f) \<leftarrow> foreach_page (write_list DBP_FILE None) ps f;
     (pos_end, f) \<leftarrow> dba_align f;
     f \<leftarrow> dba_seek pos_pages f;
     (ps, f) \<leftarrow> foreach_page dba_array_writepos ps f;
     f \<leftarrow> dba_seek pos_end f;
     Some (ps, f)}"

subsection \<open>Macros\<close>

definition get_macro_entry :: "macro_entry ohash \<Rightarrow> nat dba_array list \<Rightarrow> string \<Rightarrow> int \<Rightarrow>
    (macro_entry ohash \<times> nat dba_array list \<times> nat) option" where
  "get_macro_entry macro hp value np = do {
     (macro, slot) \<leftarrow> ohash_qlookup mvalue macro value;
     r \<leftarrow> ohash_find macro slot;
     case r of
       Some e \<Rightarrow> Some (macro, hp, mpages e)
     | None \<Rightarrow> do {
         a \<leftarrow> dba_array_new np {DBA_GROW};
         macro \<leftarrow> ohash_insert macro slot \<lparr>mvalue = value, mpages = length hp\<rparr>;
         Some (macro, hp @ [a], length hp)}}"

primrec add_refs :: "nat dba_array \<Rightarrow> nat option list \<Rightarrow> nat dba_array option" where
  "add_refs a [] = Some a"
| "add_refs a (x # xs) = do { a \<leftarrow> dba_array_add a x; add_refs a xs }"

definition with_entry :: "dba \<Rightarrow> nat \<Rightarrow> string \<Rightarrow> nat option list \<Rightarrow> int \<Rightarrow> dba option" where
  "with_entry d im value refs np = do {
     macro \<leftarrow> dba_array_get (macros d) (int im);
     (macro, hp, r) \<leftarrow> get_macro_entry macro (heap d) value np;
     a \<leftarrow> add_refs (hp ! r) refs;
     Some (d\<lparr>macros := put_entry (macros d) im macro, heap := hp[r := a]\<rparr>)}"

text \<open>
  \<open>dba_macro_new\<close>: the argument \<open>pp\<close> holds the integers before the terminating 0, as
  numbers.  The offset of a page in the file gives its index: \<open>be32toh(*ip) / 5 / 4 - 1\<close>.
\<close>

definition page_index :: "int \<Rightarrow> int" where
  "page_index p = (p mod 4294967296) div 5 div 4 - 1"

definition page_ref :: "dba \<Rightarrow> int \<Rightarrow> nat option" where
  "page_ref d p =
     (case dba_array_get (pages d) (page_index p) of None \<Rightarrow> None | Some _ \<Rightarrow> Some (nat (page_index p)))"

definition dba_macro_new :: "dba \<Rightarrow> nat \<Rightarrow> string \<Rightarrow> int list \<Rightarrow> dba option" where
  "dba_macro_new d im value pp = with_entry d im value (map (page_ref d) pp) (int (length pp))"

definition dba_macro_add :: "dba \<Rightarrow> nat \<Rightarrow> string \<Rightarrow> nat \<Rightarrow> dba option" where
  "dba_macro_add d im value page =
     (if value = [] then Some d else with_entry d im value [Some page] 1)"

definition compare_entries :: "macro_entry \<Rightarrow> macro_entry \<Rightarrow> int" where
  "compare_entries a b = strcmp (mvalue a) (mvalue b)"

text \<open>The positions of the pages of an entry that have been written.\<close>

definition page_pos :: "page dba_array \<Rightarrow> nat \<Rightarrow> int" where
  "page_pos ps i = (case ep ps ! i of None \<Rightarrow> 0 | Some page \<Rightarrow> dba_array_getpos page)"

definition entry_addrs :: "page dba_array \<Rightarrow> nat dba_array list \<Rightarrow> macro_entry \<Rightarrow> int list" where
  "entry_addrs ps hp e = filter (\<lambda>p. p \<noteq> 0) (map (page_pos ps) (foreach (hp ! mpages e)))"

text \<open>The loops that write the strings and the pages of the entries, recording positions.\<close>

fun write_strs :: "string list \<Rightarrow> ofile \<Rightarrow> (int list \<times> ofile) option" where
  "write_strs [] f = Some ([], f)"
| "write_strs (s # ss) f = do {
     p \<leftarrow> dba_tell f;
     (ps, f) \<leftarrow> write_strs ss (dba_str_write s f);
     Some (p # ps, f)}"

fun write_addrs :: "int list list \<Rightarrow> ofile \<Rightarrow> (int list \<times> ofile) option" where
  "write_addrs [] f = Some ([], f)"
| "write_addrs (as # ass) f = do {
     p \<leftarrow> dba_tell f;
     (ps, f) \<leftarrow> write_addrs ass (dba_int_write 0 (fold dba_int_write as f));
     Some (p # ps, f)}"

definition dba_macro_write :: "page dba_array \<Rightarrow> nat dba_array list \<Rightarrow> macro_entry ohash \<Rightarrow> ofile \<Rightarrow> ofile option" where
  "dba_macro_write ps hp macro f = do {
     let entries = qsort compare_entries
       (filter (\<lambda>e. entry_addrs ps hp e \<noteq> []) (ohash_iter (hsize macro) macro 0));
     let f = dba_int_write (int (length entries)) f;
     (pos_macro, f) \<leftarrow> dba_skip 2 (int (length entries)) f;
     (kpos, f) \<leftarrow> write_strs (map mvalue entries) f;
     (_, f) \<leftarrow> dba_align f;
     (dpos, f) \<leftarrow> write_addrs (map (entry_addrs ps hp) entries) f;
     pos_end \<leftarrow> dba_tell f;
     f \<leftarrow> dba_seek pos_macro f;
     let f = fold (\<lambda>(k, d) f. dba_int_write d (dba_int_write k f)) (zip kpos dpos) f;
     dba_seek pos_end f}"

fun write_macros :: "page dba_array \<Rightarrow> nat dba_array list \<Rightarrow> nat \<Rightarrow> nat list \<Rightarrow> macro_entry ohash dba_array \<Rightarrow> ofile \<Rightarrow>
    (macro_entry ohash dba_array \<times> ofile) option" where
  "write_macros ps hp im [] ms f = Some (ms, f)"
| "write_macros ps hp im (i # is) ms f = do {
     macro \<leftarrow> ep ms ! i;
     p \<leftarrow> dba_tell f;
     ms \<leftarrow> dba_array_setpos ms im p;
     f \<leftarrow> dba_macro_write ps hp macro f;
     write_macros ps hp (Suc im) is ms f}"

definition dba_macros_write :: "page dba_array \<Rightarrow> nat dba_array list \<Rightarrow> macro_entry ohash dba_array \<Rightarrow> ofile \<Rightarrow>
    ofile option" where
  "dba_macros_write ps hp ms f = do {
     (pos_macros, f) \<leftarrow> dba_array_writelen ms 1 f;
     (ms, f) \<leftarrow> write_macros ps hp 0 (foreach_idx ms) ms f;
     pos_end \<leftarrow> dba_tell f;
     f \<leftarrow> dba_seek pos_macros f;
     (ms, f) \<leftarrow> dba_array_writepos ms f;
     dba_seek pos_end f}"

subsection \<open>Writing a database\<close>

text \<open>The bytes of the file after \<open>dba_close\<close>.\<close>

definition dba_write :: "dba \<Rightarrow> string option" where
  "dba_write d = do {
     let f = dba_int_write MANDOCDB_VERSION (dba_int_write MANDOCDB_MAGIC dba_open);
     (pos_macros_ptr, f) \<leftarrow> dba_skip 1 2 f;
     (ps, f) \<leftarrow> dba_pages_write (pages d) f;
     pos_macros \<leftarrow> dba_tell f;
     f \<leftarrow> dba_macros_write ps (heap d) (macros d) f;
     pos_end \<leftarrow> dba_tell f;
     let f = dba_int_write MANDOCDB_MAGIC f;
     f \<leftarrow> dba_seek pos_macros_ptr f;
     let f = dba_int_write pos_end (dba_int_write pos_macros f);
     Some (fbytes f)}"


subsection \<open>The comparison functions\<close>

lemma compare_names_lex:
  "compare_names = lex_cmp (\<lambda>s t. int (ord_of (hd t)) - int (ord_of (hd s)))
     (lex_cmp (\<lambda>s t. strcasecmp (tl s) (tl t)) (\<lambda>s t. strcmp (tl s) (tl t)))"
  by (intro ext) (simp add: compare_names_def lex_cmp_def Let_def)

interpretation names: comparison compare_names "{s. cstring s \<and> s \<noteq> []}"
proof (rule criterion_comparison)
  have tl: "cstring (tl s)" if "cstring s" for s
    using that by (cases s) (auto simp: cstring_def)
  have hd: "criterion (\<lambda>s t. int (ord_of (hd t)) - int (ord_of (hd s))) {s. cstring s \<and> s \<noteq> []}"
    by (auto simp: criterion_def)
  show "criterion compare_names {s. cstring s \<and> s \<noteq> []}"
    unfolding compare_names_lex
    by (intro criterion_lex hd criterion_strcasecmp criterion_strcmp) (auto intro: tl)
  fix s t assume "s \<in> {s. cstring s \<and> s \<noteq> []}" "t \<in> {s. cstring s \<and> s \<noteq> []}" "compare_names s t = 0"
  then have "ord_of (hd s) = ord_of (hd t)" "strcmp (tl s) (tl t) = 0" "s \<noteq> []" "t \<noteq> []" "cstring (tl s)" "cstring (tl t)"
    by (auto simp: compare_names_def Let_def tl split: if_splits)
  then show "s = t" by (metis list.collapse ord_of_inj strcmp_0)
qed

interpretation strings: comparison compare_strings "Collect cstring"
  unfolding compare_strings_def [abs_def] by (rule strcmp.comparison_axioms)

lemma compare_entries_comparison:
  assumes "\<forall>e \<in> D. cstring (mvalue e)" "inj_on mvalue D"
  shows "comparison compare_entries D"
proof (rule criterion_comparison)
  show "criterion compare_entries D"
    using criterion_strcmp [OF assms(1)] by (simp add: compare_entries_def [abs_def])
  fix a b assume "a \<in> D" "b \<in> D" "compare_entries a b = 0"
  then show "a = b"
    using assms strcmp_0 by (auto simp: compare_entries_def inj_on_def)
qed

end
