(* ===== verification/Db_Layout.thy ===== *)
theory Db_Layout
  imports Dba
begin

section \<open>The format of database files\<close>

text \<open>
  A reference definition of the file format, as a function from the data to be stored to the
  bytes of the file, and the proof that \<open>dba_write\<close> produces exactly these bytes.
\<close>

definition str_bytes :: "string \<Rightarrow> string" where
  "str_bytes s = s @ [NUL]"

definition list_bytes :: "string list \<Rightarrow> string" where
  "list_bytes ss = concat (map str_bytes ss) @ [NUL]"

text \<open>The positions of consecutive blocks.\<close>

fun offs :: "nat \<Rightarrow> string list \<Rightarrow> nat list" where
  "offs b [] = []"
| "offs b (x # xs) = b # offs (b + length x) xs"

lemma length_offs [simp]: "length (offs b xs) = length xs"
  by (induction b xs rule: offs.induct) auto

lemma offs_nth: "k < length xs \<Longrightarrow> offs b xs ! k = b + length (concat (take k xs))"
proof (induction b xs arbitrary: k rule: offs.induct)
  case (2 b x xs)
  then show ?case by (cases k) auto
qed simp

record page_data =
  d_names :: "string list"
  d_sects :: "string list"
  d_archs :: "string list option"
  d_desc :: string
  d_files :: "string list"

definition arch_bytes :: "page_data \<Rightarrow> string" where
  "arch_bytes d = (case d_archs d of None \<Rightarrow> [] | Some as \<Rightarrow> list_bytes as)"

definition name_blocks :: "page_data list \<Rightarrow> string list" where
  "name_blocks ds = map (list_bytes \<circ> d_names) ds"
definition sect_blocks :: "page_data list \<Rightarrow> string list" where
  "sect_blocks ds = map (list_bytes \<circ> d_sects) ds"
definition arch_blocks :: "page_data list \<Rightarrow> string list" where
  "arch_blocks ds = map arch_bytes ds"
definition desc_blocks :: "page_data list \<Rightarrow> string list" where
  "desc_blocks ds = map (str_bytes \<circ> d_desc) ds"
definition file_blocks :: "page_data list \<Rightarrow> string list" where
  "file_blocks ds = map (list_bytes \<circ> d_files) ds"

lemmas blocks_defs = name_blocks_def sect_blocks_def arch_blocks_def desc_blocks_def file_blocks_def

lemma length_blocks [simp]:
  "length (name_blocks ds) = length ds" "length (sect_blocks ds) = length ds"
  "length (arch_blocks ds) = length ds" "length (desc_blocks ds) = length ds"
  "length (file_blocks ds) = length ds"
  by (simp_all add: blocks_defs)

text \<open>
  The pages table at position \<open>b\<close>: where the five areas of strings start, the pointers of
  one page, and the whole table.
\<close>

definition area0 :: "nat \<Rightarrow> page_data list \<Rightarrow> nat" where
  "area0 b ds = b + 4 + 20 * length ds"
definition area1 :: "nat \<Rightarrow> page_data list \<Rightarrow> nat" where
  "area1 b ds = area0 b ds + length (concat (name_blocks ds))"
definition area2 :: "nat \<Rightarrow> page_data list \<Rightarrow> nat" where
  "area2 b ds = area1 b ds + length (concat (sect_blocks ds))"
definition area3 :: "nat \<Rightarrow> page_data list \<Rightarrow> nat" where
  "area3 b ds = area2 b ds + length (concat (arch_blocks ds))"
definition area4 :: "nat \<Rightarrow> page_data list \<Rightarrow> nat" where
  "area4 b ds = area3 b ds + length (concat (desc_blocks ds))"

definition page_ints :: "nat \<Rightarrow> page_data list \<Rightarrow> nat \<Rightarrow> int list" where
  "page_ints b ds k =
     [int (offs (area0 b ds) (name_blocks ds) ! k),
      int (offs (area1 b ds) (sect_blocks ds) ! k),
      (if d_archs (ds ! k) = None then 0 else int (offs (area2 b ds) (arch_blocks ds) ! k)),
      int (offs (area3 b ds) (desc_blocks ds) ! k),
      int (offs (area4 b ds) (file_blocks ds) ! k)]"

definition page_ptrs :: "nat \<Rightarrow> page_data list \<Rightarrow> string" where
  "page_ptrs b ds = concat (map (\<lambda>k. concat (map be32 (page_ints b ds k))) [0..<length ds])"

definition page_strs :: "page_data list \<Rightarrow> string" where
  "page_strs ds =
     concat (name_blocks ds) @ concat (sect_blocks ds) @ concat (arch_blocks ds) @
     concat (desc_blocks ds) @ concat (file_blocks ds)"

definition pages_bytes :: "nat \<Rightarrow> page_data list \<Rightarrow> string" where
  "pages_bytes b ds =
     be32 (int (length ds)) @ page_ptrs b ds @ page_strs ds @
     pad4 (area0 b ds + length (page_strs ds))"

text \<open>One macro table at position \<open>b\<close>, and all of them.\<close>

type_synonym macro_data = "(string \<times> int list) list"

definition key_area :: "nat \<Rightarrow> macro_data \<Rightarrow> nat" where
  "key_area b t = b + 4 + 8 * length t"

definition key_blocks :: "macro_data \<Rightarrow> string list" where
  "key_blocks t = map (str_bytes \<circ> fst) t"

definition addr_blocks :: "macro_data \<Rightarrow> string list" where
  "addr_blocks t = map (\<lambda>(_, as). concat (map be32 as) @ be32 0) t"

definition key_pad :: "nat \<Rightarrow> macro_data \<Rightarrow> string" where
  "key_pad b t = pad4 (key_area b t + length (concat (key_blocks t)))"

definition addr_area :: "nat \<Rightarrow> macro_data \<Rightarrow> nat" where
  "addr_area b t = key_area b t + length (concat (key_blocks t)) + length (key_pad b t)"

definition pair_bytes :: "nat \<Rightarrow> macro_data \<Rightarrow> string" where
  "pair_bytes b t =
     concat (map (\<lambda>(k, d). be32 (int k) @ be32 (int d))
       (zip (offs (key_area b t) (key_blocks t)) (offs (addr_area b t) (addr_blocks t))))"

definition macro_bytes :: "nat \<Rightarrow> macro_data \<Rightarrow> string" where
  "macro_bytes b t =
     be32 (int (length t)) @ pair_bytes b t @ concat (key_blocks t) @ key_pad b t @
     concat (addr_blocks t)"

fun table_blocks :: "nat \<Rightarrow> macro_data list \<Rightarrow> string list" where
  "table_blocks b [] = []"
| "table_blocks b (t # ts) = macro_bytes b t # table_blocks (b + length (macro_bytes b t)) ts"

definition macros_bytes :: "nat \<Rightarrow> macro_data list \<Rightarrow> string" where
  "macros_bytes b ts =
     (let blks = table_blocks (b + 4 + 4 * length ts) ts
      in be32 (int (length ts)) @
         concat (map (\<lambda>p. be32 (int p)) (offs (b + 4 + 4 * length ts) blks)) @ concat blks)"

text \<open>The whole file.\<close>

definition macros_pos :: "page_data list \<Rightarrow> nat" where
  "macros_pos ds = 16 + length (pages_bytes 16 ds)"

definition db_bytes :: "page_data list \<Rightarrow> macro_data list \<Rightarrow> string" where
  "db_bytes ds ts =
     be32 MANDOCDB_MAGIC @ be32 MANDOCDB_VERSION @ be32 (int (macros_pos ds)) @
     be32 (int (macros_pos ds + length (macros_bytes (macros_pos ds) ts))) @
     pages_bytes 16 ds @ macros_bytes (macros_pos ds) ts @ be32 MANDOCDB_MAGIC"


subsection \<open>Loops over the pages\<close>

fun put_all :: "'a dba_array \<Rightarrow> nat list \<Rightarrow> 'a list \<Rightarrow> 'a dba_array" where
  "put_all a (i # is) (x # xs) = put_all (put_entry a i x) is xs"
| "put_all a _ _ = a"

lemma put_entry_simps [simp]:
  "em (put_entry a i x) = em a" "eu (put_entry a i x) = eu a" "ed (put_entry a i x) = ed a"
  "ep (put_entry a i x) = (ep a)[i := Some x]" "ea (put_entry a i x) = ea a"
  "apos (put_entry a i x) = apos a" "aflags (put_entry a i x) = aflags a"
  by (simp_all add: put_entry_def)

lemma put_all_simps [simp]:
  "em (put_all a is xs) = em a" "eu (put_all a is xs) = eu a" "ed (put_all a is xs) = ed a"
  by (induction a "is" xs rule: put_all.induct) auto

lemma put_all_other: "i \<notin> set is \<Longrightarrow> ep (put_all a is xs) ! i = ep a ! i"
  by (induction a "is" xs rule: put_all.induct) auto

lemma put_all_nth:
  "distinct is \<Longrightarrow> length is = length xs \<Longrightarrow> \<forall>i \<in> set is. i < eu a \<Longrightarrow> k < length is \<Longrightarrow>
    ep (put_all a is xs) ! (is ! k) = Some (xs ! k)"
proof (induction a "is" xs arbitrary: k rule: put_all.induct)
  case (1 a i "is" x xs)
  then show ?case by (cases k) (auto simp: put_all_other)
qed auto

lemma put_entry_twice: "put_entry (put_entry a i x) i y = put_entry a i y"
  by (simp add: put_entry_def)

lemma put_entry_swap: "i \<noteq> j \<Longrightarrow> put_entry (put_entry a i x) j y = put_entry (put_entry a j y) i x"
  by (simp add: put_entry_def list_update_swap)

lemma put_all_put:
  "i \<notin> set is \<Longrightarrow> put_entry (put_all a is xs) i y = put_all (put_entry a i y) is xs"
  by (induction a "is" xs rule: put_all.induct) (auto simp: put_entry_swap)

lemma put_all_same:
  "\<forall>i \<in> set is. i < eu a \<and> ep a ! i \<noteq> None \<Longrightarrow> put_all a is (map (\<lambda>i. the (ep a ! i)) is) = a"
proof (induction "is")
  case (Cons i "is")
  have "put_entry a i (the (ep a ! i)) = a"
    using Cons.prems by (simp add: put_entry_def)
  then show ?case using Cons by simp
qed simp

lemma foreach_idx_put_all:
  assumes "is = foreach_idx a" "length xs = length is"
  shows "foreach_idx (put_all a is xs) = is"
proof -
  have "ep (put_all a is xs) ! i \<noteq> None \<longleftrightarrow> ep a ! i \<noteq> None" if "i < eu a" for i
  proof (cases "i \<in> set is")
    case True
    then obtain k where "k < length is" "i = is ! k" by (auto simp: in_set_conv_nth)
    then show ?thesis
      using put_all_nth [of "is" xs a k] assms distinct_foreach_idx foreach_idx_bound True by auto
  qed (simp add: put_all_other)
  then have "takeWhile (\<lambda>i. ep (put_all a is xs) ! i \<noteq> None) (live_idx a) =
      takeWhile (\<lambda>i. ep a ! i \<noteq> None) (live_idx a)"
    by (intro takeWhile_cong) (auto dest: live_idx_bound)
  then show ?thesis by (simp add: foreach_idx_live live_idx_def assms)
qed

text \<open>
  A loop whose body writes a block for each page and changes the page: the blocks are written
  one after the other, and each page is changed with the position of its block.
\<close>

lemma each_page_run:
  fixes S :: "page \<Rightarrow> 'd \<Rightarrow> bool"
  assumes body: "\<And>p d b r. S p d \<Longrightarrow> int (length b) < INT_MAX \<Longrightarrow>
      \<exists>p'. body p (fat b r) = Some (p', fat (b @ blk d) (drop (length (blk d)) r)) \<and> R (length b) p d p'"
    and "list_all2 S pgs ds" "length is = length pgs" "distinct is" "\<forall>i \<in> set is. i < eu ps"
    and "int (length b + length (concat (map blk ds))) < INT_MAX"
  shows "\<exists>pgs'. each_page body is (put_all ps is pgs) (fat b r) =
      Some (put_all ps is pgs', fat (b @ concat (map blk ds)) (drop (length (concat (map blk ds))) r)) \<and>
    length pgs' = length pgs \<and>
    (\<forall>k < length pgs. R (offs (length b) (map blk ds) ! k) (pgs ! k) (ds ! k) (pgs' ! k))"
  using assms(2-)
proof (induction pgs arbitrary: "is" ds ps b r)
  case Nil
  then show ?case by simp
next
  case (Cons p pgs)
  obtain i is' where i: "is = i # is'" using Cons.prems(2) by (cases "is") auto
  obtain d ds' where d: "ds = d # ds'" "S p d" "list_all2 S pgs ds'"
    using Cons.prems(1) by (auto simp: list_all2_Cons1)
  have "int (length b) < INT_MAX" using Cons.prems(5) by simp
  from body [OF d(2) this]
  obtain p' where p': "body p (fat b r) = Some (p', fat (b @ blk d) (drop (length (blk d)) r))"
    "R (length b) p d p'" by blast
  have "int (length (b @ blk d) + length (concat (map blk ds'))) < INT_MAX"
    using Cons.prems(5) d(1) by (simp add: add.assoc)
  moreover have "\<forall>j \<in> set is'. j < eu (put_entry ps i p')" "length is' = length pgs" "distinct is'"
    using Cons.prems i by auto
  ultimately obtain pgs' where IH:
    "each_page body is' (put_all (put_entry ps i p') is' pgs) (fat (b @ blk d) (drop (length (blk d)) r)) =
       Some (put_all (put_entry ps i p') is' pgs', fat ((b @ blk d) @ concat (map blk ds'))
         (drop (length (concat (map blk ds'))) (drop (length (blk d)) r)))"
    "length pgs' = length pgs"
    "\<forall>k < length pgs. R (offs (length (b @ blk d)) (map blk ds') ! k) (pgs ! k) (ds' ! k) (pgs' ! k)"
    using Cons.IH [OF d(3), of is' "put_entry ps i p'" "b @ blk d" "drop (length (blk d)) r"] by blast
  have ni: "i \<notin> set is'" "i < eu ps" using Cons.prems i by auto
  have "ep (put_all (put_entry ps i p) is' pgs) ! i = Some p"
    using ni by (simp add: put_all_other)
  moreover have "put_entry (put_all (put_entry ps i p) is' pgs) i p' = put_all (put_entry ps i p') is' pgs"
    using ni by (simp add: put_all_put put_entry_twice)
  ultimately have "each_page body is (put_all ps is (p # pgs)) (fat b r) =
      Some (put_all ps is (p' # pgs'), fat (b @ concat (map blk ds)) (drop (length (concat (map blk ds))) r))"
    using p'(1) IH(1) by (simp add: i d(1) add.commute)
  moreover have "\<forall>k < length (p # pgs). R (offs (length b) (map blk ds) ! k) ((p # pgs) ! k) (ds ! k) ((p' # pgs') ! k)"
    using IH(3) p'(2) d(1) by (auto simp: less_Suc_eq_0_disj)
  ultimately show ?case using IH(2) by (intro exI [of _ "p' # pgs'"]) simp
qed


subsection \<open>The contents of a page\<close>

definition strs_field :: "pfield option \<Rightarrow> string list \<Rightarrow> bool" where
  "strs_field x ss \<longleftrightarrow> (\<exists>a. x = Some (Arr a) \<and> plain a ss \<and> grows a 1)"

definition page_shape :: "page \<Rightarrow> page_data \<Rightarrow> bool" where
  "page_shape p d \<longleftrightarrow>
     length (ep p) = 5 \<and> length (em p) = 5 \<and> - 1 \<notin> set (em p) \<and>
     strs_field (ep p ! DBP_NAME) (d_names d) \<and> strs_field (ep p ! DBP_SECT) (d_sects d) \<and>
     (case d_archs d of None \<Rightarrow> ep p ! DBP_ARCH = None | Some as \<Rightarrow> strs_field (ep p ! DBP_ARCH) as) \<and>
     ep p ! DBP_DESC = Some (Str (d_desc d)) \<and> strs_field (ep p ! DBP_FILE) (d_files d)"

definition sort_names :: "page_data \<Rightarrow> page_data" where
  "sort_names d = d\<lparr>d_names := qsort compare_names (d_names d)\<rparr>"

definition sort_sects :: "page_data \<Rightarrow> page_data" where
  "sort_sects d = d\<lparr>d_sects := qsort compare_strings (d_sects d)\<rparr>"

definition sort_archs :: "page_data \<Rightarrow> page_data" where
  "sort_archs d = d\<lparr>d_archs := map_option (qsort compare_strings) (d_archs d)\<rparr>"

definition sort_page :: "page_data \<Rightarrow> page_data" where
  "sort_page d = sort_archs (sort_sects (sort_names d))"

lemmas sort_defs = sort_names_def sort_sects_def sort_archs_def sort_page_def

lemma get_field:
  "page_shape p d \<Longrightarrow> ie < 5 \<Longrightarrow> dba_array_get p (int ie) = ep p ! ie"
  by (auto simp: page_shape_def dba_array_get_def in_set_conv_nth)

lemma page_shape_setpos:
  "page_shape p d \<Longrightarrow> ie < 5 \<Longrightarrow> q \<noteq> - 1 \<Longrightarrow>
    dba_array_setpos p ie q = Some (p\<lparr>em := (em p)[ie := q]\<rparr>) \<and> page_shape (p\<lparr>em := (em p)[ie := q]\<rparr>) d"
  by (auto simp: page_shape_def dba_array_setpos_def split: option.splits
      dest: set_update_subset_insert [THEN subsetD])

definition set_field :: "nat \<Rightarrow> string list \<Rightarrow> page_data \<Rightarrow> page_data" where
  "set_field ie ss d =
     (if ie = DBP_NAME then d\<lparr>d_names := ss\<rparr>
      else if ie = DBP_SECT then d\<lparr>d_sects := ss\<rparr>
      else if ie = DBP_ARCH then d\<lparr>d_archs := Some ss\<rparr>
      else d\<lparr>d_files := ss\<rparr>)"

definition field_of :: "nat \<Rightarrow> page_data \<Rightarrow> string list option" where
  "field_of ie d =
     (if ie = DBP_NAME then Some (d_names d) else if ie = DBP_SECT then Some (d_sects d)
      else if ie = DBP_ARCH then d_archs d else if ie = DBP_FILE then Some (d_files d) else None)"

lemma field_of_Some: "page_shape p d \<Longrightarrow> field_of ie d = Some ss \<Longrightarrow> ie < 5 \<and> strs_field (ep p ! ie) ss"
  by (auto simp: field_of_def page_shape_def dbp_defs split: if_splits)

lemma page_shape_put:
  "page_shape p d \<Longrightarrow> field_of ie d = Some ss \<Longrightarrow> plain a ss' \<Longrightarrow> grows a 1 \<Longrightarrow>
    page_shape (put_entry p ie (Arr a)) (set_field ie ss' d)"
  by (auto simp: page_shape_def set_field_def field_of_def strs_field_def dbp_defs split: if_splits option.splits)

lemma writelst_fat:
  "plain a ss \<Longrightarrow> dba_array_writelst a (fat b r) = fat (b @ list_bytes ss) (drop (length (list_bytes ss)) r)"
  by (simp add: dba_array_writelst_def plain_foreach fold_str_write_fat list_bytes_def str_bytes_def [abs_def]
      fat_simps add.commute)

text \<open>What the loops do with each page: \<open>q\<close> gives the position recorded, \<open>g\<close> the new contents.\<close>

definition moved :: "nat \<Rightarrow> (nat \<Rightarrow> page_data \<Rightarrow> int) \<Rightarrow> (page_data \<Rightarrow> page_data) \<Rightarrow> nat \<Rightarrow> page \<Rightarrow> page_data \<Rightarrow> page \<Rightarrow> bool" where
  "moved ie q g n p d p' \<longleftrightarrow> page_shape p' (g d) \<and> em p' = (em p)[ie := q n d]"

lemma write_list_fat:
  assumes p: "page_shape p d" and f: "field_of ie d = Some ss"
    and b: "int (length b) < INT_MAX"
    and ss': "ss' = (case cmp of None \<Rightarrow> ss | Some c \<Rightarrow> qsort c ss)"
  shows "\<exists>p'. write_list ie cmp p (fat b r) =
     Some (p', fat (b @ list_bytes ss') (drop (length (list_bytes ss')) r)) \<and>
     page_shape p' (set_field ie ss' d) \<and> em p' = (em p)[ie := int (length b)]"
proof -
  let ?p = "p\<lparr>em := (em p)[ie := int (length b)]\<rparr>"
  have ie: "ie < 5" using field_of_Some [OF p f] by simp
  have sp: "dba_array_setpos p ie (int (length b)) = Some ?p" "page_shape ?p d"
    using page_shape_setpos [OF p ie] by auto
  obtain a where a: "ep p ! ie = Some (Arr a)" "plain a ss" "grows a 1"
    using field_of_Some [OF p f] by (auto simp: strs_field_def)
  have g: "dba_array_get ?p (int ie) = Some (Arr a)" using get_field [OF sp(2) ie] a by simp
  have "\<exists>a'. (case cmp of None \<Rightarrow> Some a | Some c \<Rightarrow> dba_array_sort c a) = Some a' \<and> plain a' ss' \<and> grows a' 1"
  proof (cases cmp)
    case (Some c)
    obtain a' where a': "dba_array_sort c a = Some a'" "plain a' (qsort c ss)" "aflags a' = aflags a" "ea a' = ea a"
      using plain_sort [OF a(2)] by blast
    then have "grows a' 1" using a by (auto simp: grows_def plain_def)
    then show ?thesis using a' ss' Some by simp
  qed (use a ss' in simp)
  then obtain a' where "(case cmp of None \<Rightarrow> Some a | Some c \<Rightarrow> dba_array_sort c a) = Some a'"
    "plain a' ss'" "grows a' 1" by blast
  then show ?thesis using b sp g page_shape_put [OF sp(2) f]
    by (intro exI [of _ "put_entry ?p ie (Arr a')"]) (simp add: write_list_def fat_simps writelst_fat)
qed

lemma write_names_fat:
  assumes "page_shape p d" "int (length b) < INT_MAX"
  shows "\<exists>p'. write_list DBP_NAME (Some compare_names) p (fat b r) =
      Some (p', fat (b @ list_bytes (d_names (sort_names d)))
        (drop (length (list_bytes (d_names (sort_names d)))) r)) \<and>
    moved DBP_NAME (\<lambda>n _. int n) sort_names (length b) p d p'"
  using write_list_fat [OF assms(1) _ assms(2) refl, of DBP_NAME "d_names d" "Some compare_names" r]
  by (simp add: field_of_def set_field_def moved_def sort_defs)

lemma write_sects_fat:
  assumes "page_shape p d" "int (length b) < INT_MAX"
  shows "\<exists>p'. write_list DBP_SECT (Some compare_strings) p (fat b r) =
      Some (p', fat (b @ list_bytes (d_sects (sort_sects d)))
        (drop (length (list_bytes (d_sects (sort_sects d)))) r)) \<and>
    moved DBP_SECT (\<lambda>n _. int n) sort_sects (length b) p d p'"
  using write_list_fat [OF assms(1) _ assms(2) refl, of DBP_SECT "d_sects d" "Some compare_strings" r]
  by (simp add: field_of_def set_field_def moved_def sort_defs dbp_defs)

lemma write_files_fat:
  assumes "page_shape p d" "int (length b) < INT_MAX"
  shows "\<exists>p'. write_list DBP_FILE None p (fat b r) =
      Some (p', fat (b @ list_bytes (d_files d)) (drop (length (list_bytes (d_files d))) r)) \<and>
    moved DBP_FILE (\<lambda>n _. int n) id (length b) p d p'"
  using write_list_fat [OF assms(1) _ assms(2) refl, of DBP_FILE "d_files d" None r]
  by (simp add: field_of_def set_field_def moved_def dbp_defs)

lemma write_arch_fat:
  assumes "page_shape p d" "int (length b) < INT_MAX"
  shows "\<exists>p'. write_arch p (fat b r) =
      Some (p', fat (b @ arch_bytes (sort_archs d)) (drop (length (arch_bytes (sort_archs d))) r)) \<and>
    moved DBP_ARCH (\<lambda>n d. if d_archs d = None then 0 else int n) sort_archs (length b) p d p'"
proof (cases "d_archs d")
  case None
  then have "dba_array_get p (int DBP_ARCH) = None"
    using get_field [OF assms(1), of DBP_ARCH] assms(1) by (simp add: page_shape_def dbp_defs)
  moreover have "sort_archs d = d" using None by (cases d) (simp add: sort_archs_def)
  ultimately show ?thesis
    using page_shape_setpos [OF assms(1), of DBP_ARCH 0] None
    by (simp add: write_arch_def arch_bytes_def moved_def dbp_defs)
next
  case (Some as)
  then obtain a where "dba_array_get p (int DBP_ARCH) = Some a"
    using get_field [OF assms(1), of DBP_ARCH] assms(1) by (auto simp: page_shape_def dbp_defs strs_field_def)
  then show ?thesis
    using write_list_fat [OF assms(1) _ assms(2) refl, of DBP_ARCH as "Some compare_strings" r] Some
    by (simp add: write_arch_def arch_bytes_def sort_defs moved_def field_of_def set_field_def dbp_defs)
qed

lemma write_desc_fat:
  assumes "page_shape p d" "int (length b) < INT_MAX"
  shows "\<exists>p'. write_desc p (fat b r) =
      Some (p', fat (b @ str_bytes (d_desc d)) (drop (length (str_bytes (d_desc d))) r)) \<and>
    moved DBP_DESC (\<lambda>n _. int n) id (length b) p d p'"
proof -
  have sp: "dba_array_setpos p DBP_DESC (int (length b)) = Some (p\<lparr>em := (em p)[DBP_DESC := int (length b)]\<rparr>)"
    "page_shape (p\<lparr>em := (em p)[DBP_DESC := int (length b)]\<rparr>) d"
    using page_shape_setpos [OF assms(1), of DBP_DESC "int (length b)"] by (simp_all add: dbp_defs)
  then have "dba_array_get (p\<lparr>em := (em p)[DBP_DESC := int (length b)]\<rparr>) (int DBP_DESC) = Some (Str (d_desc d))"
    using get_field [OF sp(2), of DBP_DESC] by (simp add: page_shape_def dbp_defs)
  then show ?thesis using sp assms(2)
    by (simp add: write_desc_def fat_simps str_bytes_def moved_def)
qed

lemma writepos_fat:
  assumes "- 1 \<notin> set (em p)" "int (length b) < INT_MAX"
  shows "dba_array_writepos p (fat b r) =
    Some (p\<lparr>apos := int (length b)\<rparr>, fat (b @ concat (map be32 (em p))) (drop (4 * length (em p)) r))"
proof -
  have "fold (\<lambda>m f. if m \<noteq> - 1 then dba_int_write m f else f) ms f = fold dba_int_write ms f"
    if "- 1 \<notin> set ms" for ms f
    using that by (intro fold_cong) auto
  then show ?thesis using assms by (simp add: dba_array_writepos_def fat_simps fold_int_write_fat)
qed


lemma foreach_page_run:
  assumes body: "\<And>p d b r. page_shape p d \<Longrightarrow> int (length b) < INT_MAX \<Longrightarrow>
      \<exists>p'. body p (fat b r) = Some (p', fat (b @ blk d) (drop (length (blk d)) r)) \<and> moved ie q g (length b) p d p'"
    and "list_all2 page_shape pgs ds" "is = foreach_idx ps" "length is = length pgs"
    and "int (length b + length (concat (map blk ds))) < INT_MAX"
  shows "\<exists>pgs'. foreach_page body (put_all ps is pgs) (fat b []) =
      Some (put_all ps is pgs', fat (b @ concat (map blk ds)) []) \<and>
    length is = length pgs' \<and> list_all2 page_shape pgs' (map g ds) \<and>
    (\<forall>k < length ds. em (pgs' ! k) = (em (pgs ! k))[ie := q (offs (length b) (map blk ds) ! k) (ds ! k)])"
proof -
  have len: "length ds = length pgs" using assms(2) by (auto dest: list_all2_lengthD)
  have "\<forall>i \<in> set is. i < eu ps" "distinct is"
    using assms(3) foreach_idx_bound distinct_foreach_idx by auto
  then obtain pgs' where "each_page body is (put_all ps is pgs) (fat b []) =
      Some (put_all ps is pgs', fat (b @ concat (map blk ds)) [])" "length pgs' = length pgs"
    "\<forall>k < length pgs. moved ie q g (offs (length b) (map blk ds) ! k) (pgs ! k) (ds ! k) (pgs' ! k)"
    using each_page_run [of page_shape body blk "moved ie q g" pgs ds "is" ps b "[]", OF body assms(2)]
      assms(4,5) by auto
  moreover have "foreach_idx (put_all ps is pgs) = is"
    using foreach_idx_put_all [OF assms(3)] assms(4) by simp
  ultimately show ?thesis
    by (intro exI [of _ pgs']) (auto simp: moved_def list_all2_conv_all_nth assms(4) len)
qed

lemma length_page_ptrs: "length (page_ptrs b ds) = 20 * length ds"
proof -
  have "length (concat (map (\<lambda>k. concat (map be32 (page_ints b ds k))) ks)) = 20 * length ks" for ks
    by (induction ks) (simp_all add: page_ints_def)
  then show ?thesis by (simp add: page_ptrs_def)
qed

lemma offs_const: "\<forall>x \<in> set xs. length x = n \<Longrightarrow> k < length xs \<Longrightarrow> offs b xs ! k = b + n * k"
proof (induction b xs arbitrary: k rule: offs.induct)
  case (2 b x xs)
  then show ?case by (cases k) auto
qed simp

lemma sort_page_sel [simp]:
  "d_names (sort_page d) = qsort compare_names (d_names d)"
  "d_sects (sort_page d) = qsort compare_strings (d_sects d)"
  "d_archs (sort_page d) = map_option (qsort compare_strings) (d_archs d)"
  "d_desc (sort_page d) = d_desc d" "d_files (sort_page d) = d_files d"
  by (simp_all add: sort_defs)

lemma sorted_blocks:
  "map (\<lambda>d. list_bytes (d_names (sort_names d))) ds = name_blocks (map sort_page ds)"
  "map (\<lambda>d. list_bytes (d_sects (sort_sects d))) (map sort_names ds) = sect_blocks (map sort_page ds)"
  "map (\<lambda>d. arch_bytes (sort_archs d)) (map sort_sects (map sort_names ds)) = arch_blocks (map sort_page ds)"
  "map (\<lambda>d. str_bytes (d_desc d)) (map sort_archs (map sort_sects (map sort_names ds))) =
     desc_blocks (map sort_page ds)"
  "map (\<lambda>d. list_bytes (d_files d)) (map id (map sort_archs (map sort_sects (map sort_names ds)))) =
     file_blocks (map sort_page ds)"
  by (simp_all add: blocks_defs sort_defs arch_bytes_def)

lemma list_update_all5:
  "length xs = 5 \<Longrightarrow> xs[DBP_NAME := a, DBP_SECT := b, DBP_ARCH := c, DBP_DESC := d, DBP_FILE := e] = [a, b, c, d, e]"
  by (auto simp: numeral_eq_Suc length_Suc_conv dbp_defs)


lemma writepos_run:
  assumes "map em pgs = ms" "\<forall>m \<in> set ms. - 1 \<notin> set m \<and> length m = 5"
    and "is = foreach_idx ps" "length is = length pgs" "length z = 20 * length pgs"
    and "int (length b + 20 * length pgs) < INT_MAX"
  shows "\<exists>pgs'. foreach_page dba_array_writepos (put_all ps is pgs) (fat b (z @ r)) =
      Some (put_all ps is pgs', fat (b @ concat (map (\<lambda>m. concat (map be32 m)) ms)) r) \<and>
    length pgs' = length pgs \<and> (\<forall>k < length pgs. apos (pgs' ! k) = int (length b + 20 * k))"
proof -
  have b32: "length (concat (map be32 m)) = 4 * length m" for m by (induction m) auto
  have lblk: "\<forall>x \<in> set (map (\<lambda>m. concat (map be32 m)) ms). length x = 20"
    using assms(2) by (auto simp: b32)
  have lc: "length (concat (map (\<lambda>m. concat (map be32 m)) ms)) = 20 * length ms"
    using assms(2) by (induction ms) (auto simp: b32)
  have body: "\<exists>p'. dba_array_writepos p (fat b r) = Some (p', fat (b @ concat (map be32 m))
        (drop (length (concat (map be32 m))) r)) \<and> p' = p\<lparr>apos := int (length b)\<rparr>"
    if "em p = m \<and> - 1 \<notin> set m" "int (length b) < INT_MAX" for p :: page and m b r
    using writepos_fat [of p b r] that by (simp add: b32)
  have la: "list_all2 (\<lambda>p m. em p = m \<and> - 1 \<notin> set m) pgs ms"
    using assms(1,2) by (auto simp: list_all2_conv_all_nth)
  have "\<forall>i \<in> set is. i < eu ps" "distinct is"
    using assms(3) foreach_idx_bound distinct_foreach_idx by auto
  then obtain pgs' where p: "each_page dba_array_writepos is (put_all ps is pgs) (fat b (z @ r)) =
      Some (put_all ps is pgs', fat (b @ concat (map (\<lambda>m. concat (map be32 m)) ms))
        (drop (length (concat (map (\<lambda>m. concat (map be32 m)) ms))) (z @ r)))" "length pgs' = length pgs"
    "\<forall>k < length pgs. pgs' ! k = (pgs ! k)\<lparr>apos :=
        int (offs (length b) (map (\<lambda>m. concat (map be32 m)) ms) ! k)\<rparr>"
    using each_page_run [of "\<lambda>p m. em p = m \<and> - 1 \<notin> set m" dba_array_writepos
        "\<lambda>m. concat (map be32 m)" "\<lambda>n p m p'. p' = p\<lparr>apos := int n\<rparr>" pgs ms "is" ps b "z @ r", OF body la]
      assms(1,4,6) lc by auto
  moreover have "foreach_idx (put_all ps is pgs) = is"
    using foreach_idx_put_all [OF assms(3)] assms(4) by simp
  moreover have "drop (length (concat (map (\<lambda>m. concat (map be32 m)) ms))) (z @ r) = r"
    using lc assms(1,5) by auto
  ultimately show ?thesis
    using offs_const [OF lblk] assms(1) by (intro exI [of _ pgs']) auto
qed

lemma dba_pages_write_fat:
  assumes ok: "array_ok ps" "None \<notin> set (ep ps)"
    and shape: "list_all2 page_shape (foreach ps) ds"
    and size: "int (length b + length (pages_bytes (length b) (map sort_page ds))) < INT_MAX"
  shows "\<exists>pgs. dba_pages_write ps (fat b []) =
      Some (put_all ps (foreach_idx ps) pgs, fat (b @ pages_bytes (length b) (map sort_page ds)) []) \<and>
    length pgs = length ds \<and> (\<forall>k < length ds. apos (pgs ! k) = int (length b + 4 + 20 * k))"
proof -
  define ds' where "ds' = map sort_page ds"
  define n where "n = length ds"
  define "is" where "is = foreach_idx ps"
  have len: "length is = n" "length ds' = n"
    using shape by (auto simp: foreach_def is_def n_def ds'_def dest: list_all2_lengthD)
  have n: "int (eu ps) - ed ps = int n"
    using length_live_idx [OF ok(1)] foreach_idx_no_NULL [OF ok(2)] len by (simp add: is_def)
  define B0 where "B0 = b @ be32 (int n) @ replicate (20 * n) NUL"
  define B1 where "B1 = B0 @ concat (name_blocks ds')"
  define B2 where "B2 = B1 @ concat (sect_blocks ds')"
  define B3 where "B3 = B2 @ concat (arch_blocks ds')"
  define B4 where "B4 = B3 @ concat (desc_blocks ds')"
  define B5 where "B5 = B4 @ concat (file_blocks ds')"
  have lens: "length B0 = area0 (length b) ds'" "length B1 = area1 (length b) ds'"
    "length B2 = area2 (length b) ds'" "length B3 = area3 (length b) ds'" "length B4 = area4 (length b) ds'"
    by (simp_all add: B0_def B1_def B2_def B3_def B4_def area0_def area1_def area2_def area3_def area4_def len)
  have B5: "B5 = B0 @ page_strs ds'" "length B5 = area0 (length b) ds' + length (page_strs ds')"
    by (simp_all add: B5_def B4_def B3_def B2_def B1_def page_strs_def lens [symmetric])
  have "length b + length (pages_bytes (length b) ds') = length B5 + length (pad4 (length B5))"
    by (simp add: pages_bytes_def B5 length_page_ptrs area0_def len B0_def add.assoc)
  then have size5: "int (length B5 + length (pad4 (length B5))) < INT_MAX"
    using size by (simp add: ds'_def)
  then have sizes: "int (length B0 + length (concat (name_blocks ds'))) < INT_MAX"
    "int (length B1 + length (concat (sect_blocks ds'))) < INT_MAX"
    "int (length B2 + length (concat (arch_blocks ds'))) < INT_MAX"
    "int (length B3 + length (concat (desc_blocks ds'))) < INT_MAX"
    "int (length B4 + length (concat (file_blocks ds'))) < INT_MAX"
    "int (length b + 4 + 20 * n) < INT_MAX" "int (length (b @ be32 (int n))) < INT_MAX"
    by (simp_all add: B5_def B4_def B3_def B2_def B1_def B0_def)
  have start: "dba_array_writelen ps 5 (fat b []) = Some (int (length b + 4), fat B0 [])"
    using dba_skip_fat [of 5 "b @ be32 (int n)" n "[]"] sizes(7)
    by (simp add: dba_array_writelen_def n fat_simps B0_def)
  let ?pgs = "foreach ps"
  have put0: "put_all ps is ?pgs = ps"
    unfolding foreach_def is_def by (rule put_all_same) (use foreach_idx_bound in blast)
  note runs = foreach_page_run [OF _ _ is_def]
  obtain p1 where p1: "foreach_page (write_list DBP_NAME (Some compare_names)) ps (fat B0 []) =
      Some (put_all ps is p1, fat B1 [])" "length is = length p1" "list_all2 page_shape p1 (map sort_names ds)"
    "\<forall>k < n. em (p1 ! k) = (em (?pgs ! k))[DBP_NAME := int (offs (length B0) (name_blocks ds') ! k)]"
    using runs [OF write_names_fat shape, of B0] sizes(1) len unfolding put0
    by (auto simp: sorted_blocks ds'_def [symmetric] B1_def n_def foreach_def is_def)
  obtain p2 where p2: "foreach_page (write_list DBP_SECT (Some compare_strings)) (put_all ps is p1) (fat B1 []) =
      Some (put_all ps is p2, fat B2 [])" "length is = length p2"
    "list_all2 page_shape p2 (map sort_sects (map sort_names ds))"
    "\<forall>k < n. em (p2 ! k) = (em (p1 ! k))[DBP_SECT := int (offs (length B1) (sect_blocks ds') ! k)]"
    using runs [OF write_sects_fat p1(3,2), of B1] sizes(2)
    unfolding sorted_blocks ds'_def [symmetric] B2_def [symmetric] by (auto simp: n_def)
  have keep: "d_archs (sort_sects (sort_names d)) = d_archs d" for d by (simp add: sort_defs)
  obtain p3 where p3: "foreach_page write_arch (put_all ps is p2) (fat B2 []) =
      Some (put_all ps is p3, fat B3 [])" "length is = length p3"
    "list_all2 page_shape p3 (map sort_archs (map sort_sects (map sort_names ds)))"
    "\<forall>k < n. em (p3 ! k) = (em (p2 ! k))[DBP_ARCH :=
       if d_archs (ds ! k) = None then 0 else int (offs (length B2) (arch_blocks ds') ! k)]"
    using runs [OF write_arch_fat p2(3,2), of B2] sizes(3)
    unfolding sorted_blocks ds'_def [symmetric] B3_def [symmetric] by (auto simp: n_def keep)
  obtain p4 where p4: "foreach_page write_desc (put_all ps is p3) (fat B3 []) =
      Some (put_all ps is p4, fat B4 [])" "length is = length p4"
    "list_all2 page_shape p4 (map id (map sort_archs (map sort_sects (map sort_names ds))))"
    "\<forall>k < n. em (p4 ! k) = (em (p3 ! k))[DBP_DESC := int (offs (length B3) (desc_blocks ds') ! k)]"
    using runs [OF write_desc_fat p3(3,2), of B3] sizes(4)
    unfolding sorted_blocks ds'_def [symmetric] B4_def [symmetric] by (auto simp: n_def)
  obtain p5 where p5: "foreach_page (write_list DBP_FILE None) (put_all ps is p4) (fat B4 []) =
      Some (put_all ps is p5, fat B5 [])" "length is = length p5"
    "\<forall>k < n. em (p5 ! k) = (em (p4 ! k))[DBP_FILE := int (offs (length B4) (file_blocks ds') ! k)]"
    using runs [OF write_files_fat p4(3,2), of B4] sizes(5)
    unfolding sorted_blocks ds'_def [symmetric] B5_def [symmetric] by (auto simp: n_def)
  have em5: "map em p5 = map (page_ints (length b) ds') [0..<n]"
  proof (rule nth_equalityI)
    fix k assume "k < length (map em p5)"
    then have k: "k < n" using p5(2) len by simp
    then have "length (em (?pgs ! k)) = 5"
      using shape by (auto simp: list_all2_conv_all_nth page_shape_def n_def)
    then have "em (p5 ! k) = page_ints (length b) ds' k"
      using p1(4) p2(4) p3(4) p4(4) p5(3) k
      by (simp add: list_update_all5 page_ints_def lens ds'_def n_def)
    then show "map em p5 ! k = map (page_ints (length b) ds') [0..<n] ! k"
      using k p5(2) len by simp
  qed (use p5(2) len in simp)
  have ints: "\<forall>m \<in> set (map (page_ints (length b) ds') [0..<n]). - 1 \<notin> set m \<and> length m = 5"
    by (auto simp: page_ints_def)
  let ?tail = "page_strs ds' @ pad4 (length B5)"
  have "length (replicate (20 * n) NUL) = 20 * length p5" "int (length (b @ be32 (int n)) + 20 * length p5) < INT_MAX"
    using p5(2) len sizes(6) by simp_all
  then obtain p6 where p6: "foreach_page dba_array_writepos (put_all ps is p5)
        (fat (b @ be32 (int n)) (replicate (20 * n) NUL @ ?tail)) =
      Some (put_all ps is p6, fat ((b @ be32 (int n)) @ page_ptrs (length b) ds') ?tail)"
    "length p6 = n" "\<forall>k < n. apos (p6 ! k) = int (length b + 4 + 20 * k)"
    using writepos_run [OF em5 ints is_def p5(2), of "replicate (20 * n) NUL" "b @ be32 (int n)" ?tail]
      p5(2) len by (auto simp: page_ptrs_def comp_def)
  have seek1: "dba_seek (int (length b + 4)) (fat (B5 @ pad4 (length B5)) []) =
      Some (fat (b @ be32 (int n)) (replicate (20 * n) NUL @ ?tail))"
    by (rule dba_seek_fat) (simp_all add: B5 B0_def)
  have seek2: "dba_seek (int (length B5 + length (pad4 (length B5))))
      (fat ((b @ be32 (int n)) @ page_ptrs (length b) ds') ?tail) =
      Some (fat (b @ pages_bytes (length b) ds') [])"
    by (rule dba_seek_fat)
       (simp_all add: pages_bytes_def B5 length_page_ptrs len area0_def B0_def add.assoc)
  have "dba_pages_write ps (fat b []) = Some (put_all ps is p6, fat (b @ pages_bytes (length b) ds') [])"
    unfolding dba_pages_write_def
    using start p1(1) p2(1) p3(1) p4(1) p5(1) p6(1) dba_align_fat [OF size5] seek1 seek2 by simp
  then show ?thesis using p6 by (auto simp: is_def ds'_def n_def)
qed


subsection \<open>Writing the macro tables\<close>

lemma write_strs_fat:
  "int (length b + length (concat (map str_bytes ss))) < INT_MAX \<Longrightarrow>
    write_strs ss (fat b []) =
      Some (map int (offs (length b) (map str_bytes ss)), fat (b @ concat (map str_bytes ss)) [])"
proof (induction ss arbitrary: b)
  case (Cons s ss)
  have "int (length (b @ str_bytes s) + length (concat (map str_bytes ss))) < INT_MAX"
    using Cons.prems by (simp add: add.assoc)
  from Cons.IH [OF this] show ?case
    using Cons.prems by (simp add: fat_simps str_bytes_def)
qed simp

definition addrs_bytes :: "int list \<Rightarrow> string" where
  "addrs_bytes as = concat (map be32 as) @ be32 0"

lemma write_addrs_fat:
  "int (length b + length (concat (map addrs_bytes ass))) < INT_MAX \<Longrightarrow>
    write_addrs ass (fat b []) =
      Some (map int (offs (length b) (map addrs_bytes ass)), fat (b @ concat (map addrs_bytes ass)) [])"
proof (induction ass arbitrary: b)
  case (Cons as ass)
  have "int (length (b @ addrs_bytes as) + length (concat (map addrs_bytes ass))) < INT_MAX"
    using Cons.prems by (simp add: add.assoc)
  from Cons.IH [OF this] show ?case
    using Cons.prems by (simp add: fat_simps addrs_bytes_def fold_int_write_fat)
qed simp

lemma pair_write_fat:
  "fold (\<lambda>(k, d) f. dba_int_write d (dba_int_write k f)) ps (fat b r) =
     fat (b @ concat (map (\<lambda>(k, d). be32 k @ be32 d) ps)) (drop (8 * length ps) r)"
  by (induction ps arbitrary: b r) (auto simp: fat_simps add.commute)

lemma length_pair_bytes: "length (pair_bytes b t) = 8 * length t"
proof -
  have "length (concat (map (\<lambda>(k, d). be32 (int k) @ be32 (int d)) ps)) = 8 * length ps" for ps
    by (induction ps) auto
  then show ?thesis by (simp add: pair_bytes_def key_blocks_def addr_blocks_def)
qed

definition macro_data :: "page dba_array \<Rightarrow> nat dba_array list \<Rightarrow> macro_entry ohash \<Rightarrow> macro_data" where
  "macro_data ps hp h = map (\<lambda>e. (mvalue e, entry_addrs ps hp e)) (qsort compare_entries
     (filter (\<lambda>e. entry_addrs ps hp e \<noteq> []) (ohash_iter (hsize h) h 0)))"

lemma dba_macro_write_fat:
  assumes t: "t = macro_data ps hp h" and size: "int (length b + length (macro_bytes (length b) t)) < INT_MAX"
  shows "dba_macro_write ps hp h (fat b []) = Some (fat (b @ macro_bytes (length b) t) [])"
proof -
  define n where "n = length t"
  define es where "es = qsort compare_entries (filter (\<lambda>e. entry_addrs ps hp e \<noteq> []) (ohash_iter (hsize h) h 0))"
  have es: "length es = n" "map (str_bytes \<circ> mvalue) es = key_blocks t"
    "map addrs_bytes (map (entry_addrs ps hp) es) = addr_blocks t"
    by (simp_all add: n_def t macro_data_def es_def key_blocks_def addr_blocks_def addrs_bytes_def comp_def)
  define B0 where "B0 = b @ be32 (int n) @ replicate (8 * n) NUL"
  define B1 where "B1 = B0 @ concat (key_blocks t)"
  define B2 where "B2 = B1 @ key_pad (length b) t"
  define B3 where "B3 = B2 @ concat (addr_blocks t)"
  have lens: "length B0 = key_area (length b) t" "length B2 = addr_area (length b) t"
    "key_pad (length b) t = pad4 (length B1)"
    by (simp_all add: B0_def B1_def B2_def key_area_def addr_area_def key_pad_def n_def add.assoc)
  have "length b + length (macro_bytes (length b) t) = length B3"
    by (simp add: macro_bytes_def length_pair_bytes B3_def B2_def B1_def B0_def n_def)
  then have size3: "int (length B3) < INT_MAX" using size by simp
  then have sizes: "int (length (b @ be32 (int n))) < INT_MAX"
    "int (length B0 + length (concat (map str_bytes (map mvalue es)))) < INT_MAX"
    by (simp_all add: B3_def B2_def B1_def B0_def es)
  have sizes': "int (length B1 + length (pad4 (length B1))) < INT_MAX"
    "int (length B2 + length (concat (map addrs_bytes (map (entry_addrs ps hp) es)))) < INT_MAX"
    using size3 lens(3) unfolding es by (simp_all add: B3_def B2_def)
  have skip: "dba_skip 2 (int n) (fat (b @ be32 (int n)) []) = Some (int (length b + 4), fat B0 [])"
    using dba_skip_fat [of 2 "b @ be32 (int n)" n "[]"] sizes(1) by (simp add: B0_def)
  have strs: "write_strs (map mvalue es) (fat B0 []) =
      Some (map int (offs (key_area (length b) t) (key_blocks t)), fat B1 [])"
    using write_strs_fat [OF sizes(2)] by (simp add: es lens B1_def)
  have align: "dba_align (fat B1 []) = Some (int (length B1 + length (pad4 (length B1))), fat B2 [])"
    using dba_align_fat [OF sizes'(1)] by (simp add: B2_def lens)
  have addrs: "write_addrs (map (entry_addrs ps hp) es) (fat B2 []) =
      Some (map int (offs (addr_area (length b) t) (addr_blocks t)), fat B3 [])"
    using write_addrs_fat [OF sizes'(2)] by (simp only: es lens B3_def)
  let ?tail = "concat (key_blocks t) @ key_pad (length b) t @ concat (addr_blocks t)"
  have seek1: "dba_seek (int (length b + 4)) (fat B3 []) =
      Some (fat (b @ be32 (int n)) (replicate (8 * n) NUL @ ?tail))"
    by (rule dba_seek_fat) (simp_all add: B3_def B2_def B1_def B0_def)
  have pairs: "fold (\<lambda>(k, d) f. dba_int_write d (dba_int_write k f))
        (zip (map int (offs (key_area (length b) t) (key_blocks t)))
          (map int (offs (addr_area (length b) t) (addr_blocks t))))
        (fat (b @ be32 (int n)) (replicate (8 * n) NUL @ ?tail)) =
      fat ((b @ be32 (int n)) @ pair_bytes (length b) t) ?tail"
  proof -
    have "length (key_blocks t) = n" "length (addr_blocks t) = n"
      by (simp_all add: key_blocks_def addr_blocks_def n_def)
    then show ?thesis
      unfolding pair_write_fat by (simp add: pair_bytes_def zip_map_map comp_def case_prod_unfold)
  qed
  have seek2: "dba_seek (int (length B3)) (fat ((b @ be32 (int n)) @ pair_bytes (length b) t) ?tail) =
      Some (fat (b @ macro_bytes (length b) t) [])"
    by (rule dba_seek_fat)
       (simp_all add: macro_bytes_def length_pair_bytes n_def B3_def B2_def B1_def B0_def)
  show ?thesis
    using skip strs align addrs seek1 pairs seek2 dba_tell_fat [OF size3, of "[]"] es(1)
    by (simp add: dba_macro_write_def es_def [symmetric] fat_simps Let_def)
qed

lemma write_macros_fat:
  assumes "\<forall>j < length hs. im + j < eu ms \<and> ep ms ! (im + j) = Some (hs ! j)" "length (em ms) = eu ms"
    and "ts = map (macro_data ps hp) hs"
    and "int (length b + length (concat (table_blocks (length b) ts))) < INT_MAX"
  shows "write_macros ps hp im [im..<im + length hs] ms (fat b []) =
     Some (ms\<lparr>em := take im (em ms) @ map int (offs (length b) (table_blocks (length b) ts)) @
         drop (im + length hs) (em ms)\<rparr>,
       fat (b @ concat (table_blocks (length b) ts)) [])"
  using assms
proof (induction hs arbitrary: im ms b ts)
  case Nil
  then show ?case by simp
next
  case (Cons h hs)
  define t where "t = macro_data ps hp h"
  define ts' where "ts' = map (macro_data ps hp) hs"
  have ts: "ts = t # ts'" using Cons.prems(3) by (simp add: t_def ts'_def)
  have im: "im < eu ms" "ep ms ! im = Some h" using Cons.prems(1) by (force, force)
  have up: "[im..<im + length (h # hs)] = im # [Suc im..<Suc im + length hs]"
    using upt_conv_Cons [of im "im + length (h # hs)"] by simp
  define ms' where "ms' = ms\<lparr>em := (em ms)[im := int (length b)]\<rparr>"
  have size: "int (length b) < INT_MAX" "int (length b + length (macro_bytes (length b) t)) < INT_MAX"
    "int (length (b @ macro_bytes (length b) t) +
       length (concat (table_blocks (length (b @ macro_bytes (length b) t)) ts'))) < INT_MAX"
    using Cons.prems(4) by (simp_all add: ts add.assoc)
  have "\<forall>j < length hs. Suc im + j < eu ms' \<and> ep ms' ! (Suc im + j) = Some (hs ! j)"
    using Cons.prems(1) by (auto simp: ms'_def dest: spec [of _ "Suc _"])
  from Cons.IH [OF this _ ts'_def size(3)] Cons.prems(2)
  have IH: "write_macros ps hp (Suc im) [Suc im..<Suc im + length hs] ms' (fat (b @ macro_bytes (length b) t) []) =
     Some (ms'\<lparr>em := take (Suc im) (em ms') @
          map int (offs (length (b @ macro_bytes (length b) t)) (table_blocks (length (b @ macro_bytes (length b) t)) ts')) @
          drop (Suc im + length hs) (em ms')\<rparr>,
        fat ((b @ macro_bytes (length b) t) @ concat (table_blocks (length (b @ macro_bytes (length b) t)) ts')) [])"
    by (simp add: ms'_def)
  have "take (Suc im) ((em ms)[im := int (length b)]) = take im (em ms) @ [int (length b)]"
    using im Cons.prems(2) by (simp add: take_Suc_conv_app_nth)
  then show ?case
    using IH im size(1) dba_macro_write_fat [OF t_def size(2)] unfolding up
    by (simp add: fat_simps dba_array_setpos_def ms'_def ts del: upt.simps)
qed


lemma length_table_blocks [simp]: "length (table_blocks b ts) = length ts"
  by (induction b ts rule: table_blocks.induct) auto

lemma dba_macros_write_fat:
  assumes ms: "plain ms hs" and ts: "ts = map (macro_data ps hp) hs"
    and size: "int (length b + length (macros_bytes (length b) ts)) < INT_MAX"
  shows "dba_macros_write ps hp ms (fat b []) = Some (fat (b @ macros_bytes (length b) ts) [])"
proof -
  define n where "n = length hs"
  have len: "length ts = n" "eu ms = n" "length (em ms) = n" "ep ms = map Some hs"
    using ms by (auto simp: ts n_def plain_def array_ok_def)
  define B0 where "B0 = b @ be32 (int n) @ replicate (4 * n) NUL"
  define blks where "blks = table_blocks (length B0) ts"
  have l0: "length B0 = length b + 4 + 4 * length ts" by (simp add: B0_def len)
  have mb: "macros_bytes (length b) ts =
      be32 (int n) @ concat (map be32 (map int (offs (length B0) blks))) @ concat blks"
    by (simp add: macros_bytes_def Let_def l0 blks_def len comp_def)
  have lptr: "length (concat (map be32 xs)) = 4 * length xs" for xs by (induction xs) auto
  have lptr': "length (concat (map (be32 \<circ> int) xs)) = 4 * length xs" for xs by (induction xs) auto
  have lm: "length (macros_bytes (length b) ts) = 4 + 4 * n + length (concat blks)"
    by (simp add: mb lptr blks_def len del: map_map)
  have sizes: "int (length (b @ be32 (int n))) < INT_MAX"
    "int (length B0 + length (concat (table_blocks (length B0) ts))) < INT_MAX"
    "int (length (B0 @ concat blks)) < INT_MAX"
    using size by (simp_all add: lm l0 blks_def len)
  have "ed ms = 0" using ms by (rule plain_ed)
  then have start: "dba_array_writelen ms 1 (fat b []) = Some (int (length b + 4), fat B0 [])"
    using dba_skip_fat [of 1 "b @ be32 (int n)" n "[]"] sizes(1)
    by (simp add: dba_array_writelen_def len fat_simps B0_def n_def)
  let ?ms = "ms\<lparr>em := map int (offs (length B0) blks)\<rparr>"
  have "write_macros ps hp 0 [0..<0 + length hs] ms (fat B0 []) =
      Some (ms\<lparr>em := take 0 (em ms) @ map int (offs (length B0) (table_blocks (length B0) ts)) @
        drop (0 + length hs) (em ms)\<rparr>, fat (B0 @ concat (table_blocks (length B0) ts)) [])"
    by (rule write_macros_fat) (use len sizes(2) ts in \<open>simp_all add: n_def\<close>)
  then have loop: "write_macros ps hp 0 (foreach_idx ms) ms (fat B0 []) = Some (?ms, fat (B0 @ concat blks) [])"
    using len plain_foreach_idx [OF ms] by (simp add: blks_def n_def)
  have seek1: "dba_seek (int (length b + 4)) (fat (B0 @ concat blks) []) =
      Some (fat (b @ be32 (int n)) (replicate (4 * n) NUL @ concat blks))"
    by (rule dba_seek_fat) (simp_all add: B0_def)
  have wp: "\<exists>m. dba_array_writepos ?ms (fat (b @ be32 (int n)) (replicate (4 * n) NUL @ concat blks)) =
      Some (m, fat ((b @ be32 (int n)) @ concat (map be32 (map int (offs (length B0) blks)))) (concat blks))"
  proof -
    have "- 1 \<notin> set (em ?ms)" by auto
    from writepos_fat [OF this sizes(1)] show ?thesis by (simp add: blks_def len)
  qed
  have seek2: "dba_seek (int (length (B0 @ concat blks)))
      (fat ((b @ be32 (int n)) @ concat (map be32 (map int (offs (length B0) blks)))) (concat blks)) =
      Some (fat (b @ macros_bytes (length b) ts) [])"
    by (rule dba_seek_fat) (simp_all add: lm mb B0_def lptr' blks_def len)
  show ?thesis
    using start loop seek1 wp seek2 dba_tell_fat [OF sizes(3), of "[]"]
    by (auto simp: dba_macros_write_def)
qed

subsection \<open>What a database stands for\<close>

text \<open>
  The pages that have not been deleted are numbered in order.  A reference to a page stands for
  its number; references to deleted pages are dropped, and so are macro values without pages.
\<close>

definition rank :: "nat list \<Rightarrow> nat \<Rightarrow> nat" where
  "rank is i = length (takeWhile (\<lambda>j. j \<noteq> i) is)"

definition live_refs :: "nat list \<Rightarrow> nat list \<Rightarrow> nat list" where
  "live_refs is xs = map (rank is) (filter (\<lambda>i. i \<in> set is) xs)"

type_synonym table_data = "(string \<times> nat list) list"

definition table_of :: "nat list \<Rightarrow> nat dba_array list \<Rightarrow> macro_entry ohash \<Rightarrow> table_data" where
  "table_of is hp h = map (\<lambda>e. (mvalue e, live_refs is (foreach (hp ! mpages e)))) (qsort compare_entries
     (filter (\<lambda>e. live_refs is (foreach (hp ! mpages e)) \<noteq> []) (ohash_iter (hsize h) h 0)))"

definition addr_table :: "table_data \<Rightarrow> macro_data" where
  "addr_table t = map (\<lambda>(v, ks). (v, map (\<lambda>k. int (20 + 20 * k)) ks)) t"

text \<open>
  The invariant of the macro tables, for \<open>n\<close> pages: the hash tables are well-formed, no two
  entries share an array of references, and all references are to pages.
\<close>

definition entry_in :: "macro_entry ohash \<Rightarrow> macro_entry \<Rightarrow> bool" where
  "entry_in h e \<longleftrightarrow> ohash_map mvalue h (mvalue e) = Some e"

definition heap_ok :: "nat dba_array list \<Rightarrow> bool" where
  "heap_ok hp \<longleftrightarrow> (\<forall>a \<in> set hp. \<exists>xs n. plain a xs \<and> grows a n \<and> n < 2 ^ 30)"

definition tables_ok :: "nat \<Rightarrow> nat dba_array list \<Rightarrow> macro_entry ohash list \<Rightarrow> bool" where
  "tables_ok n hp hs \<longleftrightarrow>
     heap_ok hp \<and> (\<forall>h \<in> set hs. ohash_ok mvalue h) \<and>
     (\<forall>i < length hs. \<forall>e. entry_in (hs ! i) e \<longrightarrow>
        cstring (mvalue e) \<and> mpages e < length hp \<and> (\<forall>x \<in> set (foreach (hp ! mpages e)). x < n)) \<and>
     (\<forall>i < length hs. \<forall>j < length hs. \<forall>e e'. entry_in (hs ! i) e \<longrightarrow> entry_in (hs ! j) e' \<longrightarrow>
        mpages e = mpages e' \<longrightarrow> i = j \<and> e = e')"

lemma iter_entry_in: "ohash_ok mvalue h \<Longrightarrow> e \<in> set (ohash_iter (hsize h) h 0) \<longleftrightarrow> entry_in h e"
  by (simp add: ohash_iter_facts(3) entry_in_def)

text \<open>
  The relation between a database and its contents: the pages, each sorted, and the macro
  tables.  Deleted pages have never been written.
\<close>

definition dba_pages_are :: "dba \<Rightarrow> page_data list \<Rightarrow> bool" where
  "dba_pages_are d ds \<longleftrightarrow>
     array_ok (pages d) \<and> None \<notin> set (ep (pages d)) \<and>
     (\<exists>ds0. list_all2 page_shape (foreach (pages d)) ds0 \<and> ds = map sort_page ds0) \<and>
     (\<forall>i < eu (pages d). i \<notin> set (foreach_idx (pages d)) \<longrightarrow> page_pos (pages d) i = 0)"

definition dba_macros_are :: "dba \<Rightarrow> table_data list \<Rightarrow> bool" where
  "dba_macros_are d ts \<longleftrightarrow>
     (\<exists>hs. plain (macros d) hs \<and> length hs = MACRO_MAX \<and> tables_ok (eu (pages d)) (heap d) hs \<and>
        ts = map (table_of (foreach_idx (pages d)) (heap d)) hs)"

lemma rank_nth: "i \<in> set is \<Longrightarrow> rank is i < length is \<and> is ! rank is i = i"
proof -
  assume "i \<in> set is"
  then obtain ys zs where "is = ys @ i # zs" "i \<notin> set ys" by (metis split_list_first)
  moreover have "i \<notin> set ys \<Longrightarrow> takeWhile (\<lambda>j. j \<noteq> i) (ys @ i # zs) = ys" for ys zs
    by (induction ys) auto
  ultimately show ?thesis by (simp add: rank_def)
qed

lemma entry_addrs_written:
  assumes "\<forall>i < eu ps. i \<notin> set is \<longrightarrow> page_pos ps i = 0" "is = foreach_idx ps" "length pgs = length is"
    "\<forall>k < length is. apos (pgs ! k) = int (20 + 20 * k)"
    "\<forall>i \<in> set (foreach (hp ! mpages e)). i < eu ps"
  shows "entry_addrs (put_all ps is pgs) hp e =
     map (\<lambda>k. int (20 + 20 * k)) (live_refs is (foreach (hp ! mpages e)))"
proof -
  have "page_pos (put_all ps is pgs) i = (if i \<in> set is then int (20 + 20 * rank is i) else 0)" if "i < eu ps" for i
  proof (cases "i \<in> set is")
    case True
    have "\<forall>i \<in> set is. i < eu ps" "distinct is"
      using assms(2) foreach_idx_bound distinct_foreach_idx by auto
    then show ?thesis
      using put_all_nth [of "is" pgs ps "rank is i"] rank_nth [OF True] assms(3,4) True
      by (simp add: page_pos_def dba_array_getpos_def)
  next
    case False
    then show ?thesis using assms(1) that by (simp add: page_pos_def put_all_other)
  qed
  then have *: "map (page_pos (put_all ps is pgs)) xs =
      map (\<lambda>i. if i \<in> set is then int (20 + 20 * rank is i) else 0) xs"
    if "\<forall>i \<in> set xs. i < eu ps" for xs using that by simp
  have "filter (\<lambda>p. p \<noteq> 0) (map (\<lambda>i. if i \<in> set is then int (20 + 20 * rank is i) else 0) xs) =
      map (\<lambda>k. int (20 + 20 * k)) (live_refs is xs)" for xs
    by (induction xs) (auto simp: live_refs_def)
  then show ?thesis by (simp add: entry_addrs_def * [OF assms(5)])
qed

lemma dba_write_bytes:
  assumes P: "dba_pages_are d ds" and M: "dba_macros_are d ts"
    and size: "int (length (db_bytes ds (map addr_table ts))) < INT_MAX"
  shows "dba_write d = Some (db_bytes ds (map addr_table ts))"
proof -
  define ps where "ps = pages d"
  define "is" where "is = foreach_idx ps"
  obtain ds0 where ds0: "list_all2 page_shape (foreach ps) ds0" "ds = map sort_page ds0"
    using P by (auto simp: dba_pages_are_def ps_def)
  obtain hs where hs: "plain (macros d) hs" "length hs = MACRO_MAX" "ts = map (table_of is (heap d)) hs"
    and tok: "tables_ok (eu ps) (heap d) hs"
    using M by (auto simp: dba_macros_are_def ps_def is_def)
  have hs4: "\<forall>i \<in> set (foreach (heap d ! mpages e)). i < eu ps"
    if h: "h \<in> set hs" and e: "e \<in> set (ohash_iter (hsize h) h 0)" for h e
  proof -
    obtain i where i: "i < length hs" "h = hs ! i" using h by (metis in_set_conv_nth)
    have "entry_in h e" using e h tok iter_entry_in by (auto simp: tables_ok_def)
    then show ?thesis using i tok by (simp add: tables_ok_def)
  qed
  define H where "H = be32 MANDOCDB_MAGIC @ be32 MANDOCDB_VERSION"
  define B1 where "B1 = (H @ replicate 8 NUL) @ pages_bytes 16 ds"
  define ts' where "ts' = map addr_table ts"
  define B2 where "B2 = B1 @ macros_bytes (length B1) ts'"
  have l: "length H = 8" "length B1 = macros_pos ds" by (simp_all add: H_def B1_def macros_pos_def)
  have bytes: "db_bytes ds ts' = H @ (be32 (int (length B1)) @ be32 (int (length B2))) @
      (pages_bytes 16 ds @ macros_bytes (length B1) ts' @ be32 MANDOCDB_MAGIC)"
    by (simp add: db_bytes_def H_def B2_def l)
  have sizes: "int (length (H @ replicate 8 NUL) + length (pages_bytes (length (H @ replicate 8 NUL)) (map sort_page ds0))) < INT_MAX"
    "int (length B1 + length (macros_bytes (length B1) ts')) < INT_MAX" "int (length B1) < INT_MAX"
    "int (length B2) < INT_MAX" "int (length H) < INT_MAX"
    using size by (simp_all add: ts'_def [symmetric] bytes ds0(2) [symmetric] l(1) B1_def B2_def INT_MAX_def)
  have skip: "dba_skip 1 2 (fat H []) = Some (8, fat (H @ replicate 8 NUL) [])"
    using dba_skip_fat [of 1 H 2 "[]"] sizes(5) l(1) by simp
  obtain pgs where pgs: "dba_pages_write ps (fat (H @ replicate 8 NUL) []) = Some (put_all ps is pgs, fat B1 [])"
    "length pgs = length is" "\<forall>k < length is. apos (pgs ! k) = int (20 + 20 * k)"
  proof -
    have "length ds0 = length is" using list_all2_lengthD [OF ds0(1)] by (simp add: foreach_def is_def)
    then show ?thesis
      using dba_pages_write_fat [OF _ _ ds0(1) sizes(1)] P that
      by (auto simp: dba_pages_are_def ps_def is_def B1_def ds0(2) l(1))
  qed
  have addrs: "entry_addrs (put_all ps is pgs) (heap d) e =
      map (\<lambda>k. int (20 + 20 * k)) (live_refs is (foreach (heap d ! mpages e)))"
    if "h \<in> set hs" "e \<in> set (ohash_iter (hsize h) h 0)" for h e
    using P hs4 that pgs by (intro entry_addrs_written) (auto simp: dba_pages_are_def ps_def is_def)
  have "macro_data (put_all ps is pgs) (heap d) h = addr_table (table_of is (heap d) h)" if "h \<in> set hs" for h
  proof -
    have "filter (\<lambda>e. entry_addrs (put_all ps is pgs) (heap d) e \<noteq> []) (ohash_iter (hsize h) h 0) =
        filter (\<lambda>e. live_refs is (foreach (heap d ! mpages e)) \<noteq> []) (ohash_iter (hsize h) h 0)"
      using addrs [OF that] by (intro filter_cong) auto
    then show ?thesis
      using addrs [OF that] by (auto simp: macro_data_def table_of_def addr_table_def)
  qed
  then have ts'': "ts' = map (macro_data (put_all ps is pgs) (heap d)) hs"
    by (simp add: ts'_def hs(3))
  have macros: "dba_macros_write (put_all ps is pgs) (heap d) (macros d) (fat B1 []) = Some (fat B2 [])"
    using dba_macros_write_fat [OF hs(1) ts'' sizes(2)] by (simp add: B2_def)
  have seek: "dba_seek 8 (fat (B2 @ be32 MANDOCDB_MAGIC) []) =
      Some (fat H (replicate 8 NUL @ pages_bytes 16 ds @ macros_bytes (length B1) ts' @ be32 MANDOCDB_MAGIC))"
    using dba_seek_fat [of H 8] by (simp add: l(1) B2_def B1_def)
  show ?thesis
    using skip pgs(1) macros seek dba_tell_fat [OF sizes(3), of "[]"] dba_tell_fat [OF sizes(4), of "[]"]
    by (simp add: dba_write_def dba_open_fat fat_simps Let_def ps_def [symmetric] ts'_def [symmetric])
       (simp add: H_def [symmetric] fat_simps fbytes_fat bytes)
qed

end
