(* ===== verification/Db_Memory.thy ===== *)
theory Db_Memory
  imports Db_Layout
begin

section \<open>The operations on the database in memory\<close>

lemma foreach_last: "\<exists>xs. plain a xs \<Longrightarrow> plain a (foreach a)"
  by (auto simp: plain_foreach)

subsection \<open>A new database\<close>

lemma new_macros_plain:
  assumes "plain a []" "int n \<le> ea a"
  shows "\<exists>a'. new_macros n a = Some a' \<and> plain a' (replicate n (ohash_init 4)) \<and> ea a' = ea a"
  using assms(2)
proof (induction n)
  case (Suc n)
  then obtain a' where a': "new_macros n a = Some a'" "plain a' (replicate n (ohash_init 4))" "ea a' = ea a"
    by auto
  then have "eu a' = n" "length (em a') = n" by (auto simp: plain_def array_ok_def)
  then show ?case
    using a' Suc.prems
    by (auto simp: dba_array_set_def plain_def array_ok_def replicate_append_same)
qed (use assms(1) in simp)

lemma dba_new_ok:
  assumes "0 < n"
  shows "\<exists>d. dba_new n = Some d \<and> plain (pages d) [] \<and> grows (pages d) n \<and>
    plain (macros d) (replicate MACRO_MAX (ohash_init 4)) \<and> heap d = []"
proof -
  obtain ps where ps: "dba_array_new n {DBA_GROW} = Some (ps :: page dba_array)"
    using assms by (auto simp: dba_array_new_def)
  obtain ms where ms: "dba_array_new (int MACRO_MAX) {} = Some (ms :: macro_entry ohash dba_array)"
    by (auto simp: dba_array_new_def MACRO_MAX_def)
  obtain ms' where "new_macros MACRO_MAX ms = Some ms'" "plain ms' (replicate MACRO_MAX (ohash_init 4))"
    using new_macros_plain [of ms MACRO_MAX] plain_new [OF ms] by auto
  then show ?thesis
    using ps ms plain_new [OF ps] by (auto simp: dba_new_def grows_def plain_def)
qed

lemma tables_ok_init: "tables_ok n [] (replicate k (ohash_init 4))"
  by (auto simp: tables_ok_def heap_ok_def ohash_init_ok entry_in_def)

subsection \<open>A new page\<close>

definition new_page_data :: "string option \<Rightarrow> string \<Rightarrow> string \<Rightarrow> char \<Rightarrow> page_data" where
  "new_page_data arch desc file form =
     \<lparr>d_names = [], d_sects = [],
      d_archs = (case arch of Some (c # cs) \<Rightarrow> Some [c # cs] | _ \<Rightarrow> None),
      d_desc = desc, d_files = [form # file]\<rparr>"

lemma new_strs_ok: "\<exists>e. new_strs = Some e \<and> plain e [] \<and> grows e 1"
  by (auto simp: dba_array_new_def plain_def array_ok_def grows_def)

lemma one_str_ok: "new_strs = Some e \<Longrightarrow> \<exists>e'. dba_array_add e (Some s) = Some e' \<and> plain e' [s] \<and> grows e' 1"
  using plain_add [of e "[]" 1 s] plain_new [of 1 "{DBA_STR, DBA_GROW}" e] by (auto simp: grows_def)

lemma add_room:
  "int (eu a) < ea a \<Longrightarrow> dba_array_add a x = Some (a\<lparr>ep := ep a @ [x], em := em a @ [0]\<rparr>)"
  by (simp add: dba_array_add_def dba_array_set_def)

lemma add5:
  assumes "dba_array_new 5 {} = Some p"
  shows "\<exists>p1. dba_array_add p a = Some p1 \<and> (\<exists>p2. dba_array_add p1 b = Some p2 \<and>
    (\<exists>p3. dba_array_add p2 c = Some p3 \<and> (\<exists>p4. dba_array_add p3 d = Some p4 \<and>
    (\<exists>p5. dba_array_add p4 e = Some p5 \<and> ep p5 = [a, b, c, d, e] \<and> em p5 = [0, 0, 0, 0, 0] \<and> apos p5 = 0))))"
  using assms by (auto simp: dba_array_new_def add_room)

lemma dba_page_new_ok:
  assumes "plain ps pgs" "grows ps n" "n < 2 ^ 30" "length pgs < 2 ^ 29"
  shows "\<exists>ps' page. dba_page_new ps arch desc file form = Some (ps', length pgs) \<and>
    plain ps' (pgs @ [page]) \<and> grows ps' n \<and> em ps' = em ps @ [0] \<and>
    page_shape page (new_page_data arch desc file form) \<and> apos page = 0"
proof -
  obtain e where e: "new_strs = Some e" "plain e []" "grows e 1" using new_strs_ok by blast
  obtain ef where ef: "dba_array_add e (Some (prepend file form)) = Some ef"
    "plain ef [prepend file form]" "grows ef 1" using one_str_ok [OF e(1)] by blast
  obtain aa where aa: "(case arch of
             Some (c # cs) \<Rightarrow> do { e \<leftarrow> new_strs; e \<leftarrow> dba_array_add e (Some (c # cs)); Some (Some (Arr e)) }
           | _ \<Rightarrow> Some None) = Some aa"
    "case d_archs (new_page_data arch desc file form) of None \<Rightarrow> aa = None | Some as \<Rightarrow> strs_field aa as"
  proof (cases arch)
    case (Some s)
    show ?thesis
    proof (cases s)
      case (Cons c cs)
      obtain ea where "dba_array_add e (Some (c # cs)) = Some ea" "plain ea [c # cs]" "grows ea 1"
        using one_str_ok [OF e(1)] by blast
      then show ?thesis using that e Some Cons by (auto simp: new_page_data_def strs_field_def)
    qed (use that Some in \<open>auto simp: new_page_data_def\<close>)
  qed (use that in \<open>auto simp: new_page_data_def\<close>)
  obtain p where p: "dba_array_new 5 {} = Some (p :: page)" by (auto simp: dba_array_new_def)
  obtain p1 p2 p3 p4 p5 where p5: "dba_array_add p (Some (Arr e)) = Some p1" "dba_array_add p1 (Some (Arr e)) = Some p2"
    "dba_array_add p2 aa = Some p3" "dba_array_add p3 (Some (Str desc)) = Some p4"
    "dba_array_add p4 (Some (Arr ef)) = Some p5"
    "ep p5 = [Some (Arr e), Some (Arr e), aa, Some (Str desc), Some (Arr ef)]" "em p5 = [0, 0, 0, 0, 0]" "apos p5 = 0"
    using add5 [OF p, of "Some (Arr e)" "Some (Arr e)" aa "Some (Str desc)" "Some (Arr ef)"] by blast
  obtain ps' where ps': "dba_array_add ps (Some p5) = Some ps'" "plain ps' (pgs @ [p5])" "grows ps' n"
    "em ps' = em ps @ [0]"
    using plain_add [OF assms(1), of n p5] assms(2-4) by auto
  define D where "D = new_page_data arch desc file form"
  have D: "d_names D = []" "d_sects D = []" "d_desc D = desc" "d_files D = [form # file]"
    by (simp_all add: D_def new_page_data_def)
  have "dba_page_new ps arch desc file form = Some (ps', length pgs)"
    using p p5 e ef aa(1) ps' by (simp add: dba_page_new_def DBP_MAX_def) (simp add: plain_def)
  moreover have "page_shape p5 D"
    using p5(6,7) e ef(2,3) aa(2)
    by (simp add: page_shape_def dbp_defs D D_def [symmetric] prepend_def strs_field_def)
       (simp add: strs_field_def dbp_defs split: option.splits)
  ultimately show ?thesis using ps' p5(8) unfolding D_def by blast
qed

subsection \<open>Adding strings to a page\<close>

definition strip_form :: "string \<Rightarrow> string" where
  "strip_form s = (case s of [] \<Rightarrow> [] | c # cs \<Rightarrow> if ord_of c < 32 \<or> 128 \<le> ord_of c then cs else s)"

definition shown :: "nat \<Rightarrow> string \<Rightarrow> string" where
  "shown ie s = (if ie = DBP_FILE then strip_form s else s)"

lemma cstring_strip: "cstring s \<Longrightarrow> cstring (shown ie s)"
  by (auto simp: shown_def strip_form_def cstring_def split: list.splits)

lemma page_has_eq:
  "\<forall>s \<in> set ss. cstring s \<and> s \<noteq> [] \<Longrightarrow> cstring s \<Longrightarrow> page_has ie ss s = Some (s \<in> shown ie ` set ss)"
proof (induction ss)
  case (Cons e es)
  have "(if ie = DBP_FILE then skip_form e else Some e) = Some (shown ie e)"
    using Cons.prems by (auto simp: skip_form_def shown_def strip_form_def split: list.splits)
  moreover have "strcmp (shown ie e) s = 0 \<longleftrightarrow> shown ie e = s"
    using Cons.prems by (intro strcmp_0) (auto intro: cstring_strip)
  ultimately show ?case using Cons by auto
qed simp

lemma dba_page_add_ok:
  assumes p: "page_shape p d" and f: "field_of ie d = Some ss"
    and ok: "\<forall>s \<in> set ss. cstring s \<and> s \<noteq> []" "cstring s" "s \<noteq> []" and l: "length ss < 2 ^ 29"
  shows "\<exists>p'. dba_page_add p ie (Some s) = Some p' \<and>
    page_shape p' (if s \<in> shown ie ` set ss then d else set_field ie (ss @ [s]) d) \<and> apos p' = apos p"
proof -
  have ie: "ie < 5" using field_of_Some [OF p f] by simp
  obtain a where a: "ep p ! ie = Some (Arr a)" "plain a ss" "grows a 1"
    using field_of_Some [OF p f] by (auto simp: strs_field_def)
  have g: "dba_array_get p (int ie) = Some (Arr a)" using get_field [OF p ie] a by simp
  have h: "page_has ie (foreach a) s = Some (s \<in> shown ie ` set ss)"
    using page_has_eq [OF ok(1,2)] plain_foreach [OF a(2)] by simp
  obtain c cs where s: "s = c # cs" using ok(3) by (cases s) auto
  show ?thesis
  proof (cases "s \<in> shown ie ` set ss")
    case True
    then show ?thesis using p g h by (simp add: dba_page_add_def Let_def s)
  next
    case False
    obtain a' where a': "dba_array_add a (Some s) = Some a'" "plain a' (ss @ [s])" "grows a' 1"
      using plain_add [OF a(2), of 1 s] a(3) l by auto
    then show ?thesis
      using page_shape_put [OF p f a'(2,3)] g h False by (auto simp: dba_page_add_def Let_def s)
  qed
qed


subsection \<open>Adding macro values\<close>

definition tab_map :: "nat dba_array list \<Rightarrow> macro_entry ohash \<Rightarrow> string \<Rightarrow> nat list option" where
  "tab_map hp h v = map_option (\<lambda>e. foreach (hp ! mpages e)) (ohash_map mvalue h v)"

definition old_refs :: "nat dba_array list \<Rightarrow> macro_entry ohash \<Rightarrow> string \<Rightarrow> nat list" where
  "old_refs hp h v = (case tab_map hp h v of None \<Rightarrow> [] | Some xs \<Rightarrow> xs)"

lemma heap_plain: "heap_ok hp \<Longrightarrow> r < length hp \<Longrightarrow>
    \<exists>n. plain (hp ! r) (foreach (hp ! r)) \<and> grows (hp ! r) n \<and> n < 2 ^ 30"
  by (metis heap_ok_def nth_mem plain_foreach)

lemma add_refs_ok:
  assumes "plain a xs" "grows a n" "n < 2 ^ 30" "length xs + length rs < 2 ^ 29"
  shows "\<exists>a'. add_refs a (map Some rs) = Some a' \<and> plain a' (xs @ rs) \<and> grows a' n"
  using assms
proof (induction rs arbitrary: a xs)
  case (Cons r rs)
  obtain a1 where a1: "dba_array_add a (Some r) = Some a1" "plain a1 (xs @ [r])" "grows a1 n"
    using plain_add [OF Cons.prems(1), of n r] Cons.prems by auto
  obtain a' where "add_refs a1 (map Some rs) = Some a'" "plain a' ((xs @ [r]) @ rs)" "grows a' n"
    using Cons.IH [OF a1(2,3)] Cons.prems by auto
  then show ?case using a1 by simp
qed auto

lemma entry_in_map: "ohash_map mvalue h = m \<Longrightarrow> entry_in h e \<longleftrightarrow> m (mvalue e) = Some e"
  by (simp add: entry_in_def)

lemma tables_entry:
  "tables_ok n hp hs \<Longrightarrow> i < length hs \<Longrightarrow> entry_in (hs ! i) e \<Longrightarrow>
    cstring (mvalue e) \<and> mpages e < length hp \<and> (\<forall>x \<in> set (foreach (hp ! mpages e)). x < n)"
  by (simp add: tables_ok_def)

lemma tables_inj:
  "tables_ok n hp hs \<Longrightarrow> i < length hs \<Longrightarrow> j < length hs \<Longrightarrow> entry_in (hs ! i) e \<Longrightarrow> entry_in (hs ! j) e' \<Longrightarrow>
    mpages e = mpages e' \<Longrightarrow> i = j \<and> e = e'"
  unfolding tables_ok_def by blast

text \<open>
  \<open>get_macro_entry\<close> returns the entry for the value, with the references it had before, or a
  fresh one.
\<close>

lemma get_macro_entry_ok:
  assumes t: "tables_ok n hp hs" and im: "im < length hs" and v: "cstring v"
    and room: "ohash_room (hs ! im) (Suc k)" and np: "0 < np" "np < 2 ^ 30"
  shows "\<exists>h hp' r. get_macro_entry (hs ! im) hp v np = Some (h, hp', r) \<and>
     tables_ok n hp' (hs[im := h]) \<and> ohash_map mvalue h v = Some \<lparr>mvalue = v, mpages = r\<rparr> \<and> r < length hp' \<and>
     tab_map hp' h = (tab_map hp (hs ! im))(v \<mapsto> old_refs hp (hs ! im) v) \<and>
     (\<forall>j < length hs. j \<noteq> im \<longrightarrow> tab_map hp' (hs ! j) = tab_map hp (hs ! j)) \<and> ohash_room h k"
proof -
  let ?h = "hs ! im"
  have ok: "ohash_ok mvalue ?h" "heap_ok hp" using t im by (simp_all add: tables_ok_def)
  have keys: "ohash_ok mvalue (hs ! j)" if "j < length hs" for j using t that by (simp add: tables_ok_def)
  have mkey: "mvalue e = w" if "ohash_map mvalue (hs ! j) w = Some e" "j < length hs" for j w e
    using ohash_map_key [OF keys] that by blast
  have below: "mpages e < length hp" if "ohash_map mvalue (hs ! j) w = Some e" "j < length hs" for j w e
    using t that mkey [OF that] by (auto simp: tables_ok_def entry_in_def)
  obtain h1 slot where h1: "ohash_qlookup mvalue ?h v = Some (h1, slot)" "ohash_ok mvalue h1"
    "ohash_map mvalue h1 = ohash_map mvalue ?h" "slot_for mvalue h1 v slot" "ohash_room h1 (Suc k)"
    using oht.lookup_law [OF ok(1), of v] room by blast
  have find: "ohash_find h1 slot = Some (ohash_map mvalue ?h v)"
    using oht.find_law [OF h1(2,4)] h1(3) by simp
  show ?thesis
  proof (cases "ohash_map mvalue ?h v")
    case (Some e)
    then have e: "e = \<lparr>mvalue = v, mpages = mpages e\<rparr>" "mpages e < length hp"
      using mkey [OF Some im] below [OF Some im] by (cases e, auto)
    have "tables_ok n hp (hs[im := h1])"
      using t h1(2,3) im by (auto simp: tables_ok_def entry_in_def nth_list_update set_update_subset_insert [THEN subsetD]
          dest!: set_update_subset_insert [THEN subsetD])
    moreover have "tab_map hp h1 = (tab_map hp ?h)(v \<mapsto> old_refs hp ?h v)"
      using Some h1(3) by (auto simp: tab_map_def fun_eq_iff old_refs_def)
    moreover have "ohash_room h1 k" using h1(5) by (simp add: ohash_room_def)
    ultimately show ?thesis
      using h1 find Some e by (intro exI [of _ h1] exI [of _ hp] exI [of _ "mpages e"])
        (simp add: get_macro_entry_def)
  next
    case None
    obtain a where a: "dba_array_new np {DBA_GROW} = Some (a :: nat dba_array)" "plain a []" "grows a np"
      using np by (auto simp: dba_array_new_def plain_def array_ok_def grows_def)
    let ?e = "\<lparr>mvalue = v, mpages = length hp\<rparr>"
    obtain h2 where h2: "ohash_insert h1 slot ?e = Some h2" "ohash_ok mvalue h2"
      "ohash_map mvalue h2 = (ohash_map mvalue ?h)(v \<mapsto> ?e)" "ohash_room h2 k"
      using oht.insert_law [of mvalue h1 ?e slot k] h1 None by auto
    have heap: "heap_ok (hp @ [a])" using ok(2) a(2,3) np by (auto simp: heap_ok_def)
    have fresh: "foreach ((hp @ [a]) ! mpages e) = foreach (hp ! mpages e)"
      if "ohash_map mvalue (hs ! j) w = Some e" "j < length hs" for j w e
      using below [OF that] by (simp add: nth_append)
    have fa: "foreach a = []" using plain_foreach [OF a(2)] .
    have tok: "tables_ok n (hp @ [a]) (hs[im := h2])"
      unfolding tables_ok_def
    proof (intro conjI allI impI ballI)
      show "ohash_ok mvalue h" if "h \<in> set (hs[im := h2])" for h
        using that t h2(2) set_update_subset_insert [of hs im h2] by (auto simp: tables_ok_def)
      fix i e assume i: "i < length (hs[im := h2])" and e: "entry_in (hs[im := h2] ! i) e"
      then have c: "i = im \<and> e = ?e \<or> entry_in (hs ! i) e"
        using im h2(3) by (cases "i = im") (auto simp: entry_in_def split: if_splits)
      have il: "i < length hs" using i by simp
      show "cstring (mvalue e)" "mpages e < length (hp @ [a])"
        using c v tables_entry [OF t il, of e] by auto
      fix x assume "x \<in> set (foreach ((hp @ [a]) ! mpages e))"
      then show "x < n"
        using c tables_entry [OF t il, of e] fa by (auto simp: nth_append)
    next
      fix i j e e' assume ij: "i < length (hs[im := h2])" "j < length (hs[im := h2])"
        and e: "entry_in (hs[im := h2] ! i) e" "entry_in (hs[im := h2] ! j) e'" "mpages e = mpages e'"
      have c: "i = im \<and> e = ?e \<or> entry_in (hs ! i) e" "j = im \<and> e' = ?e \<or> entry_in (hs ! j) e'"
        using e im h2(3) by (auto simp: entry_in_def nth_list_update split: if_splits)
      have "mpages e < length hp" if "entry_in (hs ! i) e" using that tables_entry [OF t] ij by simp
      moreover have "mpages e' < length hp" if "entry_in (hs ! j) e'" using that tables_entry [OF t] ij by simp
      ultimately have "i = j \<and> e = e'" using c e(3) tables_inj [OF t, of i j e e'] ij by auto
      then show "i = j" "e = e'" by simp_all
    qed (use heap in simp)
    have "tab_map (hp @ [a]) h2 = (tab_map hp ?h)(v \<mapsto> old_refs hp ?h v)"
      using None h2(3) fresh [OF _ im] fa
      by (auto simp: tab_map_def old_refs_def fun_eq_iff intro!: map_option_cong)
    moreover have "tab_map (hp @ [a]) (hs ! j) = tab_map hp (hs ! j)" if "j < length hs" for j
      using fresh [OF _ that] by (auto simp: tab_map_def fun_eq_iff intro!: map_option_cong)
    moreover have "get_macro_entry ?h hp v np = Some (h2, hp @ [a], length hp)"
      using h1(1) find None a(1) h2(1) by (simp add: get_macro_entry_def)
    ultimately show ?thesis using h2 tok by auto
  qed
qed


lemma with_entry_ok:
  assumes ms: "plain (macros d) hs" "im < length hs" and t: "tables_ok n (heap d) hs" and v: "cstring v"
    and room: "ohash_room (hs ! im) (Suc k)" and np: "0 < np" "np < 2 ^ 30"
    and rs: "\<forall>x \<in> set rs. x < n" "length (old_refs (heap d) (hs ! im) v) + length rs < 2 ^ 29"
  shows "\<exists>d' h. with_entry d im v (map Some rs) np = Some d' \<and> pages d' = pages d \<and>
     plain (macros d') (hs[im := h]) \<and> tables_ok n (heap d') (hs[im := h]) \<and>
     tab_map (heap d') h = (tab_map (heap d) (hs ! im))(v \<mapsto> old_refs (heap d) (hs ! im) v @ rs) \<and>
     (\<forall>j < length hs. j \<noteq> im \<longrightarrow> tab_map (heap d') (hs ! j) = tab_map (heap d) (hs ! j)) \<and> ohash_room h k"
proof -
  let ?old = "old_refs (heap d) (hs ! im) v"
  obtain h hp r where g: "get_macro_entry (hs ! im) (heap d) v np = Some (h, hp, r)"
    "tables_ok n hp (hs[im := h])" "ohash_map mvalue h v = Some \<lparr>mvalue = v, mpages = r\<rparr>" "r < length hp"
    "tab_map hp h = (tab_map (heap d) (hs ! im))(v \<mapsto> ?old)"
    "\<forall>j < length hs. j \<noteq> im \<longrightarrow> tab_map hp (hs ! j) = tab_map (heap d) (hs ! j)" "ohash_room h k"
    using get_macro_entry_ok [OF t ms(2) v room np] by blast
  let ?hs = "hs[im := h]"
  have old: "foreach (hp ! r) = ?old"
    using fun_cong [OF g(5), of v] g(3) by (simp add: tab_map_def)
  have "heap_ok hp" using g(2) by (simp add: tables_ok_def)
  then obtain m where a: "plain (hp ! r) ?old" "grows (hp ! r) m" "m < 2 ^ 30"
    using heap_plain [OF _ g(4)] old by auto
  obtain a' where a': "add_refs (hp ! r) (map Some rs) = Some a'" "plain a' (?old @ rs)" "grows a' m"
    using add_refs_ok [OF a rs(2)] by blast
  have fa': "foreach a' = ?old @ rs" using plain_foreach [OF a'(2)] .
  let ?hp = "hp[r := a']"
  have other: "foreach (?hp ! mpages e) = foreach (hp ! mpages e)"
    if "mpages e \<noteq> r" for e using that by simp
  have ev: "entry_in (?hs ! im) \<lparr>mvalue = v, mpages = r\<rparr>"
    using ms(2) g(3) by (simp add: entry_in_def)
  have tok: "tables_ok n ?hp ?hs"
    unfolding tables_ok_def
  proof (intro conjI allI impI ballI)
    show "heap_ok ?hp"
      using \<open>heap_ok hp\<close> a'(2,3) a(3) set_update_subset_insert [of hp r a'] by (auto simp: heap_ok_def)
    show "ohash_ok mvalue h'" if "h' \<in> set ?hs" for h' using that g(2) by (simp add: tables_ok_def)
    fix i e assume i: "i < length ?hs" "entry_in (?hs ! i) e"
    then show "cstring (mvalue e)" "mpages e < length ?hp" using tables_entry [OF g(2)] by auto
    fix x assume "x \<in> set (foreach (?hp ! mpages e))"
    then show "x < n"
      using tables_entry [OF g(2) i] tables_entry [OF g(2) _ ev] ms(2) old fa' rs(1) g(4)
      by (cases "mpages e = r") auto
  next
    fix i j e e' assume "i < length ?hs" "j < length ?hs" "entry_in (?hs ! i) e" "entry_in (?hs ! j) e'"
      "mpages e = mpages e'"
    then show "i = j" "e = e'" using tables_inj [OF g(2)] by blast+
  qed
  have uniq: "i = im \<and> w = v" if "i < length hs" "ohash_map mvalue (?hs ! i) w = Some e" "mpages e = r" for i w e
  proof -
    have "i < length ?hs" using that(1) by simp
    then have "ohash_ok mvalue (?hs ! i)" using g(2) by (metis nth_mem tables_ok_def)
    then have "mvalue e = w" using that(2) by (rule ohash_map_key)
    then show ?thesis
      using tables_inj [OF g(2), of i im e "\<lparr>mvalue = v, mpages = r\<rparr>"] ev that ms(2)
      by (auto simp: entry_in_def)
  qed
  have tm: "tab_map ?hp (?hs ! i) w = (if i = im \<and> w = v then Some (?old @ rs) else tab_map hp (?hs ! i) w)"
    if "i < length hs" for i w
  proof (cases "ohash_map mvalue (?hs ! i) w")
    case (Some e)
    then show ?thesis
      using uniq [OF that Some] g(3,4) fa' ms(2) by (cases "mpages e = r") (auto simp: tab_map_def)
  qed (use g(3) ms(2) in \<open>auto simp: tab_map_def\<close>)
  have th: "tab_map ?hp h = (tab_map (heap d) (hs ! im))(v \<mapsto> ?old @ rs)"
    using tm [OF ms(2)] g(5) ms(2) by (simp add: fun_eq_iff)
  have tj: "tab_map ?hp (hs ! j) = tab_map (heap d) (hs ! j)" if "j < length hs" "j \<noteq> im" for j
    using tm [OF that(1)] g(6) that by (simp add: fun_eq_iff)
  have "dba_array_get (macros d) (int im) = Some (hs ! im)"
    using ms by (auto simp: dba_array_get_def plain_def array_ok_def in_set_conv_nth)
  then have "with_entry d im v (map Some rs) np =
      Some (d\<lparr>macros := put_entry (macros d) im h, heap := ?hp\<rparr>)"
    using g(1) a'(1) by (simp add: with_entry_def)
  moreover have "plain (put_entry (macros d) im h) ?hs"
    using plain_put [OF ms] by (simp add: put_entry_def)
  ultimately show ?thesis using tok th tj g(7) by auto
qed

lemma dba_macro_new_ok:
  assumes "plain (macros d) hs" "im < length hs" "tables_ok (eu (pages d)) (heap d) hs" "cstring v"
    and "ohash_room (hs ! im) (Suc k)" "ks \<noteq> []" "\<forall>k \<in> set ks. k < eu (pages d)"
    and "plain (pages d) pgs" "20 * int (length pgs) + 20 < 2147483648"
    and "length (old_refs (heap d) (hs ! im) v) + length ks < 2 ^ 29"
  shows "\<exists>d' h. dba_macro_new d im v (map (\<lambda>k. int (20 + 20 * k)) ks) = Some d' \<and> pages d' = pages d \<and>
     plain (macros d') (hs[im := h]) \<and> tables_ok (eu (pages d)) (heap d') (hs[im := h]) \<and>
     tab_map (heap d') h = (tab_map (heap d) (hs ! im))(v \<mapsto> old_refs (heap d) (hs ! im) v @ ks) \<and>
     (\<forall>j < length hs. j \<noteq> im \<longrightarrow> tab_map (heap d') (hs ! j) = tab_map (heap d) (hs ! j)) \<and> ohash_room h k"
proof -
  have "page_ref d (int (20 + 20 * k)) = Some k" if "k \<in> set ks" for k
  proof -
    have k: "k < length pgs" using that assms(7,8) by (auto simp: plain_def)
    then have "int (20 + 20 * k) < 2147483648" using assms(9) by simp
    moreover have "(20 + 20 * int k) div 5 div 4 = int k + 1" by presburger
    ultimately have "page_index (int (20 + 20 * k)) = int k"
      by (simp add: page_index_def)
    moreover have "dba_array_get (pages d) (int k) = Some (pgs ! k)"
      using k assms(8) by (auto simp: dba_array_get_def plain_def array_ok_def in_set_conv_nth)
    ultimately show ?thesis by (simp add: page_ref_def)
  qed
  then have "map (page_ref d) (map (\<lambda>k. int (20 + 20 * k)) ks) = map Some ks" by simp
  then have "dba_macro_new d im v (map (\<lambda>k. int (20 + 20 * k)) ks) =
      with_entry d im v (map Some ks) (int (length ks))"
    by (simp only: dba_macro_new_def length_map)
  moreover have "0 < int (length ks)" "int (length ks) < 2 ^ 30" using assms(6,10) by simp_all
  ultimately show ?thesis
    using with_entry_ok [OF assms(1-5) _ _ assms(7,10)] by simp
qed

end
