(* ===== verification/Dbm.thy ===== *)
theory Dbm
  imports Dba
begin

section \<open>The mandoc database, mapped from disk: \<open>dbm_map.c\<close>, \<open>dbm.c\<close>\<close>

text \<open>
  \<open>dbm_map\<close> maps the file into memory.  The mapping ends at the next page boundary of the
  virtual memory and the bytes after the end of the file are 0; \<open>pgsz\<close> is the size of these
  pages.  The component \<open>mem\<close> holds all the bytes mapped, and reading past them is
  \<open>None\<close>.  A pointer to a character that is only moved forward is the list of the bytes from
  there on; a pointer to an integer is its offset in the mapping.  The integers of the file are
  in network byte order; the model keeps them by their value, since \<open>be32toh\<close> is a bijection
  that maps 0 to 0.
\<close>

record dbm =
  mem :: string
  max_offset :: int
  npages :: int
  mtabs :: "nat list"
  nvals :: "int list"

definition get32 :: "string \<Rightarrow> nat \<Rightarrow> int option" where
  "get32 b i =
     (if i + 4 \<le> length b
      then Some (let n = int (((ord_of (b ! i) * 256 + ord_of (b ! (i + 1))) * 256 +
                     ord_of (b ! (i + 2))) * 256 + ord_of (b ! (i + 3)))
                 in if n < 2147483648 then n else n - 4294967296)
      else None)"

definition dbm_getint :: "string \<Rightarrow> nat \<Rightarrow> int option" where
  "dbm_getint b i = get32 b (4 * i)"

text \<open>\<open>dbm_get\<close>: NULL is the inner \<open>None\<close>.\<close>

definition dbm_get :: "int \<Rightarrow> int \<Rightarrow> nat option" where
  "dbm_get mx off = (if off < 0 \<or> off \<ge> mx then None else Some (nat off))"

definition mapped :: "nat \<Rightarrow> string \<Rightarrow> string" where
  "mapped pgsz file = file @ replicate ((pgsz - length file mod pgsz) mod pgsz) NUL"

text \<open>
  \<open>dbm_map\<close>: the outer option is undefined behaviour, the inner one the error return.  The
  result is the memory and \<open>max_offset\<close>.  The sum that gives \<open>max_offset\<close> is computed in an
  unsigned type and converted.
\<close>

definition to_int32 :: "int \<Rightarrow> int" where
  "to_int32 x = (x + 2147483648) mod 4294967296 - 2147483648"

definition dbm_map :: "nat \<Rightarrow> string \<Rightarrow> (string \<times> int) option option" where
  "dbm_map pgsz file =
     (if length file < 5 \<or> int (length file) > INT_MAX then Some None
      else let m = mapped pgsz file
      in do {
        magic \<leftarrow> dbm_getint m 0;
        if magic \<noteq> MANDOCDB_MAGIC then Some None
        else do {
          version \<leftarrow> dbm_getint m 1;
          if version \<noteq> MANDOCDB_VERSION then Some None
          else do {
            e \<leftarrow> dbm_getint m 3;
            let mx = to_int32 (e + 4);
            if int (length file) \<noteq> mx then Some None
            else case dbm_get mx e of
              None \<Rightarrow> Some None
            | Some p \<Rightarrow> do {
                magic \<leftarrow> get32 m p;
                Some (if magic \<noteq> MANDOCDB_MAGIC then None else Some (m, mx))}}}})"

subsection \<open>Opening a database\<close>

fun open_macros :: "nat \<Rightarrow> string \<Rightarrow> int \<Rightarrow> nat \<Rightarrow> (nat list \<times> int list) option option" where
  "open_macros 0 m mx mp = Some (Some ([], []))"
| "open_macros (Suc n) m mx mp = do {
     off \<leftarrow> get32 m (mp + 4);
     case dbm_get mx off of
       None \<Rightarrow> Some None
     | Some p \<Rightarrow> do {
         v \<leftarrow> get32 m p;
         r \<leftarrow> open_macros n m mx (mp + 4);
         Some (case r of None \<Rightarrow> None | Some (ts, vs) \<Rightarrow> Some ((p + 4) # ts, v # vs))}}"

definition dbm_open :: "nat \<Rightarrow> string \<Rightarrow> dbm option option" where
  "dbm_open pgsz file = do {
     r \<leftarrow> dbm_map pgsz file;
     case r of None \<Rightarrow> Some None
     | Some (m, mx) \<Rightarrow> do {
         np \<leftarrow> dbm_getint m 4;
         if np < 0 then Some None
         else do {
           off \<leftarrow> dbm_getint m 2;
           case dbm_get mx off of
             None \<Rightarrow> Some None
           | Some mp \<Rightarrow> do {
               k \<leftarrow> get32 m mp;
               if k \<noteq> int MACRO_MAX then Some None
               else do {
                 r \<leftarrow> open_macros MACRO_MAX m mx mp;
                 Some (case r of None \<Rightarrow> None
                   | Some (ts, vs) \<Rightarrow>
                       Some \<lparr>mem = m, max_offset = mx, npages = np, mtabs = ts, nvals = vs\<rparr>)}}}}}"

subsection \<open>Reading strings\<close>

text \<open>The string that starts at a pointer, and the pointer after its terminator.\<close>

definition read_str :: "string \<Rightarrow> (string \<times> string) option" where
  "read_str l =
     (case dropWhile (\<lambda>c. c \<noteq> NUL) l of [] \<Rightarrow> None | _ # r \<Rightarrow> Some (takeWhile (\<lambda>c. c \<noteq> NUL) l, r))"

lemma read_str_shorter: "read_str l = Some (s, r) \<Longrightarrow> length r < length l"
  using length_dropWhile_le [of "\<lambda>c. c \<noteq> NUL" l]
  by (auto simp: read_str_def split: list.splits)

text \<open>The strings up to the empty one: \<open>for (; *cp != 0; cp = strchr(cp, 0) + 1)\<close>.\<close>

function read_list :: "string \<Rightarrow> string list option" where
  "read_list l =
     (case l of [] \<Rightarrow> None
      | c # _ \<Rightarrow>
          if c = NUL then Some []
          else case read_str l of None \<Rightarrow> None | Some (s, r) \<Rightarrow> map_option ((#) s) (read_list r))"
  by pat_completeness auto
termination
  by (relation "measure length") (auto dest: read_str_shorter)

declare read_list.simps [simp del]

text \<open>The integers up to the terminating 0.\<close>

function read_ints :: "string \<Rightarrow> nat \<Rightarrow> int list option" where
  "read_ints m i =
     (case get32 m i of None \<Rightarrow> None
      | Some v \<Rightarrow> if v = 0 then Some [] else map_option ((#) v) (read_ints m (i + 4)))"
  by pat_completeness auto
termination
  by (relation "measure (\<lambda>(m, i). length m - i)") (auto simp: get32_def split: if_splits)

declare read_ints.simps [simp del]

subsection \<open>Pages and macros\<close>

record dbm_page =
  pname :: string
  psect :: string
  parch :: "string option"
  pdesc :: string
  pfile :: string
  paddr :: int

definition dbm_page_count :: "dbm \<Rightarrow> int" where
  "dbm_page_count d = npages d"

abbreviation ptr :: "dbm \<Rightarrow> int \<Rightarrow> string option" where
  "ptr d off \<equiv> map_option (\<lambda>p. drop p (mem d)) (dbm_get (max_offset d) off)"

definition or_lit :: "string option \<Rightarrow> string \<Rightarrow> string" where
  "or_lit p lit = (case p of None \<Rightarrow> lit | Some l \<Rightarrow> l)"

definition page_int :: "dbm \<Rightarrow> int \<Rightarrow> nat \<Rightarrow> int option" where
  "page_int d ip k = get32 (mem d) (20 + 20 * nat ip + 4 * k)"

definition dbm_page_get :: "dbm \<Rightarrow> int \<Rightarrow> dbm_page option" where
  "dbm_page_get d ip =
     (if ip < 0 \<or> ip \<ge> npages d then None
      else do {
        nam \<leftarrow> page_int d ip 0;
        sec \<leftarrow> page_int d ip 1;
        arc \<leftarrow> page_int d ip 2;
        des \<leftarrow> page_int d ip 3;
        fil \<leftarrow> page_int d ip 4;
        Some \<lparr>pname = or_lit (ptr d nam) (''(NULL)'' @ [NUL, NUL]),
              psect = or_lit (ptr d sec) (''(NULL)'' @ [NUL, NUL]),
              parch = (if arc = 0 then None else ptr d arc),
              pdesc = or_lit (ptr d des) (''(NULL)'' @ [NUL]),
              pfile = or_lit (ptr d fil) ('' (NULL)'' @ [NUL, NUL]),
              paddr = 20 + 20 * ip\<rparr>})"

definition dbm_macro_count :: "dbm \<Rightarrow> nat \<Rightarrow> int option" where
  "dbm_macro_count d im = (if im < MACRO_MAX then Some (nvals d ! im) else None)"

text \<open>\<open>dbm_macro_get\<close>: the two pointers, each possibly NULL.\<close>

definition macro_int :: "dbm \<Rightarrow> nat \<Rightarrow> nat \<Rightarrow> nat \<Rightarrow> int option" where
  "macro_int d im iv k = get32 (mem d) (mtabs d ! im + 8 * iv + 4 * k)"

definition dbm_macro_get :: "dbm \<Rightarrow> nat \<Rightarrow> int \<Rightarrow> (string option \<times> nat option) option" where
  "dbm_macro_get d im iv =
     (if im < MACRO_MAX \<and> 0 \<le> iv \<and> iv < nvals d ! im
      then do {
        v \<leftarrow> macro_int d im (nat iv) 0;
        p \<leftarrow> macro_int d im (nat iv) 1;
        Some (ptr d v, dbm_get (max_offset d) p)}
      else None)"

subsection \<open>Filtered iteration\<close>

text \<open>
  The regular expression of a match is a function: \<open>regexec\<close> belongs to the C library.
\<close>

datatype dbm_pattern = DBM_EXACT string | DBM_SUB string | DBM_REGEX "string \<Rightarrow> bool"

primrec strcasestr :: "string \<Rightarrow> string \<Rightarrow> bool" where
  "strcasestr [] t = (t = [])"
| "strcasestr (c # s) t =
     (take (length t) (map tolower (c # s)) = map tolower t \<or> strcasestr s t)"

fun dbm_match :: "dbm_pattern \<Rightarrow> string \<Rightarrow> bool" where
  "dbm_match (DBM_EXACT t) s = (strcmp s t = 0)"
| "dbm_match (DBM_SUB t) s = strcasestr s t"
| "dbm_match (DBM_REGEX re) s = re s"

datatype iter = ITER_NONE | ITER_NAME | ITER_SECT | ITER_ARCH | ITER_DESC | ITER_MACRO

text \<open>The static variables: of the file, and of the functions that iterate.\<close>

definition schar :: "char \<Rightarrow> int" where
  "schar c = (if ord_of c < 128 then int (ord_of c) else int (ord_of c) - 256)"

record dbm_iter =
  iteration :: iter
  t_match :: "dbm_pattern option"
  t_cp :: "nat option"
  t_ip :: int
  a_match :: "dbm_pattern option"
  a_ip :: int
  m_match :: "dbm_pattern option"
  m_pp :: "nat option"
  m_cp :: "nat option"
  m_im :: nat
  m_iv :: int
  b_pp :: "nat option"
  b_im :: nat
  b_ip :: int
  b_iv :: int

type_synonym dbm_res = "int \<times> int"

definition byte_at :: "dbm \<Rightarrow> nat \<Rightarrow> char option" where
  "byte_at d p = (if p < length (mem d) then Some (mem d ! p) else None)"

definition str_at :: "dbm \<Rightarrow> nat \<Rightarrow> string option" where
  "str_at d p = map_option fst (read_str (drop p (mem d)))"

lemma str_at_less: "str_at d p = Some s \<Longrightarrow> p + length s < length (mem d)"
proof -
  assume "str_at d p = Some s"
  then have "dropWhile (\<lambda>c. c \<noteq> NUL) (drop p (mem d)) \<noteq> []" "s = takeWhile (\<lambda>c. c \<noteq> NUL) (drop p (mem d))"
    by (auto simp: str_at_def read_str_def simp del: dropWhile_eq_Nil_conv split: list.splits)
  moreover have "length (drop p (mem d)) =
      length (takeWhile (\<lambda>c. c \<noteq> NUL) (drop p (mem d))) + length (dropWhile (\<lambda>c. c \<noteq> NUL) (drop p (mem d)))"
    by (metis length_append takeWhile_dropWhile_id)
  ultimately have "length s < length (mem d) - p" by simp
  then show ?thesis by arith
qed

text \<open>The search loop of \<open>page_bytitle\<close>: the final values of \<open>cp\<close> and \<open>ip\<close>.\<close>

function title_search :: "dbm \<Rightarrow> iter \<Rightarrow> dbm_pattern \<Rightarrow> nat \<Rightarrow> int \<Rightarrow> (nat \<times> int) option" where
  "title_search d it m cp ip =
     (if ip < npages d
      then let cp = (if it = ITER_NAME then Suc cp else cp)
        in case str_at d cp of
          None \<Rightarrow> None
        | Some s \<Rightarrow>
            if dbm_match m s then Some (cp, ip)
            else let cp = cp + length s + 1
              in if it = ITER_DESC then title_search d it m cp (ip + 1)
                 else case byte_at d cp of
                   None \<Rightarrow> None
                 | Some c \<Rightarrow> if c = NUL then title_search d it m (Suc cp) (ip + 1)
                            else title_search d it m cp ip
      else Some (cp, ip))"
  by pat_completeness auto
termination
  by (relation "measure (\<lambda>(d, it, m, cp, ip). length (mem d) - cp)")
     (auto dest: str_at_less split: if_splits)

declare title_search.simps [simp del]

text \<open>Skip the remaining names of a page.\<close>

function title_skip :: "dbm \<Rightarrow> iter \<Rightarrow> nat \<Rightarrow> nat option" where
  "title_skip d it cp =
     (case byte_at d cp of
        None \<Rightarrow> None
      | Some a \<Rightarrow>
          if a \<noteq> NUL then title_skip d it (Suc cp)
          else if it = ITER_DESC then Some (Suc cp)
          else if cp = 0 then None
          else if mem d ! (cp - 1) \<noteq> NUL then title_skip d it (Suc cp)
          else Some (Suc cp))"
  by pat_completeness auto
termination
  by (relation "measure (\<lambda>(d, it, cp). length (mem d) - cp)")
     (auto simp: byte_at_def split: if_splits)

declare title_skip.simps [simp del]

definition bytitle_start :: "dbm \<Rightarrow> iter \<Rightarrow> dbm_pattern \<Rightarrow> dbm_iter \<Rightarrow> dbm_iter option" where
  "bytitle_start d it m s = do {
     k \<leftarrow> (case it of ITER_NAME \<Rightarrow> Some 0 | ITER_SECT \<Rightarrow> Some 1 | ITER_DESC \<Rightarrow> Some 3 | _ \<Rightarrow> None);
     off \<leftarrow> page_int d 0 k;
     Some (case dbm_get (max_offset d) off of
             None \<Rightarrow> s\<lparr>iteration := ITER_NONE, t_match := None, t_cp := None, t_ip := npages d\<rparr>
           | Some cp \<Rightarrow> s\<lparr>iteration := it, t_match := Some m, t_cp := Some cp, t_ip := 0\<rparr>)}"

definition bytitle_next :: "dbm \<Rightarrow> dbm_iter \<Rightarrow> (dbm_res \<times> dbm_iter) option" where
  "bytitle_next d s = do {
     m \<leftarrow> t_match s;
     cp \<leftarrow> t_cp s;
     let it = iteration s;
     (cp, ip) \<leftarrow> title_search d it m cp (t_ip s);
     if ip = npages d
     then Some ((- 1, 0), s\<lparr>iteration := ITER_NONE, t_match := None, t_cp := None, t_ip := ip\<rparr>)
     else do {
       bits \<leftarrow> (if it = ITER_NAME then map_option schar (byte_at d (cp - 1)) else Some 0);
       cp \<leftarrow> (if ip + 1 < npages d then title_skip d it cp else Some cp);
       Some ((ip, bits), s\<lparr>t_cp := Some cp, t_ip := ip + 1\<rparr>)}}"

text \<open>\<open>page_byarch\<close>: does one of the strings match, and the first such page.\<close>

function arch_has :: "dbm_pattern \<Rightarrow> string \<Rightarrow> bool option" where
  "arch_has m l =
     (case l of [] \<Rightarrow> None
      | c # _ \<Rightarrow>
          if c = NUL then Some False
          else case read_str l of
            None \<Rightarrow> None
          | Some (s, r) \<Rightarrow> if dbm_match m s then Some True else arch_has m r)"
  by pat_completeness auto
termination
  by (relation "measure (\<lambda>(m, l). length l)") (auto dest: read_str_shorter)

declare arch_has.simps [simp del]

function arch_search :: "dbm \<Rightarrow> dbm_pattern \<Rightarrow> int \<Rightarrow> int option" where
  "arch_search d m ip =
     (if ip < npages d
      then case page_int d ip 2 of
          None \<Rightarrow> None
        | Some off \<Rightarrow>
            if off = 0 then arch_search d m (ip + 1)
            else case ptr d off of
                None \<Rightarrow> None
              | Some l \<Rightarrow>
                  (case arch_has m l of
                     None \<Rightarrow> None
                   | Some b \<Rightarrow> if b then Some ip else arch_search d m (ip + 1))
      else Some ip)"
  by pat_completeness auto
termination
  by (relation "measure (\<lambda>(d, m, ip). nat (npages d - ip))") auto

declare arch_search.simps [simp del]

definition byarch_start :: "dbm_pattern \<Rightarrow> dbm_iter \<Rightarrow> dbm_iter" where
  "byarch_start m s = s\<lparr>iteration := ITER_ARCH, a_match := Some m, a_ip := 0\<rparr>"

definition byarch_next :: "dbm \<Rightarrow> dbm_iter \<Rightarrow> (dbm_res \<times> dbm_iter) option" where
  "byarch_next d s = do {
     m \<leftarrow> a_match s;
     ip \<leftarrow> arch_search d m (a_ip s);
     Some (if ip < npages d then ((ip, 0), s\<lparr>a_ip := ip + 1\<rparr>)
           else ((- 1, 0), s\<lparr>iteration := ITER_NONE, a_match := None, a_ip := ip\<rparr>))}"

text \<open>
  \<open>page_bymacro\<close>: the loop over the values; the result \<open>None\<close> inside is the end of the
  table.  After the first round each one moves \<open>cp\<close>, so the number of bytes bounds them.
\<close>

fun macro_search :: "nat \<Rightarrow> dbm \<Rightarrow> dbm_pattern \<Rightarrow> nat \<Rightarrow> int \<Rightarrow> nat option \<Rightarrow> nat option \<Rightarrow>
    (int \<times> nat option \<times> nat option) option" where
  "macro_search 0 d m im iv cp pp = None"
| "macro_search (Suc fuel) d m im iv cp pp = do {
     stop \<leftarrow> (case pp of None \<Rightarrow> Some False | Some p \<Rightarrow> map_option (\<lambda>v. v \<noteq> 0) (get32 (mem d) p));
     if stop then Some (iv, cp, pp)
     else if iv + 1 = nvals d ! im then Some (iv + 1, cp, None)
     else do {
       c \<leftarrow> cp;
       s \<leftarrow> str_at d c;
       let c = (if iv + 1 \<noteq> 0 then c + length s + 1 else c);
       s \<leftarrow> str_at d c;
       pp \<leftarrow> (if dbm_match m s
             then map_option (dbm_get (max_offset d)) (macro_int d im (nat (iv + 1)) 1) else Some pp);
       macro_search fuel d m im (iv + 1) (Some c) pp}}"

definition bymacro_start :: "dbm \<Rightarrow> nat \<Rightarrow> dbm_pattern \<Rightarrow> dbm_iter \<Rightarrow> dbm_iter option" where
  "bymacro_start d im m s =
     (if im < MACRO_MAX
      then do {
        cp \<leftarrow> (if nvals d ! im = 0 then Some None
              else map_option (dbm_get (max_offset d)) (macro_int d im 0 0));
        Some (s\<lparr>iteration := ITER_MACRO, m_match := Some m, m_im := im, m_cp := cp, m_pp := None,
                m_iv := - 1\<rparr>)}
      else None)"

definition bymacro_next :: "dbm \<Rightarrow> dbm_iter \<Rightarrow> (dbm_res \<times> dbm_iter) option" where
  "bymacro_next d s =
     (if iteration s \<noteq> ITER_MACRO then Some ((- 1, 0), s)
      else do {
        m \<leftarrow> m_match s;
        (iv, cp, pp) \<leftarrow> macro_search (length (mem d) + 2) d m (m_im s) (m_iv s) (m_cp s) (m_pp s);
        case pp of
          None \<Rightarrow> Some ((- 1, 0), s\<lparr>iteration := ITER_NONE, m_iv := iv, m_cp := cp\<rparr>)
        | Some p \<Rightarrow> do {
            off \<leftarrow> get32 (mem d) p;
            page \<leftarrow> dbm_get (max_offset d) off;
            Some (((int page - 20) div 20, 0), s\<lparr>m_iv := iv, m_cp := cp, m_pp := Some (p + 4)\<rparr>)}})"

text \<open>The functions that start an iteration, and \<open>dbm_page_next\<close>.\<close>

definition dbm_page_byname :: "dbm \<Rightarrow> dbm_pattern \<Rightarrow> dbm_iter \<Rightarrow> dbm_iter option" where
  "dbm_page_byname d m s = bytitle_start d ITER_NAME m s"

definition dbm_page_bysect :: "dbm \<Rightarrow> dbm_pattern \<Rightarrow> dbm_iter \<Rightarrow> dbm_iter option" where
  "dbm_page_bysect d m s = bytitle_start d ITER_SECT m s"

definition dbm_page_bydesc :: "dbm \<Rightarrow> dbm_pattern \<Rightarrow> dbm_iter \<Rightarrow> dbm_iter option" where
  "dbm_page_bydesc d m s = bytitle_start d ITER_DESC m s"

definition dbm_page_byarch :: "dbm \<Rightarrow> dbm_pattern \<Rightarrow> dbm_iter \<Rightarrow> dbm_iter option" where
  "dbm_page_byarch d m s = Some (byarch_start m s)"

definition dbm_page_bymacro :: "dbm \<Rightarrow> nat \<Rightarrow> dbm_pattern \<Rightarrow> dbm_iter \<Rightarrow> dbm_iter option" where
  "dbm_page_bymacro d im m s = bymacro_start d im m s"

definition dbm_page_next :: "dbm \<Rightarrow> dbm_iter \<Rightarrow> (dbm_res \<times> dbm_iter) option" where
  "dbm_page_next d s =
     (case iteration s of
        ITER_NONE \<Rightarrow> Some ((- 1, 0), s)
      | ITER_ARCH \<Rightarrow> byarch_next d s
      | ITER_MACRO \<Rightarrow> bymacro_next d s
      | _ \<Rightarrow> bytitle_next d s)"

text \<open>\<open>macro_bypage\<close>: the values of one macro for one page.\<close>

function value_search :: "dbm \<Rightarrow> nat \<Rightarrow> int \<Rightarrow> nat \<Rightarrow> int \<Rightarrow> (nat \<times> int) option" where
  "value_search d im ip pp iv =
     (if iv < nvals d ! im
      then case get32 (mem d) pp of
          None \<Rightarrow> None
        | Some v \<Rightarrow>
            if v = ip then Some (pp, iv)
            else value_search d im ip (pp + 4) (if v = 0 then iv + 1 else iv)
      else Some (pp, iv))"
  by pat_completeness auto
termination
  by (relation "measure (\<lambda>(d, im, ip, pp, iv). length (mem d) - pp)")
     (auto simp: get32_def split: if_splits)

declare value_search.simps [simp del]

function value_skip :: "string \<Rightarrow> nat \<Rightarrow> nat option" where
  "value_skip m pp =
     (case get32 m pp of None \<Rightarrow> None | Some v \<Rightarrow> if v \<noteq> 0 then value_skip m (pp + 4) else Some (pp + 4))"
  by pat_completeness auto
termination
  by (relation "measure (\<lambda>(m, pp). length m - pp)") (auto simp: get32_def split: if_splits)

declare value_skip.simps [simp del]

definition dbm_macro_bypage :: "dbm \<Rightarrow> nat \<Rightarrow> int \<Rightarrow> dbm_iter \<Rightarrow> dbm_iter option" where
  "dbm_macro_bypage d im ip s =
     (if im < MACRO_MAX \<and> ip \<noteq> 0
      then do {
        off \<leftarrow> macro_int d im 0 1;
        Some (s\<lparr>b_im := im, b_ip := ip, b_pp := dbm_get (max_offset d) off, b_iv := 0\<rparr>)}
      else None)"

definition dbm_macro_next :: "dbm \<Rightarrow> dbm_iter \<Rightarrow> (string option \<times> dbm_iter) option" where
  "dbm_macro_next d s =
     (if b_im s \<ge> MACRO_MAX then Some (None, s)
      else do {
        (pp, iv) \<leftarrow> (if b_iv s < nvals d ! b_im s
                    then do { pp \<leftarrow> b_pp s; (pp, iv) \<leftarrow> value_search d (b_im s) (b_ip s) pp (b_iv s);
                              Some (Some pp, iv) }
                    else Some (b_pp s, b_iv s));
        if iv = nvals d ! b_im s
        then Some (None, s\<lparr>b_im := MACRO_MAX, b_ip := 0, b_pp := None, b_iv := iv\<rparr>)
        else do {
          pp \<leftarrow> (if iv + 1 < nvals d ! b_im s
                then do { p \<leftarrow> pp; p \<leftarrow> value_skip (mem d) p; Some (Some p) } else Some pp);
          off \<leftarrow> macro_int d (b_im s) (nat iv) 0;
          Some (ptr d off, s\<lparr>b_pp := pp, b_iv := iv + 1\<rparr>)}})"

end
