(* ===== verification/Dba_Read.thy ===== *)
theory Dba_Read
  imports Dbm
begin

section \<open>Reading a database into memory: \<open>dba_read.c\<close>\<close>

primrec page_adds :: "nat \<Rightarrow> string list \<Rightarrow> page \<Rightarrow> page option" where
  "page_adds ie [] page = Some page"
| "page_adds ie (s # ss) page = do { page \<leftarrow> dba_page_add page ie (Some s); page_adds ie ss page }"

text \<open>The strings after the first one.\<close>

definition read_more :: "string \<Rightarrow> string list option" where
  "read_more l = do { (_, r) \<leftarrow> read_str l; read_list r }"

definition cstr_at :: "string \<Rightarrow> string option" where
  "cstr_at l = map_option fst (read_str l)"

definition read_page :: "dbm \<Rightarrow> int \<Rightarrow> dba \<Rightarrow> dba option" where
  "read_page db ip d = do {
     pdata \<leftarrow> dbm_page_get db ip;
     arch \<leftarrow> (case parch pdata of None \<Rightarrow> Some None | Some l \<Rightarrow> map_option Some (cstr_at l));
     desc \<leftarrow> cstr_at (pdesc pdata);
     (form, file) \<leftarrow> (case pfile pdata of [] \<Rightarrow> None
       | c # l \<Rightarrow> do { s \<leftarrow> cstr_at l; Some (c, s) });
     (ps, p) \<leftarrow> dba_page_new (pages d) arch desc file form;
     page \<leftarrow> ep ps ! p;
     names \<leftarrow> read_list (pname pdata);
     page \<leftarrow> page_adds DBP_NAME names page;
     sects \<leftarrow> read_list (psect pdata);
     page \<leftarrow> page_adds DBP_SECT sects page;
     archs \<leftarrow> (case parch pdata of None \<Rightarrow> Some [] | Some l \<Rightarrow> read_more l);
     page \<leftarrow> page_adds DBP_ARCH archs page;
     files \<leftarrow> read_more (pfile pdata);
     page \<leftarrow> page_adds DBP_FILE files page;
     Some (d\<lparr>pages := put_entry ps p page\<rparr>)}"

primrec read_pages :: "dbm \<Rightarrow> nat \<Rightarrow> dba \<Rightarrow> dba option" where
  "read_pages db 0 d = Some d"
| "read_pages db (Suc n) d = do { d \<leftarrow> read_pages db n d; read_page db (int n) d }"

definition read_macro :: "dbm \<Rightarrow> nat \<Rightarrow> int \<Rightarrow> dba \<Rightarrow> dba option" where
  "read_macro db im iv d = do {
     (v, pp) \<leftarrow> dbm_macro_get db im iv;
     l \<leftarrow> v;
     value \<leftarrow> cstr_at l;
     i \<leftarrow> pp;
     refs \<leftarrow> read_ints (mem db) i;
     dba_macro_new d im value refs}"

primrec read_values :: "dbm \<Rightarrow> nat \<Rightarrow> nat \<Rightarrow> dba \<Rightarrow> dba option" where
  "read_values db im 0 d = Some d"
| "read_values db im (Suc n) d = do { d \<leftarrow> read_values db im n d; read_macro db im (int n) d }"

primrec read_macros :: "dbm \<Rightarrow> nat \<Rightarrow> dba \<Rightarrow> dba option" where
  "read_macros db 0 d = Some d"
| "read_macros db (Suc im) d = do {
     d \<leftarrow> read_macros db im d;
     n \<leftarrow> dbm_macro_count db im;
     read_values db im (nat n) d}"

definition dba_read :: "nat \<Rightarrow> string \<Rightarrow> dba option option" where
  "dba_read pgsz file = do {
     r \<leftarrow> dbm_open pgsz file;
     case r of None \<Rightarrow> Some None
     | Some db \<Rightarrow> do {
         d \<leftarrow> dba_new (if dbm_page_count db < 128 then 128 else dbm_page_count db);
         d \<leftarrow> read_pages db (nat (dbm_page_count db)) d;
         d \<leftarrow> read_macros db MACRO_MAX d;
         Some (Some d)}}"

end
