(* ===== verification/Db_Roundtrip.thy ===== *)
theory Db_Roundtrip
  imports Db_Memory Dba_Read
begin

section \<open>What was written can be read\<close>

subsection \<open>Blocks at a position\<close>

definition at :: "string \<Rightarrow> nat \<Rightarrow> string \<Rightarrow> bool" where
  "at b i x \<longleftrightarrow> take (length x) (drop i b) = x \<and> i + length x \<le> length b"

lemma atE: "at b i x \<Longrightarrow> \<exists>post. drop i b = x @ post"
  by (metis append_take_drop_id at_def)

lemma at_middle: "length pre = i \<Longrightarrow> at (pre @ x @ post) i x"
  by (simp add: at_def)

lemma at_app: "at b i (x @ y) \<longleftrightarrow> at b i x \<and> at b (i + length x) y"
proof
  assume a: "at b i (x @ y)"
  then have "take (length x) (take (length (x @ y)) (drop i b)) = take (length x) (x @ y)"
    and "drop (length x) (take (length (x @ y)) (drop i b)) = drop (length x) (x @ y)"
    by (simp_all only: at_def)
  then show "at b i x \<and> at b (i + length x) y"
    using a by (simp add: at_def drop_take add.commute)
next
  assume "at b i x \<and> at b (i + length x) y"
  then show "at b i (x @ y)" by (simp add: at_def take_add add.commute)
qed

lemma at_Cons: "at b i (c # y) \<Longrightarrow> at b (Suc i) y"
  using at_app [of b i "[c]" y] by simp

lemma at_mono: "at b i x \<Longrightarrow> at (b @ z) i x"
  by (simp add: at_def)

lemma at_concat:
  "at b i (concat xs) \<Longrightarrow> k < length xs \<Longrightarrow> at b (offs i xs ! k) (xs ! k)"
proof (induction i xs arbitrary: k rule: offs.induct)
  case (2 i x xs)
  then show ?case by (cases k) (auto simp: at_app)
qed simp

lemma ord_of_char: "ord_of (char_of n) = n mod 256"
  by (simp add: ord_of_def)

lemma bytes_sum: "((m div 16777216 * 256 + m div 65536 mod 256) * 256 + m div 256 mod 256) * 256 + m mod 256 = (m :: nat)"
proof -
  have "m div 16777216 = m div 65536 div 256" "m div 65536 = m div 256 div 256"
    by (simp_all add: div_mult2_eq [symmetric])
  then show ?thesis by (simp only: div_mult_mod_eq)
qed

lemma get32_be32:
  assumes "at b i (be32 n)" "0 \<le> n" "n < 2147483648"
  shows "get32 b i = Some n"
proof -
  obtain post where d: "drop i b = be32 n @ post" using atE [OF assms(1)] by blast
  have l: "i + 4 \<le> length b" using assms(1) by (simp add: at_def)
  have nth: "b ! (i + k) = (be32 n @ post) ! k" for k
    using d l by (metis nth_drop add_leD1)
  define m where "m = nat n"
  have m: "m < 2147483648" "n = int m" using assms by (simp_all add: m_def)
  have be: "be32 n = [char_of (m div 16777216), char_of (m div 65536 mod 256), char_of (m div 256 mod 256),
      char_of (m mod 256)]"
    using m by (simp add: be32_def Let_def)
  have b: "b ! i = char_of (m div 16777216)" "b ! (i + 1) = char_of (m div 65536 mod 256)"
    "b ! (i + 2) = char_of (m div 256 mod 256)" "b ! (i + 3) = char_of (m mod 256)"
    using nth [of 0] nth [of 1] nth [of 2] nth [of 3] be by simp_all
  have "m div 16777216 < 256" using m by simp
  then have "((ord_of (b ! i) * 256 + ord_of (b ! (i + 1))) * 256 + ord_of (b ! (i + 2))) * 256 +
      ord_of (b ! (i + 3)) = m"
    using bytes_sum [of m] unfolding b ord_of_char by simp
  then show ?thesis using l m by (simp add: get32_def Let_def del: of_nat_mult of_nat_add)
qed

lemma read_str_app: "cstring s \<Longrightarrow> read_str (s @ NUL # post) = Some (s, post)"
  by (auto simp: read_str_def cstring_def dropWhile_append takeWhile_append)

lemma read_list_app:
  "\<forall>s \<in> set ss. cstring s \<and> s \<noteq> [] \<Longrightarrow> read_list (list_bytes ss @ post) = Some ss"
proof (induction ss)
  case Nil
  then show ?case by (simp add: list_bytes_def read_list.simps)
next
  case (Cons s ss)
  then obtain c cs where s: "s = c # cs" "c \<noteq> NUL" by (cases s) (auto simp: cstring_def)
  have l: "list_bytes (s # ss) @ post = s @ NUL # (list_bytes ss @ post)"
    by (simp add: list_bytes_def str_bytes_def)
  have "read_str (list_bytes (s # ss) @ post) = Some (s, list_bytes ss @ post)"
    unfolding l using Cons.prems by (intro read_str_app) simp
  then show ?case using Cons s unfolding l by (subst read_list.simps) simp
qed

lemma read_ints_at:
  "at b i (addrs_bytes as) \<Longrightarrow> \<forall>a \<in> set as. 0 < a \<and> a < 2147483648 \<Longrightarrow> read_ints b i = Some as"
proof (induction as arbitrary: i)
  case Nil
  then show ?case using get32_be32 [of b i 0] by (simp add: addrs_bytes_def read_ints.simps)
next
  case (Cons a as)
  then have "at b i (be32 a)" "at b (i + 4) (addrs_bytes as)"
    by (simp_all add: addrs_bytes_def at_app)
  then show ?case using Cons get32_be32 [of b i a] by (simp add: read_ints.simps [of b i])
qed

subsection \<open>Opening the file that was written\<close>

text \<open>
  The contents that a file can represent: strings are not empty and contain no NUL, lists of
  names, sections, architectures and files are not empty, every macro value has a page, and
  references are to existing pages.
\<close>

definition strs_ok :: "string list \<Rightarrow> bool" where
  "strs_ok ss \<longleftrightarrow> ss \<noteq> [] \<and> (\<forall>s \<in> set ss. cstring s \<and> s \<noteq> [])"

definition page_data_ok :: "page_data \<Rightarrow> bool" where
  "page_data_ok d \<longleftrightarrow>
     strs_ok (d_names d) \<and> strs_ok (d_sects d) \<and> (case d_archs d of None \<Rightarrow> True | Some as \<Rightarrow> strs_ok as) \<and>
     cstring (d_desc d) \<and> strs_ok (d_files d)"

definition table_ok :: "nat \<Rightarrow> table_data \<Rightarrow> bool" where
  "table_ok n t \<longleftrightarrow> (\<forall>(v, ks) \<in> set t. cstring v \<and> ks \<noteq> [] \<and> (\<forall>k \<in> set ks. k < n))"

definition contents_ok :: "page_data list \<Rightarrow> table_data list \<Rightarrow> bool" where
  "contents_ok ds ts \<longleftrightarrow>
     (\<forall>d \<in> set ds. page_data_ok d) \<and> length ts = MACRO_MAX \<and> (\<forall>t \<in> set ts. table_ok (length ds) t)"

text \<open>What the mapping of such a file looks like.\<close>

abbreviation table_pos :: "page_data list \<Rightarrow> macro_data list \<Rightarrow> nat" where
  "table_pos ds mts \<equiv> macros_pos ds + 4 + 4 * length mts"

definition db_file :: "dbm \<Rightarrow> page_data list \<Rightarrow> table_data list \<Rightarrow> bool" where
  "db_file db ds ts \<longleftrightarrow>
     (let mts = map addr_table ts; blks = table_blocks (table_pos ds mts) mts
      in at (mem db) 16 (pages_bytes 16 ds) \<and>
         at (mem db) (macros_pos ds) (macros_bytes (macros_pos ds) mts) \<and>
         npages db = int (length ds) \<and> max_offset db = int (length (db_bytes ds mts)) \<and>
         max_offset db < INT_MAX \<and>
         mtabs db = map (\<lambda>p. p + 4) (offs (table_pos ds mts) blks) \<and>
         nvals db = map (int \<circ> length) ts)"

lemma open_macros_at:
  assumes "at m (mp + 4) (concat (map (\<lambda>p. be32 (int p)) ps))"
    and "\<forall>p \<in> set ps. int p < mx" "mx < 2147483648" "list_all2 (\<lambda>p v. get32 m p = Some v) ps vs"
  shows "open_macros (length ps) m mx mp = Some (Some (map (\<lambda>p. p + 4) ps, vs))"
  using assms
proof (induction ps arbitrary: mp vs)
  case Nil
  then show ?case by simp
next
  case (Cons p ps)
  then obtain v vs' where vs: "vs = v # vs'" "get32 m p = Some v" "list_all2 (\<lambda>p v. get32 m p = Some v) ps vs'"
    by (auto simp: list_all2_Cons1)
  have a: "at m (mp + 4) (be32 (int p))" "at m (mp + 4 + 4) (concat (map (\<lambda>p. be32 (int p)) ps))"
    using Cons.prems(1) by (simp_all add: at_app)
  have p: "int p < mx" "int p < 2147483648" using Cons.prems by auto
  then have "get32 m (mp + 4) = Some (int p)" by (intro get32_be32 [OF a(1)]) auto
  moreover have "open_macros (length ps) m mx (mp + 4) = Some (Some (map (\<lambda>p. p + 4) ps, vs'))"
    using Cons.IH [OF a(2)] Cons.prems vs by simp
  ultimately show ?case using p vs by (simp add: dbm_get_def)
qed

lemma to_int32_id: "0 \<le> x \<Longrightarrow> x < 2147483648 \<Longrightarrow> to_int32 x = x"
  by (simp add: to_int32_def)

lemma table_blocks_nth:
  "k < length ts \<Longrightarrow> table_blocks b ts ! k = macro_bytes (offs b (table_blocks b ts) ! k) (ts ! k)"
proof (induction b ts arbitrary: k rule: table_blocks.induct)
  case (2 b t ts)
  then show ?case by (cases k) auto
qed simp

lemma dbm_open_bytes:
  assumes ok: "contents_ok ds ts"
    and size: "int (length (db_bytes ds (map addr_table ts))) < INT_MAX"
  shows "\<exists>db. dbm_open pgsz (db_bytes ds (map addr_table ts)) = Some (Some db) \<and> db_file db ds ts"
proof -
  define mts where "mts = map addr_table ts"
  define F where "F = db_bytes ds mts"
  define m where "m = mapped pgsz F"
  define e where "e = macros_pos ds + length (macros_bytes (macros_pos ds) mts)"
  define blks where "blks = table_blocks (table_pos ds mts) mts"
  have lF: "length F = e + 4" by (simp add: F_def db_bytes_def e_def macros_pos_def)
  have sz: "int (length F) < 2147483648" "int e < 2147483648" "16 \<le> length F"
    using size lF by (simp_all add: F_def mts_def int_limits e_def macros_pos_def)
  have "at F 0 F" by (simp add: at_def)
  then have "at m 0 F" unfolding m_def mapped_def by (rule at_mono)
  then have a: "at m 0 (be32 MANDOCDB_MAGIC)" "at m 4 (be32 MANDOCDB_VERSION)"
    "at m 8 (be32 (int (macros_pos ds)))" "at m 12 (be32 (int e))" "at m 16 (pages_bytes 16 ds)"
    "at m (macros_pos ds) (macros_bytes (macros_pos ds) mts)" "at m e (be32 MANDOCDB_MAGIC)"
    unfolding F_def db_bytes_def e_def by (simp_all add: at_app macros_pos_def add.assoc)
  have g: "get32 m 0 = Some MANDOCDB_MAGIC" "get32 m 4 = Some MANDOCDB_VERSION"
    "get32 m 8 = Some (int (macros_pos ds))" "get32 m 12 = Some (int e)" "get32 m e = Some MANDOCDB_MAGIC"
    using a sz by (auto intro!: get32_be32 simp: MANDOCDB_MAGIC_def MANDOCDB_VERSION_def e_def)
  have map: "dbm_map pgsz F = Some (Some (m, int (length F)))"
    using g sz by (simp add: dbm_map_def Let_def m_def [symmetric] dbm_getint_def to_int32_id lF dbm_get_def
        int_limits MANDOCDB_MAGIC_def MANDOCDB_VERSION_def)
  have "length ds \<le> e" by (simp add: e_def macros_pos_def pages_bytes_def length_page_ptrs)
  then have np: "get32 m 16 = Some (int (length ds))"
    using a(5) sz by (intro get32_be32) (simp_all add: pages_bytes_def at_app)
  have lt: "length mts = MACRO_MAX" "length ts = MACRO_MAX" "length blks = MACRO_MAX"
    using ok by (simp_all add: contents_ok_def mts_def blks_def)
  have mb: "macros_bytes (macros_pos ds) mts = be32 (int (length mts)) @
      concat (map (\<lambda>p. be32 (int p)) (offs (table_pos ds mts) blks)) @ concat blks"
    by (simp add: macros_bytes_def Let_def blks_def)
  have lptr: "length (concat (map (\<lambda>p. be32 (int p)) ps)) = 4 * length ps" for ps
    by (induction ps) auto
  have ab: "at m (macros_pos ds) (be32 (int (length mts)))"
    "at m (macros_pos ds + 4) (concat (map (\<lambda>p. be32 (int p)) (offs (table_pos ds mts) blks)))"
    "at m (table_pos ds mts) (concat blks)"
    using a(6) by (simp_all add: mb at_app lptr blks_def add.assoc)
  have cnt: "get32 m (macros_pos ds) = Some (int MACRO_MAX)"
    using ab(1) lt(1) by (simp add: get32_be32 MACRO_MAX_def)
  have tab: "get32 m (offs (table_pos ds mts) blks ! k) = Some (int (length (ts ! k))) \<and>
      int (offs (table_pos ds mts) blks ! k) < int (length F)" if "k < MACRO_MAX" for k
  proof -
    have k: "k < length mts" "k < length blks" using that lt by simp_all
    have at: "at m (offs (table_pos ds mts) blks ! k) (blks ! k)" by (rule at_concat [OF ab(3) k(2)])
    have bk: "blks ! k = macro_bytes (offs (table_pos ds mts) blks ! k) (mts ! k)"
      using table_blocks_nth [OF k(1)] by (simp add: blks_def)
    have "length (concat (take k blks)) + length (blks ! k) \<le> length (concat blks)"
      using id_take_nth_drop [OF k(2)] by (metis concat.simps(2) concat_append length_append add.assoc le_add1)
    then have le: "offs (table_pos ds mts) blks ! k + length (blks ! k) \<le> e"
      using offs_nth [OF k(2), of "table_pos ds mts"] lt by (simp add: e_def mb lptr)
    moreover have "length (mts ! k) \<le> length (blks ! k)"
      by (simp add: bk macro_bytes_def length_pair_bytes)
    ultimately have "int (length (mts ! k)) < 2147483648" "offs (table_pos ds mts) blks ! k \<le> e" using sz by simp_all
    then have "get32 m (offs (table_pos ds mts) blks ! k) = Some (int (length (mts ! k)))"
      using at by (intro get32_be32) (simp_all add: bk macro_bytes_def at_app)
    then show ?thesis
      using that lt lF \<open>offs (table_pos ds mts) blks ! k \<le> e\<close> by (simp add: mts_def addr_table_def)
  qed
  have om: "open_macros MACRO_MAX m (int (length F)) (macros_pos ds) =
      Some (Some (map (\<lambda>p. p + 4) (offs (table_pos ds mts) blks), map (int \<circ> length) ts))"
  proof -
    have "\<forall>p \<in> set (offs (table_pos ds mts) blks). int p < int (length F)"
      using tab lt by (metis in_set_conv_nth length_offs)
    moreover have "list_all2 (\<lambda>p v. get32 m p = Some v) (offs (table_pos ds mts) blks) (map (int \<circ> length) ts)"
      using tab lt by (simp add: list_all2_conv_all_nth)
    ultimately show ?thesis
      using open_macros_at [OF ab(2)] sz(1) lt by simp
  qed
  have "macros_pos ds < length F" by (simp add: lF e_def)
  then have "dbm_open pgsz F = Some (Some \<lparr>mem = m, max_offset = int (length F), npages = int (length ds),
      mtabs = map (\<lambda>p. p + 4) (offs (table_pos ds mts) blks), nvals = map (int \<circ> length) ts\<rparr>)"
    using map np g(3) cnt om by (simp add: dbm_open_def dbm_getint_def dbm_get_def)
  then show ?thesis
    using a(5,6) size by (auto simp: db_file_def Let_def F_def mts_def blks_def)
qed


subsection \<open>Reading pages and macros\<close>

lemma at_bound: "at b i x \<Longrightarrow> x \<noteq> [] \<Longrightarrow> i < length b"
  by (cases x) (auto simp: at_def)

text \<open>Every area of strings is where the pointers say.\<close>

lemma page_areas:
  assumes "at b 16 (pages_bytes 16 ds)"
  shows "at b 20 (page_ptrs 16 ds)"
    "at b (area0 16 ds) (concat (name_blocks ds))" "at b (area1 16 ds) (concat (sect_blocks ds))"
    "at b (area2 16 ds) (concat (arch_blocks ds))" "at b (area3 16 ds) (concat (desc_blocks ds))"
    "at b (area4 16 ds) (concat (file_blocks ds))"
  using assms
  by (simp_all add: pages_bytes_def page_strs_def at_app length_page_ptrs area0_def area1_def area2_def
      area3_def area4_def add.assoc)

lemma ptrs_at:
  assumes "at b 20 (page_ptrs 16 ds)" "k < length ds" "j < 5"
  shows "at b (20 + 20 * k + 4 * j) (be32 (page_ints 16 ds k ! j))"
proof -
  let ?rows = "map (\<lambda>k. concat (map be32 (page_ints 16 ds k))) [0..<length ds]"
  have l: "length (page_ints 16 ds k) = 5" for k by (simp add: page_ints_def)
  have lb: "length (concat (map be32 xs)) = 4 * length xs" for xs by (induction xs) auto
  have "at b (offs 20 ?rows ! k) (?rows ! k)"
    by (rule at_concat) (use assms in \<open>simp_all add: page_ptrs_def\<close>)
  moreover have "offs 20 ?rows ! k = 20 + 20 * k"
    by (rule offs_const) (use assms(2) in \<open>auto simp: lb l\<close>)
  ultimately have "at b (20 + 20 * k) (concat (map be32 (page_ints 16 ds k)))"
    using assms(2) by simp
  from at_concat [OF this, of j] show ?thesis
    using assms(3) l offs_const [of "map be32 (page_ints 16 ds k)" 4 j "20 + 20 * k"] by simp
qed

lemma offs_less:
  "k < length xs \<Longrightarrow> xs ! k \<noteq> [] \<Longrightarrow> b + length (concat xs) \<le> n \<Longrightarrow> offs b xs ! k < n"
proof -
  assume k: "k < length xs" "xs ! k \<noteq> []" "b + length (concat xs) \<le> n"
  have "concat xs = concat (take k xs) @ xs ! k @ concat (drop (Suc k) xs)"
    using id_take_nth_drop [OF k(1)] by (metis concat.simps(2) concat_append)
  then have "length (concat (take k xs)) < length (concat xs)" using k(2) by (cases "xs ! k") simp_all
  then show ?thesis using offs_nth [OF k(1), of b] k(3) by simp
qed

lemma db_file_size: "db_file db ds ts \<Longrightarrow>
    16 + length (pages_bytes 16 ds) \<le> nat (max_offset db) \<and>
    macros_pos ds + length (macros_bytes (macros_pos ds) (map addr_table ts)) \<le> nat (max_offset db)"
proof -
  assume "db_file db ds ts"
  then have "nat (max_offset db) = length (db_bytes ds (map addr_table ts))"
    by (simp add: db_file_def Let_def)
  then show ?thesis by (simp add: db_bytes_def macros_pos_def)
qed

lemma page_blocks_less:
  assumes "db_file db ds ts" "k < length ds"
  shows "int (offs (area0 16 ds) (name_blocks ds) ! k) < max_offset db"
    "int (offs (area1 16 ds) (sect_blocks ds) ! k) < max_offset db"
    "d_archs (ds ! k) \<noteq> None \<Longrightarrow> int (offs (area2 16 ds) (arch_blocks ds) ! k) < max_offset db"
    "int (offs (area3 16 ds) (desc_blocks ds) ! k) < max_offset db"
    "int (offs (area4 16 ds) (file_blocks ds) ! k) < max_offset db"
proof -
  let ?n = "nat (max_offset db)"
  have n: "16 + length (pages_bytes 16 ds) \<le> ?n" using db_file_size [OF assms(1)] by simp
  have pb: "length (pages_bytes 16 ds) =
      4 + 20 * length ds + length (page_strs ds) + length (pad4 (area0 16 ds + length (page_strs ds)))"
    by (simp add: pages_bytes_def length_page_ptrs)
  have sums: "area0 16 ds + length (concat (name_blocks ds)) \<le> ?n"
    "area1 16 ds + length (concat (sect_blocks ds)) \<le> ?n"
    "area2 16 ds + length (concat (arch_blocks ds)) \<le> ?n"
    "area3 16 ds + length (concat (desc_blocks ds)) \<le> ?n"
    "area4 16 ds + length (concat (file_blocks ds)) \<le> ?n"
    using n pb by (simp_all add: page_strs_def area4_def area3_def area2_def area1_def area0_def)
  have ne: "name_blocks ds ! k \<noteq> []" "sect_blocks ds ! k \<noteq> []" "desc_blocks ds ! k \<noteq> []"
    "file_blocks ds ! k \<noteq> []"
    using assms(2) by (simp_all add: blocks_defs list_bytes_def str_bytes_def)
  have ne2: "arch_blocks ds ! k \<noteq> []" if "d_archs (ds ! k) \<noteq> None"
    using assms(2) that by (auto simp: blocks_defs list_bytes_def arch_bytes_def)
  have *: "int i < max_offset db" if "i < ?n" for i using that by linarith
  show "int (offs (area0 16 ds) (name_blocks ds) ! k) < max_offset db"
    by (rule *, rule offs_less) (use ne sums assms(2) in simp_all)
  show "int (offs (area1 16 ds) (sect_blocks ds) ! k) < max_offset db"
    by (rule *, rule offs_less) (use ne sums assms(2) in simp_all)
  show "int (offs (area3 16 ds) (desc_blocks ds) ! k) < max_offset db"
    by (rule *, rule offs_less) (use ne sums assms(2) in simp_all)
  show "int (offs (area4 16 ds) (file_blocks ds) ! k) < max_offset db"
    by (rule *, rule offs_less) (use ne sums assms(2) in simp_all)
  show "int (offs (area2 16 ds) (arch_blocks ds) ! k) < max_offset db" if "d_archs (ds ! k) \<noteq> None"
    by (rule *, rule offs_less) (use ne2 [OF that] sums assms(2) in simp_all)
qed

text \<open>The data that \<open>dbm_page_get\<close> returns for a page.\<close>

definition page_view :: "dbm_page \<Rightarrow> page_data \<Rightarrow> bool" where
  "page_view p d \<longleftrightarrow>
     read_list (pname p) = Some (d_names d) \<and> read_list (psect p) = Some (d_sects d) \<and>
     (case d_archs d of None \<Rightarrow> parch p = None | Some as \<Rightarrow> \<exists>l. parch p = Some l \<and> read_list l = Some as) \<and>
     cstr_at (pdesc p) = Some (d_desc d) \<and> read_list (pfile p) = Some (d_files d)"

lemma read_list_at: "at b i (list_bytes ss) \<Longrightarrow> strs_ok ss \<Longrightarrow> read_list (drop i b) = Some ss"
  using atE [of b i "list_bytes ss"] read_list_app by (auto simp: strs_ok_def)

lemma cstr_at_at: "at b i (str_bytes s) \<Longrightarrow> cstring s \<Longrightarrow> cstr_at (drop i b) = Some s"
  using atE [of b i "str_bytes s"] read_str_app by (auto simp: str_bytes_def cstr_at_def)

lemma dbm_page_get_view:
  assumes f: "db_file db ds ts" and k: "k < length ds" and ok: "page_data_ok (ds ! k)"
  shows "\<exists>p. dbm_page_get db (int k) = Some p \<and> page_view p (ds ! k) \<and> paddr p = int (20 + 20 * k)"
proof -
  let ?b = "mem db"
  have pb: "at ?b 16 (pages_bytes 16 ds)" and np: "npages db = int (length ds)"
    and mx: "max_offset db < 2147483648"
    using f by (simp_all add: db_file_def Let_def int_limits)
  note areas = page_areas [OF pb] and less = page_blocks_less [OF f k]
  have pint: "page_int db (int k) j = Some (page_ints 16 ds k ! j)"
    if "j < 5" "0 \<le> page_ints 16 ds k ! j" "page_ints 16 ds k ! j < 2147483648" for j
    using get32_be32 [OF ptrs_at [OF areas(1) k that(1)] that(2,3)] by (simp add: page_int_def)
  have ints: "page_int db (int k) 0 = Some (int (offs (area0 16 ds) (name_blocks ds) ! k))"
    "page_int db (int k) 1 = Some (int (offs (area1 16 ds) (sect_blocks ds) ! k))"
    "page_int db (int k) 2 = Some (if d_archs (ds ! k) = None then 0 else int (offs (area2 16 ds) (arch_blocks ds) ! k))"
    "page_int db (int k) 3 = Some (int (offs (area3 16 ds) (desc_blocks ds) ! k))"
    "page_int db (int k) 4 = Some (int (offs (area4 16 ds) (file_blocks ds) ! k))"
    using pint [of 0] pint [of 1] pint [of 2] pint [of 3] pint [of 4] less mx
    by (auto simp: page_ints_def)
  have get: "dbm_get (max_offset db) (int i) = Some i" if "int i < max_offset db" for i
    using that by (simp add: dbm_get_def)
  have blk: "at ?b (offs (area0 16 ds) (name_blocks ds) ! k) (list_bytes (d_names (ds ! k)))"
    "at ?b (offs (area1 16 ds) (sect_blocks ds) ! k) (list_bytes (d_sects (ds ! k)))"
    "at ?b (offs (area2 16 ds) (arch_blocks ds) ! k) (arch_bytes (ds ! k))"
    "at ?b (offs (area3 16 ds) (desc_blocks ds) ! k) (str_bytes (d_desc (ds ! k)))"
    "at ?b (offs (area4 16 ds) (file_blocks ds) ! k) (list_bytes (d_files (ds ! k)))"
    using at_concat [OF areas(2), of k] at_concat [OF areas(3), of k] at_concat [OF areas(4), of k]
      at_concat [OF areas(5), of k] at_concat [OF areas(6), of k] k
    by (simp_all add: blocks_defs)
  have nz: "int (offs (area2 16 ds) (arch_blocks ds) ! k) \<noteq> 0"
    using offs_nth [of k "arch_blocks ds" "area2 16 ds"] k by (simp add: area2_def area1_def area0_def)
  define p where "p = \<lparr>pname = drop (offs (area0 16 ds) (name_blocks ds) ! k) ?b,
      psect = drop (offs (area1 16 ds) (sect_blocks ds) ! k) ?b,
      parch = (if d_archs (ds ! k) = None then None else Some (drop (offs (area2 16 ds) (arch_blocks ds) ! k) ?b)),
      pdesc = drop (offs (area3 16 ds) (desc_blocks ds) ! k) ?b,
      pfile = drop (offs (area4 16 ds) (file_blocks ds) ! k) ?b, paddr = 20 + 20 * int k\<rparr>"
  have "dbm_page_get db (int k) = Some p"
    using k np ints get less nz by (simp add: dbm_page_get_def p_def or_lit_def)
  moreover have "page_view p (ds ! k)"
    using ok blk read_list_at cstr_at_at
    by (auto simp: page_view_def p_def page_data_ok_def arch_bytes_def split: option.splits)
  ultimately show ?thesis by (simp add: p_def)
qed

lemma dbm_macro_get_view:
  assumes f: "db_file db ds ts" and ok: "contents_ok ds ts" and im: "im < MACRO_MAX" and iv: "iv < length (ts ! im)"
  shows "\<exists>l i. dbm_macro_get db im (int iv) = Some (Some l, Some i) \<and> cstr_at l = Some (fst (ts ! im ! iv)) \<and>
     read_ints (mem db) i = Some (map (\<lambda>k. int (20 + 20 * k)) (snd (ts ! im ! iv)))"
proof -
  let ?b = "mem db"
  define mts where "mts = map addr_table ts"
  define blks where "blks = table_blocks (table_pos ds mts) mts"
  define o' where "o' = offs (table_pos ds mts) blks ! im"
  define t where "t = mts ! im"
  have lt: "length ts = MACRO_MAX" "length mts = MACRO_MAX" "length blks = MACRO_MAX"
    using ok by (simp_all add: contents_ok_def mts_def blks_def)
  have lptr: "length (concat (map (\<lambda>p. be32 (int p)) ps)) = 4 * length ps" for ps
    by (induction ps) auto
  have mb: "macros_bytes (macros_pos ds) mts = be32 (int (length mts)) @
      concat (map (\<lambda>p. be32 (int p)) (offs (table_pos ds mts) blks)) @ concat blks"
    by (simp add: macros_bytes_def Let_def blks_def)
  have db: "at ?b (macros_pos ds) (macros_bytes (macros_pos ds) mts)" "max_offset db < 2147483648"
    "mtabs db = map (\<lambda>p. p + 4) (offs (table_pos ds mts) blks)" "nvals db = map (int \<circ> length) ts"
    using f by (simp_all add: db_file_def Let_def int_limits mts_def blks_def)
  have "at ?b (table_pos ds mts) (concat blks)"
    using db(1) by (simp add: mb at_app lptr blks_def add.assoc)
  then have "at ?b o' (blks ! im)" unfolding o'_def by (rule at_concat) (simp add: lt im)
  moreover have "blks ! im = macro_bytes o' t"
    using table_blocks_nth [of im mts] im lt by (simp add: blks_def o'_def t_def)
  ultimately have tb: "at ?b o' (macro_bytes o' t)" by simp
  have t: "length t = length (ts ! im)" "t ! iv = (fst (ts ! im ! iv), map (\<lambda>k. int (20 + 20 * k)) (snd (ts ! im ! iv)))"
    using im lt iv by (simp_all add: t_def mts_def addr_table_def case_prod_unfold)
  have kb: "length (key_blocks t) = length t" "length (addr_blocks t) = length t"
    by (simp_all add: key_blocks_def addr_blocks_def)
  have areas: "at ?b (o' + 4) (pair_bytes o' t)" "at ?b (key_area o' t) (concat (key_blocks t))"
    "at ?b (addr_area o' t) (concat (addr_blocks t))"
    using tb by (simp_all add: macro_bytes_def at_app length_pair_bytes key_area_def addr_area_def add.assoc)
  define kp where "kp = offs (key_area o' t) (key_blocks t) ! iv"
  define dp where "dp = offs (addr_area o' t) (addr_blocks t) ! iv"
  have "o' + length (macro_bytes o' t) \<le> nat (max_offset db)"
  proof -
    have "concat blks = concat (take im blks) @ blks ! im @ concat (drop (Suc im) blks)"
      using id_take_nth_drop [of im blks] im lt by (metis concat.simps(2) concat_append)
    then have "length (concat (take im blks)) + length (blks ! im) \<le> length (concat blks)" by simp
    then show ?thesis
      using db_file_size [OF f] offs_nth [of im blks "table_pos ds mts"] im lt \<open>blks ! im = macro_bytes o' t\<close>
      by (simp add: mts_def [symmetric] mb lptr o'_def)
  qed
  then have "key_area o' t + length (concat (key_blocks t)) \<le> nat (max_offset db)"
    "addr_area o' t + length (concat (addr_blocks t)) \<le> nat (max_offset db)"
    by (simp_all add: macro_bytes_def length_pair_bytes key_area_def addr_area_def)
  moreover have "key_blocks t ! iv \<noteq> []" "addr_blocks t ! iv \<noteq> []"
    using iv t by (auto simp: key_blocks_def addr_blocks_def str_bytes_def be32_def Let_def)
  ultimately have "kp < nat (max_offset db)" "dp < nat (max_offset db)"
    unfolding kp_def dp_def using iv t(1) kb by (auto intro!: offs_less)
  then have less: "int kp < max_offset db" "int dp < max_offset db" by linarith+
  have "at ?b (o' + 4 + 8 * iv) (be32 (int kp) @ be32 (int dp))"
  proof -
    let ?rows = "map (\<lambda>(k, d). be32 (int k) @ be32 (int d))
       (zip (offs (key_area o' t) (key_blocks t)) (offs (addr_area o' t) (addr_blocks t)))"
    have "at ?b (offs (o' + 4) ?rows ! iv) (?rows ! iv)"
      by (rule at_concat) (use areas(1) iv t(1) kb in \<open>simp_all add: pair_bytes_def\<close>)
    moreover have "offs (o' + 4) ?rows ! iv = o' + 4 + 8 * iv"
      by (rule offs_const) (use iv t(1) kb in auto)
    ultimately show ?thesis using iv t(1) kb by (simp add: kp_def dp_def)
  qed
  then have "at ?b (o' + 4 + 8 * iv) (be32 (int kp))" "at ?b (o' + 4 + 8 * iv + 4) (be32 (int dp))"
    by (simp_all add: at_app)
  moreover have "mtabs db ! im = o' + 4" using im lt by (simp add: db(3) o'_def)
  ultimately have mi: "macro_int db im iv 0 = Some (int kp)" "macro_int db im iv 1 = Some (int dp)"
    using less db(2) by (simp_all add: macro_int_def get32_be32)
  have "at ?b kp (str_bytes (fst (ts ! im ! iv)))" "at ?b dp (addrs_bytes (snd (t ! iv)))"
    using at_concat [OF areas(2), of iv] at_concat [OF areas(3), of iv] iv t kb
    by (simp_all add: kp_def dp_def key_blocks_def addr_blocks_def addrs_bytes_def)
  moreover have "table_ok (length ds) (ts ! im)" using ok im by (auto simp: contents_ok_def)
  then have rng: "cstring (fst (ts ! im ! iv))" "\<forall>k \<in> set (snd (ts ! im ! iv)). k < length ds"
    using nth_mem [OF iv] unfolding table_ok_def case_prod_unfold by blast+
  moreover have "20 * length ds + 20 \<le> nat (max_offset db)"
    using db_file_size [OF f] by (simp add: pages_bytes_def length_page_ptrs)
  then have "int (20 + 20 * k) < 2147483648" if "k \<in> set (snd (ts ! im ! iv))" for k
    using rng(2) that db(2) by fastforce
  ultimately have "cstr_at (drop kp ?b) = Some (fst (ts ! im ! iv))"
    "read_ints ?b dp = Some (map (\<lambda>k. int (20 + 20 * k)) (snd (ts ! im ! iv)))"
    using cstr_at_at db(2) t(2) by (auto intro!: read_ints_at)
  moreover have "dbm_macro_get db im (int iv) = Some (Some (drop kp ?b), Some dp)"
    using im iv lt mi less by (simp add: dbm_macro_get_def db(4) dbm_get_def)
  ultimately show ?thesis by blast
qed


subsection \<open>Reading the pages into memory\<close>

lemma read_list_Cons:
  assumes "read_list l = Some (s # ss)"
  shows "cstr_at l = Some s \<and> read_more l = Some ss \<and> s \<noteq> []"
proof -
  obtain c l' where l: "l = c # l'" "c \<noteq> NUL" using assms
    by (auto simp: read_list.simps [of l] split: list.splits if_splits)
  then obtain r where r: "read_str l = Some (s, r)" "read_list r = Some ss"
    using assms by (auto simp: read_list.simps [of "c # l'"] split: option.splits)
  moreover have "s \<noteq> []" using r(1) l by (auto simp: read_str_def split: list.splits)
  ultimately show ?thesis by (simp add: cstr_at_def read_more_def)
qed

lemma cstr_at_tl:
  assumes "cstr_at l = Some (c # s)"
  shows "\<exists>l'. l = c # l' \<and> cstr_at l' = Some s"
proof -
  obtain r where r: "read_str l = Some (c # s, r)" using assms by (auto simp: cstr_at_def)
  then obtain l' where "l = c # l'" "c \<noteq> NUL"
    by (cases l) (auto simp: read_str_def split: list.splits if_splits)
  then show ?thesis
    using r by (auto simp: cstr_at_def read_str_def simp del: dropWhile_eq_Nil_conv split: list.splits)
qed

lemma field_of_set: "field_of ie d = Some ss \<Longrightarrow> field_of ie (set_field ie ss' d) = Some ss'"
  by (auto simp: field_of_def set_field_def dbp_defs split: if_splits)

lemma set_field_twice: "field_of ie d = Some ss \<Longrightarrow> set_field ie x (set_field ie y d) = set_field ie x d"
  by (auto simp: set_field_def)

lemma set_field_same: "field_of ie d = Some ss \<Longrightarrow> set_field ie ss d = d"
  by (auto simp: set_field_def field_of_def dbp_defs split: if_splits)

lemma page_adds_ok:
  assumes "page_shape p d" "field_of ie d = Some ss0"
    and "\<forall>s \<in> set (ss0 @ ss). cstring s \<and> s \<noteq> []" "\<forall>s \<in> set ss. shown ie s = s"
    and "distinct (map (shown ie) (ss0 @ ss))" "length (ss0 @ ss) < 2 ^ 29"
  shows "\<exists>p'. page_adds ie ss p = Some p' \<and> page_shape p' (set_field ie (ss0 @ ss) d) \<and> apos p' = apos p"
  using assms
proof (induction ss arbitrary: p d ss0)
  case Nil
  then show ?case by (simp add: set_field_same)
next
  case (Cons s ss)
  have "shown ie s = s" "s \<notin> shown ie ` set ss0" using Cons.prems(4,5) by auto
  then obtain p1 where p1: "dba_page_add p ie (Some s) = Some p1" "page_shape p1 (set_field ie (ss0 @ [s]) d)"
    "apos p1 = apos p"
    using dba_page_add_ok [OF Cons.prems(1,2), of s] Cons.prems(3,6) by auto
  have "\<exists>p'. page_adds ie ss p1 = Some p' \<and>
      page_shape p' (set_field ie ((ss0 @ [s]) @ ss) (set_field ie (ss0 @ [s]) d)) \<and> apos p' = apos p1"
    by (rule Cons.IH [OF p1(2) field_of_set [OF Cons.prems(2)]]) (use Cons.prems in auto)
  then show ?case using p1 set_field_twice [OF Cons.prems(2)] by auto
qed

text \<open>Pages whose lists have no duplicates; the file names after the first are not prefixed.\<close>

definition page_data_set :: "page_data \<Rightarrow> bool" where
  "page_data_set d \<longleftrightarrow>
     distinct (d_names d) \<and> distinct (d_sects d) \<and>
     (case d_archs d of None \<Rightarrow> True | Some as \<Rightarrow> distinct as) \<and>
     distinct (map strip_form (d_files d)) \<and> (\<forall>f \<in> set (tl (d_files d)). strip_form f = f) \<and>
     length (d_names d) + length (d_sects d) + length (case d_archs d of None \<Rightarrow> [] | Some as \<Rightarrow> as) +
       length (d_files d) < 2 ^ 29"

lemma read_page_ok:
  assumes view: "dbm_page_get db ip = Some pd" "page_view pd d"
    and ok: "page_data_ok d" "page_data_set d"
    and ps: "plain (pages D) pgs" "grows (pages D) n" "n < 2 ^ 30" "length pgs < 2 ^ 29"
  shows "\<exists>D' page. read_page db ip D = Some D' \<and> macros D' = macros D \<and> heap D' = heap D \<and>
     plain (pages D') (pgs @ [page]) \<and> grows (pages D') n \<and> page_shape page d \<and> apos page = 0"
proof -
  obtain f fs where f: "d_files d = f # fs" "f \<noteq> []" "cstring f" "\<forall>s \<in> set fs. cstring s \<and> s \<noteq> []"
    using ok(1) by (cases "d_files d") (auto simp: page_data_ok_def strs_ok_def)
  have rf: "cstr_at (pfile pd) = Some f" "read_more (pfile pd) = Some fs"
    using view(2) f(1) read_list_Cons by (auto simp: page_view_def)
  obtain c path where cp: "f = c # path" using f(2) by (cases f) auto
  obtain l where l: "pfile pd = c # l" "cstr_at l = Some path" using cstr_at_tl rf(1) cp by blast
  obtain arch more where arch: "(case parch pd of None \<Rightarrow> Some None | Some l \<Rightarrow> map_option Some (cstr_at l)) = Some arch"
    "(case parch pd of None \<Rightarrow> Some [] | Some l \<Rightarrow> read_more l) = Some more"
    "d_archs d = None \<longrightarrow> arch = None \<and> more = []"
    "d_archs d \<noteq> None \<longrightarrow> (\<exists>a. arch = Some a \<and> a \<noteq> [] \<and> d_archs d = Some (a # more))"
  proof (cases "d_archs d")
    case None
    then show ?thesis using that view(2) by (simp add: page_view_def)
  next
    case (Some as)
    then obtain a as' where "as = a # as'" using ok(1) by (cases as) (auto simp: page_data_ok_def strs_ok_def)
    moreover obtain la where "parch pd = Some la" "read_list la = Some as"
      using view(2) Some by (auto simp: page_view_def)
    ultimately show ?thesis using that [of "Some a" as'] Some read_list_Cons [of la a as'] by simp
  qed
  have strs: "cstr_at (pdesc pd) = Some (d_desc d)" "read_list (pname pd) = Some (d_names d)"
    "read_list (psect pd) = Some (d_sects d)"
    using view(2) by (simp_all add: page_view_def)
  obtain ps' page where new: "dba_page_new (pages D) arch (d_desc d) path c = Some (ps', length pgs)"
    "plain ps' (pgs @ [page])" "grows ps' n" "page_shape page (new_page_data arch (d_desc d) path c)" "apos page = 0"
    using dba_page_new_ok [OF ps] by blast
  have ep: "ep ps' ! length pgs = Some page" using new(2) by (simp add: plain_def nth_append)
  define d0 where "d0 = new_page_data arch (d_desc d) path c"
  have shp: "shown ie s = s" if "ie \<noteq> DBP_FILE" for ie s using that by (simp add: shown_def)
  have shm: "map (shown ie) xs = xs" if "ie \<noteq> DBP_FILE" for ie xs
    using that by (induction xs) (simp_all add: shown_def)
  have sz: "length (d_names d) < 2 ^ 29" "length (d_sects d) < 2 ^ 29" "length (f # fs) < 2 ^ 29"
    "d_archs d = Some as \<Longrightarrow> length as < 2 ^ 29" for as
    using ok(2) f(1) by (auto simp: page_data_set_def)
  have "\<exists>p'. page_adds DBP_NAME (d_names d) page = Some p' \<and>
      page_shape p' (set_field DBP_NAME ([] @ d_names d) d0) \<and> apos p' = apos page"
    by (rule page_adds_ok [OF new(4) [folded d0_def]])
       (use ok sz in \<open>auto simp: d0_def new_page_data_def field_of_def page_data_ok_def strs_ok_def
          page_data_set_def shp shm dbp_defs\<close>)
  then obtain p1 where p1: "page_adds DBP_NAME (d_names d) page = Some p1"
    "page_shape p1 (set_field DBP_NAME (d_names d) d0)" "apos p1 = 0" using new(5) by auto
  define d1 where "d1 = set_field DBP_NAME (d_names d) d0"
  have "\<exists>p'. page_adds DBP_SECT (d_sects d) p1 = Some p' \<and>
      page_shape p' (set_field DBP_SECT ([] @ d_sects d) d1) \<and> apos p' = apos p1"
    by (rule page_adds_ok [OF p1(2) [folded d1_def]])
       (use ok sz in \<open>auto simp: d1_def d0_def new_page_data_def field_of_def set_field_def page_data_ok_def
          strs_ok_def page_data_set_def shp shm dbp_defs\<close>)
  then obtain p2 where p2: "page_adds DBP_SECT (d_sects d) p1 = Some p2"
    "page_shape p2 (set_field DBP_SECT (d_sects d) d1)" "apos p2 = 0" using p1(3) by auto
  define d2 where "d2 = set_field DBP_SECT (d_sects d) d1"
  have "\<exists>p3. page_adds DBP_ARCH more p2 = Some p3 \<and> page_shape p3 (d2\<lparr>d_archs := d_archs d\<rparr>) \<and> apos p3 = 0"
  proof (cases "d_archs d")
    case None
    then have "more = []" "d2\<lparr>d_archs := None\<rparr> = d2"
      using arch(3) by (simp_all add: d2_def d1_def d0_def new_page_data_def set_field_def dbp_defs)
    then show ?thesis using p2 None by (simp add: d2_def)
  next
    case (Some as)
    then obtain a where a: "arch = Some a" "a \<noteq> []" "as = a # more" using arch(4) by auto
    then have fo: "field_of DBP_ARCH d2 = Some [a]"
      by (cases a) (auto simp: field_of_def d2_def d1_def d0_def new_page_data_def set_field_def dbp_defs)
    have "\<exists>p'. page_adds DBP_ARCH more p2 = Some p' \<and>
        page_shape p' (set_field DBP_ARCH ([a] @ more) d2) \<and> apos p' = apos p2"
    proof (rule page_adds_ok [OF p2(2) [folded d2_def] fo])
      show "\<forall>s \<in> set ([a] @ more). cstring s \<and> s \<noteq> []" using ok(1) Some a by (auto simp: page_data_ok_def strs_ok_def)
      show "distinct (map (shown DBP_ARCH) ([a] @ more))" using ok(2) Some a shm [of DBP_ARCH] shp [of DBP_ARCH] by (simp add: page_data_set_def dbp_defs)
      show "length ([a] @ more) < 2 ^ 29" using sz(4) [OF Some] a by simp
    qed (simp add: shown_def dbp_defs)
    then show ?thesis using p2(3) Some a by (auto simp: set_field_def dbp_defs)
  qed
  then obtain p3 where p3: "page_adds DBP_ARCH more p2 = Some p3" "page_shape p3 (d2\<lparr>d_archs := d_archs d\<rparr>)"
    "apos p3 = 0" by blast
  have "\<exists>p'. page_adds DBP_FILE fs p3 = Some p' \<and>
      page_shape p' (set_field DBP_FILE ([f] @ fs) (d2\<lparr>d_archs := d_archs d\<rparr>)) \<and> apos p' = apos p3"
  proof (rule page_adds_ok [OF p3(2)])
    show "field_of DBP_FILE (d2\<lparr>d_archs := d_archs d\<rparr>) = Some [f]"
      by (simp add: field_of_def d2_def d1_def d0_def new_page_data_def set_field_def dbp_defs cp)
    show "\<forall>s \<in> set ([f] @ fs). cstring s \<and> s \<noteq> []" using f by simp
    show "\<forall>s \<in> set fs. shown DBP_FILE s = s" using ok(2) f(1) by (simp add: page_data_set_def shown_def)
    have "shown DBP_FILE = strip_form" by (rule ext) (simp add: shown_def)
    moreover have "distinct (map strip_form (d_files d))" using ok(2) unfolding page_data_set_def by blast
    ultimately show "distinct (map (shown DBP_FILE) ([f] @ fs))" using f(1) by simp
    show "length ([f] @ fs) < 2 ^ 29" using sz(3) by simp
  qed
  then obtain p4 where p4: "page_adds DBP_FILE fs p3 = Some p4"
    "page_shape p4 (set_field DBP_FILE (f # fs) (d2\<lparr>d_archs := d_archs d\<rparr>))" "apos p4 = 0" using p3(3) by auto
  have "set_field DBP_FILE (f # fs) (d2\<lparr>d_archs := d_archs d\<rparr>) = d"
    using f(1) by (cases d) (simp add: d2_def d1_def d0_def new_page_data_def set_field_def dbp_defs)
  then have "page_shape p4 d" using p4(2) by simp
  moreover have "read_page db ip D = Some (D\<lparr>pages := put_entry ps' (length pgs) p4\<rparr>)"
    using view(1) arch(1,2) strs l rf(2) new(1) ep p1(1) p2(1) p3(1) p4(1)
    by (simp add: read_page_def)
  moreover have "plain (put_entry ps' (length pgs) p4) (pgs @ [p4])"
    using plain_put [OF new(2), of "length pgs" p4] by (simp add: put_entry_def)
  moreover have "grows (put_entry ps' (length pgs) p4) n" using new(3) by (simp add: grows_def)
  ultimately show ?thesis using p4(3) by auto
qed


lemma read_pages_ok:
  assumes views: "\<forall>k < length ds. \<exists>p. dbm_page_get db (int k) = Some p \<and> page_view p (ds ! k)"
    and ok: "\<forall>d \<in> set ds. page_data_ok d \<and> page_data_set d"
    and D: "plain (pages D) []" "grows (pages D) n" "n < 2 ^ 30" and m: "m \<le> length ds" "length ds < 2 ^ 29"
  shows "\<exists>D' pgs. read_pages db m D = Some D' \<and> macros D' = macros D \<and> heap D' = heap D \<and>
     plain (pages D') pgs \<and> grows (pages D') n \<and> list_all2 page_shape pgs (take m ds) \<and> (\<forall>p \<in> set pgs. apos p = 0)"
  using m(1)
proof (induction m)
  case 0
  then show ?case using D by simp
next
  case (Suc m)
  then obtain D' pgs where D': "read_pages db m D = Some D'" "macros D' = macros D" "heap D' = heap D"
     "plain (pages D') pgs" "grows (pages D') n" "list_all2 page_shape pgs (take m ds)" "\<forall>p \<in> set pgs. apos p = 0"
    by auto
  have "m < length ds" using Suc.prems by simp
  then obtain p where p: "dbm_page_get db (int m) = Some p" "page_view p (ds ! m)"
    using views by blast
  have l: "length pgs = m" using D'(6) Suc.prems by (auto dest: list_all2_lengthD)
  have "ds ! m \<in> set ds" using Suc.prems by simp
  then obtain D'' page where "read_page db (int m) D' = Some D''" "macros D'' = macros D'" "heap D'' = heap D'"
     "plain (pages D'') (pgs @ [page])" "grows (pages D'') n" "page_shape page (ds ! m)" "apos page = 0"
    using read_page_ok [OF p _ _ D'(4,5) D(3)] ok l m(2) Suc.prems by auto
  moreover from this have "list_all2 page_shape (pgs @ [page]) (take (Suc m) ds)"
    using D'(6) Suc.prems by (simp add: take_Suc_conv_app_nth list_all2_appendI)
  ultimately show ?case
    using D' by (intro exI [of _ D''] exI [of _ "pgs @ [page]"]) auto
qed

subsection \<open>Reading the macro tables into memory\<close>

text \<open>The state while table \<open>im\<close> is being read and its first \<open>iv\<close> values have been.\<close>

definition part :: "table_data list \<Rightarrow> nat \<Rightarrow> nat \<Rightarrow> nat \<Rightarrow> table_data" where
  "part ts im iv j = (if j < im then ts ! j else if j = im then take iv (ts ! j) else [])"

definition reading :: "table_data list \<Rightarrow> nat \<Rightarrow> nat \<Rightarrow> dba \<Rightarrow> bool" where
  "reading ts im iv D \<longleftrightarrow>
     (\<exists>hs. plain (macros D) hs \<and> length hs = MACRO_MAX \<and> tables_ok (eu (pages D)) (heap D) hs \<and>
        (\<forall>j < MACRO_MAX. tab_map (heap D) (hs ! j) = map_of (part ts im iv j) \<and>
           ohash_room (hs ! j) (length (ts ! j) - length (part ts im iv j))))"

definition table_sorted :: "table_data \<Rightarrow> bool" where
  "table_sorted t \<longleftrightarrow> sorted_wrt (\<lambda>x y. strcmp x y \<le> 0) (map fst t) \<and> distinct (map fst t)"

lemma reading_next: "im < MACRO_MAX \<Longrightarrow> iv = length (ts ! im) \<Longrightarrow> reading ts im iv D \<longleftrightarrow> reading ts (Suc im) 0 D"
proof -
  assume "im < MACRO_MAX" "iv = length (ts ! im)"
  then have "part ts im iv j = part ts (Suc im) 0 j" for j
    by (cases "j = im") (auto simp: part_def)
  then show ?thesis by (simp add: reading_def)
qed

lemma map_of_snoc: "v \<notin> fst ` set xs \<Longrightarrow> map_of (xs @ [(v, ks)]) = (map_of xs)(v \<mapsto> ks)"
proof
  fix w
  assume v: "v \<notin> fst ` set xs"
  then have "map_of xs v = None" by (simp add: map_of_eq_None_iff)
  then show "map_of (xs @ [(v, ks)]) w = ((map_of xs)(v \<mapsto> ks)) w"
    by (auto simp: map_add_def split: option.splits)
qed

lemma read_macro_ok:
  assumes f: "db_file db ds ts" and ok: "contents_ok ds ts" "\<forall>t \<in> set ts. table_sorted t"
    and im: "im < MACRO_MAX" and iv: "iv < length (ts ! im)" and r: "reading ts im iv D"
    and pgs: "plain (pages D) pgs" "length pgs = length ds" "20 * int (length ds) + 20 < 2147483648"
    and small: "\<forall>t \<in> set ts. \<forall>(v, ks) \<in> set t. length ks < 2 ^ 29"
  shows "\<exists>D'. read_macro db im (int iv) D = Some D' \<and> pages D' = pages D \<and> reading ts im (Suc iv) D'"
proof -
  define v where "v = fst (ts ! im ! iv)"
  define ks where "ks = snd (ts ! im ! iv)"
  have vks: "ts ! im ! iv = (v, ks)" by (simp add: v_def ks_def)
  have lt: "length ts = MACRO_MAX" "ts ! im \<in> set ts" using ok(1) im by (simp_all add: contents_ok_def)
  have mem: "(v, ks) \<in> set (ts ! im)" using iv vks by (metis nth_mem)
  have tok: "cstring v" "ks \<noteq> []" "\<forall>k \<in> set ks. k < length ds" "length ks < 2 ^ 29"
    using ok(1) mem lt(2) small unfolding contents_ok_def table_ok_def by blast+
  have new: "v \<notin> fst ` set (take iv (ts ! im))"
  proof -
    have "distinct (map fst (take (Suc iv) (ts ! im)))"
      using ok(2) lt(2) by (simp add: table_sorted_def take_map [symmetric])
    then show ?thesis using iv vks by (simp add: take_Suc_conv_app_nth)
  qed
  obtain hs where hs: "plain (macros D) hs" "length hs = MACRO_MAX" "tables_ok (eu (pages D)) (heap D) hs"
    "\<forall>j < MACRO_MAX. tab_map (heap D) (hs ! j) = map_of (part ts im iv j) \<and>
       ohash_room (hs ! j) (length (ts ! j) - length (part ts im iv j))"
    using r by (auto simp: reading_def)
  have tm: "tab_map (heap D) (hs ! im) = map_of (take iv (ts ! im))"
    using hs(4) im by (simp add: part_def)
  then have old: "old_refs (heap D) (hs ! im) v = []"
    using new by (simp add: old_refs_def map_of_eq_None_iff split: option.splits)
       (metis map_of_eq_None_iff option.distinct(1))
  have "length (part ts im iv im) = iv" using iv by (simp add: part_def)
  then have "ohash_room (hs ! im) (length (ts ! im) - iv)" using hs(4) im by metis
  then have room: "ohash_room (hs ! im) (Suc (length (ts ! im) - Suc iv))" using iv by (simp add: Suc_diff_Suc)
  have eu: "eu (pages D) = length ds" using pgs by (simp add: plain_def)
  obtain D' h where D': "dba_macro_new D im v (map (\<lambda>k. int (20 + 20 * k)) ks) = Some D'" "pages D' = pages D"
    "plain (macros D') (hs[im := h])" "tables_ok (eu (pages D)) (heap D') (hs[im := h])"
    "tab_map (heap D') h = (tab_map (heap D) (hs ! im))(v \<mapsto> ks)"
    "\<forall>j < length hs. j \<noteq> im \<longrightarrow> tab_map (heap D') (hs ! j) = tab_map (heap D) (hs ! j)"
    "ohash_room h (length (ts ! im) - Suc iv)"
    using dba_macro_new_ok [OF hs(1) _ hs(3) tok(1) room tok(2) _ pgs(1)] old hs(2) im eu tok(3,4) pgs(2,3) by auto
  obtain l i where li: "dbm_macro_get db im (int iv) = Some (Some l, Some i)" "cstr_at l = Some v"
    "read_ints (mem db) i = Some (map (\<lambda>k. int (20 + 20 * k)) ks)"
    using dbm_macro_get_view [OF f ok(1) im iv] by (auto simp: v_def ks_def)
  have "read_macro db im (int iv) D = Some D'" using li D'(1) by (simp add: read_macro_def)
  moreover have "reading ts im (Suc iv) D'"
  proof -
    have p: "part ts im (Suc iv) im = part ts im iv im @ [(v, ks)]"
      using iv vks by (simp add: part_def take_Suc_conv_app_nth)
    have q: "part ts im (Suc iv) j = part ts im iv j" if "j \<noteq> im" for j using that by (simp add: part_def)
    have "tab_map (heap D') (hs[im := h] ! j) = map_of (part ts im (Suc iv) j) \<and>
       ohash_room (hs[im := h] ! j) (length (ts ! j) - length (part ts im (Suc iv) j))" if j: "j < MACRO_MAX" for j
    proof (cases "j = im")
      case True
      have "map_of (part ts im iv im @ [(v, ks)]) = (map_of (part ts im iv im))(v \<mapsto> ks)"
        using new by (intro map_of_snoc) (simp add: part_def)
      then have "tab_map (heap D') h = map_of (part ts im (Suc iv) im)"
        unfolding p using D'(5) tm by (simp add: part_def)
      moreover have "length (part ts im (Suc iv) im) = Suc iv" using iv by (simp add: part_def)
      ultimately show ?thesis using True hs(2) im D'(7) by simp
    next
      case False
      then show ?thesis using hs(2,4) D'(6) j q by simp
    qed
    then show ?thesis
      unfolding reading_def using D'(2-4) hs(2) by (intro exI [of _ "hs[im := h]"]) simp
  qed
  ultimately show ?thesis using D'(2) by blast
qed

lemma read_values_ok:
  assumes "db_file db ds ts" "contents_ok ds ts" "\<forall>t \<in> set ts. table_sorted t" "im < MACRO_MAX"
    and "n \<le> length (ts ! im)" "reading ts im 0 D"
    and "plain (pages D) pgs" "length pgs = length ds" "20 * int (length ds) + 20 < 2147483648"
    and "\<forall>t \<in> set ts. \<forall>(v, ks) \<in> set t. length ks < 2 ^ 29"
  shows "\<exists>D'. read_values db im n D = Some D' \<and> pages D' = pages D \<and> reading ts im n D'"
  using assms(5)
proof (induction n)
  case 0
  then show ?case using assms(6) by simp
next
  case (Suc n)
  then obtain D' where D': "read_values db im n D = Some D'" "pages D' = pages D" "reading ts im n D'" by auto
  have "plain (pages D') pgs" using D'(2) assms(7) by simp
  then obtain D'' where "read_macro db im (int n) D' = Some D''" "pages D'' = pages D'" "reading ts im (Suc n) D''"
    using read_macro_ok [OF assms(1-4) _ D'(3) _ assms(8-10)] Suc.prems by auto
  then show ?case using D' by simp
qed

lemma read_macros_ok:
  assumes "db_file db ds ts" "contents_ok ds ts" "\<forall>t \<in> set ts. table_sorted t"
    and "im \<le> MACRO_MAX" "reading ts 0 0 D"
    and "plain (pages D) pgs" "length pgs = length ds" "20 * int (length ds) + 20 < 2147483648"
    and "\<forall>t \<in> set ts. \<forall>(v, ks) \<in> set t. length ks < 2 ^ 29"
  shows "\<exists>D'. read_macros db im D = Some D' \<and> pages D' = pages D \<and> reading ts im 0 D'"
  using assms(4)
proof (induction im)
  case 0
  then show ?case using assms(5) by simp
next
  case (Suc im)
  then obtain D' where D': "read_macros db im D = Some D'" "pages D' = pages D" "reading ts im 0 D'" by auto
  have im: "im < MACRO_MAX" using Suc.prems by simp
  have pl: "plain (pages D') pgs" using D'(2) assms(6) by simp
  obtain D'' where D'': "read_values db im (length (ts ! im)) D' = Some D''" "pages D'' = pages D'"
    "reading ts im (length (ts ! im)) D''"
    using read_values_ok [OF assms(1-3) im order_refl D'(3) pl assms(7-9)] by blast
  have "length ts = MACRO_MAX" using assms(2) by (simp add: contents_ok_def)
  then have "dbm_macro_count db im = Some (int (length (ts ! im)))"
    using assms(1) im by (simp add: dbm_macro_count_def db_file_def Let_def)
  then show ?case using D' D'' reading_next [OF im refl] by simp
qed


subsection \<open>The tables that have been read\<close>

lemma rank_upt: "k < n \<Longrightarrow> rank [0..<n] k = k"
proof -
  assume k: "k < n"
  then have "rank [0..<n] k < n \<and> [0..<n] ! rank [0..<n] k = k" using rank_nth [of k "[0..<n]"] by simp
  then show ?thesis by (metis add_0 nth_upt)
qed

lemma live_refs_upt: "\<forall>x \<in> set xs. x < n \<Longrightarrow> live_refs [0..<n] xs = xs"
  by (induction xs) (auto simp: live_refs_def rank_upt)

lemma entries_facts:
  assumes t: "tables_ok n hp hs" and i: "i < length hs"
  defines "es \<equiv> ohash_iter (hsize (hs ! i)) (hs ! i) 0"
  shows "set es = {e. entry_in (hs ! i) e}" "distinct (map mvalue es)" "comparison compare_entries (set es)"
proof -
  have ok: "ohash_ok mvalue (hs ! i)" using t i by (simp add: tables_ok_def)
  show s: "set es = {e. entry_in (hs ! i) e}" unfolding es_def ohash_iter_facts(3) [OF ok] entry_in_def ..
  show d: "distinct (map mvalue es)" unfolding es_def by (rule ohash_iter_facts(2) [OF ok])
  show "comparison compare_entries (set es)"
    using tables_entry [OF t i] s d by (intro compare_entries_comparison) (auto simp: distinct_map)
qed

lemma sorted_entries:
  assumes "comparison compare_entries D" "set es \<subseteq> D" "distinct (map mvalue es)"
  shows "sorted_wrt (\<lambda>x y. strcmp x y \<le> 0) (map mvalue (qsort compare_entries es))"
    "distinct (map mvalue (qsort compare_entries es))"
proof -
  have "sorted_wrt (\<lambda>x y. compare_entries x y \<le> 0) (qsort compare_entries es)"
    by (rule comparison.qsort_sorted [OF assms(1,2)])
  then show "sorted_wrt (\<lambda>x y. strcmp x y \<le> 0) (map mvalue (qsort compare_entries es))"
    by (simp add: sorted_wrt_map compare_entries_def)
  show "distinct (map mvalue (qsort compare_entries es))"
    using assms(3) by (metis mset_map mset_qsort distinct_count_atmost_1 set_mset_mset)
qed

lemma macros_are_ok:
  assumes "dba_macros_are d ts"
  shows "length ts = MACRO_MAX" "\<forall>t \<in> set ts. table_sorted t"
    "\<forall>t \<in> set ts. table_ok (length (foreach_idx (pages d))) t"
proof -
  let ?is = "foreach_idx (pages d)" and ?hp = "heap d"
  obtain hs where hs: "length hs = MACRO_MAX" "tables_ok (eu (pages d)) ?hp hs" "ts = map (table_of ?is ?hp) hs"
    using assms by (auto simp: dba_macros_are_def)
  show "length ts = MACRO_MAX" using hs by simp
  have "table_sorted t \<and> table_ok (length ?is) t" if "t \<in> set ts" for t
  proof -
    have "t \<in> table_of ?is ?hp ` set hs" using that hs(3) by simp
    then obtain h where h: "h \<in> set hs" "t = table_of ?is ?hp h" by blast
    then obtain i where i: "i < length hs" "t = table_of ?is ?hp (hs ! i)"
      by (metis in_set_conv_nth)
    define es where "es = ohash_iter (hsize (hs ! i)) (hs ! i) 0"
    define P where "P = (\<lambda>e :: macro_entry. live_refs ?is (foreach (?hp ! mpages e)) \<noteq> [])"
    note ef = entries_facts [OF hs(2) i(1), folded es_def]
    have fd: "distinct (map mvalue (filter P es))" using ef(2) by (rule distinct_map_filter)
    have fst: "map fst t = map mvalue (qsort compare_entries (filter P es))"
      by (simp add: i(2) table_of_def es_def P_def comp_def)
    have "table_sorted t"
      unfolding table_sorted_def fst using sorted_entries [OF ef(3) _ fd] by auto
    moreover have "table_ok (length ?is) t"
      unfolding table_ok_def
    proof (intro ballI, clarify)
      fix v ks assume "(v, ks) \<in> set t"
      then obtain e where e: "e \<in> set es" "P e" "v = mvalue e" "ks = live_refs ?is (foreach (?hp ! mpages e))"
        by (auto simp: i(2) table_of_def es_def P_def)
      then have "cstring v" using tables_entry [OF hs(2) i(1)] ef(1) by auto
      moreover have "ks \<noteq> []" using e(2,4) by (simp add: P_def)
      moreover have "\<forall>k \<in> set ks. k < length ?is" using e(4) rank_nth by (auto simp: live_refs_def)
      ultimately show "cstring v \<and> ks \<noteq> [] \<and> (\<forall>k \<in> set ks. k < length ?is)" by simp
    qed
    ultimately show ?thesis by simp
  qed
  then show "\<forall>t \<in> set ts. table_sorted t" "\<forall>t \<in> set ts. table_ok (length ?is) t" by auto
qed

lemma table_of_tab_map:
  assumes t: "tables_ok n hp hs" and i: "i < length hs" and m: "tab_map hp (hs ! i) = map_of t"
    and s: "table_sorted t" and ok: "table_ok n t"
  shows "table_of [0..<n] hp (hs ! i) = t"
proof -
  define es where "es = ohash_iter (hsize (hs ! i)) (hs ! i) 0"
  note ef = entries_facts [OF t i, folded es_def]
  have okh: "ohash_ok mvalue (hs ! i)" using t i by (simp add: tables_ok_def)
  have dt: "distinct (map fst t)" using s by (simp add: table_sorted_def)
  have refs: "live_refs [0..<n] (foreach (hp ! mpages e)) = foreach (hp ! mpages e)" if "e \<in> set es" for e
    using tables_entry [OF t i] ef(1) that by (intro live_refs_upt) auto
  have mem: "(mvalue e, foreach (hp ! mpages e)) \<in> set t" if "e \<in> set es" for e
    using fun_cong [OF m, of "mvalue e"] that ef(1) by (auto simp: tab_map_def entry_in_def intro: map_of_SomeD [OF sym])
  have ne: "foreach (hp ! mpages e) \<noteq> []" if "e \<in> set es" for e
    using mem [OF that] ok by (auto simp: table_ok_def)
  have "filter (\<lambda>e. live_refs [0..<n] (foreach (hp ! mpages e)) \<noteq> []) es = es"
    using refs ne by (simp add: filter_id_conv)
  then have tab: "table_of [0..<n] hp (hs ! i) =
      map (\<lambda>e. (mvalue e, foreach (hp ! mpages e))) (qsort compare_entries es)"
    using refs by (simp add: table_of_def es_def [symmetric])
  define qs where "qs = qsort compare_entries es"
  have qs: "set qs = set es" by (simp add: qs_def)
  have keys: "map mvalue qs = map fst t"
  proof (rule strcmp.sorted_unique)
    have "distinct (map mvalue qs)" using sorted_entries(2) [OF ef(3) _ ef(2)] by (simp add: qs_def)
    moreover have "set (map mvalue qs) = set (map fst t)"
    proof
      show "set (map mvalue qs) \<subseteq> set (map fst t)" using mem qs by force
      show "set (map fst t) \<subseteq> set (map mvalue qs)"
      proof
        fix v assume "v \<in> set (map fst t)"
        then obtain ks where "map_of t v = Some ks" by (metis list.set_map map_of_eq_None_iff not_None_eq)
        then obtain e where "ohash_map mvalue (hs ! i) v = Some e"
          using fun_cong [OF m, of v] by (auto simp: tab_map_def)
        then have "e \<in> set es \<and> mvalue e = v" using ohash_map_key [OF okh] ef(1) by (auto simp: entry_in_def)
        then show "v \<in> set (map mvalue qs)" using qs by force
      qed
    qed
    ultimately show "mset (map mvalue qs) = mset (map fst t)"
      using dt by (metis set_eq_iff_mset_eq_distinct)
    show "set (map mvalue qs) \<subseteq> Collect cstring" using tables_entry [OF t i] ef(1) qs by auto
    show "sorted_wrt (\<lambda>x y. strcmp x y \<le> 0) (map mvalue qs)"
      using sorted_entries(1) [OF ef(3) _ ef(2)] by (simp add: qs_def)
    show "sorted_wrt (\<lambda>x y. strcmp x y \<le> 0) (map fst t)" using s by (simp add: table_sorted_def)
  qed
  have "map (\<lambda>e. (mvalue e, foreach (hp ! mpages e))) qs = t"
  proof (rule nth_equalityI)
    show len: "length (map (\<lambda>e. (mvalue e, foreach (hp ! mpages e))) qs) = length t"
      using keys by (metis length_map)
    fix k assume "k < length (map (\<lambda>e. (mvalue e, foreach (hp ! mpages e))) qs)"
    then have k: "k < length qs" "k < length t" using len by simp_all
    have "mvalue (qs ! k) = fst (t ! k)" using keys k by (metis nth_map)
    moreover have "(mvalue (qs ! k), foreach (hp ! mpages (qs ! k))) \<in> set t" using mem qs k by (metis nth_mem)
    moreover have "(fst (t ! k), snd (t ! k)) \<in> set t" using k by simp
    ultimately show "map (\<lambda>e. (mvalue e, foreach (hp ! mpages e))) qs ! k = t ! k"
      using dt k by (auto simp: eq_key_imp_eq_value prod_eq_iff)
  qed
  then show ?thesis using tab by (simp add: qs_def)
qed


subsection \<open>Sizes\<close>

lemma length_concat_mem: "x \<in> set xs \<Longrightarrow> length x \<le> length (concat xs)"
  by (induction xs) auto

lemma table_in_file:
  assumes "i < length ts"
  shows "\<exists>b. length (macro_bytes b (addr_table (ts ! i))) \<le> length (db_bytes ds (map addr_table ts))"
proof -
  let ?mts = "map addr_table ts" and ?b = "table_pos ds (map addr_table ts)"
  let ?blks = "table_blocks ?b ?mts"
  have "?blks ! i = macro_bytes (offs ?b ?blks ! i) (?mts ! i)" using assms by (intro table_blocks_nth) simp
  moreover have "?blks ! i \<in> set ?blks" using assms by simp
  then have "length (?blks ! i) \<le> length (concat ?blks)" by (rule length_concat_mem)
  moreover have "length (concat ?blks) \<le> length (db_bytes ds ?mts)"
    by (simp add: db_bytes_def macros_bytes_def Let_def)
  ultimately show ?thesis
    using assms by (intro exI [of _ "offs ?b ?blks ! i"]) simp
qed

lemma table_sizes:
  assumes size: "int (length (db_bytes ds (map addr_table ts))) < INT_MAX" and i: "i < length ts"
  shows "length (ts ! i) < 2 ^ 28" "\<forall>(v, ks) \<in> set (ts ! i). length ks < 2 ^ 29"
proof -
  obtain b where b: "length (macro_bytes b (addr_table (ts ! i))) \<le> length (db_bytes ds (map addr_table ts))"
    using table_in_file [OF i] by blast
  then have l: "length (macro_bytes b (addr_table (ts ! i))) < 2147483647"
    using size by (simp add: int_limits)
  then show "length (ts ! i) < 2 ^ 28"
    by (simp add: macro_bytes_def length_pair_bytes addr_table_def)
  show "\<forall>(v, ks) \<in> set (ts ! i). length ks < 2 ^ 29"
  proof clarify
    fix v ks assume m: "(v, ks) \<in> set (ts ! i)"
    let ?as = "map (\<lambda>k. int (20 + 20 * k)) ks"
    have lb: "length (concat (map be32 xs)) = 4 * length xs" for xs by (induction xs) auto
    have "concat (map be32 ?as) @ be32 0 \<in> set (addr_blocks (addr_table (ts ! i)))"
      using m by (force simp: addr_blocks_def addr_table_def)
    from length_concat_mem [OF this] show "length ks < 2 ^ 29"
      using l by (simp add: macro_bytes_def lb del: map_map)
  qed
qed

lemma sorted_pages:
  assumes "page_data_ok (sort_page d)"
  shows "sort_page (sort_page d) = sort_page d"
proof -
  have n: "set (d_names d) \<subseteq> {s. cstring s \<and> s \<noteq> []}" "set (d_sects d) \<subseteq> Collect cstring"
    "\<forall>as. d_archs d = Some as \<longrightarrow> set as \<subseteq> Collect cstring"
    using assms by (auto simp: page_data_ok_def strs_ok_def)
  have "d_names (sort_page (sort_page d)) = d_names (sort_page d)"
    "d_sects (sort_page (sort_page d)) = d_sects (sort_page d)"
    "d_archs (sort_page (sort_page d)) = d_archs (sort_page d)"
    using n names.qsort_idem strings.qsort_idem by (auto simp: option.map_comp intro: option.map_cong0 split: option.splits)
  then show ?thesis by (simp add: sort_defs)
qed

lemma contents_okI:
  assumes "dba_pages_are d ds" "dba_macros_are d ts" "\<forall>p \<in> set ds. page_data_ok p"
  shows "contents_ok ds ts" "length (foreach_idx (pages d)) = length ds"
proof -
  obtain ds0 where "list_all2 page_shape (foreach (pages d)) ds0" "ds = map sort_page ds0"
    using assms(1) by (auto simp: dba_pages_are_def)
  then show l: "length (foreach_idx (pages d)) = length ds"
    using list_all2_lengthD by (fastforce simp: foreach_def)
  show "contents_ok ds ts"
    using macros_are_ok [OF assms(2)] assms(3) by (simp add: contents_ok_def l)
qed

lemma dba_read_bytes:
  assumes ok: "contents_ok ds ts" "\<forall>t \<in> set ts. table_sorted t" "\<forall>d \<in> set ds. page_data_set d \<and> sort_page d = d"
    and size: "int (length (db_bytes ds (map addr_table ts))) < INT_MAX"
  shows "\<exists>d. dba_read pgsz (db_bytes ds (map addr_table ts)) = Some (Some d) \<and>
     dba_pages_are d ds \<and> dba_macros_are d ts"
proof -
  obtain db where db: "dbm_open pgsz (db_bytes ds (map addr_table ts)) = Some (Some db)" "db_file db ds ts"
    using dbm_open_bytes [OF ok(1) size] by blast
  have np: "dbm_page_count db = int (length ds)"
    using db(2) by (simp add: dbm_page_count_def db_file_def Let_def)
  have "length (pages_bytes 16 ds) \<le> length (db_bytes ds (map addr_table ts))" by (simp add: db_bytes_def)
  then have ld: "20 * int (length ds) + 20 < 2147483648"
    using size by (simp add: pages_bytes_def length_page_ptrs int_limits db_bytes_def)
  have lt: "length ts = MACRO_MAX" using ok(1) by (simp add: contents_ok_def)
  define n where "n = (if dbm_page_count db < 128 then 128 else dbm_page_count db)"
  have n: "0 < n" "n < 2 ^ 30" using np ld by (auto simp: n_def)
  obtain d0 where d0: "dba_new n = Some d0" "plain (pages d0) []" "grows (pages d0) n"
    "plain (macros d0) (replicate MACRO_MAX (ohash_init 4))" "heap d0 = []"
    using dba_new_ok [OF n(1)] by blast
  have views: "\<forall>k < length ds. \<exists>p. dbm_page_get db (int k) = Some p \<and> page_view p (ds ! k)"
  proof (intro allI impI)
    fix k assume k: "k < length ds"
    then have "page_data_ok (ds ! k)" using ok(1) by (simp add: contents_ok_def)
    then show "\<exists>p. dbm_page_get db (int k) = Some p \<and> page_view p (ds ! k)"
      using dbm_page_get_view [OF db(2) k] by blast
  qed
  have pok: "\<forall>d \<in> set ds. page_data_ok d \<and> page_data_set d" using ok by (simp add: contents_ok_def)
  have "length ds < 2 ^ 29" using ld by simp
  then obtain d1 pgs where d1: "read_pages db (length ds) d0 = Some d1" "macros d1 = macros d0" "heap d1 = heap d0"
    "plain (pages d1) pgs" "list_all2 page_shape pgs ds" "\<forall>p \<in> set pgs. apos p = 0"
    using read_pages_ok [OF views pok d0(2,3) n(2) order_refl] by auto
  have lp: "length pgs = length ds" using d1(5) by (rule list_all2_lengthD)
  have "reading ts 0 0 d1"
    unfolding reading_def
  proof (intro exI conjI allI impI)
    show "plain (macros d1) (replicate MACRO_MAX (ohash_init 4))" using d0(4) d1(2) by simp
    show "tables_ok (eu (pages d1)) (heap d1) (replicate MACRO_MAX (ohash_init 4))"
      unfolding d1(3) d0(5) by (rule tables_ok_init)
    fix j assume j: "j < MACRO_MAX"
    show "tab_map (heap d1) (replicate MACRO_MAX (ohash_init 4) ! j) = map_of (part ts 0 0 j)"
      using j by (simp add: part_def tab_map_def ohash_init_ok(2) fun_eq_iff)
    have "length (ts ! j) < 2 ^ 28" using table_sizes(1) [OF size, of j] j lt by simp
    then show "ohash_room (replicate MACRO_MAX (ohash_init 4) ! j) (length (ts ! j) - length (part ts 0 0 j))"
      using j by (simp add: ohash_room_def ohash_init_def MINSIZE_def Let_def)
  qed simp
  moreover have "\<forall>t \<in> set ts. \<forall>(v, ks) \<in> set t. length ks < 2 ^ 29"
    using table_sizes(2) [OF size] by (metis in_set_conv_nth)
  ultimately obtain d2 where d2: "read_macros db MACRO_MAX d1 = Some d2" "pages d2 = pages d1" "reading ts MACRO_MAX 0 d2"
    using read_macros_ok [OF db(2) ok(1,2) order_refl _ d1(4) lp ld] by blast
  have "dba_read pgsz (db_bytes ds (map addr_table ts)) = Some (Some d2)"
    using db(1) d0(1) d1(1) d2(1) np by (simp add: dba_read_def n_def)
  moreover have idx: "foreach_idx (pages d2) = [0..<length ds]"
    using plain_foreach_idx [OF d1(4)] d2(2) lp by simp
  have "dba_pages_are d2 ds"
    unfolding dba_pages_are_def idx
  proof (intro conjI exI allI impI)
    show "array_ok (pages d2)" "None \<notin> set (ep (pages d2))" using d1(4) d2(2) by (auto simp: plain_def)
    show "list_all2 page_shape (foreach (pages d2)) ds" using d1(4,5) d2(2) by (simp add: plain_foreach)
    show "ds = map sort_page ds" using ok(3) by (simp add: map_idI)
    show "page_pos (pages d2) i = 0" if "i < eu (pages d2)" "i \<notin> set [0..<length ds]" for i
      using that d1(4) d2(2) lp by (simp add: plain_def)
  qed
  moreover have "dba_macros_are d2 ts"
  proof -
    obtain hs where hs: "plain (macros d2) hs" "length hs = MACRO_MAX" "tables_ok (eu (pages d2)) (heap d2) hs"
      "\<forall>j < MACRO_MAX. tab_map (heap d2) (hs ! j) = map_of (part ts MACRO_MAX 0 j)"
      using d2(3) by (auto simp: reading_def)
    have eu: "eu (pages d2) = length ds" using d1(4) d2(2) lp by (simp add: plain_def)
    have "ts = map (table_of [0..<length ds] (heap d2)) hs"
    proof (rule nth_equalityI)
      fix j assume "j < length ts"
      then have j: "j < MACRO_MAX" "j < length hs" "ts ! j \<in> set ts" using lt hs(2) by simp_all
      have "table_of [0..<length ds] (heap d2) (hs ! j) = ts ! j"
      proof (rule table_of_tab_map [OF _ j(2)])
        show "tables_ok (length ds) (heap d2) hs" using hs(3) eu by simp
        show "tab_map (heap d2) (hs ! j) = map_of (ts ! j)" using hs(4) j by (simp add: part_def)
        show "table_sorted (ts ! j)" "table_ok (length ds) (ts ! j)" using ok j by (auto simp: contents_ok_def)
      qed
      then show "ts ! j = map (table_of [0..<length ds] (heap d2)) hs ! j" using j by simp
    qed (simp add: lt hs(2))
    then show ?thesis using hs idx by (auto simp: dba_macros_are_def)
  qed
  ultimately show ?thesis by blast
qed

end
