(* ===== verification/Db_Correct.thy ===== *)
theory Db_Correct
  imports Db_Roundtrip
begin

section \<open>Correctness of the database\<close>

text \<open>A database with one page, for the witnesses.\<close>

definition sample_page :: page_data where
  "sample_page =
     \<lparr>d_names = [CHR 0x14 # ''ls'', CHR 0x10 # ''dir''], d_sects = [''1''], d_archs = None,
      d_desc = ''list directory contents'', d_files = [CHR 0x01 # ''man1/ls.1'']\<rparr>"

lemma sample_page_ok: "page_data_ok sample_page" "page_data_set sample_page" "sort_page sample_page = sample_page"
proof -
  show "page_data_ok sample_page" by (simp add: sample_page_def page_data_ok_def strs_ok_def cstring_def)
  show "page_data_set sample_page"
    by (simp add: sample_page_def page_data_set_def strip_form_def ord_of_def)
  show "sort_page sample_page = sample_page"
    by (simp add: sample_page_def sort_defs qsort_def compare_names_def ord_of_def)
qed

lemma empty_tables_length: "length (concat (table_blocks b (replicate n []))) \<le> 7 * n"
proof (induction n arbitrary: b)
  case (Suc n)
  have "length (pad4 k) \<le> 3" for k by (simp add: pad4_def less_Suc_eq_le [symmetric])
  then have "length (macro_bytes b []) \<le> 7"
    by (simp add: macro_bytes_def pair_bytes_def key_blocks_def addr_blocks_def key_pad_def)
  then show ?case using Suc.IH [of "b + length (macro_bytes b [])"] by simp
qed simp


lemma sample_contents:
  "contents_ok [sample_page] (replicate MACRO_MAX [])"
  "int (length (db_bytes [sample_page] (map addr_table (replicate MACRO_MAX [])))) < INT_MAX"
proof -
  show "contents_ok [sample_page] (replicate MACRO_MAX [])"
    using sample_page_ok(1) by (simp add: contents_ok_def table_ok_def)
  have pad: "length (pad4 k) \<le> 3" for k by (simp add: pad4_def less_Suc_eq_le [symmetric])
  have "length (page_strs [sample_page]) \<le> 100"
    by (simp add: page_strs_def blocks_defs sample_page_def list_bytes_def str_bytes_def arch_bytes_def)
  then have p: "length (pages_bytes b [sample_page]) \<le> 130" for b
    using pad [of "area0 b [sample_page] + length (page_strs [sample_page])"]
    by (simp add: pages_bytes_def length_page_ptrs)
  have lptr: "length (concat (map (\<lambda>p. be32 (int p)) ps)) = 4 * length ps" for ps
    by (induction ps) auto
  have "length (macros_bytes b (replicate MACRO_MAX [])) \<le> 500" for b
    using empty_tables_length [of "b + 4 + 4 * MACRO_MAX" MACRO_MAX]
    by (simp add: macros_bytes_def Let_def lptr MACRO_MAX_def)
  from this [of "macros_pos [sample_page]"] p [of 16]
  have "length (db_bytes [sample_page] (replicate MACRO_MAX [])) \<le> 1000"
    by (simp add: db_bytes_def)
  then show "int (length (db_bytes [sample_page] (map addr_table (replicate MACRO_MAX [])))) < INT_MAX"
    by (simp add: addr_table_def int_limits)
qed

lemma sample_db:
  "\<exists>d. dba_pages_are d [sample_page] \<and> dba_macros_are d (replicate MACRO_MAX [])"
  using dba_read_bytes [OF sample_contents(1) _ _ sample_contents(2), of 1] sample_page_ok
  by (auto simp: table_sorted_def)

text \<open>
  C1: a database written to disk can be opened, and every page and every macro value is found
  there again: for each page, the sorted names, sections and architectures, the description and
  the files, and for each value the addresses of its pages.\<close>

theorem dba_write_roundtrip:
  assumes "dba_pages_are d ds" "dba_macros_are d ts" "\<forall>p \<in> set ds. page_data_ok p"
    "int (length (db_bytes ds (map addr_table ts))) < INT_MAX"
  shows "\<exists>file db. dba_write d = Some file \<and> dbm_open pgsz file = Some (Some db) \<and>
     dbm_page_count db = int (length ds) \<and>
     (\<forall>k < length ds. \<exists>p. dbm_page_get db (int k) = Some p \<and> page_view p (ds ! k) \<and> paddr p = int (20 + 20 * k)) \<and>
     (\<forall>im < MACRO_MAX. dbm_macro_count db im = Some (int (length (ts ! im))) \<and>
        (\<forall>iv < length (ts ! im). \<exists>l i. dbm_macro_get db im (int iv) = Some (Some l, Some i) \<and>
           cstr_at l = Some (fst (ts ! im ! iv)) \<and>
           read_ints (mem db) i = Some (map (\<lambda>k. int (20 + 20 * k)) (snd (ts ! im ! iv)))))"
proof -
  have ok: "contents_ok ds ts" by (rule contents_okI [OF assms(1-3)])
  obtain db where db: "dbm_open pgsz (db_bytes ds (map addr_table ts)) = Some (Some db)" "db_file db ds ts"
    using dbm_open_bytes [OF ok assms(4)] by blast
  have "dbm_page_count db = int (length ds)"
    using db(2) by (simp add: dbm_page_count_def db_file_def Let_def)
  moreover have "\<exists>p. dbm_page_get db (int k) = Some p \<and> page_view p (ds ! k) \<and> paddr p = int (20 + 20 * k)"
    if "k < length ds" for k
    using dbm_page_get_view [OF db(2) that] assms(3) that by simp
  moreover have "dbm_macro_count db im = Some (int (length (ts ! im)))" if "im < MACRO_MAX" for im
    using that ok db(2) by (simp add: dbm_macro_count_def db_file_def Let_def contents_ok_def)
  ultimately show ?thesis
    using dba_write_bytes [OF assms(1,2,4)] db(1) dbm_macro_get_view [OF db(2) ok] by blast
qed

theorem dba_write_roundtrip_witness:
  "\<exists>d file db p. dba_write d = Some file \<and> dbm_open 4096 file = Some (Some db) \<and> dbm_page_count db = 1 \<and>
     dbm_page_get db 0 = Some p \<and> page_view p sample_page"
proof -
  obtain d where d: "dba_pages_are d [sample_page]" "dba_macros_are d (replicate MACRO_MAX [])"
    using sample_db by blast
  have "\<forall>p \<in> set [sample_page]. page_data_ok p" using sample_page_ok by simp
  from dba_write_roundtrip [OF d this sample_contents(2), of 4096] show ?thesis by fastforce
qed

text \<open>
  C2: reading a database file back into memory gives a database with the same contents, and
  writing that again gives the same file.\<close>

theorem dba_read_roundtrip:
  assumes "dba_pages_are d ds" "dba_macros_are d ts" "\<forall>p \<in> set ds. page_data_ok p \<and> page_data_set p"
    "int (length (db_bytes ds (map addr_table ts))) < INT_MAX"
  shows "\<exists>file d'. dba_write d = Some file \<and> dba_read pgsz file = Some (Some d') \<and>
     dba_pages_are d' ds \<and> dba_macros_are d' ts \<and> dba_write d' = Some file"
proof -
  have ok: "contents_ok ds ts" by (rule contents_okI(1) [OF assms(1,2)]) (use assms(3) in simp)
  obtain ds0 where "ds = map sort_page ds0" using assms(1) by (auto simp: dba_pages_are_def)
  then have "sort_page p = p" if "p \<in> set ds" for p using that assms(3) sorted_pages by auto
  then obtain d' where "dba_read pgsz (db_bytes ds (map addr_table ts)) = Some (Some d')"
    "dba_pages_are d' ds" "dba_macros_are d' ts"
    using dba_read_bytes [OF ok macros_are_ok(2) [OF assms(2)] _ assms(4)] assms(3) by blast
  then show ?thesis using dba_write_bytes [OF _ _ assms(4)] assms(1,2) by blast
qed

theorem dba_read_roundtrip_witness:
  "\<exists>d file d'. dba_pages_are d [sample_page] \<and> dba_write d = Some file \<and>
     dba_read 4096 file = Some (Some d') \<and> dba_write d' = Some file"
proof -
  obtain d where d: "dba_pages_are d [sample_page]" "dba_macros_are d (replicate MACRO_MAX [])"
    using sample_db by blast
  have "\<forall>p \<in> set [sample_page]. page_data_ok p \<and> page_data_set p" using sample_page_ok by simp
  from dba_read_roundtrip [OF d this sample_contents(2), of 4096] d(1) show ?thesis by blast
qed

end
