(* ===== verification/Db_Update.thy ===== *)
theory Db_Update
  imports Db_Memory
begin

section \<open>Updates of the database: \<open>dba_page_add\<close>, \<open>dba_page_alias\<close>, \<open>dba_macro_add\<close>\<close>

text \<open>
  Abstractly, each list of a page is a set of strings, the names of a page are a map from names
  to bit masks, and the macros are a map from values to lists of pages.  The operations of
  \<open>dba.c\<close> are the insertions of these sets and maps.
\<close>

subsection \<open>Names with masks\<close>

definition name_mask :: "string list \<Rightarrow> string \<Rightarrow> nat" where
  "name_mask ss n = (case find (\<lambda>e. tl e = n) ss of None \<Rightarrow> 0 | Some e \<Rightarrow> ord_of (hd e))"

definition names_ok :: "string list \<Rightarrow> bool" where
  "names_ok ss \<longleftrightarrow> (\<forall>e \<in> set ss. e \<noteq> [] \<and> cstring (tl e)) \<and> distinct (map tl ss)"

lemma alias_index_eq:
  "\<forall>e \<in> set ss. e \<noteq> [] \<and> cstring (tl e) \<Longrightarrow> cstring n \<Longrightarrow>
    alias_index ss n = Some (if n \<in> tl ` set ss then Some (length (takeWhile (\<lambda>e. tl e \<noteq> n) ss)) else None)"
proof (induction ss)
  case (Cons e es)
  then obtain c cs where "e = c # cs" "cstring cs" by (cases e) auto
  then show ?case using Cons strcmp_0 [of cs n] by auto
qed simp

lemma first_index:
  "n \<in> tl ` set ss \<Longrightarrow> length (takeWhile (\<lambda>e. tl e \<noteq> n) ss) < length ss \<and>
    tl (ss ! length (takeWhile (\<lambda>e. tl e \<noteq> n) ss)) = n"
  by (induction ss) auto

lemma name_mask_nth:
  "distinct (map tl ss) \<Longrightarrow> k < length ss \<Longrightarrow> tl (ss ! k) = n \<Longrightarrow> name_mask ss n = ord_of (hd (ss ! k))"
proof (induction ss arbitrary: k)
  case (Cons e es)
  then show ?case
  proof (cases k)
    case (Suc j)
    then have "n \<in> tl ` set es" using Cons.prems by auto
    then have "tl e \<noteq> n" using Cons.prems by auto
    then show ?thesis using Suc Cons by (simp add: name_mask_def)
  qed (simp add: name_mask_def)
qed simp

lemma name_mask_none: "n \<notin> tl ` set ss \<Longrightarrow> name_mask ss n = 0"
  by (induction ss) (auto simp: name_mask_def)

lemma name_mask_cong: "map tl ss = map tl ss' \<Longrightarrow> (\<And>k. k < length ss \<Longrightarrow> tl (ss ! k) = n \<Longrightarrow> ss ! k = ss' ! k) \<Longrightarrow>
    name_mask ss n = name_mask ss' n"
proof (induction ss arbitrary: ss')
  case (Cons e es)
  obtain e' es' where e': "ss' = e' # es'" "tl e' = tl e" "map tl es = map tl es'"
    using Cons.prems(1) by (cases ss') auto
  have "es ! k = es' ! k" if "k < length es" "tl (es ! k) = n" for k
    using Cons.prems(2) [of "Suc k"] that e' by simp
  then show ?case using Cons.IH [OF e'(3)] Cons.prems(2) [of 0] e' by (auto simp: name_mask_def)
qed simp

lemma name_mask_append: "name_mask (ss @ [e]) n = (if n \<in> tl ` set ss then name_mask ss n else if tl e = n then ord_of (hd e) else 0)"
  by (induction ss) (auto simp: name_mask_def)

lemma or_byte: "a < 256 \<Longrightarrow> b < 256 \<Longrightarrow> or a b < (256 :: nat)"
proof -
  assume "a < 256" "b < 256"
  then have "take_bit 8 a = a" "take_bit 8 b = b" by (simp_all add: take_bit_nat_eq_self_iff)
  then have "or a b = take_bit 8 (or a b)" by (simp add: take_bit_or)
  then show ?thesis using take_bit_nat_less_exp [of 8 "or a b"] by simp
qed

lemma and_mask: "and m NAME_MASK < 32"
proof -
  have "NAME_MASK = mask 5" by (simp add: NAME_MASK_def mask_eq_exp_minus_1)
  then have "and m NAME_MASK = take_bit 5 m" by (simp add: take_bit_eq_mask)
  then show ?thesis using take_bit_nat_less_exp [of 5 m] by simp
qed

lemma ord_char_of: "n < 256 \<Longrightarrow> ord_of (char_of n) = n"
  by (simp add: ord_of_def)

text \<open>The effect of \<open>dba_page_alias\<close> on the list of names.\<close>

definition alias_names :: "string list \<Rightarrow> string \<Rightarrow> nat \<Rightarrow> string list" where
  "alias_names ss n m =
     (let b = char_of (and m NAME_MASK); k = length (takeWhile (\<lambda>e. tl e \<noteq> n) ss)
      in if n \<in> tl ` set ss then ss[k := or_mask b (ss ! k)] else ss @ [b # n])"

lemma tl_or_mask: "tl (or_mask b s) = tl s"
  by (cases s) (simp_all add: or_mask_def)

lemma or_mask_Nil: "or_mask b s = [] \<longleftrightarrow> s = []"
  by (cases s) (simp_all add: or_mask_def)

lemma map_tl_alias:
  "map tl (alias_names ss n m) = (if n \<in> tl ` set ss then map tl ss else map tl ss @ [n])"
proof -
  have "map tl (ss[k := or_mask b (ss ! k)]) = map tl ss" for k b
    by (simp add: map_update tl_or_mask) (metis list_update_id list_update_beyond map_update not_less)
  then show ?thesis by (simp add: alias_names_def Let_def)
qed

lemma alias_names_ok:
  assumes ok: "names_ok ss" "cstring n"
  shows "names_ok (alias_names ss n m)"
proof -
  have old: "e \<noteq> [] \<and> cstring (tl e)" if "e \<in> set ss" for e using that ok by (simp add: names_ok_def)
  have "e \<noteq> [] \<and> cstring (tl e)" if e: "e \<in> set (alias_names ss n m)" for e
  proof (cases "n \<in> tl ` set ss")
    case True
    let ?k = "length (takeWhile (\<lambda>e. tl e \<noteq> n) ss)"
    have "e \<in> set ss \<or> e = or_mask (char_of (and m NAME_MASK)) (ss ! ?k)"
      using e True set_update_subset_insert [of ss ?k] by (auto simp: alias_names_def Let_def)
    then show ?thesis using old ok(2) first_index [OF True] nth_mem [of ?k ss] by (auto simp: tl_or_mask or_mask_Nil)
  qed (use e ok old in \<open>auto simp: alias_names_def Let_def\<close>)
  moreover have "distinct (map tl (alias_names ss n m))"
    using ok by (auto simp: names_ok_def map_tl_alias)
  ultimately show ?thesis by (simp add: names_ok_def)
qed

lemma name_mask_alias:
  assumes ok: "names_ok ss"
  shows "name_mask (alias_names ss n m) x =
    (if x = n then or (name_mask ss n) (and m NAME_MASK) else name_mask ss x)"
proof (cases "n \<in> tl ` set ss")
  case False
  have "ord_of (char_of (and m NAME_MASK)) = and m NAME_MASK"
    using and_mask [of m] by (intro ord_char_of) simp
  then show ?thesis
    using False name_mask_none [OF False] name_mask_none [of x ss]
    by (auto simp: alias_names_def Let_def name_mask_append)
next
  case True
  define k where "k = length (takeWhile (\<lambda>e. tl e \<noteq> n) ss)"
  have k: "k < length ss" "tl (ss ! k) = n" using first_index [OF True] by (simp_all add: k_def)
  have d: "distinct (map tl ss)" using ok by (simp add: names_ok_def)
  let ?ss = "alias_names ss n m"
  have ss: "?ss = ss[k := or_mask (char_of (and m NAME_MASK)) (ss ! k)]"
    using True by (simp add: alias_names_def Let_def k_def)
  have mt: "map tl ?ss = map tl ss" using True by (simp add: map_tl_alias)
  show ?thesis
  proof (cases "x = n")
    case True
    obtain c cs where c: "ss ! k = c # cs" using ok k(1) by (cases "ss ! k") (auto simp: names_ok_def)
    have b: "ord_of (char_of (and m NAME_MASK)) = and m NAME_MASK"
      using and_mask [of m] by (intro ord_char_of) simp
    have "or (ord_of c) (and m NAME_MASK) < 256"
      using and_mask [of m] ord_of_less by (intro or_byte) auto
    then have "ord_of (hd (?ss ! k)) = or (ord_of c) (and m NAME_MASK)"
      using k(1) c b by (simp add: ss or_mask_def ord_char_of)
    moreover have "name_mask ?ss n = ord_of (hd (?ss ! k))"
      using d mt k by (intro name_mask_nth) (auto simp: ss tl_or_mask)
    ultimately show ?thesis using name_mask_nth [OF d k] c True by simp
  next
    case False
    then have "name_mask ?ss x = name_mask ss x"
      using mt k by (intro name_mask_cong) (auto simp: ss nth_list_update tl_or_mask split: if_splits)
    then show ?thesis using False by simp
  qed
qed

lemma dba_page_alias_ok:
  assumes p: "page_shape p d" and ok: "names_ok (d_names d)" "cstring n" "n \<noteq> []"
    and l: "length (d_names d) < 2 ^ 29"
  shows "\<exists>p'. dba_page_alias p n m = Some p' \<and> page_shape p' (d\<lparr>d_names := alias_names (d_names d) n m\<rparr>)"
proof -
  have f: "field_of DBP_NAME d = Some (d_names d)" by (simp add: field_of_def)
  have set: "set_field DBP_NAME ss d = d\<lparr>d_names := ss\<rparr>" for ss by (simp add: set_field_def)
  obtain a where a: "ep p ! DBP_NAME = Some (Arr a)" "plain a (d_names d)" "grows a 1"
    using field_of_Some [OF p f] by (auto simp: strs_field_def)
  have g: "dba_array_get p (int DBP_NAME) = Some (Arr a)"
    using get_field [OF p, of DBP_NAME] a by (simp add: dbp_defs)
  have r: "alias_index (d_names d) n = Some (if n \<in> tl ` set (d_names d)
      then Some (length (takeWhile (\<lambda>e. tl e \<noteq> n) (d_names d))) else None)"
    using ok by (intro alias_index_eq) (auto simp: names_ok_def)
  note fe = plain_foreach [OF a(2)] plain_foreach_idx [OF a(2)]
  show ?thesis
  proof (cases "n \<in> tl ` set (d_names d)")
    case True
    then show ?thesis
      using page_shape_put [OF p f plain_put [OF a(2)]] a(3) first_index [OF True] g r fe ok(3)
      by (simp add: dba_page_alias_def Let_def alias_names_def set put_entry_def grows_def)
  next
    case False
    obtain a' where "dba_array_add a (Some (char_of (and m NAME_MASK) # n)) = Some a'"
      "plain a' (d_names d @ [char_of (and m NAME_MASK) # n])" "grows a' 1"
      using plain_add [OF a(2), of 1 "char_of (and m NAME_MASK) # n"] a(3) l by auto
    then show ?thesis
      using page_shape_put [OF p f] g r fe ok(3) False
      by (simp add: dba_page_alias_def Let_def alias_names_def set prepend_def)
  qed
qed

subsection \<open>Properties of the pages\<close>

lemma dba_page_add_set:
  assumes "page_shape p d" "field_of ie d = Some ss" "\<forall>s \<in> set ss. cstring s \<and> s \<noteq> []" "cstring s" "s \<noteq> []"
    "length ss < 2 ^ 29" "distinct (map (shown ie) ss)" "shown ie s = s"
  shows "\<exists>p' d' ss'. dba_page_add p ie (Some s) = Some p' \<and> page_shape p' d' \<and> field_of ie d' = Some ss' \<and>
    (\<forall>je. je \<noteq> ie \<longrightarrow> field_of je d' = field_of je d) \<and> d_desc d' = d_desc d \<and> distinct (map (shown ie) ss') \<and>
    shown ie ` set ss' = insert s (shown ie ` set ss)"
proof (cases "s \<in> shown ie ` set ss")
  case True
  then show ?thesis using dba_page_add_ok [OF assms(1-6)] assms(2,7) by (auto simp: insert_absorb)
next
  case False
  let ?d = "set_field ie (ss @ [s]) d"
  have "field_of ie ?d = Some (ss @ [s])" "\<forall>je. je \<noteq> ie \<longrightarrow> field_of je ?d = field_of je d" "d_desc ?d = d_desc d"
    using assms(2) by (auto simp: field_of_def set_field_def dbp_defs split: if_splits)
  then show ?thesis using dba_page_add_ok [OF assms(1-6)] False assms(7,8)
    by (intro exI [of _ "the (dba_page_add p ie (Some s))"] exI [of _ ?d] exI [of _ "ss @ [s]"]) auto
qed

text \<open>
  C3: \<open>dba_page_add\<close> inserts a string into one of the sets of a page: the page stays
  well-formed, its other fields are as before, no string is stored twice, and the set of the
  strings, where the form byte of a file name does not count, grows by exactly this string.\<close>

theorem dba_page_add_insert:
  assumes "page_shape p d" "field_of ie d = Some ss" "\<forall>s \<in> set ss. cstring s \<and> s \<noteq> []"
    "distinct (map (shown ie) ss)" "length ss < 2 ^ 29" "cstring s" "s \<noteq> []" "shown ie s = s"
  shows "\<exists>p' d' ss'. dba_page_add p ie (Some s) = Some p' \<and> page_shape p' d' \<and> field_of ie d' = Some ss' \<and>
    (\<forall>je. je \<noteq> ie \<longrightarrow> field_of je d' = field_of je d) \<and> d_desc d' = d_desc d \<and> distinct (map (shown ie) ss') \<and>
    shown ie ` set ss' = insert s (shown ie ` set ss)"
  by (rule dba_page_add_set) (use assms in auto)

text \<open>A new page, for the witnesses.\<close>

lemma sample_new_page:
  "\<exists>p. page_shape p (new_page_data (Some ''i386'') ''a driver'' ''man4/lpt.4'' (CHR 0x01))"
proof -
  obtain ps where ps: "dba_array_new 1 {DBA_GROW} = Some (ps :: page dba_array)"
    by (auto simp: dba_array_new_def)
  then have "plain ps []" "grows ps 1" using plain_new [OF ps] by (auto simp: grows_def)
  then show ?thesis
    using dba_page_new_ok [of ps "[]" 1 "Some ''i386''" "''a driver''" "''man4/lpt.4''" "CHR 0x01"] by auto
qed

theorem dba_page_add_insert_witness:
  "\<exists>p p' d' ss'. dba_page_add p DBP_FILE (Some ''man4/i386/lpt.4'') = Some p' \<and> page_shape p' d' \<and>
     field_of DBP_FILE d' = Some ss' \<and> shown DBP_FILE ` set ss' = {''man4/i386/lpt.4'', ''man4/lpt.4''}"
proof -
  let ?d = "new_page_data (Some ''i386'') ''a driver'' ''man4/lpt.4'' (CHR 0x01)"
  obtain p where p: "page_shape p ?d" using sample_new_page by blast
  have f: "field_of DBP_FILE ?d = Some [CHR 0x01 # ''man4/lpt.4'']"
    by (simp add: field_of_def new_page_data_def dbp_defs)
  show ?thesis
    using dba_page_add_insert [OF p f, of "''man4/i386/lpt.4''"]
    by (force simp: cstring_def shown_def strip_form_def ord_of_def)
qed

text \<open>
  \<open>dba_page_alias\<close> is an update of the map from the names of a page to their masks: the
  bits are added to those the name has, all other names keep theirs, no name is stored twice,
  and the page stays well-formed.\<close>

theorem dba_page_alias_update:
  assumes "page_shape p d" "names_ok (d_names d)" "cstring n" "n \<noteq> []" "length (d_names d) < 2 ^ 29"
  shows "\<exists>p' ss. dba_page_alias p n m = Some p' \<and> page_shape p' (d\<lparr>d_names := ss\<rparr>) \<and> names_ok ss \<and>
    tl ` set ss = insert n (tl ` set (d_names d)) \<and>
    name_mask ss = (name_mask (d_names d))(n := or (name_mask (d_names d) n) (and m NAME_MASK))"
proof -
  let ?ss = "alias_names (d_names d) n m"
  have "tl ` set ?ss = insert n (tl ` set (d_names d))"
    using arg_cong [OF map_tl_alias, of set "d_names d" n m] by auto
  moreover have "name_mask ?ss = (name_mask (d_names d))(n := or (name_mask (d_names d) n) (and m NAME_MASK))"
    using name_mask_alias [OF assms(2)] by (auto simp: fun_eq_iff)
  ultimately show ?thesis
    using dba_page_alias_ok [OF assms] alias_names_ok [OF assms(2,3)] by blast
qed

theorem dba_page_alias_update_witness:
  "\<exists>p p' ss. dba_page_alias p ''lpt'' 0x71 = Some p' \<and> tl ` set ss = {''lpt''} \<and> name_mask ss ''lpt'' = 0x11"
proof -
  let ?d = "new_page_data (Some ''i386'') ''a driver'' ''man4/lpt.4'' (CHR 0x01)"
  obtain p where p: "page_shape p ?d" using sample_new_page by blast
  have n: "d_names ?d = []" by (simp add: new_page_data_def)
  have ok: "names_ok (d_names ?d)" "cstring ''lpt''" "''lpt'' \<noteq> []" "length (d_names ?d) < 2 ^ 29"
    by (simp_all add: n names_ok_def cstring_def)
  obtain p' ss where r: "dba_page_alias p ''lpt'' 0x71 = Some p'" "tl ` set ss = insert ''lpt'' (tl ` set (d_names ?d))"
    "name_mask ss = (name_mask (d_names ?d))(''lpt'' := or (name_mask (d_names ?d) ''lpt'') (and 0x71 NAME_MASK))"
    using dba_page_alias_update [OF p ok, of "0x71"] by (elim exE conjE) (rule that)
  have "name_mask (d_names ?d) ''lpt'' = 0" by (simp add: n name_mask_def)
  then have "name_mask ss ''lpt'' = 0x11" using r(3) by (simp add: NAME_MASK_def)
  then show ?thesis using r(1,2) n by auto
qed

subsection \<open>Properties of the macros\<close>

text \<open>The invariant of a database and its macro tables as maps from values to pages.\<close>

definition dba_inv :: "dba \<Rightarrow> bool" where
  "dba_inv d \<longleftrightarrow> (\<exists>hs. plain (macros d) hs \<and> length hs = MACRO_MAX \<and> tables_ok (eu (pages d)) (heap d) hs)"

definition macro_tables :: "dba \<Rightarrow> macro_entry ohash list" where
  "macro_tables d = foreach (macros d)"

definition macro_map :: "dba \<Rightarrow> nat \<Rightarrow> string \<Rightarrow> nat list option" where
  "macro_map d im = tab_map (heap d) (macro_tables d ! im)"

definition macro_refs :: "dba \<Rightarrow> nat \<Rightarrow> string \<Rightarrow> nat list" where
  "macro_refs d im v = (case macro_map d im v of None \<Rightarrow> [] | Some xs \<Rightarrow> xs)"

lemma macro_add_map:
  assumes inv: "dba_inv d" and im: "im < MACRO_MAX" and v: "cstring v" "v \<noteq> []" and pg: "page < eu (pages d)"
    and room: "ohash_room (macro_tables d ! im) (Suc k)" "length (macro_refs d im v) < 2 ^ 29 - 1"
  shows "\<exists>d'. dba_macro_add d im v page = Some d' \<and> dba_inv d' \<and> pages d' = pages d \<and>
    macro_map d' im = (macro_map d im)(v \<mapsto> macro_refs d im v @ [page]) \<and>
    (\<forall>j < MACRO_MAX. j \<noteq> im \<longrightarrow> macro_map d' j = macro_map d j) \<and> ohash_room (macro_tables d' ! im) k"
proof -
  obtain hs where hs: "plain (macros d) hs" "length hs = MACRO_MAX" "tables_ok (eu (pages d)) (heap d) hs"
    using inv by (auto simp: dba_inv_def)
  have mt: "macro_tables d = hs" using plain_foreach [OF hs(1)] by (simp add: macro_tables_def)
  have im': "im < length hs" using im hs(2) by simp
  have old: "old_refs (heap d) (hs ! im) v = macro_refs d im v"
    by (simp add: old_refs_def macro_refs_def macro_map_def mt)
  have len: "length (old_refs (heap d) (hs ! im) v) + length [page] < 2 ^ 29" using room(2) by (simp add: old)
  obtain d' h where d': "with_entry d im v (map Some [page]) 1 = Some d'" "pages d' = pages d"
    "plain (macros d') (hs[im := h])" "tables_ok (eu (pages d)) (heap d') (hs[im := h])"
    "tab_map (heap d') h = (tab_map (heap d) (hs ! im))(v \<mapsto> old_refs (heap d) (hs ! im) v @ [page])"
    "\<forall>j < length hs. j \<noteq> im \<longrightarrow> tab_map (heap d') (hs ! j) = tab_map (heap d) (hs ! j)" "ohash_room h k"
    using with_entry_ok [OF hs(1) im' hs(3) v(1), of k 1 "[page]"] room(1) pg len by (auto simp: mt)
  have mt': "macro_tables d' = hs[im := h]" using plain_foreach [OF d'(3)] by (simp add: macro_tables_def)
  have "dba_inv d'" unfolding dba_inv_def using d'(2,3,4) hs(2) by (intro exI [of _ "hs[im := h]"]) simp
  moreover have "macro_map d' im = (macro_map d im)(v \<mapsto> macro_refs d im v @ [page])"
    using d'(5) im' old by (simp add: macro_map_def mt mt')
  moreover have "macro_map d' j = macro_map d j" if "j < MACRO_MAX" "j \<noteq> im" for j
    using d'(6) that hs(2) by (simp add: macro_map_def mt mt')
  ultimately show ?thesis using d'(1,2,7) v(2) im' by (auto simp: dba_macro_add_def mt')
qed

text \<open>A database with one page and no macros, for the witness.\<close>

lemma sample_dba:
  "\<exists>d. dba_inv d \<and> eu (pages d) = 1 \<and> macro_map d 3 = Map.empty \<and> ohash_room (macro_tables d ! 3) 100"
proof -
  obtain d :: dba where d: "plain (pages d) []" "grows (pages d) 1"
    "plain (macros d) (replicate MACRO_MAX (ohash_init 4))" "heap d = []"
    using dba_new_ok [OF zero_less_one] by blast
  obtain ps page where p: "plain ps [page :: page]"
    using dba_page_new_ok [OF d(1,2), of None "[]" "[]" NUL] by auto
  let ?d = "d\<lparr>pages := ps\<rparr>"
  have mt: "macro_tables ?d = replicate MACRO_MAX (ohash_init 4)"
    using plain_foreach [OF d(3)] by (simp add: macro_tables_def)
  have e: "ohash_map mvalue (ohash_init 4 :: macro_entry ohash) = Map.empty"
    by (rule ohash_init_ok)
  have "ohash_room (ohash_init 4 :: macro_entry ohash) 100"
    by (simp add: ohash_room_def ohash_init_def MINSIZE_def Let_def)
  moreover have "macro_map ?d 3 = Map.empty"
    by (simp add: macro_map_def mt tab_map_def e MACRO_MAX_def fun_eq_iff)
  moreover have "dba_inv ?d"
    unfolding dba_inv_def using d(3) tables_ok_init [of "eu ps"] d(4)
    by (intro exI [of _ "replicate MACRO_MAX (ohash_init 4)"]) simp
  ultimately show ?thesis using p by (intro exI [of _ ?d]) (simp add: mt MACRO_MAX_def plain_def)
qed

text \<open>
  C4: \<open>dba_macro_add\<close> keeps the invariant of the macro tables and is an update of the map from
  the values of the macro to lists of pages: the page is appended to the list of the value, all
  other values and all other macros are as before.\<close>

theorem dba_macro_add_update:
  assumes "dba_inv d" "im < MACRO_MAX" "cstring v" "v \<noteq> []" "page < eu (pages d)"
    "ohash_room (macro_tables d ! im) (Suc k)" "length (macro_refs d im v) < 2 ^ 29 - 1"
  shows "\<exists>d'. dba_macro_add d im v page = Some d' \<and> dba_inv d' \<and> pages d' = pages d \<and>
    macro_map d' im = (macro_map d im)(v \<mapsto> macro_refs d im v @ [page]) \<and>
    (\<forall>j < MACRO_MAX. j \<noteq> im \<longrightarrow> macro_map d' j = macro_map d j) \<and> ohash_room (macro_tables d' ! im) k"
  by (rule macro_add_map) (use assms in auto)

theorem dba_macro_add_update_witness:
  "\<exists>d d'. dba_macro_add d 3 ''intro'' 0 = Some d' \<and> macro_map d' 3 = [''intro'' \<mapsto> [0]]"
proof -
  obtain d where d: "dba_inv d" "eu (pages d) = 1" "macro_map d 3 = Map.empty" "ohash_room (macro_tables d ! 3) (Suc 99)"
    using sample_dba by auto
  have r: "macro_refs d 3 ''intro'' = []" using d(3) by (simp add: macro_refs_def)
  have ok: "(3 :: nat) < MACRO_MAX" "cstring ''intro''" "''intro'' \<noteq> []" "0 < eu (pages d)"
    "length (macro_refs d 3 ''intro'') < 2 ^ 29 - 1"
    using d(2) r by (simp_all add: MACRO_MAX_def cstring_def)
  show ?thesis using dba_macro_add_update [OF d(1) ok(1-4) d(4) ok(5)] d(3) r by auto
qed

end
