(* ===== verification/Intern.thy ===== *)
theory Intern
  imports Ohash
begin

section \<open>Hash tables of pointers to mutable entries\<close>

text \<open>
  Several components keep a hash table whose entries they change in place.  The models store
  the entries in a list, one cell per allocation, and the table holds pairs of a key and the
  index of the cell.  All of them start with the same idiom: \<open>ohash_find\<close> at the slot of the key
  and \<open>ohash_insert\<close> of a new cell there when it is free.  \<open>intern\<close> looks a string up with
  \<open>ohash_qlookup\<close>, \<open>intern_memory\<close> a block of memory with \<open>ohash_lookup_memory\<close>.
\<close>

type_synonym refs = "(string \<times> nat) ohash"

definition intern_slot :: "refs \<Rightarrow> nat \<Rightarrow> string \<Rightarrow> nat \<Rightarrow> (refs \<times> nat option) option" where
  "intern_slot h slot s fresh = do {
     r \<leftarrow> ohash_find h slot;
     case r of
       Some e \<Rightarrow> Some (h, Some (snd e))
     | None \<Rightarrow> do { h \<leftarrow> ohash_insert h slot (s, fresh); Some (h, None) }}"

definition intern :: "refs \<Rightarrow> string \<Rightarrow> nat \<Rightarrow> (refs \<times> nat option) option" where
  "intern h s fresh = do {
     (h, slot) \<leftarrow> ohash_qlookup fst h s;
     intern_slot h slot s fresh }"

text \<open>The same with a key of \<open>size\<close> bytes that may contain NUL.\<close>

definition intern_memory :: "refs \<Rightarrow> string \<Rightarrow> nat \<Rightarrow> nat \<Rightarrow> (refs \<times> nat option) option" where
  "intern_memory h k sz fresh = do {
     (h, slot) \<leftarrow> ohash_lookup_memory fst h k sz (ohash_interval (take sz k));
     intern_slot h slot k fresh }"

definition ref_of :: "refs \<Rightarrow> string \<Rightarrow> nat option" where
  "ref_of h s = map_option snd (ohash_map fst h s)"

text \<open>The table points to exactly the cells below \<open>n\<close>, and every key has a cell of its own.\<close>

definition refs_ok :: "refs \<Rightarrow> nat \<Rightarrow> bool" where
  "refs_ok h n \<longleftrightarrow> ohash_ok fst h \<and> (\<forall>s r. ref_of h s = Some r \<longrightarrow> r < n) \<and>
     (\<forall>r < n. \<exists>s. ref_of h s = Some r) \<and>
     (\<forall>s t r. ref_of h s = Some r \<longrightarrow> ref_of h t = Some r \<longrightarrow> s = t)"

lemma refs_ok_init: "refs_ok (ohash_init k) 0" "ref_of (ohash_init k) = Map.empty"
  using ohash_init_ok [of "fst :: string \<times> nat \<Rightarrow> string" k]
  by (simp_all add: refs_ok_def ref_of_def fun_eq_iff)

lemma refs_bound: "refs_ok h n \<Longrightarrow> ref_of h s = Some r \<Longrightarrow> r < n"
  by (auto simp: refs_ok_def)

lemma refs_surj: "refs_ok h n \<Longrightarrow> r < n \<Longrightarrow> \<exists>s. ref_of h s = Some r"
  by (auto simp: refs_ok_def)

lemma refs_inj: "refs_ok h n \<Longrightarrow> ref_of h s = Some r \<Longrightarrow> ref_of h t = Some r \<Longrightarrow> s = t"
  by (auto simp: refs_ok_def)

lemma intern_ok:
  assumes ok: "refs_ok h n" and room: "ohash_room h (Suc k)"
  shows "\<exists>h'. intern h s n = Some (h', ref_of h s) \<and> ohash_room h' k \<and>
    (case ref_of h s of
       Some r \<Rightarrow> refs_ok h' n \<and> ref_of h' = ref_of h
     | None \<Rightarrow> refs_ok h' (Suc n) \<and> ref_of h' = (ref_of h)(s \<mapsto> n))"
proof -
  have h: "ohash_ok fst h" using ok by (simp add: refs_ok_def)
  obtain h1 j where h1: "ohash_qlookup fst h s = Some (h1, j)" "ohash_ok fst h1"
    "ohash_map fst h1 = ohash_map fst h" "slot_for fst h1 s j" "ohash_room h1 (Suc k)"
    using oht.lookup_law [OF h, of s] room by blast
  have find: "ohash_find h1 j = Some (ohash_map fst h s)"
    using oht.find_law [OF h1(2,4)] h1(3) by simp
  show ?thesis
  proof (cases "ohash_map fst h s")
    case (Some e)
    then have "refs_ok h1 n" "ref_of h1 = ref_of h"
      using ok h1(2,3) by (simp_all add: refs_ok_def ref_of_def fun_eq_iff)
    moreover have "ohash_room h1 k" using h1(5) by (simp add: ohash_room_def)
    ultimately show ?thesis using h1(1) find Some by (simp add: intern_def intern_slot_def ref_of_def)
  next
    case None
    obtain h2 where h2: "ohash_insert h1 j (s, n) = Some h2" "ohash_ok fst h2"
      "ohash_map fst h2 = (ohash_map fst h)(s \<mapsto> (s, n))" "ohash_room h2 k"
      using oht.insert_law [of fst h1 "(s, n)" j k] h1 None by auto
    have r: "ref_of h2 = (ref_of h)(s \<mapsto> n)" using h2(3) by (simp add: ref_of_def fun_eq_iff)
    have new: "ref_of h s = None" using None by (simp add: ref_of_def)
    have "\<exists>t. ((ref_of h)(s \<mapsto> n)) t = Some i" if i: "i < Suc n" for i
    proof (cases "i = n")
      case False
      then have "i < n" using i by simp
      then obtain t where "ref_of h t = Some i" using refs_surj [OF ok] by blast
      then show ?thesis using new by (intro exI [of _ t]) auto
    qed (auto intro: exI [of _ s])
    moreover have "i < Suc n" if "((ref_of h)(s \<mapsto> n)) t = Some i" for t i
      using that refs_bound [OF ok, of t i] by (auto split: if_splits)
    moreover have "t = u" if "((ref_of h)(s \<mapsto> n)) t = Some i" "((ref_of h)(s \<mapsto> n)) u = Some i" for t u i
      using that refs_inj [OF ok, of t i u] refs_bound [OF ok, of t i] refs_bound [OF ok, of u i]
      by (auto split: if_splits)
    ultimately have "refs_ok h2 (Suc n)" using h2(2) unfolding refs_ok_def r by blast
    then show ?thesis
      using h1(1) find None h2 r by (simp add: intern_def intern_slot_def ref_of_def)
  qed
qed

subsection \<open>Blocks of memory\<close>

text \<open>An entry of the table is a key with its cell, stored under the hash value of the key.\<close>

lemma entry_ref:
  assumes "refs_ok h n" "i < length (htab h)" "cell_at h i = Entry e"
  shows "ref_of h (fst e) = Some (snd e)" "fst (htab h ! i) = ohash_interval (fst e)"
proof -
  have pl: "placed fst (htab h)" using assms(1) by (simp add: refs_ok_def ohash_ok_def)
  have "snd (htab h ! i) = Entry e" using assms(3) by (simp add: cell_at_def)
  then show "ref_of h (fst e) = Some (snd e)" "fst (htab h ! i) = ohash_interval (fst e)"
    using slots_map_iff [OF pl, of "fst e" e] placedD(1) [OF pl assms(2)] assms(2)
    by (auto simp: ref_of_def ohash_map_def intro: exI [of _ "fst e"])
qed

text \<open>The keys of the table, as far as a search for \<open>k\<close> is concerned.\<close>

definition no_longer_key :: "refs \<Rightarrow> string \<Rightarrow> bool" where
  "no_longer_key h k \<longleftrightarrow> (\<forall>s \<in> dom (ref_of h). take (length k) s = k \<longrightarrow> s = k)"

definition no_shorter_key :: "refs \<Rightarrow> string \<Rightarrow> bool" where
  "no_shorter_key h k \<longleftrightarrow> (\<forall>s \<in> dom (ref_of h). ohash_interval s = ohash_interval k \<longrightarrow> length k \<le> length s)"

lemma intern_memory_intern:
  assumes "refs_ok h n" "no_longer_key h k"
  shows "intern_memory h k (length k) m \<in> {None, intern h k m}"
proof -
  have "prefix_free fst h k"
    using assms entry_ref(1) unfolding prefix_free_def no_longer_key_def by blast
  from lookup_memory_qlookup [OF this] show ?thesis by (auto simp: intern_memory_def intern_def)
qed

lemma intern_memory_total:
  assumes "refs_ok h n" "no_longer_key h k" "no_shorter_key h k"
  shows "intern_memory h k (length k) m = intern h k m"
proof -
  have p: "prefix_free fst h k"
    using assms(1,2) entry_ref(1) unfolding prefix_free_def no_longer_key_def by blast
  have "long_keys fst h (ohash_interval k) (length k)"
    using assms(1,3) entry_ref unfolding long_keys_def no_shorter_key_def by (metis domI)
  from lookup_memory_total [OF p this] show ?thesis by (simp add: intern_memory_def intern_def)
qed

lemma find_ref:
  assumes "refs_ok h n"
  shows "\<exists>h' j. ohash_qlookup fst h s = Some (h', j) \<and> refs_ok h' n \<and> ref_of h' = ref_of h \<and>
    map_option (map_option snd) (ohash_find h' j) = Some (ref_of h s)"
proof -
  have h: "ohash_ok fst h" using assms by (simp add: refs_ok_def)
  obtain h1 j where h1: "ohash_qlookup fst h s = Some (h1, j)" "ohash_ok fst h1"
    "ohash_map fst h1 = ohash_map fst h" "slot_for fst h1 s j"
    using oht.lookup_law [OF h, of s] by blast
  then show ?thesis
    using assms oht.find_law [OF h1(2,4)] by (auto simp: refs_ok_def ref_of_def)
qed

end
