(* ===== verification/Mandoc_Xr.thy ===== *)
theory Mandoc_Xr
  imports Intern
begin

section \<open>Cross references: \<open>mandoc_xr.c\<close>\<close>

text \<open>
  The program collects the cross references of all pages in a hash table, keyed by section and
  name, and in a linked list in the order of their first occurrence.  Since entries are only
  ever appended to the list, the list is the store of the entries itself.  The static variables
  are the fields of \<open>xr_state\<close>; \<open>xr_hash\<close> is None before \<open>mandoc_xr_reset\<close>.  A lookup compares the
  memory of the keys, and is undefined when an entry with the same hash value has a shorter key.
\<close>

record mandoc_xr =
  xr_sec :: string
  xr_name :: string
  xr_line :: int
  xr_pos :: int
  xr_count :: int

record xr_state =
  xr_hash :: "refs option"
  xr_list :: "mandoc_xr list"

definition mandoc_xr_reset :: "xr_state \<Rightarrow> xr_state" where
  "mandoc_xr_reset st = \<lparr>xr_hash = Some (ohash_init 5), xr_list = []\<rparr>"

text \<open>The key of a reference: both strings with their terminators.\<close>

definition xr_key :: "string \<Rightarrow> string \<Rightarrow> string" where
  "xr_key sec nam = sec @ NUL # nam @ [NUL]"

text \<open>The change of an entry that is found again, and the return value.\<close>

definition xr_again :: "int \<Rightarrow> mandoc_xr \<Rightarrow> int \<times> mandoc_xr" where
  "xr_again line oxr =
     ((if (xr_line oxr = - 1) \<noteq> (line = - 1) then 1 else 0),
      oxr\<lparr>xr_count := xr_count oxr + 1, xr_line := (if line = - 1 then - 1 else xr_line oxr)\<rparr>)"

definition mandoc_xr_add :: "xr_state \<Rightarrow> string \<Rightarrow> string \<Rightarrow> int \<Rightarrow> int \<Rightarrow> (xr_state \<times> int) option" where
  "mandoc_xr_add st sec nam line p =
     (case xr_hash st of
        None \<Rightarrow> Some (st, 0)
      | Some h \<Rightarrow> do {
          let ssz = Suc (length sec);
          let nsz = Suc (length nam);
          let tsz = ssz + nsz;
          let hashkey = take ssz (sec @ [NUL]) @ take nsz (nam @ [NUL]);
          (h, r) \<leftarrow> intern_memory h hashkey tsz (length (xr_list st));
          case r of
            None \<Rightarrow> Some (\<lparr>xr_hash = Some h, xr_list = xr_list st @
              [\<lparr>xr_sec = sec, xr_name = nam, xr_line = line, xr_pos = p, xr_count = 1\<rparr>]\<rparr>, 0)
          | Some i \<Rightarrow>
              if i < length (xr_list st)
              then let (ret, x) = xr_again line (xr_list st ! i)
                in Some (\<lparr>xr_hash = Some h, xr_list = (xr_list st)[i := x]\<rparr>, ret)
              else None})"

definition mandoc_xr_get :: "xr_state \<Rightarrow> mandoc_xr list" where
  "mandoc_xr_get st = xr_list st"

text \<open>Frees the entries and the table; the pointer to the list is left as it is.\<close>

definition mandoc_xr_free :: "xr_state \<Rightarrow> xr_state" where
  "mandoc_xr_free st = st\<lparr>xr_hash := None\<rparr>"

subsection \<open>The reference: searching the list\<close>

text \<open>The same operation without a hash table: a search through the list from its start.\<close>

fun xr_insert :: "string \<Rightarrow> string \<Rightarrow> int \<Rightarrow> int \<Rightarrow> mandoc_xr list \<Rightarrow> mandoc_xr list \<times> int" where
  "xr_insert sec nam line p [] =
     ([\<lparr>xr_sec = sec, xr_name = nam, xr_line = line, xr_pos = p, xr_count = 1\<rparr>], 0)"
| "xr_insert sec nam line p (x # xs) =
     (if xr_sec x = sec \<and> xr_name x = nam
      then let (ret, x') = xr_again line x in (x' # xs, ret)
      else let (xs', ret) = xr_insert sec nam line p xs in (x # xs', ret))"

definition xr_id :: "mandoc_xr \<Rightarrow> string" where
  "xr_id x = xr_key (xr_sec x) (xr_name x)"

definition xr_ok :: "xr_state \<Rightarrow> bool" where
  "xr_ok st \<longleftrightarrow> (\<exists>h. xr_hash st = Some h \<and> refs_ok h (length (xr_list st)) \<and>
     (\<forall>x \<in> set (xr_list st). cstring (xr_sec x) \<and> cstring (xr_name x)) \<and>
     (\<forall>s i. ref_of h s = Some i \<longleftrightarrow> i < length (xr_list st) \<and> xr_id (xr_list st ! i) = s))"

definition xr_room :: "xr_state \<Rightarrow> nat \<Rightarrow> bool" where
  "xr_room st k \<longleftrightarrow> (\<exists>h. xr_hash st = Some h \<and> ohash_room h k)"

lemma xr_key_inj:
  assumes "cstring a" "cstring a'" "xr_key a b = xr_key a' b'"
  shows "a = a' \<and> b = b'"
proof -
  have t: "takeWhile (\<lambda>c. c \<noteq> NUL) (xr_key s n) = s" if "cstring s" for s n
    using that by (simp add: xr_key_def cstring_def takeWhile_append)
  have "a = a'" using t [OF assms(1), of b] t [OF assms(2), of b'] assms(3) by simp
  then show ?thesis using assms(3) by (simp add: xr_key_def)
qed

lemma xr_ok_reset: "xr_ok (mandoc_xr_reset st)"
  by (simp add: xr_ok_def mandoc_xr_reset_def refs_ok_init)

lemma xr_insert_new:
  "\<forall>x \<in> set xs. \<not> (xr_sec x = sec \<and> xr_name x = nam) \<Longrightarrow>
    xr_insert sec nam line p xs =
      (xs @ [\<lparr>xr_sec = sec, xr_name = nam, xr_line = line, xr_pos = p, xr_count = 1\<rparr>], 0)"
  by (induction xs) auto

lemma xr_insert_old:
  "i < length xs \<Longrightarrow> xr_sec (xs ! i) = sec \<Longrightarrow> xr_name (xs ! i) = nam \<Longrightarrow>
    \<forall>j < i. \<not> (xr_sec (xs ! j) = sec \<and> xr_name (xs ! j) = nam) \<Longrightarrow>
    xr_insert sec nam line p xs = (xs[i := snd (xr_again line (xs ! i))], fst (xr_again line (xs ! i)))"
proof (induction xs arbitrary: i)
  case (Cons x xs)
  show ?case
  proof (cases i)
    case 0
    then show ?thesis using Cons.prems by (simp add: xr_again_def)
  next
    case (Suc k)
    have "\<forall>j < k. \<not> (xr_sec (xs ! j) = sec \<and> xr_name (xs ! j) = nam)"
      using Cons.prems(4) Suc by (metis Suc_less_eq nth_Cons_Suc)
    then have "xr_insert sec nam line p xs = (xs[k := snd (xr_again line (xs ! k))], fst (xr_again line (xs ! k)))"
      using Cons.IH [of k] Cons.prems Suc by simp
    moreover have "\<not> (xr_sec x = sec \<and> xr_name x = nam)" using Cons.prems(4) Suc by (metis nth_Cons_0 zero_less_Suc)
    ultimately show ?thesis using Suc by auto
  qed
qed simp

subsection \<open>Comparing keys\<close>

text \<open>No key is a proper prefix of another one, because it ends with the second NUL.\<close>

lemma xr_key_prefix:
  assumes c: "cstring a" "cstring b" "cstring a'" "cstring b'"
    and p: "take (length (xr_key a b)) (xr_key a' b') = xr_key a b"
  shows "xr_key a' b' = xr_key a b"
proof -
  have len: "length (xr_key a b) = length a + length b + 2" for a b by (simp add: xr_key_def)
  have le: "length (xr_key a b) \<le> length (xr_key a' b')" using p by (metis length_take min.cobounded1)
  obtain r where r: "xr_key a' b' = xr_key a b @ r" using p by (metis append_take_drop_id)
  have n: "length (filter (\<lambda>c. c = NUL) (xr_key a b)) = 2" if "cstring a" "cstring b" for a b
    using that by (auto simp: xr_key_def cstring_def filter_empty_conv)
  have "filter (\<lambda>c. c = NUL) r = []"
    using n [OF c(1,2)] n [OF c(3,4)] r by simp
  moreover have "last (xr_key a' b') = NUL" by (simp add: xr_key_def)
  ultimately have "r = []" by (cases r rule: rev_cases) (auto simp: r)
  then show ?thesis using r by simp
qed

text \<open>The keys that are stored under the hash value of \<open>k\<close> are at least as long.\<close>

definition xr_readable :: "xr_state \<Rightarrow> string \<Rightarrow> bool" where
  "xr_readable st k \<longleftrightarrow> (\<forall>x \<in> set (xr_list st). ohash_interval (xr_id x) = ohash_interval k \<longrightarrow>
     length k \<le> length (xr_id x))"

text \<open>The function once the table has been searched and changed.\<close>

definition add_memory :: "xr_state \<Rightarrow> refs \<Rightarrow> string \<Rightarrow> string \<Rightarrow> int \<Rightarrow> int \<Rightarrow>
    (refs \<times> nat option) option \<Rightarrow> (xr_state \<times> int) option" where
  "add_memory st h sec nam line p res = do {
     (h, r) \<leftarrow> res;
     case r of
       None \<Rightarrow> Some (\<lparr>xr_hash = Some h, xr_list = xr_list st @
         [\<lparr>xr_sec = sec, xr_name = nam, xr_line = line, xr_pos = p, xr_count = 1\<rparr>]\<rparr>, 0)
     | Some i \<Rightarrow>
         if i < length (xr_list st)
         then let (ret, x) = xr_again line (xr_list st ! i)
           in Some (\<lparr>xr_hash = Some h, xr_list = (xr_list st)[i := x]\<rparr>, ret)
         else None}"

lemma xr_add_memory:
  assumes "xr_hash st = Some h"
  shows "mandoc_xr_add st sec nam line p =
    add_memory st h sec nam line p (intern_memory h (xr_key sec nam) (length (xr_key sec nam)) (length (xr_list st)))"
  using assms by (simp add: mandoc_xr_add_def add_memory_def xr_key_def)

lemma xr_ok_prefix:
  assumes ok: "xr_ok st" and c: "cstring sec" "cstring nam" and h: "xr_hash st = Some h"
  shows "no_longer_key h (xr_key sec nam)" "xr_readable st (xr_key sec nam) \<Longrightarrow> no_shorter_key h (xr_key sec nam)"
proof -
  have stored: "\<exists>x \<in> set (xr_list st). xr_id x = s \<and> cstring (xr_sec x) \<and> cstring (xr_name x)"
    if "s \<in> dom (ref_of h)" for s
    using that ok h unfolding xr_ok_def by (metis domD nth_mem option.inject)
  show "no_longer_key h (xr_key sec nam)"
    unfolding no_longer_key_def
  proof (intro ballI impI)
    fix s assume s: "s \<in> dom (ref_of h)" "take (length (xr_key sec nam)) s = xr_key sec nam"
    show "s = xr_key sec nam" using stored [OF s(1)] s(2) xr_key_prefix [OF c] by (auto simp: xr_id_def)
  qed
  show "no_shorter_key h (xr_key sec nam)" if "xr_readable st (xr_key sec nam)"
    using that stored unfolding no_shorter_key_def xr_readable_def by metis
qed

lemma xr_add_memory_intern:
  assumes "xr_ok st" "cstring sec" "cstring nam" "xr_hash st = Some h"
  shows "mandoc_xr_add st sec nam line p \<in>
      {None, add_memory st h sec nam line p (intern h (xr_key sec nam) (length (xr_list st)))}"
    and "xr_readable st (xr_key sec nam) \<Longrightarrow> mandoc_xr_add st sec nam line p =
      add_memory st h sec nam line p (intern h (xr_key sec nam) (length (xr_list st)))"
proof -
  let ?k = "xr_key sec nam" and ?n = "length (xr_list st)"
  have ok: "refs_ok h ?n" using assms(1,4) by (auto simp: xr_ok_def)
  note pre = xr_ok_prefix [OF assms]
  have none: "add_memory st h sec nam line p None = None" by (simp add: add_memory_def)
  show "mandoc_xr_add st sec nam line p \<in> {None, add_memory st h sec nam line p (intern h ?k ?n)}"
    using intern_memory_intern [OF ok pre(1), of ?n] none unfolding xr_add_memory [OF assms(4)] by auto
  show "mandoc_xr_add st sec nam line p = add_memory st h sec nam line p (intern h ?k ?n)"
    if "xr_readable st ?k"
    unfolding xr_add_memory [OF assms(4)] intern_memory_total [OF ok pre(1) pre(2) [OF that]] ..
qed

lemma xr_add_intern:
  assumes ok: "xr_ok st" and c: "cstring sec" "cstring nam" and room: "xr_room st (Suc k)"
  shows "\<exists>h st'. xr_hash st = Some h \<and>
    add_memory st h sec nam line p (intern h (xr_key sec nam) (length (xr_list st))) = Some (st', snd (xr_insert sec nam line p (xr_list st))) \<and>
    xr_list st' = fst (xr_insert sec nam line p (xr_list st)) \<and> xr_ok st' \<and> xr_room st' k"
proof -
  let ?xs = "xr_list st" and ?s = "xr_key sec nam"
  obtain h where h: "xr_hash st = Some h" "refs_ok h (length ?xs)"
    "\<forall>x \<in> set ?xs. cstring (xr_sec x) \<and> cstring (xr_name x)"
    "\<And>s i. ref_of h s = Some i \<longleftrightarrow> i < length ?xs \<and> xr_id (?xs ! i) = s"
    using ok by (auto simp: xr_ok_def)
  have "ohash_room h (Suc k)" using room h(1) by (simp add: xr_room_def)
  note I = intern_ok [OF h(2) this, of ?s]
  have eq: "xr_id x = ?s \<longleftrightarrow> xr_sec x = sec \<and> xr_name x = nam" if "x \<in> set ?xs" for x
    using xr_key_inj [of "xr_sec x" sec "xr_name x" nam] that h(3) c by (auto simp: xr_id_def)
  show ?thesis
  proof (cases "ref_of h ?s")
    case None
    let ?x = "\<lparr>xr_sec = sec, xr_name = nam, xr_line = line, xr_pos = p, xr_count = 1\<rparr>"
    obtain h' where h': "intern h ?s (length ?xs) = Some (h', None)" "ohash_room h' k"
      "refs_ok h' (Suc (length ?xs))" "ref_of h' = (ref_of h)(?s \<mapsto> length ?xs)"
      using I None by auto
    let ?st = "\<lparr>xr_hash = Some h', xr_list = ?xs @ [?x]\<rparr>"
    have "\<forall>x \<in> set ?xs. \<not> (xr_sec x = sec \<and> xr_name x = nam)"
      using h(4) [of ?s] None eq by (metis in_set_conv_nth option.distinct(1))
    then have ins: "xr_insert sec nam line p ?xs = (?xs @ [?x], 0)" by (rule xr_insert_new)
    have "ref_of h' s = Some i \<longleftrightarrow> i < length (?xs @ [?x]) \<and> xr_id ((?xs @ [?x]) ! i) = s" for s i
      using h(4) [of s i] h(4) [of ?s i] None by (auto simp: h'(4) nth_append less_Suc_eq xr_id_def)
    then have "xr_ok ?st" using h' h(3) c by (auto simp: xr_ok_def)
    then show ?thesis using h' h(1) ins by (auto simp: add_memory_def xr_room_def)
  next
    case (Some i)
    obtain h' where h': "intern h ?s (length ?xs) = Some (h', Some i)" "ohash_room h' k"
      "refs_ok h' (length ?xs)" "ref_of h' = ref_of h"
      using I Some by auto
    have i: "i < length ?xs" "xr_id (?xs ! i) = ?s" using h(4) Some by auto
    let ?x = "snd (xr_again line (?xs ! i))"
    let ?st = "\<lparr>xr_hash = Some h', xr_list = ?xs[i := ?x]\<rparr>"
    have "j = i" if "j < length ?xs" "xr_id (?xs ! j) = ?s" for j
      using h(4) [of ?s j] Some that by simp
    then have "\<forall>j < i. \<not> (xr_sec (?xs ! j) = sec \<and> xr_name (?xs ! j) = nam)"
      using i(1) eq by (metis nth_mem order.strict_trans less_irrefl)
    then have ins: "xr_insert sec nam line p ?xs = (?xs[i := ?x], fst (xr_again line (?xs ! i)))"
      using i eq [of "?xs ! i"] by (intro xr_insert_old) auto
    have same: "xr_id (?xs[i := ?x] ! j) = xr_id (?xs ! j)" if "j < length ?xs" for j
      using that by (cases "j = i") (auto simp: xr_again_def xr_id_def)
    have "cstring (xr_sec x) \<and> cstring (xr_name x)" if "x \<in> set (?xs[i := ?x])" for x
      using that set_update_subset_insert [of ?xs i ?x] h(3) i(1) by (auto simp: xr_again_def)
    then have "xr_ok ?st" using h' h(4) same by (auto simp: xr_ok_def)
    then show ?thesis using h' h(1) ins i(1) by (auto simp: add_memory_def xr_room_def Let_def split_beta)
  qed
qed

lemma xr_add_ok:
  assumes "xr_ok st" "cstring sec" "cstring nam" "xr_room st (Suc k)" "xr_readable st (xr_key sec nam)"
  shows "\<exists>st'. mandoc_xr_add st sec nam line p = Some (st', snd (xr_insert sec nam line p (xr_list st))) \<and>
    xr_list st' = fst (xr_insert sec nam line p (xr_list st)) \<and> xr_ok st' \<and> xr_room st' k"
  using xr_add_intern [OF assms(1-4), of line p] xr_add_memory_intern(2) [OF assms(1-3) _ assms(5)] by metis

lemma xr_add_partial:
  assumes "xr_ok st" "cstring sec" "cstring nam" "xr_room st (Suc k)"
    "mandoc_xr_add st sec nam line p = Some (st', r)"
  shows "r = snd (xr_insert sec nam line p (xr_list st)) \<and>
    xr_list st' = fst (xr_insert sec nam line p (xr_list st)) \<and> xr_ok st' \<and> xr_room st' k"
proof -
  obtain h st1 where h: "xr_hash st = Some h"
    "add_memory st h sec nam line p (intern h (xr_key sec nam) (length (xr_list st))) =
      Some (st1, snd (xr_insert sec nam line p (xr_list st)))"
    "xr_list st1 = fst (xr_insert sec nam line p (xr_list st))" "xr_ok st1" "xr_room st1 k"
    using xr_add_intern [OF assms(1-4), of line p] by blast
  then show ?thesis using xr_add_memory_intern(1) [OF assms(1-3) h(1), of line p] assms(5) by auto
qed

subsection \<open>Sequences of references\<close>

type_synonym xr_args = "string \<times> string \<times> int \<times> int"

primrec xr_run :: "xr_args list \<Rightarrow> xr_state \<Rightarrow> (xr_state \<times> int list) option" where
  "xr_run [] st = Some (st, [])"
| "xr_run (a # as) st = (case a of (sec, nam, line, p) \<Rightarrow> do {
     (st, r) \<leftarrow> mandoc_xr_add st sec nam line p;
     (st, rs) \<leftarrow> xr_run as st;
     Some (st, r # rs) })"

primrec xr_ref :: "xr_args list \<Rightarrow> mandoc_xr list \<Rightarrow> mandoc_xr list \<times> int list" where
  "xr_ref [] xs = (xs, [])"
| "xr_ref (a # as) xs = (case a of (sec, nam, line, p) \<Rightarrow>
     let (xs, r) = xr_insert sec nam line p xs; (xs, rs) = xr_ref as xs in (xs, r # rs))"

definition arg_key :: "xr_args \<Rightarrow> string" where
  "arg_key a = xr_key (fst a) (fst (snd a))"

text \<open>No reference has a longer key than an earlier one with the same hash value.\<close>

definition keys_readable :: "xr_args list \<Rightarrow> bool" where
  "keys_readable as \<longleftrightarrow> sorted_wrt (\<lambda>a b. ohash_interval (arg_key a) = ohash_interval (arg_key b) \<longrightarrow>
     length (arg_key b) \<le> length (arg_key a)) as"

lemma xr_insert_keys:
  "x \<in> set (fst (xr_insert sec nam line p xs)) \<Longrightarrow> xr_id x = xr_key sec nam \<or> (\<exists>y \<in> set xs. xr_id x = xr_id y)"
  by (induction xs) (auto simp: xr_id_def xr_again_def split_beta Let_def split: if_splits)

lemma xr_run_ok:
  "xr_ok st \<Longrightarrow> \<forall>(sec, nam, _) \<in> set as. cstring sec \<and> cstring nam \<Longrightarrow> xr_room st (length as) \<Longrightarrow>
    keys_readable as \<Longrightarrow> \<forall>a \<in> set as. xr_readable st (arg_key a) \<Longrightarrow>
    \<exists>st'. xr_run as st = Some (st', snd (xr_ref as (xr_list st))) \<and> xr_list st' = fst (xr_ref as (xr_list st))"
proof (induction as arbitrary: st)
  case (Cons a as)
  obtain sec nam line p where a: "a = (sec, nam, line, p)" by (cases a) auto
  have key: "arg_key a = xr_key sec nam" by (simp add: a arg_key_def)
  obtain st1 where st1: "mandoc_xr_add st sec nam line p = Some (st1, snd (xr_insert sec nam line p (xr_list st)))"
    "xr_list st1 = fst (xr_insert sec nam line p (xr_list st))" "xr_ok st1" "xr_room st1 (length as)"
    using xr_add_ok [of st sec nam "length as" line p] Cons.prems a key by auto
  have "xr_readable st1 (arg_key b)" if b: "b \<in> set as" for b
    unfolding xr_readable_def st1(2)
  proof (intro ballI impI)
    fix x assume x: "x \<in> set (fst (xr_insert sec nam line p (xr_list st)))"
      "ohash_interval (xr_id x) = ohash_interval (arg_key b)"
    show "length (arg_key b) \<le> length (xr_id x)"
      using xr_insert_keys [OF x(1)] x(2) b Cons.prems(4,5) unfolding key [symmetric]
      by (auto simp: keys_readable_def xr_readable_def)
  qed
  then show ?case using Cons.IH [OF st1(3)] Cons.prems a st1 by (auto simp: keys_readable_def split_beta Let_def)
qed simp

lemma xr_run_partial:
  "xr_ok st \<Longrightarrow> \<forall>(sec, nam, _) \<in> set as. cstring sec \<and> cstring nam \<Longrightarrow> xr_room st (length as) \<Longrightarrow>
    xr_run as st = Some (st', rs) \<Longrightarrow> rs = snd (xr_ref as (xr_list st)) \<and> xr_list st' = fst (xr_ref as (xr_list st))"
proof (induction as arbitrary: st rs)
  case (Cons a as)
  obtain sec nam line p where a: "a = (sec, nam, line, p)" by (cases a) auto
  obtain st1 r rs1 where run: "mandoc_xr_add st sec nam line p = Some (st1, r)" "xr_run as st1 = Some (st', rs1)"
    "rs = r # rs1"
    using Cons.prems(4) by (auto simp: a bind_eq_Some_conv)
  have "r = snd (xr_insert sec nam line p (xr_list st)) \<and>
    xr_list st1 = fst (xr_insert sec nam line p (xr_list st)) \<and> xr_ok st1 \<and> xr_room st1 (length as)"
    using xr_add_partial [OF Cons.prems(1) _ _ _ run(1), of "length as"] Cons.prems(2,3) a by auto
  then show ?case using Cons.IH [of st1 rs1] Cons.prems(2) run a by (auto simp: split_beta Let_def)
qed simp

subsection \<open>What is collected\<close>

definition xr_match :: "string \<Rightarrow> string \<Rightarrow> mandoc_xr \<Rightarrow> bool" where
  "xr_match sec nam x \<longleftrightarrow> xr_sec x = sec \<and> xr_name x = nam"

definition total_count :: "mandoc_xr list \<Rightarrow> string \<Rightarrow> string \<Rightarrow> int" where
  "total_count xs sec nam = sum_list (map xr_count (filter (xr_match sec nam) xs))"

definition own_name :: "mandoc_xr list \<Rightarrow> string \<Rightarrow> string \<Rightarrow> bool" where
  "own_name xs sec nam \<longleftrightarrow> (\<exists>x \<in> set xs. xr_match sec nam x \<and> xr_line x = - 1)"

definition occurrences :: "xr_args list \<Rightarrow> string \<Rightarrow> string \<Rightarrow> nat" where
  "occurrences as sec nam = length (filter (\<lambda>a. fst a = sec \<and> fst (snd a) = nam) as)"

abbreviation ids :: "mandoc_xr list \<Rightarrow> (string \<times> string) list" where
  "ids xs \<equiv> map (\<lambda>x. (xr_sec x, xr_name x)) xs"

lemma xr_insert_ids:
  "ids (fst (xr_insert sec nam line p xs)) = (if (sec, nam) \<in> set (ids xs) then ids xs else ids xs @ [(sec, nam)])"
  by (induction xs) (auto simp: xr_again_def split_beta Let_def)

lemma xr_insert_count:
  "total_count (fst (xr_insert sec nam line p xs)) s n =
    total_count xs s n + (if s = sec \<and> n = nam then 1 else 0)"
  by (induction xs) (auto simp: xr_again_def split_beta Let_def total_count_def xr_match_def)

lemma xr_insert_own:
  "distinct (ids xs) \<Longrightarrow> own_name (fst (xr_insert sec nam line p xs)) s n \<longleftrightarrow>
    own_name xs s n \<or> s = sec \<and> n = nam \<and> line = - 1"
  by (induction xs) (auto simp: xr_again_def split_beta Let_def own_name_def xr_match_def)

lemma xr_ref_facts:
  "distinct (ids xs) \<Longrightarrow>
    distinct (ids (fst (xr_ref as xs))) \<and>
    set (ids (fst (xr_ref as xs))) = set (ids xs) \<union> (\<lambda>(s, n, _). (s, n)) ` set as \<and>
    total_count (fst (xr_ref as xs)) s n = total_count xs s n + int (occurrences as s n) \<and>
    (own_name (fst (xr_ref as xs)) s n \<longleftrightarrow> own_name xs s n \<or> (\<exists>p. (s, n, - 1, p) \<in> set as))"
proof (induction as arbitrary: xs)
  case (Cons a as)
  obtain sec nam line p where a: "a = (sec, nam, line, p)" by (cases a) auto
  let ?xs = "fst (xr_insert sec nam line p xs)"
  have "distinct (ids ?xs)" unfolding xr_insert_ids using Cons.prems by (simp add: image_iff)
  note IH = Cons.IH [OF this]
  have r: "fst (xr_ref (a # as) xs) = fst (xr_ref as ?xs)" by (simp add: a split_beta Let_def)
  have "set (ids ?xs) = insert (sec, nam) (set (ids xs))"
    unfolding xr_insert_ids by auto
  then have "set (ids (fst (xr_ref (a # as) xs))) = set (ids xs) \<union> (\<lambda>(s, n, _). (s, n)) ` set (a # as)"
    unfolding r using IH by (simp add: a)
  moreover have "total_count (fst (xr_ref (a # as) xs)) s n = total_count xs s n + int (occurrences (a # as) s n)"
    unfolding r using IH xr_insert_count [of sec nam line p xs s n] by (simp add: a occurrences_def)
  moreover have "own_name (fst (xr_ref (a # as) xs)) s n \<longleftrightarrow> own_name xs s n \<or> (\<exists>p. (s, n, - 1, p) \<in> set (a # as))"
    unfolding r using IH xr_insert_own [OF Cons.prems, of sec nam line p s n] by (auto simp: a)
  ultimately show ?case using IH unfolding r by blast
qed (simp add: occurrences_def)

lemma distinct_filter_one:
  "distinct (ids xs) \<Longrightarrow> x \<in> set xs \<Longrightarrow> filter (xr_match (xr_sec x) (xr_name x)) xs = [x]"
proof (induction xs)
  case (Cons y ys)
  have "filter (xr_match s n) ys = []" if "(s, n) \<notin> set (ids ys)" for s n
    using that by (auto simp: filter_empty_conv xr_match_def)
  then show ?case using Cons by (auto simp: xr_match_def [of "xr_sec x" "xr_name x" y])
qed simp

lemma xr_room_reset: "3 * n < 2 ^ 29 \<Longrightarrow> xr_room (mandoc_xr_reset st) n"
  by (simp add: xr_room_def mandoc_xr_reset_def ohash_room_def ohash_init_def MINSIZE_def Let_def)

subsection \<open>Properties\<close>

text \<open>
  C5: after a reset, any sequence of \<open>mandoc_xr_add\<close> in which no key is longer than an earlier one with
  the same hash value ends, never leaves its defined behaviour, and gives the same list of references
  and the same return values as searching the list.\<close>

theorem mandoc_xr_reference:
  assumes "\<forall>(sec, nam, _) \<in> set as. cstring sec \<and> cstring nam" "3 * length as < 2 ^ 29" "keys_readable as"
  shows "\<exists>st'. xr_run as (mandoc_xr_reset st) = Some (st', snd (xr_ref as [])) \<and>
    mandoc_xr_get st' = fst (xr_ref as [])"
  using xr_run_ok [OF xr_ok_reset assms(1) xr_room_reset [OF assms(2)] assms(3), of st]
  by (simp add: mandoc_xr_reset_def mandoc_xr_get_def xr_readable_def)

definition sample_xrs :: "xr_args list" where
  "sample_xrs = [(''1'', ''ls'', - 1, - 1), (''2'', ''stat'', 10, 4), (''1'', ''ls'', 11, 4), (''2'', ''stat'', 12, 4)]"

lemma sample_xrs_ok: "\<forall>(sec, nam, _) \<in> set sample_xrs. cstring sec \<and> cstring nam" "3 * length sample_xrs < 2 ^ 29"
  by (simp_all add: sample_xrs_def cstring_def)

lemma sample_xrs_readable: "keys_readable sample_xrs"
  by code_simp

theorem mandoc_xr_reference_witness:
  "\<exists>st'. xr_run sample_xrs (mandoc_xr_reset \<lparr>xr_hash = None, xr_list = []\<rparr>) = Some (st', [0, 0, 1, 0])"
  using mandoc_xr_reference [OF sample_xrs_ok sample_xrs_readable] by (auto simp: sample_xrs_def xr_again_def)

text \<open>
  C6: after a reset and any calls of \<open>mandoc_xr_add\<close> that stay within defined behaviour, the list
  returned by \<open>mandoc_xr_get\<close> holds every reference that was added exactly once, with the number
  of times it was added, and with line -1 exactly when it was added at least once as a name of the
  page itself.\<close>

theorem mandoc_xr_collects:
  assumes "\<forall>(sec, nam, _) \<in> set as. cstring sec \<and> cstring nam" "3 * length as < 2 ^ 29"
    "xr_run as (mandoc_xr_reset st) = Some (st', rs)" "xs = mandoc_xr_get st'"
  shows "distinct (map (\<lambda>x. (xr_sec x, xr_name x)) xs) \<and>
    set (map (\<lambda>x. (xr_sec x, xr_name x)) xs) = (\<lambda>(s, n, _). (s, n)) ` set as \<and>
    (\<forall>x \<in> set xs. xr_count x = int (occurrences as (xr_sec x) (xr_name x)) \<and>
       (xr_line x = - 1 \<longleftrightarrow> (\<exists>p. (xr_sec x, xr_name x, - 1, p) \<in> set as)))"
proof -
  have xs: "xs = fst (xr_ref as [])"
    using xr_run_partial [OF xr_ok_reset assms(1) xr_room_reset [OF assms(2)] assms(3)] assms(4)
    by (auto simp: mandoc_xr_reset_def mandoc_xr_get_def)
  note F = xr_ref_facts [of "[]" as, folded xs, simplified]
  have d: "distinct (ids xs)" using F by blast
  have "xr_count x = int (occurrences as (xr_sec x) (xr_name x)) \<and>
      (xr_line x = - 1 \<longleftrightarrow> (\<exists>p. (xr_sec x, xr_name x, - 1, p) \<in> set as))" if x: "x \<in> set xs" for x
  proof -
    note one = distinct_filter_one [OF d x]
    have "total_count xs (xr_sec x) (xr_name x) = xr_count x" by (simp add: total_count_def one)
    moreover have "own_name xs (xr_sec x) (xr_name x) \<longleftrightarrow> xr_line x = - 1"
      using arg_cong [OF one, of set] x by (auto simp: own_name_def xr_match_def)
    ultimately show ?thesis using F [of "xr_sec x" "xr_name x"] by (simp add: total_count_def own_name_def)
  qed
  then show ?thesis using F by simp
qed

theorem mandoc_xr_collects_witness:
  "\<exists>st' rs. xr_run sample_xrs (mandoc_xr_reset \<lparr>xr_hash = None, xr_list = []\<rparr>) = Some (st', rs) \<and>
    (\<forall>x \<in> set (mandoc_xr_get st'). xr_count x = 2)"
proof -
  obtain st' rs where r: "xr_run sample_xrs (mandoc_xr_reset \<lparr>xr_hash = None, xr_list = []\<rparr>) = Some (st', rs)"
    using xr_run_ok [OF xr_ok_reset sample_xrs_ok(1) xr_room_reset [OF sample_xrs_ok(2)] sample_xrs_readable]
    by (auto simp: xr_readable_def mandoc_xr_reset_def)
  note C = mandoc_xr_collects [OF sample_xrs_ok r refl]
  have "xr_count x = 2" if x: "x \<in> set (mandoc_xr_get st')" for x
  proof -
    have "(xr_sec x, xr_name x) \<in> {(''1'', ''ls''), (''2'', ''stat'')}"
      using C x by (auto simp: sample_xrs_def)
    then consider "xr_sec x = ''1''" "xr_name x = ''ls''" | "xr_sec x = ''2''" "xr_name x = ''stat''" by blast
    then have "occurrences sample_xrs (xr_sec x) (xr_name x) = 2"
      by cases (simp_all add: occurrences_def sample_xrs_def)
    then show ?thesis using C x by simp
  qed
  then show ?thesis using r by blast
qed

subsection \<open>Reading beyond a key\<close>

lemma reset_lookup:
  "intern_memory (ohash_init 5) k (length k) n = Some
     (\<lparr>htab = (replicate 32 (0, Null))[hash_start (ohash_interval k) 32 := (ohash_interval k, Entry (k, n))],
       hsize = 32, htotal = 1, hdeleted = 0\<rparr>, None)"
proof -
  have s: "hash_start (ohash_interval k) 32 < 32" by (simp add: hash_start_def)
  have eq: "ohash_init 5 = \<lparr>htab = replicate 32 (0, Null), hsize = 32, htotal = 0, hdeleted = 0\<rparr>"
    by (simp add: ohash_init_def MINSIZE_def)
  have p: "probe_mem 32 key \<lparr>htab = replicate 32 (0, Null), hsize = 32, htotal = 0, hdeleted = 0\<rparr> k (length k) hv incr i 32 =
      Some (\<lparr>htab = (replicate 32 (0, Null))[i := (hv, Null)], hsize = 32, htotal = 0, hdeleted = 0\<rparr>, i)" if "i < 32"
      for key :: "string \<times> nat \<Rightarrow> string" and hv incr i
    using that by (simp add: probe_mem.simps(2) [of 31, simplified] cell_at_def)
  show ?thesis
    using s unfolding intern_memory_def eq ohash_lookup_memory_def
    by (simp add: p intern_slot_def ohash_find_def cell_at_def ohash_insert_def set_cell_def Let_def)
qed

lemma lookup_overread:
  assumes "ohash_interval k = ohash_interval k'" "length k < length k'"
  shows "intern_memory \<lparr>htab = (replicate 32 (0, Null))[hash_start (ohash_interval k) 32 := (ohash_interval k, Entry (k, n))],
       hsize = 32, htotal = 1, hdeleted = 0\<rparr> k' (length k') m = None"
proof -
  have s: "hash_start (ohash_interval k) 32 < 32" by (simp add: hash_start_def)
  show ?thesis
    using assms s unfolding intern_memory_def ohash_lookup_memory_def
    by (simp add: probe_mem.simps(2) [of 31, simplified] cell_at_def memcmp_eq_def)
qed

text \<open>
  C7: the condition on the keys cannot be dropped: if two references have the same hash value and the
  second one is longer, adding the first and then the second compares more bytes than the key of
  the stored entry has, which \<open>memcmp\<close> does not allow.\<close>

theorem mandoc_xr_overread:
  assumes "ohash_interval (xr_key sec nam) = ohash_interval (xr_key sec' nam')"
    "length sec + length nam < length sec' + length nam'"
  shows "\<exists>st'. mandoc_xr_add (mandoc_xr_reset st) sec nam line p = Some (st', 0) \<and>
    mandoc_xr_add st' sec' nam' line' p' = None"
proof -
  let ?k = "xr_key sec nam" and ?k' = "xr_key sec' nam'"
  let ?h = "\<lparr>htab = (replicate 32 (0, Null))[hash_start (ohash_interval ?k) 32 := (ohash_interval ?k, Entry (?k, 0))],
       hsize = 32, htotal = 1, hdeleted = 0\<rparr> :: refs"
  have len: "length ?k < length ?k'" using assms(2) by (simp add: xr_key_def)
  have r: "xr_hash (mandoc_xr_reset st) = Some (ohash_init 5)" "xr_list (mandoc_xr_reset st) = []"
    by (simp_all add: mandoc_xr_reset_def)
  have "add_memory st h s n l q None = None" for st h s n l q by (simp add: add_memory_def)
  then have "mandoc_xr_add \<lparr>xr_hash = Some ?h, xr_list = xs\<rparr> sec' nam' line' p' = None" for xs
    using xr_add_memory [of "\<lparr>xr_hash = Some ?h, xr_list = xs\<rparr>" ?h] lookup_overread [OF assms(1) len] by simp
  moreover have "\<exists>xs. mandoc_xr_add (mandoc_xr_reset st) sec nam line p = Some (\<lparr>xr_hash = Some ?h, xr_list = xs\<rparr>, 0)"
    unfolding xr_add_memory [OF r(1)] r(2) using reset_lookup [of ?k 0] by (simp add: add_memory_def)
  ultimately show ?thesis by blast
qed

theorem mandoc_xr_overread_witness:
  "\<exists>st'. mandoc_xr_add (mandoc_xr_reset \<lparr>xr_hash = None, xr_list = []\<rparr>) ''3'' ''stat_read_copy'' 1 1 = Some (st', 0) \<and>
    mandoc_xr_add st' ''3'' ''byte_init_write_tty'' 2 1 = None"
proof (rule mandoc_xr_overread)
  show "ohash_interval (xr_key ''3'' ''stat_read_copy'') = ohash_interval (xr_key ''3'' ''byte_init_write_tty'')"
    by code_simp
qed simp

end
