(* ===== verification/Tag.thy ===== *)
theory Tag
  imports Intern
begin

section \<open>Tags: \<open>tag.c\<close>\<close>

text \<open>
  Nodes that define a term are collected in a hash table keyed by the term.  Each entry holds
  the nodes with the best priority seen so far.  Of a syntax tree node, \<open>tag_put\<close> uses the flag
  \<open>NODE_ID\<close>, the field \<open>tag\<close>, and the text of the first child when that is a text node.
\<close>

record tag_node =
  n_id :: bool
  n_tag :: "string option"
  n_child :: "string option"

record tag_entry =
  t_nodes :: "nat list"
  t_max :: nat
  t_prio :: int

record tag_state =
  tag_data :: refs
  tag_entries :: "tag_entry list"
  tag_nodes :: "tag_node list"

definition TAG_MANUAL :: int where "TAG_MANUAL = 1"
definition TAG_STRONG :: int where "TAG_STRONG = 2"
definition TAG_WEAK :: int where "TAG_WEAK = 2147483647 - 2"
definition TAG_FALLBACK :: int where "TAG_FALLBACK = 2147483647 - 1"
definition TAG_DELETE :: int where "TAG_DELETE = 2147483647"

lemmas tag_prio_defs = TAG_MANUAL_def TAG_STRONG_def TAG_WEAK_def TAG_FALLBACK_def TAG_DELETE_def

definition tag_alloc :: "tag_state \<Rightarrow> tag_state" where
  "tag_alloc st = st\<lparr>tag_data := ohash_init 4, tag_entries := []\<rparr>"

text \<open>The implicit tag of a node and the initial value of \<open>changed\<close>; None: the function returns.\<close>

definition tag_implicit :: "tag_node \<Rightarrow> (string \<times> bool) option" where
  "tag_implicit n =
     (case n_child n of
        None \<Rightarrow> None
      | Some [] \<Rightarrow> Some ([], False)
      | Some (c # cs) \<Rightarrow>
          if c = CHR ''-'' then Some (cs, True)
          else if c = BSLASH
          then (case cs of
                  d # ds \<Rightarrow> if d \<in> set ''&-e'' then Some (ds, True) else None
                | [] \<Rightarrow> None)
          else Some (c # cs, False))"

text \<open>The copying loop: the copy, whether it stops before the end, and whether it changes anything.\<close>

fun tag_copy :: "string \<Rightarrow> string \<times> bool \<times> bool" where
  "tag_copy [] = ([], False, False)"
| "tag_copy (c # cs) =
     (if c = TAB \<or> c = CHR '' '' then ([], True, True)
      else if c = ASCII_HYPH then
        let (t, stop, _) = tag_copy cs in (CHR ''-'' # t, stop, True)
      else if c = BSLASH then
        (case cs of
           d # ds \<Rightarrow> if d = CHR ''-'' then let (t, stop, _) = tag_copy ds in (d # t, stop, True)
                    else ([], True, False)
         | [] \<Rightarrow> ([], True, False))
      else let (t, stop, ch) = tag_copy cs in (c # t, stop, ch))"

text \<open>Forget the nodes of an entry.\<close>

definition untag :: "tag_node \<Rightarrow> tag_node" where
  "untag n = n\<lparr>n_id := False, n_tag := None\<rparr>"

definition untag_all :: "nat list \<Rightarrow> tag_node list \<Rightarrow> tag_node list" where
  "untag_all ns nodes = foldr (\<lambda>i nodes. nodes[i := untag (nodes ! i)]) ns nodes"

text \<open>Remember the new node; \<open>r\<close> is the cell of the entry.\<close>

definition tag_remember :: "nat \<Rightarrow> int \<Rightarrow> nat \<Rightarrow> bool \<Rightarrow> string \<Rightarrow> tag_state \<Rightarrow> tag_state option" where
  "tag_remember r prio n changed term st =
     (let e = tag_entries st ! r;
          mx = (if t_max e = length (t_nodes e) then t_max e + 4 else t_max e);
          e' = \<lparr>t_nodes = t_nodes e @ [n], t_max = mx, t_prio = prio\<rparr>;
          x = tag_nodes st ! n
      in if mx \<le> length (t_nodes e) \<or> changed \<and> n_tag x \<noteq> None then None
         else Some (st\<lparr>tag_entries := (tag_entries st)[r := e'],
                      tag_nodes := (tag_nodes st)[n := x\<lparr>n_id := True,
                        n_tag := (if changed then Some term else n_tag x)\<rparr>]\<rparr>))"

definition tag_enter :: "string \<Rightarrow> int \<Rightarrow> nat \<Rightarrow> bool \<Rightarrow> tag_state \<Rightarrow> tag_state option" where
  "tag_enter term prio n changed st = do {
     (h, r) \<leftarrow> intern (tag_data st) term (length (tag_entries st));
     let st = st\<lparr>tag_data := h\<rparr>;
     case r of
       None \<Rightarrow> tag_remember (length (tag_entries st)) prio n changed term
         (st\<lparr>tag_entries := tag_entries st @ [\<lparr>t_nodes = [], t_max = 0, t_prio = 0\<rparr>]\<rparr>)
     | Some i \<Rightarrow>
         let e = tag_entries st ! i
         in if t_prio e < prio then Some st
            else if t_prio e > prio \<or> prio = TAG_FALLBACK then
              let st = st\<lparr>tag_nodes := untag_all (t_nodes e) (tag_nodes st)\<rparr>
              in if prio = TAG_FALLBACK
                 then Some (st\<lparr>tag_entries := (tag_entries st)[i := e\<lparr>t_nodes := [], t_prio := TAG_DELETE\<rparr>]\<rparr>)
                 else tag_remember i prio n changed term
                   (st\<lparr>tag_entries := (tag_entries st)[i := e\<lparr>t_nodes := []\<rparr>]\<rparr>)
            else tag_remember i prio n changed term st}"

definition tag_put :: "string option \<Rightarrow> int \<Rightarrow> nat \<Rightarrow> tag_state \<Rightarrow> tag_state option" where
  "tag_put s prio n st =
     (if prio > TAG_FALLBACK \<or> n \<ge> length (tag_nodes st) then None
      else if n_id (tag_nodes st ! n) then Some st
      else case (case s of Some t \<Rightarrow> Some (t, True) | None \<Rightarrow> tag_implicit (tag_nodes st ! n)) of
        None \<Rightarrow> Some st
      | Some (t, changed) \<Rightarrow>
          let (term, stop, ch) = tag_copy t
          in if term = [] then Some st
             else tag_enter term (if stop \<and> prio < TAG_WEAK then TAG_WEAK else prio) n (changed \<or> ch) st)"

definition tag_exists :: "string \<Rightarrow> tag_state \<Rightarrow> (tag_state \<times> bool) option" where
  "tag_exists tag st = do {
     (h, j) \<leftarrow> ohash_qlookup fst (tag_data st) tag;
     r \<leftarrow> ohash_find h j;
     Some (st\<lparr>tag_data := h\<rparr>, r \<noteq> None)}"

subsection \<open>The abstract tags\<close>

text \<open>What a call asks for: the term and the priority, or nothing.\<close>

definition tag_source :: "string option \<Rightarrow> tag_node \<Rightarrow> string option" where
  "tag_source s x = (case s of Some t \<Rightarrow> Some t | None \<Rightarrow> map_option fst (tag_implicit x))"

definition tag_request :: "string option \<Rightarrow> int \<Rightarrow> tag_node \<Rightarrow> (string \<times> int) option" where
  "tag_request s prio x =
     (case tag_source s x of
        None \<Rightarrow> None
      | Some t \<Rightarrow>
          let (term, stop, ch) = tag_copy t
          in if term = [] then None
             else Some (term, if stop \<and> prio < TAG_WEAK then TAG_WEAK else prio))"

text \<open>The effect of one request on the priority and the nodes of a term.\<close>

definition tag_step :: "(int \<times> nat list) option \<Rightarrow> int \<Rightarrow> nat \<Rightarrow> int \<times> nat list" where
  "tag_step v p n =
     (case v of
        None \<Rightarrow> (p, [n])
      | Some (q, ns) \<Rightarrow>
          if q < p then (q, ns) else if p = TAG_FALLBACK then (TAG_DELETE, [])
          else if q > p then (p, [n]) else (p, ns @ [n]))"

text \<open>
  What the comments in the source say: the requests with the best priority win, and a fallback
  is only used if it is the only request for the term.
\<close>

definition tag_best :: "(int \<times> nat) list \<Rightarrow> (int \<times> nat list) option" where
  "tag_best ps =
     (if ps = [] then None
      else let best = Min (fst ` set ps)
        in if best = TAG_FALLBACK \<and> 1 < length ps then Some (TAG_DELETE, [])
           else Some (best, map snd (filter (\<lambda>(p, _). p = best) ps)))"

lemma tag_best_snoc:
  assumes "\<forall>x \<in> set (ps @ [(p, n)]). fst x \<le> TAG_FALLBACK"
  shows "tag_best (ps @ [(p, n)]) = Some (tag_step (tag_best ps) p n)"
proof (cases "ps = []")
  case True
  then show ?thesis by (simp add: tag_best_def tag_step_def)
next
  case False
  define m where "m = Min (fst ` set ps)"
  have m: "m \<in> fst ` set ps" "\<And>x. x \<in> set ps \<Longrightarrow> m \<le> fst x"
    using False Min_in [of "fst ` set ps"] Min_le [of "fst ` set ps"] by (auto simp: m_def)
  have mf: "m \<le> TAG_FALLBACK" using m(1) assms by auto
  have b: "Min (fst ` set (ps @ [(p, n)])) = min p m" using False by (simp add: m_def)
  have none: "filter (\<lambda>(q, _). q = p) ps = []" if "p < m"
    using m(2) that by (force simp: filter_empty_conv)
  have "filter (\<lambda>(q, _). q = m) ps \<noteq> []" using m(1) by (auto simp: filter_empty_conv)
  show ?thesis
    using False assms mf none
    unfolding tag_best_def b
    by (auto simp: m_def [symmetric] tag_step_def Let_def tag_prio_defs min_def Suc_le_eq)
qed

definition tag_view :: "tag_state \<Rightarrow> string \<Rightarrow> (int \<times> nat list) option" where
  "tag_view st s = map_option (\<lambda>r. (t_prio (tag_entries st ! r), t_nodes (tag_entries st ! r))) (ref_of (tag_data st) s)"

subsection \<open>The invariant\<close>

text \<open>
  Exactly the nodes of the entries carry \<open>NODE_ID\<close>, each in one place; no other node has a
  tag; and there is room for the nodes in the array of each entry.
\<close>

definition entry_ok :: "nat \<Rightarrow> tag_entry \<Rightarrow> bool" where
  "entry_ok k e \<longleftrightarrow> length (t_nodes e) \<le> t_max e \<and> distinct (t_nodes e) \<and> (\<forall>n \<in> set (t_nodes e). n < k)"

definition nodes_ok :: "tag_entry list \<Rightarrow> tag_node list \<Rightarrow> bool" where
  "nodes_ok es nodes \<longleftrightarrow>
     (\<forall>e \<in> set es. entry_ok (length nodes) e) \<and>
     (\<forall>i < length es. \<forall>j < length es. i \<noteq> j \<longrightarrow> set (t_nodes (es ! i)) \<inter> set (t_nodes (es ! j)) = {}) \<and>
     (\<forall>n < length nodes. n_id (nodes ! n) \<longleftrightarrow> (\<exists>i < length es. n \<in> set (t_nodes (es ! i)))) \<and>
     (\<forall>n < length nodes. \<not> n_id (nodes ! n) \<longrightarrow> n_tag (nodes ! n) = None)"

definition tag_inv :: "tag_state \<Rightarrow> bool" where
  "tag_inv st \<longleftrightarrow> refs_ok (tag_data st) (length (tag_entries st)) \<and> nodes_ok (tag_entries st) (tag_nodes st)"

lemma nodes_okD:
  assumes "nodes_ok es nodes"
  shows "i < length es \<Longrightarrow> entry_ok (length nodes) (es ! i)"
    "i < length es \<Longrightarrow> j < length es \<Longrightarrow> i \<noteq> j \<Longrightarrow> n \<in> set (t_nodes (es ! i)) \<Longrightarrow> n \<notin> set (t_nodes (es ! j))"
    "n < length nodes \<Longrightarrow> n_id (nodes ! n) \<longleftrightarrow> (\<exists>i < length es. n \<in> set (t_nodes (es ! i)))"
    "n < length nodes \<Longrightarrow> \<not> n_id (nodes ! n) \<Longrightarrow> n_tag (nodes ! n) = None"
  using assms unfolding nodes_ok_def by (blast intro: nth_mem)+

lemma untag_all_length [simp]: "length (untag_all ns nodes) = length nodes"
  unfolding untag_all_def by (induction ns) auto

lemma untag_all_nth:
  "i < length nodes \<Longrightarrow> untag_all ns nodes ! i = (if i \<in> set ns then untag (nodes ! i) else nodes ! i)"
proof (induction ns)
  case (Cons n ns)
  have u: "untag_all (n # ns) nodes = (untag_all ns nodes)[n := untag (untag_all ns nodes ! n)]"
    by (simp add: untag_all_def)
  show ?case
    unfolding u using Cons by (cases "i = n") (auto simp: untag_def)
qed (simp add: untag_all_def)

lemma nodes_ok_clear:
  assumes ok: "nodes_ok es nodes" and i: "i < length es" and e': "t_nodes e' = []"
  shows "nodes_ok (es[i := e']) (untag_all (t_nodes (es ! i)) nodes)"
proof -
  let ?ns = "t_nodes (es ! i)"
  have ent: "entry_ok (length nodes) e" if "e \<in> set (es[i := e'])" for e
    using that ok set_update_subset_insert [of es i e'] e' by (auto simp: nodes_ok_def entry_ok_def)
  have id: "n_id (untag_all ?ns nodes ! n) \<longleftrightarrow> (\<exists>j < length es. n \<in> set (t_nodes (es[i := e'] ! j)))"
    if n: "n < length nodes" for n
  proof (cases "n \<in> set ?ns")
    case True
    then have "n \<notin> set (t_nodes (es[i := e'] ! j))" if "j < length es" for j
      using nodes_okD(2) [OF ok i that] e' i by (cases "j = i") auto
    then show ?thesis using True n by (simp add: untag_all_nth untag_def)
  next
    case False
    then have "n \<in> set (t_nodes (es[i := e'] ! j)) \<longleftrightarrow> n \<in> set (t_nodes (es ! j))" if "j < length es" for j
      using e' i by (cases "j = i") auto
    then show ?thesis using False n nodes_okD(3) [OF ok n] by (auto simp: untag_all_nth)
  qed
  have disj: "set (t_nodes (es[i := e'] ! j)) \<inter> set (t_nodes (es[i := e'] ! k)) = {}"
    if "j < length es" "k < length es" "j \<noteq> k" for j k
    using ok that e' i by (cases "j = i"; cases "k = i") (auto simp: nodes_ok_def)
  have "n_tag (untag_all ?ns nodes ! n) = None" if "n < length nodes" "\<not> n_id (untag_all ?ns nodes ! n)" for n
    using that nodes_okD(4) [OF ok that(1)] by (auto simp: untag_all_nth untag_def split: if_splits)
  then show ?thesis using ent id disj unfolding nodes_ok_def by auto
qed

lemma nodes_ok_new:
  assumes "nodes_ok es nodes"
  shows "nodes_ok (es @ [\<lparr>t_nodes = [], t_max = m, t_prio = p\<rparr>]) nodes"
proof -
  let ?e = "\<lparr>t_nodes = [], t_max = m, t_prio = p\<rparr>"
  have "set (t_nodes ((es @ [?e]) ! i)) = (if i < length es then set (t_nodes (es ! i)) else {})"
    if "i < length (es @ [?e])" for i using that by (auto simp: nth_append less_Suc_eq)
  then show ?thesis
    using assms unfolding nodes_ok_def by (auto simp: entry_ok_def less_Suc_eq nth_append)
qed

lemma nodes_ok_add:
  assumes ok: "nodes_ok es nodes" and r: "r < length es" and n: "n < length nodes" "\<not> n_id (nodes ! n)"
    and e': "t_nodes e' = t_nodes (es ! r) @ [n]" "Suc (length (t_nodes (es ! r))) \<le> t_max e'"
    and x: "n_id x"
  shows "nodes_ok (es[r := e']) (nodes[n := x])"
proof -
  have new: "n \<notin> set (t_nodes (es ! j))" if "j < length es" for j
    using n that nodes_okD(3) [OF ok n(1)] by blast
  have e'_ok: "entry_ok (length nodes) e'"
    using e' nodes_okD(1) [OF ok r] new [OF r] n(1) by (auto simp: entry_ok_def)
  have ent: "entry_ok (length nodes) e" if "e \<in> set (es[r := e'])" for e
    using that ok set_update_subset_insert [of es r e'] e'_ok by (auto simp: nodes_ok_def)
  have mem: "k \<in> set (t_nodes (es[r := e'] ! j)) \<longleftrightarrow> k \<in> set (t_nodes (es ! j)) \<or> j = r \<and> k = n"
    if "j < length es" for j k using that r e'(1) by (cases "j = r") auto
  have "n_id (nodes[n := x] ! k) \<longleftrightarrow> (\<exists>j < length es. k \<in> set (t_nodes (es[r := e'] ! j)))"
    if "k < length nodes" for k
    using that nodes_okD(3) [OF ok that] n(1) x r mem by (cases "k = n") auto
  moreover have "set (t_nodes (es[r := e'] ! j)) \<inter> set (t_nodes (es[r := e'] ! k)) = {}"
    if "j < length es" "k < length es" "j \<noteq> k" for j k
    using that mem nodes_okD(2) [OF ok that] new by auto
  moreover have "n_tag (nodes[n := x] ! k) = None" if "k < length nodes" "\<not> n_id (nodes[n := x] ! k)" for k
    using that nodes_okD(4) [OF ok that(1)] x n(1) by (cases "k = n") auto
  ultimately show ?thesis using ent unfolding nodes_ok_def by simp
qed

text \<open>What a call leaves alone: the text of the nodes, and other nodes without a tag.\<close>

definition quiet :: "nat \<Rightarrow> tag_node list \<Rightarrow> tag_node list \<Rightarrow> bool" where
  "quiet n xs ys \<longleftrightarrow> map n_child ys = map n_child xs \<and>
     (\<forall>k < length xs. k \<noteq> n \<longrightarrow> \<not> n_id (xs ! k) \<longrightarrow> \<not> n_id (ys ! k))"

lemma quiet_length: "quiet n xs ys \<Longrightarrow> length ys = length xs"
  by (metis length_map quiet_def)

lemma quiet_refl: "quiet n xs xs"
  by (simp add: quiet_def)

lemma quiet_trans: "quiet n xs ys \<Longrightarrow> quiet n ys zs \<Longrightarrow> quiet n xs zs"
  using quiet_length [of n xs ys] by (auto simp: quiet_def)

lemma quiet_untag: "quiet n xs (untag_all ns xs)"
  by (auto simp: quiet_def untag_all_nth untag_def intro: nth_equalityI)

lemma quiet_update: "n_child x = n_child (xs ! n) \<Longrightarrow> quiet n xs (xs[n := x])"
  unfolding quiet_def by (metis list_update_id map_update nth_list_update_neq)

lemma tag_remember_ok:
  assumes ok: "nodes_ok (tag_entries st) (tag_nodes st)" and r: "r < length (tag_entries st)"
    and n: "n < length (tag_nodes st)" "\<not> n_id (tag_nodes st ! n)"
  shows "\<exists>st' e'. tag_remember r p n ch tm st = Some st' \<and> tag_data st' = tag_data st \<and>
    tag_entries st' = (tag_entries st)[r := e'] \<and> t_prio e' = p \<and> t_nodes e' = t_nodes (tag_entries st ! r) @ [n] \<and>
    nodes_ok (tag_entries st') (tag_nodes st') \<and> quiet n (tag_nodes st) (tag_nodes st')"
proof -
  let ?e = "tag_entries st ! r"
  let ?mx = "if t_max ?e = length (t_nodes ?e) then t_max ?e + 4 else t_max ?e"
  let ?e' = "\<lparr>t_nodes = t_nodes ?e @ [n], t_max = ?mx, t_prio = p\<rparr>"
  let ?x = "(tag_nodes st ! n)\<lparr>n_id := True, n_tag := (if ch then Some tm else n_tag (tag_nodes st ! n))\<rparr>"
  have mx: "length (t_nodes ?e) < ?mx" using nodes_okD(1) [OF ok r] by (simp add: entry_ok_def)
  have "n_tag (tag_nodes st ! n) = None" using nodes_okD(4) [OF ok n] .
  moreover have "nodes_ok ((tag_entries st)[r := ?e']) ((tag_nodes st)[n := ?x])"
    by (rule nodes_ok_add [OF ok r n]) (use mx in simp_all)
  moreover have "quiet n (tag_nodes st) ((tag_nodes st)[n := ?x])" by (rule quiet_update) simp
  ultimately show ?thesis using mx
    by (intro exI [of _ "st\<lparr>tag_entries := (tag_entries st)[r := ?e'], tag_nodes := (tag_nodes st)[n := ?x]\<rparr>"] exI [of _ ?e'])
       (simp add: tag_remember_def Let_def del: if_split)
qed

lemma tag_view_upd:
  assumes "refs_ok h (length es)" "ref_of h tm = Some r"
  shows "tag_view \<lparr>tag_data = h, tag_entries = es[r := e], tag_nodes = ns\<rparr> =
    (tag_view \<lparr>tag_data = h, tag_entries = es, tag_nodes = ns'\<rparr>)(tm \<mapsto> (t_prio e, t_nodes e))"
proof
  fix s
  show "tag_view \<lparr>tag_data = h, tag_entries = es[r := e], tag_nodes = ns\<rparr> s =
    ((tag_view \<lparr>tag_data = h, tag_entries = es, tag_nodes = ns'\<rparr>)(tm \<mapsto> (t_prio e, t_nodes e))) s"
    using assms refs_inj [OF assms(1), of s r tm] refs_bound [OF assms]
    by (cases "ref_of h s") (auto simp: tag_view_def nth_list_update)
qed

lemma tag_enter_ok:
  assumes inv: "tag_inv st" and room: "ohash_room (tag_data st) (Suc k)" and p: "p \<le> TAG_FALLBACK"
    and n: "n < length (tag_nodes st)" "\<not> n_id (tag_nodes st ! n)"
  shows "\<exists>st'. tag_enter tm p n ch st = Some st' \<and> tag_inv st' \<and> ohash_room (tag_data st') k \<and>
    tag_view st' = (tag_view st)(tm \<mapsto> tag_step (tag_view st tm) p n) \<and> quiet n (tag_nodes st) (tag_nodes st')"
proof -
  let ?es = "tag_entries st" and ?ns = "tag_nodes st"
  have ref: "refs_ok (tag_data st) (length ?es)" and nok: "nodes_ok ?es ?ns"
    using inv by (simp_all add: tag_inv_def)
  note I = intern_ok [OF ref room, of tm]
  show ?thesis
  proof (cases "ref_of (tag_data st) tm")
    case None
    obtain h where h: "intern (tag_data st) tm (length ?es) = Some (h, None)" "ohash_room h k"
      "refs_ok h (Suc (length ?es))" "ref_of h = (ref_of (tag_data st))(tm \<mapsto> length ?es)"
      using I None by auto
    let ?e = "\<lparr>t_nodes = [], t_max = 0, t_prio = 0\<rparr>"
    let ?st = "st\<lparr>tag_data := h, tag_entries := ?es @ [?e]\<rparr>"
    obtain st' e' where s: "tag_remember (length ?es) p n ch tm ?st = Some st'" "tag_data st' = h"
      "tag_entries st' = (?es @ [?e])[length ?es := e']" "t_prio e' = p" "t_nodes e' = [n]"
      "nodes_ok (tag_entries st') (tag_nodes st')" "quiet n ?ns (tag_nodes st')"
      using tag_remember_ok [of ?st "length ?es" n p ch tm] nodes_ok_new [OF nok] n by auto
    have "tag_view st' = (tag_view st)(tm \<mapsto> (p, [n]))"
      using s(2-5) refs_bound [OF ref] None by (auto simp: tag_view_def h(4) fun_eq_iff nth_append intro!: map_option_cong)
    moreover have "tag_view st tm = None" using None by (simp add: tag_view_def)
    moreover have "tag_inv st'" using s(2,3,6) h(3) by (simp add: tag_inv_def)
    ultimately show ?thesis
      using h(1,2) s(1,2,7) by (simp add: tag_enter_def tag_step_def Let_def)
  next
    case (Some r)
    obtain h where h: "intern (tag_data st) tm (length ?es) = Some (h, Some r)" "ohash_room h k"
      "refs_ok h (length ?es)" "ref_of h = ref_of (tag_data st)"
      using I Some by auto
    have r: "r < length ?es" using refs_bound [OF ref Some] .
    let ?e = "?es ! r"
    have v: "tag_view st tm = Some (t_prio ?e, t_nodes ?e)" using Some by (simp add: tag_view_def)
    have st: "st = \<lparr>tag_data = tag_data st, tag_entries = ?es, tag_nodes = ?ns\<rparr>" by simp
    have upd: "tag_view \<lparr>tag_data = h, tag_entries = ?es[r := e], tag_nodes = ns\<rparr> = (tag_view st)(tm \<mapsto> (t_prio e, t_nodes e))"
      for e ns
    proof -
      have "tag_view \<lparr>tag_data = h, tag_entries = ?es, tag_nodes = ?ns\<rparr> = tag_view st"
        using h(4) by (simp add: tag_view_def fun_eq_iff)
      then show ?thesis using tag_view_upd [OF h(3), of tm r e ns ?ns] h(4) Some by simp
    qed
    have enter: "tag_enter tm p n ch st = (let st = st\<lparr>tag_data := h\<rparr> in
         if t_prio ?e < p then Some st
            else if t_prio ?e > p \<or> p = TAG_FALLBACK then
              let st = st\<lparr>tag_nodes := untag_all (t_nodes ?e) (tag_nodes st)\<rparr>
              in if p = TAG_FALLBACK
                 then Some (st\<lparr>tag_entries := (tag_entries st)[r := ?e\<lparr>t_nodes := [], t_prio := TAG_DELETE\<rparr>]\<rparr>)
                 else tag_remember r p n ch tm
                   (st\<lparr>tag_entries := (tag_entries st)[r := ?e\<lparr>t_nodes := []\<rparr>]\<rparr>)
            else tag_remember r p n ch tm st)"
      using h(1) by (simp add: tag_enter_def Let_def)
    consider "t_prio ?e < p" | "t_prio ?e \<ge> p" "p = TAG_FALLBACK" | "t_prio ?e > p" "p \<noteq> TAG_FALLBACK"
      | "t_prio ?e = p" "p \<noteq> TAG_FALLBACK" by linarith
    then show ?thesis
    proof cases
      case 1
      then have "tag_enter tm p n ch st = Some (st\<lparr>tag_data := h\<rparr>)" by (simp add: enter)
      moreover have "tag_view (st\<lparr>tag_data := h\<rparr>) = (tag_view st)(tm \<mapsto> tag_step (tag_view st tm) p n)"
        using 1 h(4) v by (auto simp: tag_step_def tag_view_def fun_eq_iff)
      ultimately show ?thesis using h nok by (simp add: tag_inv_def quiet_refl)
    next
      case 2
      let ?st = "\<lparr>tag_data = h, tag_entries = ?es[r := ?e\<lparr>t_nodes := [], t_prio := TAG_DELETE\<rparr>],
        tag_nodes = untag_all (t_nodes ?e) ?ns\<rparr>"
      have "tag_enter tm p n ch st = Some ?st" unfolding enter using 2 by simp
      moreover have "tag_view ?st = (tag_view st)(tm \<mapsto> tag_step (tag_view st tm) p n)"
        unfolding upd using 2 v by (simp add: tag_step_def)
      moreover have "nodes_ok (tag_entries ?st) (tag_nodes ?st)" using nodes_ok_clear [OF nok r] by simp
      ultimately show ?thesis using h by (simp add: tag_inv_def quiet_untag)
    next
      case 3
      let ?st = "st\<lparr>tag_data := h, tag_nodes := untag_all (t_nodes ?e) ?ns, tag_entries := ?es[r := ?e\<lparr>t_nodes := []\<rparr>]\<rparr>"
      have ok: "nodes_ok (tag_entries ?st) (tag_nodes ?st)" using nodes_ok_clear [OF nok r] by simp
      have "\<not> n_id (tag_nodes ?st ! n)" using n by (simp add: untag_all_nth untag_def)
      then obtain st' e' where s: "tag_remember r p n ch tm ?st = Some st'" "tag_data st' = h"
        "tag_entries st' = ?es[r := e']" "t_prio e' = p" "t_nodes e' = [n]"
        "nodes_ok (tag_entries st') (tag_nodes st')" "quiet n (untag_all (t_nodes ?e) ?ns) (tag_nodes st')"
        using tag_remember_ok [OF ok, of r n p ch tm] r n by auto
      have "tag_view st' = (tag_view st)(tm \<mapsto> tag_step (tag_view st tm) p n)"
      proof -
        have "st' = \<lparr>tag_data = h, tag_entries = ?es[r := e'], tag_nodes = tag_nodes st'\<rparr>" using s(2,3) by simp
        then have "tag_view st' = (tag_view st)(tm \<mapsto> (t_prio e', t_nodes e'))" using upd by metis
        then show ?thesis using s(4,5) v 3 by (simp add: tag_step_def)
      qed
      moreover have "tag_enter tm p n ch st = Some st'" using 3 s(1) by (simp add: enter)
      moreover have "quiet n ?ns (tag_nodes st')" using quiet_trans [OF quiet_untag s(7)] .
      ultimately show ?thesis using h s by (simp add: tag_inv_def)
    next
      case 4
      let ?st = "st\<lparr>tag_data := h\<rparr>"
      obtain st' e' where s: "tag_remember r p n ch tm ?st = Some st'" "tag_data st' = h"
        "tag_entries st' = ?es[r := e']" "t_prio e' = p" "t_nodes e' = t_nodes ?e @ [n]"
        "nodes_ok (tag_entries st') (tag_nodes st')" "quiet n ?ns (tag_nodes st')"
        using tag_remember_ok [of ?st r n p ch tm] nok r n by auto
      have "tag_view st' = (tag_view st)(tm \<mapsto> tag_step (tag_view st tm) p n)"
      proof -
        have "st' = \<lparr>tag_data = h, tag_entries = ?es[r := e'], tag_nodes = tag_nodes st'\<rparr>" using s(2,3) by simp
        then have "tag_view st' = (tag_view st)(tm \<mapsto> (t_prio e', t_nodes e'))" using upd by metis
        then show ?thesis using s(4,5) v 4 by (simp add: tag_step_def)
      qed
      moreover have "tag_enter tm p n ch st = Some st'" using 4 s(1) by (simp add: enter)
      ultimately show ?thesis using h s by (simp add: tag_inv_def)
    qed
  qed
qed

subsection \<open>Sequences of calls\<close>

text \<open>A call with any argument is the update of the map by its request.\<close>

lemma tag_put_request:
  assumes "prio \<le> TAG_FALLBACK" "n < length (tag_nodes st)" "\<not> n_id (tag_nodes st ! n)"
  shows "\<exists>ch. tag_put s prio n st =
    (case tag_request s prio (tag_nodes st ! n) of None \<Rightarrow> Some st | Some (t, p) \<Rightarrow> tag_enter t p n ch st)"
  using assms
  by (auto simp: tag_put_def tag_request_def tag_source_def Let_def split_beta split: option.splits)

lemma tag_request_prio: "tag_request s prio x = Some (t, p) \<Longrightarrow> prio \<le> TAG_FALLBACK \<Longrightarrow> p \<le> TAG_FALLBACK"
  by (auto simp: tag_request_def Let_def split_beta tag_prio_defs split: option.splits if_splits)

lemma tag_put_ok:
  assumes "tag_inv st" "ohash_room (tag_data st) (Suc k)" "prio \<le> TAG_FALLBACK"
    "n < length (tag_nodes st)" "\<not> n_id (tag_nodes st ! n)"
  shows "\<exists>st'. tag_put s prio n st = Some st' \<and> tag_inv st' \<and> ohash_room (tag_data st') k \<and>
    quiet n (tag_nodes st) (tag_nodes st') \<and>
    tag_view st' = (case tag_request s prio (tag_nodes st ! n) of None \<Rightarrow> tag_view st
      | Some (t, p) \<Rightarrow> (tag_view st)(t \<mapsto> tag_step (tag_view st t) p n))"
proof (cases "tag_request s prio (tag_nodes st ! n)")
  case None
  have "ohash_room (tag_data st) k" using assms(2) by (simp add: ohash_room_def)
  then show ?thesis using tag_put_request [OF assms(3-5), of s] None assms(1) by (auto simp: quiet_refl)
next
  case (Some tp)
  obtain t p where tp: "tp = (t, p)" by (cases tp)
  obtain ch where c: "tag_put s prio n st = tag_enter t p n ch st"
    using tag_put_request [OF assms(3-5), of s] Some tp by auto
  have "p \<le> TAG_FALLBACK" using tag_request_prio [of s prio _ t p] Some tp assms(3) by simp
  then show ?thesis using tag_enter_ok [OF assms(1,2) _ assms(4,5), of p t ch] c Some tp by auto
qed

type_synonym tag_call = "string option \<times> int \<times> nat"

primrec tag_run :: "tag_call list \<Rightarrow> tag_state \<Rightarrow> tag_state option" where
  "tag_run [] st = Some st"
| "tag_run (c # cs) st = (case c of (s, prio, n) \<Rightarrow> do { st \<leftarrow> tag_put s prio n st; tag_run cs st })"

text \<open>The requests for one term in a sequence of calls.\<close>

definition requests :: "tag_node list \<Rightarrow> string \<Rightarrow> tag_call list \<Rightarrow> (int \<times> nat) list" where
  "requests nodes t cs = List.map_filter (\<lambda>(s, prio, n).
     case tag_request s prio (nodes ! n) of Some (u, p) \<Rightarrow> if u = t then Some (p, n) else None | None \<Rightarrow> None) cs"

lemma requests_simps [simp]:
  "requests nodes t [] = []"
  "requests nodes t ((s, prio, n) # cs) =
    (case tag_request s prio (nodes ! n) of Some (u, p) \<Rightarrow> if u = t then [(p, n)] else [] | None \<Rightarrow> []) @ requests nodes t cs"
  by (auto simp: requests_def List.map_filter_def split: option.splits)

lemma tag_request_cong: "n_child x = n_child y \<Longrightarrow> tag_request s prio x = tag_request s prio y"
proof -
  assume "n_child x = n_child y"
  then have "tag_implicit x = tag_implicit y" by (simp add: tag_implicit_def)
  then have "tag_source s x = tag_source s y" by (cases s) (simp_all add: tag_source_def)
  then show ?thesis by (simp only: tag_request_def)
qed

lemma requests_cong:
  assumes "map n_child nodes = map n_child nodes'" "\<forall>(s, prio, n) \<in> set cs. n < length nodes"
  shows "requests nodes t cs = requests nodes' t cs"
proof -
  have "n_child (nodes ! n) = n_child (nodes' ! n)" if "n < length nodes" for n
    using that assms(1) by (metis length_map nth_map)
  then have req: "tag_request s prio (nodes ! n) = tag_request s prio (nodes' ! n)" if "n < length nodes" for s prio n
    using that tag_request_cong by blast
  show ?thesis
    using assms(2)
  proof (induction cs)
    case (Cons c cs)
    obtain s prio n where "c = (s, prio, n)" by (cases c)
    then show ?case using Cons req by simp
  qed simp
qed

lemma requests_prio:
  "\<forall>(s, prio, n) \<in> set cs. prio \<le> TAG_FALLBACK \<Longrightarrow> x \<in> set (requests nodes t cs) \<Longrightarrow> fst x \<le> TAG_FALLBACK"
proof (induction cs)
  case (Cons c cs)
  obtain s prio n where c: "c = (s, prio, n)" by (cases c)
  show ?case
  proof (cases "tag_request s prio (nodes ! n)")
    case (Some up)
    then show ?thesis using Cons c tag_request_prio [of s prio _ "fst up" "snd up"]
      by (auto split: if_splits prod.splits)
  qed (use Cons c in auto)
qed simp

definition call_ok :: "tag_node list \<Rightarrow> tag_call \<Rightarrow> bool" where
  "call_ok nodes c = (case c of (s, prio, n) \<Rightarrow> prio \<le> TAG_FALLBACK \<and> n < length nodes \<and> \<not> n_id (nodes ! n))"

lemma tag_run_ok:
  assumes "tag_inv st" "ohash_room (tag_data st) (length cs)" "\<forall>c \<in> set cs. call_ok (tag_nodes st) c"
    "distinct (map (\<lambda>(s, prio, n). n) cs)" "\<forall>t. tag_view st t = tag_best (old t)" "\<forall>t. \<forall>x \<in> set (old t). fst x \<le> TAG_FALLBACK"
  shows "\<exists>st'. tag_run cs st = Some st' \<and> tag_inv st' \<and>
    (\<forall>t. tag_view st' t = tag_best (old t @ requests (tag_nodes st) t cs))"
  using assms
proof (induction cs arbitrary: st old)
  case (Cons c cs)
  obtain s prio n where c: "c = (s, prio, n)" by (cases c)
  have n: "prio \<le> TAG_FALLBACK" "n < length (tag_nodes st)" "\<not> n_id (tag_nodes st ! n)"
    using Cons.prems(3) by (auto simp: c call_ok_def)
  obtain st1 where st1: "tag_put s prio n st = Some st1" "tag_inv st1" "ohash_room (tag_data st1) (length cs)"
    "quiet n (tag_nodes st) (tag_nodes st1)"
    "tag_view st1 = (case tag_request s prio (tag_nodes st ! n) of None \<Rightarrow> tag_view st
      | Some (t, p) \<Rightarrow> (tag_view st)(t \<mapsto> tag_step (tag_view st t) p n))"
    using tag_put_ok [OF Cons.prems(1) _ n, of "length cs" s] Cons.prems(2) by auto
  define new where "new = (\<lambda>t. old t @ requests (tag_nodes st) t [c])"
  have len: "length (tag_nodes st1) = length (tag_nodes st)" using quiet_length [OF st1(4)] .
  have calls: "\<forall>c \<in> set cs. call_ok (tag_nodes st1) c"
  proof
    fix d assume d: "d \<in> set cs"
    obtain s' p' m where "d = (s', p', m)" by (cases d)
    moreover have "m \<noteq> n" using Cons.prems(4) d calculation by (auto simp: c image_iff)
    ultimately show "call_ok (tag_nodes st1) d"
      using Cons.prems(3) d st1(4) len by (auto simp: call_ok_def quiet_def)
  qed
  have prio: "\<forall>t. \<forall>x \<in> set (new t). fst x \<le> TAG_FALLBACK"
    using Cons.prems(6) requests_prio [of "[c]"] n(1) by (auto simp: new_def c)
  have view: "tag_view st1 t = tag_best (new t)" for t
  proof (cases "tag_request s prio (tag_nodes st ! n)")
    case None
    then show ?thesis using st1(5) Cons.prems(5) by (simp add: new_def c)
  next
    case (Some up)
    obtain u p where up: "up = (u, p)" by (cases up)
    have "\<forall>x \<in> set (old u @ [(p, n)]). fst x \<le> TAG_FALLBACK"
      using Cons.prems(6) tag_request_prio [of s prio "tag_nodes st ! n" u p] Some up n(1) by auto
    from tag_best_snoc [OF this] show ?thesis
      using st1(5) Some up Cons.prems(5) by (auto simp: new_def c)
  qed
  obtain st' where st': "tag_run cs st1 = Some st'" "tag_inv st'"
    "\<forall>t. tag_view st' t = tag_best (new t @ requests (tag_nodes st1) t cs)"
    using Cons.IH [OF st1(2,3) calls _ _ prio] Cons.prems(4) view by (auto simp: c)
  have "requests (tag_nodes st1) t cs = requests (tag_nodes st) t cs" for t
    using st1(4) calls by (intro requests_cong) (auto simp: quiet_def call_ok_def)
  then show ?case using st' st1(1) by (auto simp: c new_def)
qed simp

lemma tag_alloc_ok:
  assumes "\<forall>x \<in> set (tag_nodes st). \<not> n_id x \<and> n_tag x = None"
  shows "tag_inv (tag_alloc st)" "tag_view (tag_alloc st) t = tag_best []"
  using assms by (auto simp: tag_inv_def tag_alloc_def refs_ok_init nodes_ok_def tag_view_def tag_best_def)

lemma tag_ids:
  assumes "tag_inv st" "n < length (tag_nodes st)"
  shows "n_id (tag_nodes st ! n) \<longleftrightarrow> (\<exists>t p ns. tag_view st t = Some (p, ns) \<and> n \<in> set ns)"
proof -
  have ok: "refs_ok (tag_data st) (length (tag_entries st))" "nodes_ok (tag_entries st) (tag_nodes st)"
    using assms(1) by (simp_all add: tag_inv_def)
  have "(\<exists>i < length (tag_entries st). n \<in> set (t_nodes (tag_entries st ! i))) \<longleftrightarrow>
      (\<exists>t r. ref_of (tag_data st) t = Some r \<and> n \<in> set (t_nodes (tag_entries st ! r)))"
    using refs_surj [OF ok(1)] refs_bound [OF ok(1)] by blast
  then show ?thesis using nodes_okD(3) [OF ok(2) assms(2)] by (auto simp: tag_view_def)
qed

lemma tag_exists_ok:
  assumes "tag_inv st"
  shows "\<exists>st'. tag_exists t st = Some (st', tag_view st t \<noteq> None) \<and> tag_inv st' \<and> tag_view st' = tag_view st"
proof -
  obtain h j where h: "ohash_qlookup fst (tag_data st) t = Some (h, j)" "refs_ok h (length (tag_entries st))"
    "ref_of h = ref_of (tag_data st)" "map_option (map_option snd) (ohash_find h j) = Some (ref_of (tag_data st) t)"
    using find_ref [of "tag_data st" "length (tag_entries st)" t] assms by (auto simp: tag_inv_def)
  obtain r where r: "ohash_find h j = Some r" "map_option snd r = ref_of (tag_data st) t"
    using h(4) by auto
  then have "r \<noteq> None \<longleftrightarrow> tag_view st t \<noteq> None" unfolding tag_view_def r(2) [symmetric] by simp
  then show ?thesis
    using h(1-3) r(1) assms by (auto simp: tag_exists_def tag_inv_def tag_view_def fun_eq_iff)
qed

subsection \<open>Properties\<close>

text \<open>
  C9: from any state that satisfies the invariant, \<open>tag_put\<close> ends without failing an assertion
  or writing outside an array, and keeps the invariant; in particular the nodes that carry
  \<open>NODE_ID\<close> are exactly those listed for some term.\<close>

theorem tag_put_invariant:
  assumes "tag_inv st" "ohash_room (tag_data st) 1" "prio \<le> TAG_FALLBACK" "n < length (tag_nodes st)"
  shows "\<exists>st'. tag_put s prio n st = Some st' \<and> tag_inv st' \<and>
    (\<forall>m < length (tag_nodes st'). n_id (tag_nodes st' ! m) \<longleftrightarrow>
       (\<exists>t p ns. tag_view st' t = Some (p, ns) \<and> m \<in> set ns))"
proof (cases "n_id (tag_nodes st ! n)")
  case True
  then have "tag_put s prio n st = Some st" using assms(3,4) by (simp add: tag_put_def)
  then show ?thesis using assms(1) tag_ids by blast
next
  case False
  then obtain st' where "tag_put s prio n st = Some st'" "tag_inv st'"
    using tag_put_ok [OF assms(1) _ assms(3,4), of 0 s] assms(2) by auto
  then show ?thesis using tag_ids by blast
qed

text \<open>Four nodes; the text of the last one is a macro name with its first blank.\<close>

definition sample_tags :: tag_state where
  "sample_tags = tag_alloc \<lparr>tag_data = ohash_init 4, tag_entries = [], tag_nodes =
     map (\<lambda>s. \<lparr>n_id = False, n_tag = None, n_child = s\<rparr>) [Some ''-a'', None, Some ''a b'', Some ''a'']\<rparr>"

lemma sample_tags_ok: "tag_inv sample_tags" "ohash_room (tag_data sample_tags) 10" "length (tag_nodes sample_tags) = 4"
proof -
  show "tag_inv sample_tags" unfolding sample_tags_def by (rule tag_alloc_ok) auto
  show "ohash_room (tag_data sample_tags) 10"
    by (simp add: sample_tags_def tag_alloc_def ohash_room_def ohash_init_def MINSIZE_def Let_def)
  show "length (tag_nodes sample_tags) = 4" by (simp add: sample_tags_def tag_alloc_def)
qed

theorem tag_put_invariant_witness:
  "\<exists>st'. tag_put (Some ''a b'') TAG_STRONG 1 sample_tags = Some st' \<and> tag_inv st'"
proof -
  have "ohash_room (tag_data sample_tags) 1" using sample_tags_ok(2) by (simp add: ohash_room_def)
  then show ?thesis
    using tag_put_invariant [OF sample_tags_ok(1), of TAG_STRONG 1 "Some ''a b''"] sample_tags_ok(3)
    by (auto simp: tag_prio_defs)
qed

text \<open>
  C8: after a sequence of calls on different nodes, the table lists for every term exactly the
  nodes of its best requests: those with the lowest priority number, in the order of the calls,
  except that a fallback is only listed when it is the only request for the term.  The order
  of the calls does not matter otherwise, and \<open>tag_exists\<close> finds the terms that were requested.\<close>

theorem tag_put_best:
  assumes "\<forall>x \<in> set (tag_nodes st). \<not> n_id x \<and> n_tag x = None" "3 * length cs < 2 ^ 29"
    "\<forall>(s, prio, n) \<in> set cs. prio \<le> TAG_FALLBACK \<and> n < length (tag_nodes st)"
    "distinct (map (\<lambda>(s, prio, n). n) cs)"
  shows "\<exists>st'. tag_run cs (tag_alloc st) = Some st' \<and>
    (\<forall>t. tag_view st' t = tag_best (requests (tag_nodes st) t cs) \<and>
       (\<exists>st''. tag_exists t st' = Some (st'', requests (tag_nodes st) t cs \<noteq> [])))"
proof -
  have nodes: "tag_nodes (tag_alloc st) = tag_nodes st" by (simp add: tag_alloc_def)
  have "ohash_room (tag_data (tag_alloc st)) (length cs)"
    using assms(2) by (simp add: tag_alloc_def ohash_room_def ohash_init_def MINSIZE_def Let_def)
  moreover have "\<forall>c \<in> set cs. call_ok (tag_nodes (tag_alloc st)) c"
    using assms(1,3) by (auto simp: call_ok_def nodes)
  ultimately obtain st' where st': "tag_run cs (tag_alloc st) = Some st'" "tag_inv st'"
    "\<forall>t. tag_view st' t = tag_best (requests (tag_nodes st) t cs)"
    using tag_run_ok [of "tag_alloc st" cs "\<lambda>t. []"] tag_alloc_ok [OF assms(1)] assms(4) by (auto simp: nodes)
  have "tag_best ps \<noteq> None \<longleftrightarrow> ps \<noteq> []" for ps by (simp add: tag_best_def Let_def)
  then have "\<exists>st''. tag_exists t st' = Some (st'', requests (tag_nodes st) t cs \<noteq> [])" for t
    using tag_exists_ok [OF st'(2), of t] st'(3) by auto
  then show ?thesis using st'(1,3) by blast
qed

theorem tag_put_best_witness:
  "\<exists>st'. tag_run [(None, TAG_FALLBACK, 0), (Some ''a'', 3, 1), (None, 2, 2), (None, 3, 3)] sample_tags = Some st' \<and>
    tag_view st' ''a'' = Some (3, [1, 3])"
proof -
  let ?st = "sample_tags"
  let ?cs = "[(None, TAG_FALLBACK, 0), (Some ''a'', 3, 1), (None, 2, 2), (None, 3, 3)]"
  have "requests (tag_nodes ?st) ''a'' ?cs = [(TAG_FALLBACK, 0), (3, 1), (TAG_WEAK, 2), (3, 3)]"
    by (simp add: sample_tags_def tag_alloc_def tag_request_def tag_source_def tag_implicit_def tag_prio_defs)
  then have "tag_best (requests (tag_nodes ?st) ''a'' ?cs) = Some (3, [1, 3])"
    by (simp add: tag_best_def tag_prio_defs)
  moreover have "tag_alloc ?st = ?st" by (simp add: sample_tags_def tag_alloc_def)
  moreover have "\<forall>x \<in> set (tag_nodes ?st). \<not> n_id x \<and> n_tag x = None" by (simp add: sample_tags_def tag_alloc_def)
  moreover have "\<forall>(s, prio, n) \<in> set ?cs. prio \<le> TAG_FALLBACK \<and> n < length (tag_nodes ?st)"
    by (simp add: sample_tags_ok(3) tag_prio_defs)
  ultimately show ?thesis using tag_put_best [of ?st ?cs] by auto
qed

end
