(* ===== verification/Tbl_Node.thy ===== *)
theory Tbl_Node
  imports Roff_Escape Roff_Num
begin

section \<open>Tables: the data of the tbl parser, \<open>tbl.h\<close> and \<open>tbl_int.h\<close>\<close>

text \<open>
  A table under construction.  The option, cell and modifier flags, which the C code keeps in
  bit masks, are sets.  Linked lists are lists; a pointer to a layout row is its index in the
  list of rows, and a pointer from a data cell to its layout cell is the column number of that
  cell, which is its index in the row.  Widths and spacings are \<open>size_t\<close>, 64 bits.
\<close>

datatype tbl_opt = OPT_ALLBOX | OPT_BOX | OPT_CENTRE | OPT_DBOX | OPT_EXPAND | OPT_NOKEEP
  | OPT_NOSPACE | OPT_NOWARN | OPT_VSPACE

datatype tbl_cellt = CELL_CENTRE | CELL_RIGHT | CELL_LEFT | CELL_NUMBER | CELL_SPAN | CELL_LONG
  | CELL_DOWN | CELL_HORIZ | CELL_DHORIZ

datatype cell_flag = CELL_TALIGN | CELL_UP | CELL_BALIGN | CELL_WIGN | CELL_EQUAL | CELL_WMAX

datatype tbl_datt = DATA_NONE | DATA_DATA | DATA_HORIZ | DATA_DHORIZ | DATA_NHORIZ | DATA_NDHORIZ

datatype tbl_spant = SPAN_DATA | SPAN_HORIZ | SPAN_DHORIZ

datatype tbl_part = PART_OPTS | PART_LAYOUT | PART_DATA | PART_CDATA

record tbl_opts =
  to_opts :: "tbl_opt set"
  to_cols :: nat
  to_lvert :: nat
  to_rvert :: nat
  to_tab :: char
  to_decimal :: char

record tbl_cell =
  c_width :: "64 word"
  c_spacing :: "64 word"
  c_vert :: nat
  c_col :: nat
  c_flags :: "cell_flag set"
  c_font :: mandoc_esc
  c_pos :: tbl_cellt

record tbl_row =
  r_cells :: "tbl_cell list"
  r_vert :: nat

record tbl_dat =
  d_col :: nat
  d_string :: "string option"
  d_hspans :: nat
  d_vspans :: nat
  d_block :: bool
  d_pos :: tbl_datt

record tbl_span =
  s_layout :: nat
  s_dats :: "tbl_dat list"
  s_line :: nat
  s_pos :: tbl_spant

record tbl_node =
  t_opts :: tbl_opts
  t_rows :: "tbl_row list"
  t_spans :: "tbl_span list"
  t_current :: "nat option"
  t_line :: nat
  t_pos :: nat
  t_part :: tbl_part

definition SIZE_MAX :: "64 word" where "SIZE_MAX = - 1"

text \<open>The new cells that \<open>cell_alloc\<close> and \<open>getdata\<close> make, and an empty row.\<close>

definition new_cell :: "tbl_cellt \<Rightarrow> nat \<Rightarrow> tbl_cell" where
  "new_cell pos col = \<lparr>c_width = 0, c_spacing = SIZE_MAX, c_vert = 0, c_col = col, c_flags = {},
     c_font = ESCAPE_FONTROMAN, c_pos = pos\<rparr>"

definition new_row :: tbl_row where
  "new_row = \<lparr>r_cells = [], r_vert = 0\<rparr>"

definition add_opts :: "tbl_opt set \<Rightarrow> tbl_node \<Rightarrow> tbl_node" where
  "add_opts os t = t\<lparr>t_opts := (t_opts t)\<lparr>to_opts := to_opts (t_opts t) \<union> os\<rparr>\<rparr>"

definition del_opt :: "tbl_opt \<Rightarrow> tbl_node \<Rightarrow> tbl_node" where
  "del_opt opt t = t\<lparr>t_opts := (t_opts t)\<lparr>to_opts := to_opts (t_opts t) - {opt}\<rparr>\<rparr>"

text \<open>The white space that all parsers of the section skip.\<close>

definition isblank_tbl :: "char \<Rightarrow> bool" where
  "isblank_tbl c \<longleftrightarrow> c = CHR '' '' \<or> c = TAB"

lemma not_isblank_tbl_NUL [simp]: "\<not> isblank_tbl NUL"
  by (simp add: isblank_tbl_def)

subsection \<open>Allocation: \<open>tbl_alloc\<close>, \<open>tbl_restart\<close>\<close>

definition tbl_alloc :: "nat \<Rightarrow> nat \<Rightarrow> tbl_node" where
  "tbl_alloc pos line = \<lparr>t_opts = \<lparr>to_opts = {}, to_cols = 0, to_lvert = 0, to_rvert = 0, to_tab = TAB,
       to_decimal = CHR ''.''\<rparr>, t_rows = [], t_spans = [], t_current = None, t_line = line, t_pos = pos,
     t_part = PART_OPTS\<rparr>"

definition tbl_restart :: "nat \<Rightarrow> nat \<Rightarrow> tbl_node \<Rightarrow> tbl_node \<times> msg list" where
  "tbl_restart line pos t =
     (t\<lparr>t_part := PART_LAYOUT, t_line := line, t_pos := pos\<rparr>,
      if t_part t = PART_CDATA then [(MANDOCERR_TBLDATA_BLK, line, pos, ''T&'')] else [])"

end
