(* ===== verification/Tbl_Opts.thy ===== *)
theory Tbl_Opts
  imports Tbl_Node
begin

section \<open>Table options: \<open>tbl_opts.c\<close>\<close>

text \<open>
  The parser of the options line.  \<open>tbl_option\<close> is only called when the line has a
  semicolon outside parentheses, which \<open>tbl_read\<close> checks; the loops rely on it.
\<close>

datatype tbl_key = KEY_DPOINT | KEY_DELIM | KEY_LINESIZE | KEY_TAB | KEY_FLAGS "tbl_opt set"

definition opt_keys :: "(string \<times> tbl_key) list" where
  "opt_keys = [
     (''decimalpoint'', KEY_DPOINT), (''delim'', KEY_DELIM), (''linesize'', KEY_LINESIZE), (''tab'', KEY_TAB),
     (''allbox'', KEY_FLAGS {OPT_ALLBOX, OPT_BOX}), (''box'', KEY_FLAGS {OPT_BOX}),
     (''frame'', KEY_FLAGS {OPT_BOX}), (''center'', KEY_FLAGS {OPT_CENTRE}), (''centre'', KEY_FLAGS {OPT_CENTRE}),
     (''doublebox'', KEY_FLAGS {OPT_DBOX}), (''doubleframe'', KEY_FLAGS {OPT_DBOX}),
     (''expand'', KEY_FLAGS {OPT_EXPAND}), (''nokeep'', KEY_FLAGS {OPT_NOKEEP}),
     (''nospaces'', KEY_FLAGS {OPT_NOSPACE}), (''nowarn'', KEY_FLAGS {OPT_NOWARN})]"

definition set_tab :: "char \<Rightarrow> tbl_node \<Rightarrow> tbl_node" where
  "set_tab c t = t\<lparr>t_opts := (t_opts t)\<lparr>to_tab := c\<rparr>\<rparr>"

definition set_decimal :: "char \<Rightarrow> tbl_node \<Rightarrow> tbl_node" where
  "set_decimal c t = t\<lparr>t_opts := (t_opts t)\<lparr>to_decimal := c\<rparr>\<rparr>"

text \<open>
  The loop \<open>while (p[*pos + len] != ')') len++\<close> does not stop at the terminator: without a
  closing parenthesis it reads past the end.
\<close>

definition paren_end :: "string \<Rightarrow> nat \<Rightarrow> nat option" where
  "paren_end p pos =
     (let n = length (takeWhile (\<lambda>c. c \<noteq> CHR '')'') (drop pos p))
      in if pos + n < length p then Some (pos + n) else None)"

definition key_want :: "tbl_key \<Rightarrow> nat" where
  "key_want key = (case key of KEY_DELIM \<Rightarrow> 2 | KEY_LINESIZE \<Rightarrow> 0 | _ \<Rightarrow> 1)"

definition opt_arg :: "string \<Rightarrow> tbl_key \<Rightarrow> tbl_node \<Rightarrow> nat \<Rightarrow> string \<Rightarrow> nat \<Rightarrow> (tbl_node \<times> nat \<times> msg list) option" where
  "opt_arg name key t ln p pos = do {
     pos \<leftarrow> scan_while isblank_tbl p pos;
     c \<leftarrow> rd p pos;
     (pos, e) \<leftarrow> (if c = CHR ''('' then do { e \<leftarrow> paren_end p (Suc pos); Some (Suc pos, e) } else Some (pos, pos));
     let len = e - pos;
     let m1 = (if key = KEY_DELIM then [(MANDOCERR_TBLOPT_EQN, ln, pos, take len (drop pos p))] else []);
     x \<leftarrow> rd p pos;
     let t' = (if key = KEY_TAB \<and> len = 1 then set_tab x t
               else if key = KEY_DPOINT \<and> len = 1 then set_decimal x t else t);
     let m2 = (if len = 0 then [(MANDOCERR_TBLOPT_NOARG, ln, pos, name)]
               else if key_want key \<noteq> 0 \<and> len \<noteq> key_want key
               then [(MANDOCERR_TBLOPT_ARGSZ, ln, pos, name @ '' want '' @ print_dec (key_want key) @ '' have '' @ print_dec len)] else []);
     d \<leftarrow> rd p e;
     Some (t', if d = CHR '')'' then Suc e else e, m1 @ m2)}"

definition skip_sep :: "char \<Rightarrow> bool" where
  "skip_sep c \<longleftrightarrow> isblank_tbl c \<or> c = CHR '',''"

lemma not_skip_sep_NUL [simp]: "\<not> skip_sep NUL"
  by (simp add: skip_sep_def)

text \<open>\<open>strncasecmp\<close> on the whole name, then the name of the key must end.\<close>

definition find_key :: "string \<Rightarrow> (string \<times> tbl_key) option" where
  "find_key name = find (\<lambda>(k, _). k = map tolower name) opt_keys"

fun option_loop :: "nat \<Rightarrow> tbl_node \<Rightarrow> nat \<Rightarrow> string \<Rightarrow> nat \<Rightarrow> msg list \<Rightarrow> (tbl_node \<times> nat \<times> msg list) option" where
  "option_loop 0 t ln p pos ms = None"
| "option_loop (Suc n) t ln p pos ms = do {
     pos \<leftarrow> scan_while skip_sep p pos;
     c \<leftarrow> rd p pos;
     if c = CHR '';'' then Some (t, Suc pos, ms)
     else do {
       e \<leftarrow> scan_while isalpha p pos;
       let name = take (e - pos) (drop pos p);
       if e = pos then option_loop n t ln p (Suc pos) (ms @ [(MANDOCERR_TBLOPT_ALPHA, ln, pos, [c])])
       else case find_key name of
         None \<Rightarrow> option_loop n t ln p e (ms @ [(MANDOCERR_TBLOPT_BAD, ln, pos, name)])
       | Some (kname, KEY_FLAGS os) \<Rightarrow> option_loop n (add_opts os t) ln p e ms
       | Some (kname, key) \<Rightarrow> do {
           (t', pos', ms') \<leftarrow> opt_arg kname key t ln p e;
           option_loop n t' ln p pos' (ms @ ms')}}}"

definition tbl_option :: "tbl_node \<Rightarrow> nat \<Rightarrow> string \<Rightarrow> nat \<Rightarrow> (tbl_node \<times> nat \<times> msg list) option" where
  "tbl_option t ln p offs = option_loop (Suc (Suc (length p))) t ln p offs []"


subsection \<open>The options line is parsed within its bounds\<close>

text \<open>
  What \<open>tbl_read\<close> has checked before it calls the parser: from the parse point on there is
  a semicolon, and every parenthesis opened before it is closed before it.
\<close>

definition option_line :: "string \<Rightarrow> nat \<Rightarrow> nat \<Rightarrow> bool" where
  "option_line p q pos \<longleftrightarrow> pos \<le> q \<and> q < length p \<and> p ! q = CHR '';'' \<and>
     (\<forall>k. pos \<le> k \<and> k < q \<and> p ! k = CHR ''('' \<longrightarrow> (\<exists>m. k < m \<and> m < q \<and> p ! m = CHR '')''))"

lemma option_line_mono: "option_line p q pos \<Longrightarrow> pos \<le> pos' \<Longrightarrow> pos' \<le> q \<Longrightarrow> option_line p q pos'"
  unfolding option_line_def by (meson le_trans)

lemma scan_stays:
  assumes "option_line p q pos" "\<not> P (CHR '';'')" "\<not> P NUL"
  obtains j where "scan_while P p pos = Some j" "pos \<le> j" "j \<le> q"
proof -
  have q: "pos \<le> q" "q < length p" "p ! q = CHR '';''" using assms(1) by (auto simp: option_line_def)
  obtain j where j: "scan_while P p pos = Some j" "pos \<le> j"
    using scan_while_total [of pos p P] q assms(3) by auto
  have "j \<le> q"
  proof (rule ccontr)
    assume "\<not> j \<le> q"
    then show False using scan_while_range [OF j(1), of q] q assms(2) by (auto simp: rd_in)
  qed
  with j that show thesis by blast
qed

lemma paren_end_within:
  assumes "m < length p" "pos \<le> m" "p ! m = CHR '')''"
  shows "\<exists>e. paren_end p pos = Some e \<and> pos \<le> e \<and> e \<le> m"
proof -
  let ?n = "length (takeWhile (\<lambda>c. c \<noteq> CHR '')'') (drop pos p))"
  have "?n \<le> m - pos"
  proof (rule ccontr)
    assume "\<not> ?n \<le> m - pos"
    then have n: "m - pos < ?n" by simp
    then have "takeWhile (\<lambda>c. c \<noteq> CHR '')'') (drop pos p) ! (m - pos) = drop pos p ! (m - pos)"
      by (rule takeWhile_nth)
    then show False using nth_mem [OF n] set_takeWhileD assms by fastforce
  qed
  then have "pos + ?n \<le> m" using assms(2) by linarith
  then show ?thesis using assms(1) by (simp add: paren_end_def Let_def)
qed


lemma opt_arg_within:
  assumes "option_line p q pos"
  shows "\<exists>t' j ms. opt_arg name key t ln p pos = Some (t', j, ms) \<and> pos \<le> j \<and> j \<le> q"
proof -
  obtain i where i: "scan_while isblank_tbl p pos = Some i" "pos \<le> i" "i \<le> q"
    using scan_stays [OF assms, of isblank_tbl] by (auto simp: isblank_tbl_def)
  have line: "option_line p q i" using option_line_mono [OF assms i(2,3)] .
  have q: "q < length p" "p ! q = CHR '';''" using assms by (auto simp: option_line_def)
  have ri: "rd p i = Some (p ! i)" using i q by (simp add: rd_in)
  show ?thesis
  proof (cases "p ! i = CHR ''(''")
    case True
    then have "i < q" using i q by (cases "i = q") auto
    then obtain m where m: "i < m" "m < q" "p ! m = CHR '')''"
      using line True unfolding option_line_def by blast
    then obtain e where e: "paren_end p (Suc i) = Some e" "Suc i \<le> e" "e \<le> m"
      using paren_end_within [of m p "Suc i"] q by auto
    have "rd p e = Some (p ! e)" "rd p (Suc i) = Some (p ! Suc i)"
      using e m q by (simp_all add: rd_in)
    then show ?thesis
      using i ri True e m by (simp add: opt_arg_def Let_def)
  next
    case False
    moreover have "p ! i = CHR '')'' \<Longrightarrow> Suc i \<le> q"
      using i q by (cases "i = q") auto
    ultimately show ?thesis using i ri by (auto simp: opt_arg_def Let_def)
  qed
qed

lemma option_loop_within:
  assumes "option_line p q pos" "q - pos < n"
  shows "\<exists>t' j ms'. option_loop n t ln p pos ms = Some (t', Suc j, ms') \<and> j \<le> q \<and> p ! j = CHR '';''"
  using assms
proof (induction n arbitrary: t pos ms)
  case (Suc n)
  have q: "q < length p" "p ! q = CHR '';''" using Suc.prems(1) by (auto simp: option_line_def)
  obtain i where i: "scan_while skip_sep p pos = Some i" "pos \<le> i" "i \<le> q"
    using scan_stays [OF Suc.prems(1), of skip_sep] by (auto simp: skip_sep_def isblank_tbl_def)
  note line = option_line_mono [OF Suc.prems(1) i(2,3)]
  have ri: "rd p i = Some (p ! i)" using i q by (simp add: rd_in)
  show ?case
  proof (cases "p ! i = CHR '';''")
    case True
    then show ?thesis using i ri by auto
  next
    case False
    then have "i < q" using i q by (cases "i = q") auto
    obtain e where e: "scan_while isalpha p i = Some e" "i \<le> e" "e \<le> q"
      using scan_stays [OF line, of isalpha] by (auto simp: ctype_defs)
    note linee = option_line_mono [OF line e(2,3)]
    have again: "\<exists>t' j ms'. option_loop n t ln p k ms = Some (t', Suc j, ms') \<and> j \<le> q \<and> p ! j = CHR '';''"
      if "i < k" "k \<le> q" for t k ms
      using Suc.IH [of k t ms] option_line_mono [OF line] that Suc.prems(2) i(2) by simp
    have re: "i = e \<or> i < e" using e(2) by auto
    show ?thesis
    proof (cases "e = i")
      case True
      then show ?thesis using i ri e False again [of "Suc i"] \<open>i < q\<close> by (simp add: Let_def)
    next
      case ne: False
      then have ie: "i < e" using e(2) by simp
      let ?name = "take (e - i) (drop i p)"
      show ?thesis
      proof (cases "find_key ?name")
        case None
        then show ?thesis using i ri e False ne again [OF ie e(3)] by (simp add: Let_def)
      next
        case (Some k)
        obtain kn key where k: "k = (kn, key)" by (cases k)
        obtain t' j ms' where arg: "opt_arg kn key t ln p e = Some (t', j, ms')" "e \<le> j" "j \<le> q"
          using opt_arg_within [OF linee, of kn key t ln] by blast
        have "i < j" using ie arg(2) by simp
        then show ?thesis
          using i ri e False ne Some k arg(1) again [OF ie e(3)] again [OF _ arg(3)]
          by (cases key) (simp_all add: Let_def)
      qed
    qed
  qed
qed simp

end
