(* ===== verification/Tbl_Layout.thy ===== *)
theory Tbl_Layout
  imports Tbl_Node
begin

section \<open>Table layout: \<open>tbl_layout.c\<close>\<close>

text \<open>
  The layout section is a list of rows of column specifications with modifiers.  A row under
  construction is always the last one, and so is the cell whose modifiers are parsed.
\<close>

subsection \<open>Modifiers: \<open>mods\<close>\<close>

definition layout_keys :: "(char \<times> tbl_cellt) list" where
  "layout_keys = [
     (CHR ''c'', CELL_CENTRE), (CHR ''r'', CELL_RIGHT), (CHR ''l'', CELL_LEFT), (CHR ''n'', CELL_NUMBER),
     (CHR ''s'', CELL_SPAN), (CHR ''a'', CELL_LONG), (CHR ''^'', CELL_DOWN), (CHR ''-'', CELL_HORIZ),
     (CHR ''_'', CELL_HORIZ), (CHR ''='', CELL_DHORIZ)]"

definition vspace :: "tbl_node \<Rightarrow> tbl_node" where
  "vspace t = (if to_opts (t_opts t) \<inter> {OPT_DBOX, OPT_BOX} = {} then add_opts {OPT_VSPACE} t else t)"

text \<open>Row delimiters and cell specifiers end modifier lists; so does the end of the line.\<close>

definition ends_mods :: "char \<Rightarrow> bool" where
  "ends_mods c \<longleftrightarrow> strchr ''.,-=^_ACLNRSaclnrs'' c"

definition digits_at :: "string \<Rightarrow> nat \<Rightarrow> string" where
  "digits_at p pos = takeWhile isdigit (drop pos p)"

definition dec_of :: "string \<Rightarrow> nat" where
  "dec_of ds = foldl (\<lambda>n d. n * 10 + nat (digit_val d)) 0 ds"

text \<open>The result of \<open>strtoul\<close>, at most \<open>ULONG_MAX\<close>.\<close>

definition strtoul :: "string \<Rightarrow> nat" where
  "strtoul ds = min (dec_of ds) (2 ^ 64 - 1)"

text \<open>The width in \<open>w\<close> is computed in \<open>size_t\<close>, wrapping around.\<close>

definition width_of :: "string \<Rightarrow> 64 word" where
  "width_of ds = foldl (\<lambda>w d. w * 10 + of_int (digit_val d)) 0 ds * 24"

type_synonym mods_state = "tbl_node \<times> tbl_cell \<times> nat \<times> msg list"

definition mod_width :: "nat \<Rightarrow> string \<Rightarrow> mods_state \<Rightarrow> mods_state option" where
  "mod_width ln p = (\<lambda>(t, c, pos, ms). do {
     x \<leftarrow> rd p pos;
     if x = CHR ''('' then do {
       r \<leftarrow> roff_evalnum ln True p (Suc pos) CHR ''n'' True;
       let pos = n_pos r;
       y \<leftarrow> rd p pos;
       if \<not> n_ok r \<or> y \<noteq> CHR '')''
       then Some (t, c, pos, ms @ n_msgs r @ [(MANDOCERR_TBLLAYOUT_WIDTH, ln, pos, drop pos p)])
       else do {
         isz \<leftarrow> n_res r;
         Some (t, c\<lparr>c_width := of_int isz\<rparr>, Suc pos, ms @ n_msgs r)}}
     else
       let ds = digits_at p pos; pos = pos + length ds; w = width_of ds
       in Some (t, c\<lparr>c_width := w\<rparr>, pos,
                ms @ (if w = 0 then [(MANDOCERR_TBLLAYOUT_WIDTH, ln, pos, drop pos p)] else []))})"

definition mod_bar :: "nat \<Rightarrow> mods_state \<Rightarrow> mods_state" where
  "mod_bar ln = (\<lambda>(t, c, pos, ms).
     if c_vert c < 2
     then (if length (t_rows t) \<le> 1 then vspace t else t, c\<lparr>c_vert := Suc (c_vert c)\<rparr>, pos, ms)
     else (t, c, pos, ms @ [(MANDOCERR_TBLLAYOUT_VERT, ln, pos - 1, [])]))"

definition mod_font :: "nat \<Rightarrow> string \<Rightarrow> mods_state \<Rightarrow> mods_state option" where
  "mod_font ln p = (\<lambda>(t, c, pos, ms). do {
     pos \<leftarrow> scan_while isblank_tbl p pos;
     x \<leftarrow> rd p pos;
     if x = CHR ''('' then Some (t, c, pos, ms)
     else do {
       let isz = (if x \<noteq> NUL then 1 else 0);
       y \<leftarrow> rd p (pos + isz);
       let isz = (if y \<noteq> NUL \<and> y \<notin> {CHR '' '', TAB, CHR ''.''} then Suc isz else isz);
       f \<leftarrow> mandoc_font p pos isz;
       if f = ESCAPE_FONTPREV \<or> f = ESCAPE_ERROR
       then Some (t, c, pos + isz, ms @ [(MANDOCERR_FT_BAD, ln, pos, ''TS '' @ drop (pos - 1) p)])
       else Some (t, c\<lparr>c_font := f\<rparr>, pos + isz, ms)}})"

text \<open>Skip a sign and digits.\<close>

definition skip_number :: "string \<Rightarrow> nat \<Rightarrow> nat option" where
  "skip_number p pos = do {
     c \<leftarrow> rd p pos;
     scan_while isdigit p (if c = CHR ''-'' \<or> c = CHR ''+'' then Suc pos else pos)}"

definition set_flag :: "cell_flag \<Rightarrow> tbl_cell \<Rightarrow> tbl_cell" where
  "set_flag f c = c\<lparr>c_flags := insert f (c_flags c)\<rparr>"

text \<open>The switch on one letter \<open>x\<close>, which has been read; the parse point is behind it.\<close>

definition mod_letter :: "nat \<Rightarrow> string \<Rightarrow> char \<Rightarrow> mods_state \<Rightarrow> mods_state option" where
  "mod_letter ln p x = (\<lambda>(t, c, pos, ms).
     let l = tolower x in
     if l = CHR ''b'' then Some (t, c\<lparr>c_font := ESCAPE_FONTBOLD\<rparr>, pos, ms)
     else if l = CHR ''d'' then Some (t, set_flag CELL_BALIGN c, pos, ms)
     else if l = CHR ''e'' then Some (t, set_flag CELL_EQUAL c, pos, ms)
     else if l = CHR ''f'' then mod_font ln p (t, c, pos, ms)
     else if l = CHR ''i'' then Some (t, c\<lparr>c_font := ESCAPE_FONTITALIC\<rparr>, pos, ms)
     else if l = CHR ''m'' then Some (t, c, pos, ms @ [(MANDOCERR_TBLLAYOUT_MOD, ln, pos, ''m'')])
     else if l = CHR ''p'' \<or> l = CHR ''v'' then
       map_option (\<lambda>pos. (t, c, pos, ms)) (skip_number p pos)
     else if l = CHR ''t'' then Some (t, set_flag CELL_TALIGN c, pos, ms)
     else if l = CHR ''u'' then Some (t, set_flag CELL_UP c, pos, ms)
     else if l = CHR ''w'' then mod_width ln p (t, c, pos, ms)
     else if l = CHR ''x'' then Some (t, set_flag CELL_WMAX c, pos, ms)
     else if l = CHR ''z'' then Some (t, set_flag CELL_WIGN c, pos, ms)
     else if l = CHR ''|'' then Some (mod_bar ln (t, c, pos, ms))
     else Some (t, c, pos, ms @ [(MANDOCERR_TBLLAYOUT_CHAR, ln, pos - 1, [x])]))"

text \<open>One round of the loop at the label \<open>mod\<close>: \<open>Inl\<close> returns, \<open>Inr\<close> goes on.\<close>

definition mods_round :: "nat \<Rightarrow> string \<Rightarrow> mods_state \<Rightarrow> (mods_state + mods_state) option" where
  "mods_round ln p = (\<lambda>(t, c, pos, ms). do {
     pos \<leftarrow> scan_while isblank_tbl p pos;
     x \<leftarrow> rd p pos;
     if ends_mods x then Some (Inl (t, c, pos, ms))
     else if x = CHR ''('' then do {
       pos \<leftarrow> scan_while (\<lambda>y. y \<noteq> NUL \<and> y \<noteq> CHR '')'') p (Suc pos);
       y \<leftarrow> rd p pos;
       if y = CHR '')'' then Some (Inr (t, c, Suc pos, ms))
       else Some (Inl (t, c, pos, ms @ [(MANDOCERR_TBLLAYOUT_PAR, ln, pos, [])]))}
     else if isdigit x then
       let ds = digits_at p pos; n = strtoul ds
       in Some (Inr (if n > 9
            then (t, c, pos + length ds, ms @ [(MANDOCERR_TBLLAYOUT_SPC, ln, pos, print_dec n)])
            else (t, c\<lparr>c_spacing := of_nat n\<rparr>, pos + length ds, ms)))
     else map_option Inr (mod_letter ln p x (t, c, Suc pos, ms))})"

fun mods_loop :: "nat \<Rightarrow> nat \<Rightarrow> string \<Rightarrow> mods_state \<Rightarrow> mods_state option" where
  "mods_loop 0 ln p st = None"
| "mods_loop (Suc n) ln p st = do {
     r \<leftarrow> mods_round ln p st;
     case r of Inl st \<Rightarrow> Some st | Inr st \<Rightarrow> mods_loop n ln p st}"

definition mods :: "nat \<Rightarrow> string \<Rightarrow> mods_state \<Rightarrow> mods_state option" where
  "mods ln p st = mods_loop (Suc (length p)) ln p st"

subsection \<open>Cells: \<open>cell\<close>, \<open>cell_alloc\<close>\<close>

text \<open>\<open>cell_alloc\<close> at the end of row \<open>i\<close>.\<close>

definition cell_alloc :: "nat \<Rightarrow> tbl_cellt \<Rightarrow> tbl_node \<Rightarrow> tbl_node" where
  "cell_alloc i pos t =
     (let r = t_rows t ! i; col = (if r_cells r = [] then 0 else Suc (c_col (last (r_cells r))))
      in t\<lparr>t_rows := (t_rows t)[i := r\<lparr>r_cells := r_cells r @ [new_cell pos col]\<rparr>],
           t_opts := (t_opts t)\<lparr>to_cols := max (to_cols (t_opts t)) (Suc col)\<rparr>\<rparr>)"

definition put_row :: "nat \<Rightarrow> tbl_row \<Rightarrow> tbl_node \<Rightarrow> tbl_node" where
  "put_row i r t = t\<lparr>t_rows := (t_rows t)[i := r]\<rparr>"

text \<open>Leading vertical lines.\<close>

definition is_bar :: "char \<Rightarrow> bool" where
  "is_bar c \<longleftrightarrow> isblank_tbl c \<or> c = CHR ''|''"

definition cell_bar :: "nat \<Rightarrow> nat \<Rightarrow> nat \<times> char \<Rightarrow> tbl_node \<times> msg list \<Rightarrow> tbl_node \<times> msg list" where
  "cell_bar ln i = (\<lambda>(pos, x) (t, ms).
     if x \<noteq> CHR ''|'' then (t, ms)
     else let r = t_rows t ! i
       in if r_vert r < 2 then (vspace (put_row i (r\<lparr>r_vert := Suc (r_vert r)\<rparr>) t), ms)
          else (t, ms @ [(MANDOCERR_TBLLAYOUT_VERT, ln, pos, [])]))"

definition cell_bars :: "nat \<Rightarrow> nat \<Rightarrow> string \<Rightarrow> nat \<Rightarrow> tbl_node \<Rightarrow> msg list \<Rightarrow> tbl_node \<times> nat \<times> msg list" where
  "cell_bars ln i p pos t ms =
     (let bs = takeWhile is_bar (drop pos p);
          (t, ms) = fold (cell_bar ln i) (zip [pos..<pos + length bs] bs) (t, ms)
      in (t, pos + length bs, ms))"

text \<open>The loop at the label \<open>again\<close>: the key of the next cell, None at the end of the row.\<close>

fun cell_key :: "nat \<Rightarrow> nat \<Rightarrow> string \<Rightarrow> nat \<Rightarrow> msg list \<Rightarrow> (tbl_cellt option \<times> nat \<times> msg list) option" where
  "cell_key 0 ln p pos ms = None"
| "cell_key (Suc n) ln p pos ms = do {
     pos \<leftarrow> scan_while isblank_tbl p pos;
     x \<leftarrow> rd p pos;
     if x = CHR ''.'' \<or> x = NUL then Some (None, pos, ms)
     else case map_of layout_keys (tolower x) of
       None \<Rightarrow> cell_key n ln p (Suc pos) (ms @ [(MANDOCERR_TBLLAYOUT_CHAR, ln, pos, [x])])
     | Some c \<Rightarrow> Some (Some c, pos, ms)}"

text \<open>Special cases of spanners.\<close>

definition span_key :: "nat \<Rightarrow> nat \<Rightarrow> tbl_cellt \<Rightarrow> nat \<Rightarrow> tbl_node \<Rightarrow> tbl_cellt \<times> msg list" where
  "span_key ln i c pos t =
     (let cells = r_cells (t_rows t ! i) in
      if c = CELL_SPAN then
        (if cells = [] then (c, [(MANDOCERR_TBLLAYOUT_SPAN, ln, pos, [])])
         else if c_pos (last cells) \<in> {CELL_HORIZ, CELL_DHORIZ} then (c_pos (last cells), [])
         else (c, []))
      else (c, if c = CELL_DOWN \<and> i = 0 then [(MANDOCERR_TBLLAYOUT_DOWN, ln, pos, [])] else []))"

definition put_last_cell :: "nat \<Rightarrow> tbl_cell \<Rightarrow> tbl_node \<Rightarrow> tbl_node" where
  "put_last_cell i c t =
     (let r = t_rows t ! i in put_row i (r\<lparr>r_cells := butlast (r_cells r) @ [c]\<rparr>) t)"

definition cell :: "nat \<Rightarrow> nat \<Rightarrow> string \<Rightarrow> nat \<Rightarrow> tbl_node \<Rightarrow> msg list \<Rightarrow> (tbl_node \<times> nat \<times> msg list) option" where
  "cell ln i p pos t ms = do {
     let (t, pos, ms) = cell_bars ln i p pos t ms;
     (k, pos, ms) \<leftarrow> cell_key (Suc (length p)) ln p pos ms;
     case k of
       None \<Rightarrow> Some (t, pos, ms)
     | Some c \<Rightarrow> do {
         let (c, ms') = span_key ln i c pos t;
         let t = cell_alloc i c t;
         (t, x, pos, ms) \<leftarrow> mods ln p (t, last (r_cells (t_rows t ! i)), Suc pos, ms @ ms');
         Some (put_last_cell i x t, pos, ms)}}"

subsection \<open>The end of the layout\<close>

text \<open>The loop over the rows that drops an empty row after another one, and all that follow it.\<close>

fun drop_empty :: "tbl_row list \<Rightarrow> tbl_row list" where
  "drop_empty [] = []"
| "drop_empty [r] = [r]"
| "drop_empty (r # s # rs) = (if r_cells s = [] then [r] else r # drop_empty (s # rs))"

text \<open>The widest line along the left and right margins.\<close>

definition margin :: "tbl_row \<Rightarrow> tbl_opts \<Rightarrow> tbl_opts" where
  "margin r os =
     (let os = os\<lparr>to_lvert := max (to_lvert os) (r_vert r)\<rparr>
      in if r_cells r \<noteq> [] \<and> Suc (c_col (last (r_cells r))) = to_cols os
         then os\<lparr>to_rvert := max (to_rvert os) (c_vert (last (r_cells r)))\<rparr> else os)"

definition layout_end :: "nat \<Rightarrow> nat \<Rightarrow> tbl_node \<Rightarrow> msg list \<Rightarrow> tbl_node \<times> msg list" where
  "layout_end ln pos t ms =
     (let t = t\<lparr>t_part := PART_DATA, t_rows := (if t_rows t = [] then [new_row] else t_rows t)\<rparr>
      in if r_cells (hd (t_rows t)) = []
         then let t = cell_alloc 0 CELL_LEFT t
              in (t\<lparr>t_opts := (t_opts t)\<lparr>to_lvert := max (to_lvert (t_opts t)) (r_vert (hd (t_rows t)))\<rparr>\<rparr>,
                  ms @ [(MANDOCERR_TBLLAYOUT_NONE, ln, pos, [])])
         else let rs = drop_empty (t_rows t);
                  t = t\<lparr>t_rows := rs, t_opts := fold margin rs (t_opts t)\<rparr>
              in (if \<exists>c \<in> set (r_cells (hd rs)). c_pos c = CELL_HORIZ \<or> c_pos c = CELL_DHORIZ
                  then del_opt OPT_VSPACE t else t, ms))"

subsection \<open>Rows: \<open>tbl_layout\<close>\<close>

text \<open>
  The local variable \<open>rp\<close> is NULL or the last row: a flag.  A new row is only started when the
  last one has a cell.
\<close>

definition layout_row :: "bool \<Rightarrow> tbl_node \<Rightarrow> tbl_node" where
  "layout_row rp t =
     (if \<not> rp \<and> (t_rows t = [] \<or> r_cells (last (t_rows t)) \<noteq> [])
      then t\<lparr>t_rows := t_rows t @ [new_row]\<rparr> else t)"

fun layout_loop :: "nat \<Rightarrow> bool \<Rightarrow> nat \<Rightarrow> string \<Rightarrow> nat \<Rightarrow> tbl_node \<Rightarrow> msg list \<Rightarrow> (tbl_node \<times> msg list) option" where
  "layout_loop 0 rp ln p pos t ms = None"
| "layout_loop (Suc n) rp ln p pos t ms = do {
     pos \<leftarrow> scan_while isblank_tbl p pos;
     x \<leftarrow> rd p pos;
     if x = CHR '','' then layout_loop n False ln p (Suc pos) t ms
     else if x = NUL then Some (t, ms)
     else if x = CHR ''.'' then Some (layout_end ln (Suc pos) t ms)
     else do {
       let t = layout_row rp t;
       (t, pos, ms) \<leftarrow> cell ln (length (t_rows t) - 1) p pos t ms;
       layout_loop n True ln p pos t ms}}"

definition tbl_layout :: "tbl_node \<Rightarrow> nat \<Rightarrow> string \<Rightarrow> nat \<Rightarrow> (tbl_node \<times> msg list) option" where
  "tbl_layout t ln p pos = layout_loop (Suc (length p)) False ln p pos t []"

end
