(* ===== verification/Tbl_Data.thy ===== *)
theory Tbl_Data
  imports Tbl_Opts Tbl_Layout
begin

section \<open>Table data: \<open>tbl_data.c\<close> and \<open>tbl.c\<close>\<close>

text \<open>
  The data row that is being filled is always the last one, and \<open>dp->opts\<close> are the options of
  the table.  The layout cell of a data cell is the one with its column number in the layout row
  of the data row.
\<close>

subsection \<open>One cell: \<open>getdata\<close>\<close>

text \<open>The end of the string in the cell; \<open>mandoc_escape\<close> skips an escape sequence.\<close>

fun data_end :: "nat \<Rightarrow> char \<Rightarrow> string \<Rightarrow> nat \<Rightarrow> nat option" where
  "data_end 0 tb p pos = None"
| "data_end (Suc n) tb p pos = do {
     c \<leftarrow> rd p pos;
     if c = NUL \<or> c = tb then Some pos
     else if c = BSLASH then do {
       (_, _, _, e) \<leftarrow> mandoc_escape (drop pos p);
       data_end n tb p (pos + e)}
     else data_end n tb p (Suc pos)}"

definition row_cells :: "tbl_node \<Rightarrow> tbl_span \<Rightarrow> tbl_cell list" where
  "row_cells t s = r_cells (t_rows t ! s_layout s)"

definition layout_of :: "tbl_node \<Rightarrow> tbl_span \<Rightarrow> tbl_dat \<Rightarrow> tbl_cell" where
  "layout_of t s d = row_cells t s ! d_col d"

text \<open>The column of the next layout cell that is not a spanner; the length of the row at its end.\<close>

definition next_col :: "tbl_node \<Rightarrow> tbl_span \<Rightarrow> nat" where
  "next_col t s =
     (let k = (if s_dats s = [] then 0 else Suc (d_col (last (s_dats s))))
      in k + length (takeWhile (\<lambda>c. c_pos c = CELL_SPAN) (drop k (row_cells t s))))"

text \<open>
  Count the vertical span in a data cell above; the argument holds the rows above, the nearest
  one first.  None stands for the comparison with the string of a cell that has none.
\<close>

definition above :: "tbl_node \<Rightarrow> nat \<Rightarrow> tbl_span \<Rightarrow> nat option" where
  "above t col s =
     (let k = length (takeWhile (\<lambda>d. d_col d < col) (s_dats s))
      in if k < length (s_dats s) then Some k else None)"

fun add_vspan :: "tbl_node \<Rightarrow> nat \<Rightarrow> tbl_span list \<Rightarrow> tbl_span list option" where
  "add_vspan t col [] = Some []"
| "add_vspan t col (s # ss) =
     (case above t col s of
        None \<Rightarrow> Some (s # ss)
      | Some k \<Rightarrow>
          let d = s_dats s ! k
          in if c_pos (layout_of t s d) = CELL_DOWN then map_option ((#) s) (add_vspan t col ss)
             else do {
               str \<leftarrow> d_string d;
               if str = BSLASH # ''^'' then map_option ((#) s) (add_vspan t col ss)
               else Some (s\<lparr>s_dats := (s_dats s)[k := d\<lparr>d_vspans := Suc (d_vspans d)\<rparr>]\<rparr> # ss)})"

definition count_hspans :: "tbl_cell list \<Rightarrow> nat \<Rightarrow> nat" where
  "count_hspans cells col = length (takeWhile (\<lambda>c. c_pos c = CELL_SPAN) (drop (Suc col) cells))"

definition data_pos :: "string \<Rightarrow> tbl_datt" where
  "data_pos s =
     (if s = ''_'' then DATA_HORIZ else if s = ''='' then DATA_DHORIZ
      else if s = BSLASH # ''_'' then DATA_NHORIZ else if s = BSLASH # ''='' then DATA_NDHORIZ
      else DATA_DATA)"

text \<open>Strip leading and trailing spaces of the bytes between two positions, if requested.\<close>

definition strip_ends :: "bool \<Rightarrow> string \<Rightarrow> nat \<Rightarrow> nat \<Rightarrow> nat \<times> nat" where
  "strip_ends strip p startpos endpos =
     (if strip
      then let startpos = startpos + length (takeWhile (\<lambda>c. c = CHR '' '') (drop startpos p));
               endpos = endpos - length (takeWhile (\<lambda>c. c = CHR '' '') (rev (drop startpos (take endpos p))))
           in (startpos, endpos)
      else (startpos, endpos))"

definition upd_last :: "('a \<Rightarrow> 'a) \<Rightarrow> 'a list \<Rightarrow> 'a list" where
  "upd_last f xs = (if xs = [] then [] else butlast xs @ [f (last xs)])"

definition add_dat :: "tbl_dat \<Rightarrow> tbl_node \<Rightarrow> tbl_node" where
  "add_dat d t = t\<lparr>t_spans := upd_last (\<lambda>s. s\<lparr>s_dats := s_dats s @ [d]\<rparr>) (t_spans t)\<rparr>"

text \<open>The layout cell at the end of a row that is shorter than another one.\<close>

definition extend_row :: "tbl_span \<Rightarrow> tbl_node \<Rightarrow> tbl_node" where
  "extend_row s t =
     (let cells = row_cells t s
      in t\<lparr>t_rows := (t_rows t)[s_layout s :=
            (t_rows t ! s_layout s)\<lparr>r_cells := cells @ [new_cell CELL_LEFT (Suc (c_col (last cells)))]\<rparr>]\<rparr>)"

text \<open>
  The string between two positions.  When blanks are skipped past the end of the field, which happens
  if the tab character is a blank, the negative size becomes a huge \<open>size_t\<close>, and the rest of the line
  is copied.
\<close>

definition dat_string :: "string \<Rightarrow> nat \<Rightarrow> nat \<Rightarrow> string" where
  "dat_string p startpos endpos =
     (if endpos < startpos then drop startpos p else take (endpos - startpos) (drop startpos p))"

text \<open>The rest of the function once the cell exists: the string and the kind of the data.\<close>

definition fill_dat :: "nat \<Rightarrow> string \<Rightarrow> nat \<Rightarrow> nat \<Rightarrow> tbl_dat \<Rightarrow> tbl_cellt \<Rightarrow> tbl_node \<Rightarrow>
    (tbl_node \<times> nat \<times> msg list) option" where
  "fill_dat ln p startpos pos d lp t = do {
     let (startpos, endpos) = strip_ends (OPT_NOSPACE \<in> to_opts (t_opts t)) p startpos pos;
     let str = dat_string p startpos endpos;
     if endpos = startpos + 2 \<and> str = ''T{'' then Some (add_dat d (t\<lparr>t_part := PART_CDATA\<rparr>), pos, [])
     else do {
       c \<leftarrow> rd p pos;
       let dp = data_pos str;
       Some (add_dat (d\<lparr>d_string := Some str, d_pos := dp\<rparr>) t, if c \<noteq> NUL then Suc pos else pos,
             if lp \<in> {CELL_HORIZ, CELL_DHORIZ, CELL_DOWN} \<and> dp = DATA_DATA \<and> str \<noteq> []
             then [(MANDOCERR_TBLDATA_SPAN, ln, startpos, str)] else [])}}"

definition getdata :: "tbl_node \<Rightarrow> nat \<Rightarrow> string \<Rightarrow> nat \<Rightarrow> (tbl_node \<times> nat \<times> msg list) option" where
  "getdata t ln p startpos = do {
     pos \<leftarrow> data_end (Suc (length p)) (to_tab (t_opts t)) p startpos;
     let s = last (t_spans t);
     let col = next_col t s;
     if col \<ge> length (row_cells t s) \<and> \<not> Suc (c_col (last (row_cells t s))) < to_cols (t_opts t)
     then Some (t, length p, [(MANDOCERR_TBLDATA_EXTRA, ln, startpos, drop startpos p)])
     else do {
       let t = (if col \<ge> length (row_cells t s) then extend_row s t else t);
       let cp = row_cells t s ! col;
       spans \<leftarrow> (if c_pos cp = CELL_DOWN \<or> take (pos - startpos) (drop startpos p) = BSLASH # ''^''
                 then map_option rev (add_vspan t (c_col cp) (rev (butlast (t_spans t)))) else Some (butlast (t_spans t)));
       let t = t\<lparr>t_spans := spans @ [s]\<rparr>;
       fill_dat ln p startpos pos
         \<lparr>d_col = col, d_string = None, d_hspans = count_hspans (row_cells t s) col, d_vspans = 0,
          d_block = False, d_pos = DATA_NONE\<rparr> (c_pos cp) t}}"

text \<open>The loop over the cells of a line.\<close>

fun getdata_loop :: "nat \<Rightarrow> tbl_node \<Rightarrow> nat \<Rightarrow> string \<Rightarrow> nat \<Rightarrow> msg list \<Rightarrow> (tbl_node \<times> msg list) option" where
  "getdata_loop 0 t ln p pos ms = None"
| "getdata_loop (Suc n) t ln p pos ms = do {
     c \<leftarrow> rd p pos;
     if c = NUL then Some (t, ms)
     else do { (t, pos, ms') \<leftarrow> getdata t ln p pos; getdata_loop n t ln p pos (ms @ ms') }}"

definition getdata_all :: "tbl_node \<Rightarrow> nat \<Rightarrow> string \<Rightarrow> nat \<Rightarrow> (tbl_node \<times> msg list) option" where
  "getdata_all t ln p pos = getdata_loop (Suc (length p)) t ln p pos []"

subsection \<open>Text blocks: \<open>tbl_cdata\<close>\<close>

text \<open>The end of a block; None inside: \<open>T}\<close> is part of a word, or there is none.\<close>

definition block_end :: "tbl_node \<Rightarrow> nat \<Rightarrow> string \<Rightarrow> nat \<Rightarrow> (tbl_node \<times> msg list) option option" where
  "block_end t ln p pos =
     (if take 2 (drop pos p) = ''T}'' then do {
        pos \<leftarrow> (if OPT_NOSPACE \<in> to_opts (t_opts t) then scan_while (\<lambda>c. c = CHR '' '') p (pos + 2) else Some (pos + 2));
        c \<leftarrow> rd p pos;
        if c = to_tab (t_opts t)
        then map_option Some (getdata_all (t\<lparr>t_part := PART_DATA\<rparr>) ln p (Suc pos))
        else if c = NUL then Some (Some (t\<lparr>t_part := PART_DATA\<rparr>, []))
        else Some None}
      else Some None)"

text \<open>The position in the second component is the one after \<open>T}\<close> when that is part of a word.\<close>

definition block_pos :: "tbl_node \<Rightarrow> string \<Rightarrow> nat \<Rightarrow> nat option" where
  "block_pos t p pos =
     (if take 2 (drop pos p) = ''T}''
      then (if OPT_NOSPACE \<in> to_opts (t_opts t) then scan_while (\<lambda>c. c = CHR '' '') p (pos + 2) else Some (pos + 2))
      else Some pos)"

definition block_line :: "string \<Rightarrow> tbl_dat \<Rightarrow> tbl_dat" where
  "block_line s d = d\<lparr>d_pos := DATA_DATA, d_block := True,
     d_string := Some (case d_string d of None \<Rightarrow> s | Some old \<Rightarrow> old @ '' '' @ s)\<rparr>"

definition tbl_cdata :: "tbl_node \<Rightarrow> nat \<Rightarrow> string \<Rightarrow> nat \<Rightarrow> (tbl_node \<times> msg list) option" where
  "tbl_cdata t ln p pos =
     (if t_spans t = [] \<or> s_dats (last (t_spans t)) = [] \<or> pos > length p then None
      else do {
        r \<leftarrow> block_end t ln p pos;
        case r of
          Some res \<Rightarrow> Some res
        | None \<Rightarrow> do {
            pos \<leftarrow> block_pos t p pos;
            let s = last (t_spans t);
            let d = block_line (drop pos p) (last (s_dats s));
            Some (t\<lparr>t_spans := upd_last (\<lambda>s. s\<lparr>s_dats := upd_last (\<lambda>_. d) (s_dats s)\<rparr>) (t_spans t)\<rparr>,
                  if c_pos (layout_of t s d) = CELL_DOWN
                  then [(MANDOCERR_TBLDATA_SPAN, ln, pos, the (d_string d))] else [])}})"

subsection \<open>Rows: \<open>newspan\<close>, \<open>tbl_data\<close>\<close>

definition newspan :: "nat \<Rightarrow> nat \<Rightarrow> tbl_spant \<Rightarrow> tbl_node \<Rightarrow> tbl_node" where
  "newspan ln i k t =
     t\<lparr>t_spans := t_spans t @ [\<lparr>s_layout = i, s_dats = [], s_line = ln, s_pos = k\<rparr>],
       t_current := (if t_spans t = [] then None else t_current t)\<rparr>"

text \<open>The layout row for new data: the one after that of the last row of data, if there is one.\<close>

definition data_row :: "tbl_node \<Rightarrow> nat" where
  "data_row t =
     (case find (\<lambda>s. s_pos s = SPAN_DATA) (rev (t_spans t)) of
        None \<Rightarrow> 0
      | Some s \<Rightarrow> if Suc (s_layout s) < length (t_rows t) then Suc (s_layout s) else s_layout s)"

definition only_lines :: "tbl_row \<Rightarrow> bool" where
  "only_lines r \<longleftrightarrow> (\<forall>c \<in> set (r_cells r). c_pos c = CELL_HORIZ \<or> c_pos c = CELL_DHORIZ)"

text \<open>Rows of nothing but horizontal lines get an empty span each.\<close>

function skip_lines :: "nat \<Rightarrow> nat \<Rightarrow> tbl_node \<Rightarrow> tbl_node \<times> nat" where
  "skip_lines ln i t =
     (if Suc i < length (t_rows t) \<and> \<not> Suc (c_col (last (r_cells (t_rows t ! i)))) < to_cols (t_opts t) \<and>
         only_lines (t_rows t ! i)
      then skip_lines ln (Suc i) (newspan ln i SPAN_DATA t) else (t, i))"
  by pat_completeness auto
termination
  by (relation "measure (\<lambda>(ln, i, t). length (t_rows t) - i)") (auto simp: newspan_def)

declare skip_lines.simps [simp del]

text \<open>
  The line is tested from its start, not from \<open>pos\<close>, beginning with its second byte; on an empty
  line that byte is outside the line.
\<close>

definition tbl_data :: "tbl_node \<Rightarrow> nat \<Rightarrow> string \<Rightarrow> nat \<Rightarrow> (tbl_node \<times> msg list) option" where
  "tbl_data t ln p pos =
     (let i = data_row t in
      if t_rows t = [] \<or> p = [] then None
      else if p = ''.'' then Some (t, [])
      else if p = ''_'' \<or> p = ''='' then
        let t' = (if \<exists>s \<in> set (t_spans t). s_pos s = SPAN_DATA then t else del_opt OPT_VSPACE t)
        in Some (newspan ln i (if p = ''_'' then SPAN_HORIZ else SPAN_DHORIZ) t', [])
      else let (t, i) = skip_lines ln i t
        in getdata_all (newspan ln i SPAN_DATA t) ln p pos)"

subsection \<open>One line: \<open>tbl_read\<close>\<close>

text \<open>The scan for a semicolon that is not in parentheses.\<close>

fun opts_end :: "bool \<Rightarrow> string \<Rightarrow> bool" where
  "opts_end active [] = False"
| "opts_end active (c # cs) =
     (if c = CHR ''('' then opts_end False cs
      else if c = CHR '')'' then opts_end True cs
      else if c = CHR '';'' \<and> active then True
      else opts_end active cs)"

definition tbl_section :: "tbl_node \<Rightarrow> nat \<Rightarrow> string \<Rightarrow> nat \<Rightarrow> (tbl_node \<times> msg list) option" where
  "tbl_section t ln p pos =
     (case t_part t of
        PART_LAYOUT \<Rightarrow> tbl_layout t ln p pos
      | PART_CDATA \<Rightarrow> tbl_cdata t ln p pos
      | _ \<Rightarrow> tbl_data t ln p pos)"

definition tbl_read :: "tbl_node \<Rightarrow> nat \<Rightarrow> string \<Rightarrow> nat \<Rightarrow> (tbl_node \<times> msg list) option" where
  "tbl_read t ln p pos =
     (if t_part t \<noteq> PART_OPTS then tbl_section t ln p pos
      else let t = t\<lparr>t_part := PART_LAYOUT\<rparr>
        in if \<not> opts_end True (drop pos p) then tbl_section t ln p pos
           else do {
             (t, pos, ms) \<leftarrow> tbl_option t ln p pos;
             c \<leftarrow> rd p pos;
             if c = NUL then Some (t, ms)
             else do { (t, ms') \<leftarrow> tbl_section t ln p pos; Some (t, ms @ ms') }})"

subsection \<open>The rows of the result: \<open>tbl_span\<close>, \<open>tbl_end\<close>\<close>

definition tbl_span_next :: "tbl_node \<Rightarrow> tbl_node \<times> tbl_span option" where
  "tbl_span_next t =
     (let i = (case t_current t of None \<Rightarrow> 0 | Some k \<Rightarrow> Suc k)
      in if i < length (t_spans t) then (t\<lparr>t_current := Some i\<rparr>, Some (t_spans t ! i)) else (t, None))"

definition tbl_end :: "bool \<Rightarrow> bool \<Rightarrow> tbl_node \<Rightarrow> tbl_node \<times> bool \<times> msg list" where
  "tbl_end space_allowed still_open t =
     (let t = (if space_allowed then t else del_opt OPT_VSPACE t);
          some = (\<exists>s \<in> set (t_spans t). s_dats s \<noteq> [])
      in (t, some,
          (if still_open then [(MANDOCERR_BLK_NOEND, t_line t, t_pos t, ''TS'')]
           else if t_part t = PART_CDATA then [(MANDOCERR_TBLDATA_BLK, t_line t, t_pos t, ''TE'')] else []) @
          (if some then [] else [(MANDOCERR_TBLDATA_NONE, t_line t, t_pos t, [])])))"

text \<open>All lines of a table section.\<close>

primrec tbl_lines :: "tbl_node \<Rightarrow> nat \<Rightarrow> string list \<Rightarrow> tbl_node option" where
  "tbl_lines t ln [] = Some t"
| "tbl_lines t ln (p # ps) = do { (t, _) \<leftarrow> tbl_read t ln p 0; tbl_lines t (Suc ln) ps }"

end
