(* ===== verification/Tbl_Wf.thy ===== *)
theory Tbl_Wf
  imports Tbl_Data
begin

section \<open>Tables stay well-formed\<close>

text \<open>
  The invariant \<open>tbl_wf\<close> of a table under construction, and its preservation by the layout
  section: modifiers, cells, rows and the end of the layout.  All scans stay inside the line.
\<close>

subsection \<open>Modifiers\<close>

text \<open>What the modifiers leave alone: everything but the option flags, and the place of the cell.\<close>

definition opts_only :: "tbl_node \<Rightarrow> tbl_node \<Rightarrow> bool" where
  "opts_only t t' \<longleftrightarrow> (\<exists>os. t' = t\<lparr>t_opts := (t_opts t)\<lparr>to_opts := os\<rparr>\<rparr>)"

definition cell_kept :: "tbl_cell \<Rightarrow> tbl_cell \<Rightarrow> bool" where
  "cell_kept c c' \<longleftrightarrow> c_col c' = c_col c \<and> c_pos c' = c_pos c \<and> (c_vert c \<le> 2 \<longrightarrow> c_vert c' \<le> 2)"

lemma opts_only_refl [simp]: "opts_only t t"
  unfolding opts_only_def by (intro exI [of _ "to_opts (t_opts t)"]) simp

lemma opts_only_trans: "opts_only t t' \<Longrightarrow> opts_only t' t'' \<Longrightarrow> opts_only t t''"
  by (auto simp: opts_only_def)

lemma opts_only_vspace [simp]: "opts_only t (vspace t)"
  by (auto simp: opts_only_def vspace_def add_opts_def intro: exI [of _ "to_opts (t_opts t)"])

lemma cell_kept_refl [simp]: "cell_kept c c"
  by (simp add: cell_kept_def)

lemma cell_kept_trans: "cell_kept c c' \<Longrightarrow> cell_kept c' c'' \<Longrightarrow> cell_kept c c''"
  by (auto simp: cell_kept_def)

text \<open>A result of a part of \<open>mods\<close>: the parse point stays inside the line and does not go back.\<close>

definition mods_ok :: "string \<Rightarrow> nat \<Rightarrow> mods_state \<Rightarrow> mods_state \<Rightarrow> bool" where
  "mods_ok p lo = (\<lambda>(t, c, pos, ms) (t', c', pos', ms').
     lo \<le> pos' \<and> pos' \<le> length p \<and> opts_only t t' \<and> cell_kept c c')"

text \<open>No width is given as an expression in parentheses.\<close>

definition no_expr :: "string \<Rightarrow> bool" where
  "no_expr p \<longleftrightarrow> (\<forall>i. Suc i < length p \<longrightarrow> tolower (p ! i) = CHR ''w'' \<longrightarrow> p ! Suc i \<noteq> CHR ''('')"

lemma digits_at_le: "pos \<le> length p \<Longrightarrow> pos + length (digits_at p pos) \<le> length p"
  using length_takeWhile_le [of isdigit "drop pos p"] by (simp add: digits_at_def)

lemma scan_from:
  assumes "pos \<le> length p" "\<not> P NUL"
  obtains j where "scan_while P p pos = Some j" "pos \<le> j" "j \<le> length p"
  using scan_while_total [of pos p P] assms by blast

lemma rd_lt: "rd p pos = Some x \<Longrightarrow> x \<noteq> NUL \<Longrightarrow> Suc pos \<le> length p"
  using rd_not_NUL_less by (metis Suc_leI)

lemma mod_width_ok:
  assumes "pos \<le> length p" "\<forall>x. rd p pos = Some x \<longrightarrow> x \<noteq> CHR ''(''"
  shows "\<exists>r. mod_width ln p (t, c, pos, ms) = Some r \<and> mods_ok p pos (t, c, pos, ms) r"
proof -
  obtain x where "rd p pos = Some x" using rd_le_Some [OF assms(1)] by blast
  then show ?thesis
    using assms digits_at_le [OF assms(1)] by (simp add: mod_width_def mods_ok_def cell_kept_def Let_def)
qed

lemma mandoc_font_at: "pos + sz \<le> length p \<Longrightarrow> \<exists>f. mandoc_font p pos sz = Some f"
  by (auto simp: mandoc_font_def rd_def)

lemma mod_font_ok:
  assumes "pos \<le> length p"
  shows "\<exists>r. mod_font ln p (t, c, pos, ms) = Some r \<and> mods_ok p pos (t, c, pos, ms) r"
proof -
  obtain i where i: "scan_while isblank_tbl p pos = Some i" "pos \<le> i" "i \<le> length p"
    by (rule scan_from [OF assms, of isblank_tbl]) auto
  obtain x where x: "rd p i = Some x" using rd_le_Some [OF i(3)] by blast
  show ?thesis
  proof (cases "x = CHR ''(''")
    case False
    let ?k = "if x \<noteq> NUL then 1 else 0 :: nat"
    have k: "i + ?k \<le> length p" using rd_lt [OF x] i(3) by simp
    then obtain y where y: "rd p (i + ?k) = Some y" using rd_le_Some by blast
    let ?m = "if y \<noteq> NUL \<and> y \<notin> {CHR '' '', TAB, CHR ''.''} then Suc ?k else ?k"
    have m: "i + ?m \<le> length p" using rd_lt [OF y] k by auto
    then obtain f where f: "mandoc_font p i ?m = Some f" using mandoc_font_at by blast
    have "mod_font ln p (t, c, pos, ms) =
        Some (if f = ESCAPE_FONTPREV \<or> f = ESCAPE_ERROR
              then (t, c, i + ?m, ms @ [(MANDOCERR_FT_BAD, ln, i, ''TS '' @ drop (i - 1) p)])
              else (t, c\<lparr>c_font := f\<rparr>, i + ?m, ms))"
      using i(1) x False y f by (simp add: mod_font_def Let_def del: insert_iff)
    then show ?thesis using i(2) m by (simp add: mods_ok_def cell_kept_def)
  qed (use i x in \<open>simp add: mod_font_def mods_ok_def\<close>)
qed

lemma mod_letter_ok:
  assumes "Suc pos \<le> length p" "rd p pos = Some x" "no_expr p" "x \<noteq> NUL"
  shows "\<exists>r. mod_letter ln p x (t, c, Suc pos, ms) = Some r \<and> mods_ok p (Suc pos) (t, c, Suc pos, ms) r"
proof -
  have sp: "\<exists>j. skip_number p (Suc pos) = Some j \<and> Suc pos \<le> j \<and> j \<le> length p"
  proof -
    obtain y where y: "rd p (Suc pos) = Some y" using rd_le_Some [OF assms(1)] by blast
    let ?i = "if y = CHR ''-'' \<or> y = CHR ''+'' then Suc (Suc pos) else Suc pos"
    have "?i \<le> length p" using rd_lt [OF y] assms(1) by auto
    then obtain j where "scan_while isdigit p ?i = Some j" "?i \<le> j" "j \<le> length p"
      by (rule scan_from [of ?i p isdigit]) auto
    then show ?thesis using y by (auto simp: skip_number_def split: if_splits)
  qed
  have w: "\<exists>r. mod_width ln p (t, c, Suc pos, ms) = Some r \<and> mods_ok p (Suc pos) (t, c, Suc pos, ms) r"
    if "tolower x = CHR ''w''"
  proof (rule mod_width_ok [OF assms(1)])
    have "p ! pos = x" using assms(1,2) by (simp add: rd_in)
    then show "\<forall>y. rd p (Suc pos) = Some y \<longrightarrow> y \<noteq> CHR ''(''"
      using assms(3) that unfolding no_expr_def by (auto simp: rd_def split: if_splits)
  qed
  note f = mod_font_ok [OF assms(1), of ln t c ms]
  show ?thesis
    using sp w f assms(1)
    by (auto simp: mod_letter_def Let_def mod_bar_def mods_ok_def cell_kept_def set_flag_def)
qed

lemma mods_round_ok:
  assumes "pos \<le> length p" "no_expr p"
  shows "\<exists>r. mods_round ln p (t, c, pos, ms) = Some r \<and>
    (case r of Inl st \<Rightarrow> mods_ok p pos (t, c, pos, ms) st | Inr st \<Rightarrow> mods_ok p (Suc pos) (t, c, pos, ms) st)"
proof -
  obtain i where i: "scan_while isblank_tbl p pos = Some i" "pos \<le> i" "i \<le> length p"
    by (rule scan_from [OF assms(1), of isblank_tbl]) auto
  obtain x where x: "rd p i = Some x" using rd_le_Some [OF i(3)] by blast
  consider "ends_mods x" | "\<not> ends_mods x" "x = CHR ''(''" | "\<not> ends_mods x" "x \<noteq> CHR ''(''" "isdigit x"
    | "\<not> ends_mods x" "x \<noteq> CHR ''(''" "\<not> isdigit x" by blast
  then show ?thesis
  proof cases
    case 1
    then show ?thesis using i x by (simp add: mods_round_def mods_ok_def)
  next
    case 2
    have s: "Suc i \<le> length p" using rd_lt [OF x] 2(2) by simp
    obtain j where j: "scan_while (\<lambda>y. y \<noteq> NUL \<and> y \<noteq> CHR '')'') p (Suc i) = Some j" "Suc i \<le> j" "j \<le> length p"
      by (rule scan_from [OF s, of "\<lambda>y. y \<noteq> NUL \<and> y \<noteq> CHR '')''"]) auto
    obtain y where y: "rd p j = Some y" using rd_le_Some [OF j(3)] by blast
    show ?thesis
      using i x 2 j y rd_lt [OF y] by (simp add: mods_round_def mods_ok_def)
  next
    case 3
    have "i < length p" using rd_not_NUL_less [OF x] 3(3) by (cases "x = NUL") auto
    then have "drop i p = x # drop (Suc i) p" using x Cons_nth_drop_Suc [of i p] by (simp add: rd_in)
    then have "digits_at p i \<noteq> []" using 3(3) by (simp add: digits_at_def)
    then have "Suc i \<le> i + length (digits_at p i)" by (cases "digits_at p i") auto
    then show ?thesis
      using i x 3 digits_at_le [OF i(3)] by (simp add: mods_round_def mods_ok_def cell_kept_def Let_def)
  next
    case 4
    have "x \<noteq> NUL" using 4(1) by (auto simp: ends_mods_def strchr_def)
    then obtain r where "mod_letter ln p x (t, c, Suc i, ms) = Some r" "mods_ok p (Suc i) (t, c, Suc i, ms) r"
      using mod_letter_ok [OF rd_lt [OF x] x assms(2)] by blast
    then show ?thesis
      using i x 4 by (cases r) (auto simp: mods_round_def mods_ok_def)
  qed
qed

lemma mods_ok_trans: "mods_ok p lo st st' \<Longrightarrow> mods_ok p lo' st' st'' \<Longrightarrow> lo \<le> lo' \<Longrightarrow> mods_ok p lo st st''"
  by (auto simp: mods_ok_def dest: opts_only_trans cell_kept_trans)

lemma mods_loop_ok:
  assumes "pos \<le> length p" "no_expr p" "length p - pos < n"
  shows "\<exists>st. mods_loop n ln p (t, c, pos, ms) = Some st \<and> mods_ok p pos (t, c, pos, ms) st"
  using assms
proof (induction n arbitrary: t c pos ms)
  case (Suc n)
  obtain r where r: "mods_round ln p (t, c, pos, ms) = Some r"
    "case r of Inl st \<Rightarrow> mods_ok p pos (t, c, pos, ms) st | Inr st \<Rightarrow> mods_ok p (Suc pos) (t, c, pos, ms) st"
    using mods_round_ok [OF Suc.prems(1,2)] by blast
  show ?case
  proof (cases r)
    case (Inr st)
    obtain t' c' pos' ms' where st: "st = (t', c', pos', ms')" by (cases st)
    have pos': "Suc pos \<le> pos'" "pos' \<le> length p" using r(2) Inr st by (simp_all add: mods_ok_def)
    then have "length p - pos' < n" using Suc.prems(3) by linarith
    then obtain st' where st': "mods_loop n ln p st = Some st'" "mods_ok p pos' st st'"
      using Suc.IH [of pos' t' c' ms'] Suc.prems(2) pos'(2) st by blast
    have "mods_ok p pos (t, c, pos, ms) st"
      using r(2) Inr by (auto simp: mods_ok_def split: prod.splits)
    then have "mods_ok p pos (t, c, pos, ms) st'"
      using mods_ok_trans [OF _ st'(2)] pos'(1) by simp
    then show ?thesis using r(1) Inr st'(1) by simp
  qed (use r in simp)
qed simp

lemma mods_total:
  assumes "pos \<le> length p" "no_expr p"
  shows "\<exists>st. mods ln p (t, c, pos, ms) = Some st \<and> mods_ok p pos (t, c, pos, ms) st"
  using mods_loop_ok [OF assms, of "Suc (length p)"] by (simp add: mods_def)

subsection \<open>The invariant\<close>

text \<open>
  Cells are numbered in order and have at most two vertical lines; the data cells of a row of
  data belong to the first layout cells that are not spanners, one to each, and count the
  spanners behind them; at most the last layout row is empty, and none is once the layout is
  complete; inside a text block there is a data cell for it.
\<close>

definition cells_ok :: "tbl_cell list \<Rightarrow> bool" where
  "cells_ok cells \<longleftrightarrow> (\<forall>i < length cells. c_col (cells ! i) = i \<and> c_vert (cells ! i) \<le> 2)"

definition row_ok :: "nat \<Rightarrow> tbl_row \<Rightarrow> bool" where
  "row_ok cols r \<longleftrightarrow> cells_ok (r_cells r) \<and> r_vert r \<le> 2 \<and> length (r_cells r) \<le> cols"

definition data_cols :: "tbl_cell list \<Rightarrow> nat list" where
  "data_cols cells = filter (\<lambda>i. c_pos (cells ! i) \<noteq> CELL_SPAN) [0..<length cells]"

definition dat_ok :: "tbl_cell list \<Rightarrow> tbl_dat \<Rightarrow> bool" where
  "dat_ok cells d \<longleftrightarrow> d_hspans d = count_hspans cells (d_col d) \<and> (d_string d = None \<longrightarrow> d_pos d = DATA_NONE)"

definition span_ok :: "tbl_row list \<Rightarrow> tbl_span \<Rightarrow> bool" where
  "span_ok rows s \<longleftrightarrow> s_layout s < length rows \<and>
     (let cells = r_cells (rows ! s_layout s) in cells \<noteq> [] \<and>
        map d_col (s_dats s) = take (length (s_dats s)) (data_cols cells) \<and> (\<forall>d \<in> set (s_dats s). dat_ok cells d))"

definition tbl_wf :: "tbl_node \<Rightarrow> bool" where
  "tbl_wf t \<longleftrightarrow>
     (\<forall>r \<in> set (t_rows t). row_ok (to_cols (t_opts t)) r) \<and>
     (\<forall>i. Suc i < length (t_rows t) \<longrightarrow> r_cells (t_rows t ! i) \<noteq> []) \<and>
     (\<forall>s \<in> set (t_spans t). span_ok (t_rows t) s) \<and>
     (t_part t \<in> {PART_DATA, PART_CDATA} \<longrightarrow> t_rows t \<noteq> [] \<and> r_cells (last (t_rows t)) \<noteq> []) \<and>
     (t_part t = PART_CDATA \<longrightarrow> t_spans t \<noteq> [] \<and> s_dats (last (t_spans t)) \<noteq> []) \<and>
     to_lvert (t_opts t) \<le> 2 \<and> to_rvert (t_opts t) \<le> 2 \<and> to_tab (t_opts t) \<noteq> NUL \<and>
     (\<forall>k. t_current t = Some k \<longrightarrow> k < length (t_spans t))"

lemma tbl_wf_alloc: "tbl_wf (tbl_alloc pos line)"
  by (simp add: tbl_wf_def tbl_alloc_def)

lemma tbl_wf_opts:
  "tbl_wf t \<Longrightarrow> to_cols os = to_cols (t_opts t) \<Longrightarrow> to_lvert os \<le> 2 \<Longrightarrow> to_rvert os \<le> 2 \<Longrightarrow>
    to_tab os \<noteq> NUL \<Longrightarrow> tbl_wf (t\<lparr>t_opts := os\<rparr>)"
  by (simp add: tbl_wf_def)

lemma tbl_wf_rows:
  assumes "tbl_wf t" "i < length (t_rows t)"
  shows "row_ok (to_cols (t_opts t)) (t_rows t ! i)" "cells_ok (r_cells (t_rows t ! i))"
  using assms by (auto simp: tbl_wf_def row_ok_def)

subsection \<open>The layout\<close>

text \<open>What building a row changes: this row, the number of columns and the flags.\<close>

definition grows_row :: "nat \<Rightarrow> tbl_node \<Rightarrow> tbl_node \<Rightarrow> bool" where
  "grows_row i t t' \<longleftrightarrow> (\<exists>r os cols. t' = t\<lparr>t_rows := (t_rows t)[i := r], t_opts := (t_opts t)\<lparr>to_opts := os, to_cols := cols\<rparr>\<rparr> \<and>
     to_cols (t_opts t) \<le> cols \<and> (row_ok (to_cols (t_opts t)) (t_rows t ! i) \<longrightarrow> row_ok cols r))"

lemma grows_rowI:
  "t' = t\<lparr>t_rows := (t_rows t)[i := r], t_opts := (t_opts t)\<lparr>to_opts := os, to_cols := cols\<rparr>\<rparr> \<Longrightarrow>
    to_cols (t_opts t) \<le> cols \<Longrightarrow> (row_ok (to_cols (t_opts t)) (t_rows t ! i) \<Longrightarrow> row_ok cols r) \<Longrightarrow> grows_row i t t'"
  unfolding grows_row_def by blast

lemma grows_row_refl: "grows_row i t t"
  by (rule grows_rowI [where r = "t_rows t ! i" and os = "to_opts (t_opts t)" and cols = "to_cols (t_opts t)"]) simp_all

lemma grows_row_trans:
  assumes "grows_row i t t'" "grows_row i t' t''" "i < length (t_rows t)"
  shows "grows_row i t t''"
proof -
  obtain r os cols where t': "t' = t\<lparr>t_rows := (t_rows t)[i := r], t_opts := (t_opts t)\<lparr>to_opts := os, to_cols := cols\<rparr>\<rparr>"
    "to_cols (t_opts t) \<le> cols" "row_ok (to_cols (t_opts t)) (t_rows t ! i) \<longrightarrow> row_ok cols r"
    using assms(1) unfolding grows_row_def by blast
  obtain r2 os2 cols2 where t'': "t'' = t'\<lparr>t_rows := (t_rows t')[i := r2], t_opts := (t_opts t')\<lparr>to_opts := os2, to_cols := cols2\<rparr>\<rparr>"
    "to_cols (t_opts t') \<le> cols2" "row_ok (to_cols (t_opts t')) (t_rows t' ! i) \<longrightarrow> row_ok cols2 r2"
    using assms(2) unfolding grows_row_def by blast
  show ?thesis
    by (rule grows_rowI [where r = r2 and os = os2 and cols = cols2]) (use t' t'' assms(3) in auto)
qed

lemma grows_row_keeps:
  "grows_row i t t' \<Longrightarrow> length (t_rows t') = length (t_rows t) \<and> t_spans t' = t_spans t \<and> t_part t' = t_part t"
  by (auto simp: grows_row_def)

lemma grows_row_opts: "opts_only t t' \<Longrightarrow> grows_row i t t'"
  unfolding opts_only_def
  by (auto intro!: grows_rowI [where r = "t_rows t ! i" and cols = "to_cols (t_opts t)"])

lemma row_ok_mono: "row_ok c r \<Longrightarrow> c \<le> c' \<Longrightarrow> row_ok c' r"
  by (simp add: row_ok_def)

lemma span_ok_rows:
  "span_ok rows s \<Longrightarrow> s_layout s < length rows' \<Longrightarrow> r_cells (rows' ! s_layout s) = r_cells (rows ! s_layout s) \<Longrightarrow>
    span_ok rows' s"
  by (simp add: span_ok_def Let_def)

lemma tbl_wf_grows:
  assumes wf: "tbl_wf t" and g: "grows_row i t t'" and i: "Suc i = length (t_rows t)"
    and s: "\<forall>s \<in> set (t_spans t). s_layout s \<noteq> i" and part: "t_part t \<notin> {PART_DATA, PART_CDATA}"
  shows "tbl_wf t'"
proof -
  obtain r os cols where t': "t' = t\<lparr>t_rows := (t_rows t)[i := r], t_opts := (t_opts t)\<lparr>to_opts := os, to_cols := cols\<rparr>\<rparr>"
    "to_cols (t_opts t) \<le> cols" "row_ok (to_cols (t_opts t)) (t_rows t ! i) \<longrightarrow> row_ok cols r"
    using g unfolding grows_row_def by blast
  have "row_ok cols r" using t'(3) tbl_wf_rows(1) [OF wf] i by simp
  then have "row_ok cols x" if "x \<in> set ((t_rows t)[i := r])" for x
  proof -
    have "x = r \<or> x \<in> set (t_rows t)" using that set_update_subset_insert [of "t_rows t" i r] by blast
    moreover have "\<forall>x \<in> set (t_rows t). row_ok (to_cols (t_opts t)) x" using wf by (simp add: tbl_wf_def)
    ultimately show ?thesis using \<open>row_ok cols r\<close> row_ok_mono [OF _ t'(2), of x] by blast
  qed
  moreover have "r_cells ((t_rows t)[i := r] ! k) \<noteq> []" if "Suc k < length (t_rows t)" for k
    using wf that i by (auto simp: tbl_wf_def)
  moreover have "span_ok ((t_rows t)[i := r]) x" if "x \<in> set (t_spans t)" for x
    using span_ok_rows [of "t_rows t" x "(t_rows t)[i := r]"] wf s that by (auto simp: tbl_wf_def span_ok_def)
  ultimately show ?thesis using wf part by (simp add: tbl_wf_def t'(1))
qed

lemma cell_alloc_grows:
  assumes "i < length (t_rows t)"
  shows "grows_row i t (cell_alloc i c t)"
proof -
  let ?r = "t_rows t ! i"
  let ?col = "if r_cells ?r = [] then 0 else Suc (c_col (last (r_cells ?r)))"
  show ?thesis
  proof (rule grows_rowI [where r = "?r\<lparr>r_cells := r_cells ?r @ [new_cell c ?col]\<rparr>" and os = "to_opts (t_opts t)"
        and cols = "max (to_cols (t_opts t)) (Suc ?col)"])
    assume ok: "row_ok (to_cols (t_opts t)) ?r"
    have "?col = length (r_cells ?r)"
      using ok by (auto simp: row_ok_def cells_ok_def last_conv_nth)
    then show "row_ok (max (to_cols (t_opts t)) (Suc ?col)) (?r\<lparr>r_cells := r_cells ?r @ [new_cell c ?col]\<rparr>)"
      using ok by (auto simp: row_ok_def cells_ok_def nth_append new_cell_def less_Suc_eq)
  qed (simp_all add: cell_alloc_def Let_def)
qed

lemma butlast_snoc_update: "xs \<noteq> [] \<Longrightarrow> butlast xs @ [x] = xs[length xs - 1 := x]"
  by (cases xs rule: rev_cases) auto

lemma put_last_cell_grows:
  assumes "i < length (t_rows t)" "r_cells (t_rows t ! i) \<noteq> []" "cell_kept (last (r_cells (t_rows t ! i))) x"
  shows "grows_row i t (put_last_cell i x t)"
proof -
  let ?r = "t_rows t ! i" and ?n = "length (r_cells (t_rows t ! i)) - 1"
  have last: "last (r_cells ?r) = r_cells ?r ! ?n" using assms(2) by (simp add: last_conv_nth)
  have upd: "butlast (r_cells ?r) @ [x] = (r_cells ?r)[?n := x]"
    using butlast_snoc_update [OF assms(2)] .
  show ?thesis
  proof (rule grows_rowI [where r = "?r\<lparr>r_cells := butlast (r_cells ?r) @ [x]\<rparr>" and os = "to_opts (t_opts t)"
        and cols = "to_cols (t_opts t)"])
    assume ok: "row_ok (to_cols (t_opts t)) ?r"
    have "c_col x = ?n \<and> c_vert x \<le> 2"
      using ok assms(2,3) last by (auto simp: row_ok_def cells_ok_def cell_kept_def)
    then show "row_ok (to_cols (t_opts t)) (?r\<lparr>r_cells := butlast (r_cells ?r) @ [x]\<rparr>)"
      using ok assms(2) unfolding upd by (auto simp: row_ok_def cells_ok_def nth_list_update)
  qed (simp_all add: put_last_cell_def put_row_def Let_def)
qed

lemma cell_bar_grows:
  assumes "i < length (t_rows t)"
  shows "grows_row i t (fst (cell_bar ln i x (t, ms)))"
proof (cases "snd x = CHR ''|'' \<and> r_vert (t_rows t ! i) < 2")
  case True
  let ?t = "put_row i ((t_rows t ! i)\<lparr>r_vert := Suc (r_vert (t_rows t ! i))\<rparr>) t"
  have "grows_row i t ?t"
    by (rule grows_rowI [where r = "(t_rows t ! i)\<lparr>r_vert := Suc (r_vert (t_rows t ! i))\<rparr>"
          and os = "to_opts (t_opts t)" and cols = "to_cols (t_opts t)"])
       (use True in \<open>auto simp: put_row_def row_ok_def\<close>)
  moreover have "grows_row i ?t (vspace ?t)" by (rule grows_row_opts) simp
  ultimately have "grows_row i t (vspace ?t)" using assms by (rule grows_row_trans)
  then show ?thesis using True by (cases x) (simp add: cell_bar_def Let_def)
qed (cases x, auto simp: cell_bar_def Let_def grows_row_refl)

lemma cell_bars_fold:
  assumes "i < length (t_rows t)"
  shows "grows_row i t (fst (fold (cell_bar ln i) xs (t, ms)))"
  using assms
proof (induction xs arbitrary: t ms)
  case (Cons x xs)
  obtain t' ms' where c: "cell_bar ln i x (t, ms) = (t', ms')" by (cases "cell_bar ln i x (t, ms)")
  then have g: "grows_row i t t'" using cell_bar_grows [OF Cons.prems, of ln x ms] by simp
  then have "i < length (t_rows t')" using grows_row_keeps Cons.prems by metis
  then show ?case using grows_row_trans [OF g Cons.IH Cons.prems] c by simp
qed (simp add: grows_row_refl)

text \<open>A key after blanks and bad characters; the parse point is on it.\<close>

lemma cell_key_ok:
  assumes "pos \<le> length p" "length p - pos < n"
  shows "\<exists>k j ms'. cell_key n ln p pos ms = Some (k, j, ms') \<and> pos \<le> j \<and> j \<le> length p \<and>
    (k \<noteq> None \<longrightarrow> Suc j \<le> length p)"
  using assms
proof (induction n arbitrary: pos ms)
  case (Suc n)
  obtain i where i: "scan_while isblank_tbl p pos = Some i" "pos \<le> i" "i \<le> length p"
    by (rule scan_from [OF Suc.prems(1), of isblank_tbl]) auto
  obtain x where x: "rd p i = Some x" using rd_le_Some [OF i(3)] by blast
  show ?case
  proof (cases "x = CHR ''.'' \<or> x = NUL")
    case False
    then have s: "Suc i \<le> length p" using rd_lt [OF x] by simp
    then have l: "length p - Suc i < n" using Suc.prems(2) i(2) by linarith
    obtain k j ms' where "cell_key n ln p (Suc i) (ms @ [(MANDOCERR_TBLLAYOUT_CHAR, ln, i, [x])]) = Some (k, j, ms')"
      "Suc i \<le> j" "j \<le> length p" "k \<noteq> None \<longrightarrow> Suc j \<le> length p"
      using Suc.IH [OF s l] by blast
    then show ?thesis using i x False s by (cases "map_of layout_keys (tolower x)") auto
  qed (use i x in auto)
qed simp

text \<open>On a byte that \<open>tbl_layout\<close> leaves to \<open>cell\<close>, the key is found there or further on.\<close>

lemma cell_key_progress:
  assumes "cell_key n ln p pos ms = Some (None, j, ms')" "rd p pos = Some x" "x \<noteq> NUL" "x \<noteq> CHR ''.''" "\<not> isblank_tbl x"
  shows "pos < j"
proof (cases n)
  case (Suc k)
  have "scan_while isblank_tbl p pos = Some pos" using assms by (simp add: scan_while.simps)
  moreover have "pos < j" if "cell_key k ln p (Suc pos) ms1 = Some (None, j, ms')" for ms1
  proof -
    have "\<And>pos ms. cell_key k ln p pos ms = Some (None, j, ms') \<Longrightarrow> pos \<le> j"
    proof (induction k)
      case (Suc k)
      then show ?case
        by (auto split: if_splits option.splits bind_splits dest!: scan_while_ge) (meson Suc_leD le_trans)+
    qed simp
    then show ?thesis using that by (simp add: Suc_le_lessD)
  qed
  ultimately show ?thesis using assms Suc by (auto split: option.splits)
qed (use assms in simp)

lemma cell_ok:
  assumes i: "i < length (t_rows t)" and wf: "row_ok (to_cols (t_opts t)) (t_rows t ! i)"
    and p: "pos \<le> length p" "no_expr p"
  shows "\<exists>t' j ms'. cell ln i p pos t ms = Some (t', j, ms') \<and> grows_row i t t' \<and> pos \<le> j \<and> j \<le> length p \<and>
    (\<forall>x. rd p pos = Some x \<longrightarrow> x \<noteq> NUL \<longrightarrow> x \<noteq> CHR ''.'' \<longrightarrow> \<not> isblank_tbl x \<longrightarrow> pos < j)"
proof -
  let ?bs = "takeWhile is_bar (drop pos p)"
  let ?b = "pos + length ?bs"
  have b: "?b \<le> length p" using length_takeWhile_le [of is_bar "drop pos p"] p(1) by simp
  obtain t1 ms1 where t1: "fold (cell_bar ln i) (zip [pos..<?b] ?bs) (t, ms) = (t1, ms1)" by fastforce
  then have bars: "cell_bars ln i p pos t ms = (t1, ?b, ms1)" by (simp add: cell_bars_def Let_def)
  have g1: "grows_row i t t1" using cell_bars_fold [OF i, of ln "zip [pos..<?b] ?bs" ms] t1 by simp
  have i1: "i < length (t_rows t1)" using grows_row_keeps [OF g1] i by simp
  obtain k j ms2 where k: "cell_key (Suc (length p)) ln p ?b ms1 = Some (k, j, ms2)" "?b \<le> j" "j \<le> length p"
    "k \<noteq> None \<longrightarrow> Suc j \<le> length p"
    using cell_key_ok [OF b, of "Suc (length p)" ln ms1] less_Suc_eq_le diff_le_self by blast
  have prog: "pos < j" if x: "rd p pos = Some x" "x \<noteq> NUL" "x \<noteq> CHR ''.''" "\<not> isblank_tbl x" and "k = None" for x
  proof (cases "is_bar x")
    case True
    have "pos < length p" using rd_not_NUL_less x by blast
    then have "drop pos p = x # drop (Suc pos) p" using x(1) Cons_nth_drop_Suc [of pos p] by (simp add: rd_in)
    then show ?thesis using True k(2) by simp
  next
    case False
    have "pos < length p" using rd_not_NUL_less x by blast
    then have "drop pos p = x # drop (Suc pos) p" using x(1) Cons_nth_drop_Suc [of pos p] by (simp add: rd_in)
    then have "?b = pos" using False by simp
    then show ?thesis using cell_key_progress [of "Suc (length p)" ln p pos ms1 j ms2 x] k(1) x that(5) by simp
  qed
  show ?thesis
  proof (cases k)
    case None
    then have "cell ln i p pos t ms = Some (t1, j, ms2)" using bars k(1) by (simp add: cell_def del: cell_key.simps)
    then show ?thesis using g1 k(2,3) prog None by auto
  next
    case (Some c0)
    obtain c ms3 where c: "span_key ln i c0 j t1 = (c, ms3)" by fastforce
    let ?t2 = "cell_alloc i c t1"
    have g2: "grows_row i t1 ?t2" using cell_alloc_grows [OF i1] .
    have i2: "i < length (t_rows ?t2)" using grows_row_keeps [OF g2] i1 by simp
    have ne: "r_cells (t_rows ?t2 ! i) \<noteq> []" using i1 by (simp add: cell_alloc_def Let_def)
    have "Suc j \<le> length p" using k(4) Some by simp
    then obtain st where st: "mods ln p (?t2, last (r_cells (t_rows ?t2 ! i)), Suc j, ms2 @ ms3) = Some st"
      "mods_ok p (Suc j) (?t2, last (r_cells (t_rows ?t2 ! i)), Suc j, ms2 @ ms3) st"
      using mods_total [OF _ p(2), of "Suc j" ln ?t2 "last (r_cells (t_rows ?t2 ! i))" "ms2 @ ms3"] by blast
    obtain t3 x j' ms4 where st': "st = (t3, x, j', ms4)" by (cases st)
    have m: "Suc j \<le> j'" "j' \<le> length p" "opts_only ?t2 t3" "cell_kept (last (r_cells (t_rows ?t2 ! i))) x"
      using st(2) st' by (simp_all add: mods_ok_def)
    have rows: "t_rows t3 = t_rows ?t2" using m(3) by (auto simp: opts_only_def)
    have "grows_row i t3 (put_last_cell i x t3)"
      using put_last_cell_grows [of i t3 x] i2 ne m(4) by (simp add: rows)
    then have "grows_row i ?t2 (put_last_cell i x t3)"
      using grows_row_trans [OF grows_row_opts [OF m(3)] _ i2] by blast
    then have g: "grows_row i t (put_last_cell i x t3)"
      using grows_row_trans [OF g1 grows_row_trans [OF g2 _ i1] i] by blast
    have "cell ln i p pos t ms = Some (put_last_cell i x t3, j', ms4)"
      using bars k(1) Some c st(1) st' by (simp add: cell_def del: cell_key.simps)
    then show ?thesis using g m(1,2) k(2) by auto
  qed
qed

text \<open>The end of the layout.\<close>

lemma drop_empty_prefix:
  assumes "\<forall>i. Suc i < length rs \<longrightarrow> r_cells (rs ! i) \<noteq> []" "rs \<noteq> []" "r_cells (hd rs) \<noteq> []"
  shows "drop_empty rs \<noteq> [] \<and> (\<forall>r \<in> set (drop_empty rs). r_cells r \<noteq> []) \<and>
    (\<exists>ys. rs = drop_empty rs @ ys \<and> (\<forall>y \<in> set ys. r_cells y = []))"
  using assms
proof (induction rs rule: drop_empty.induct)
  case (3 r s rs)
  show ?case
  proof (cases "r_cells s = []")
    case True
    then have "rs = []" using 3(2) [rule_format, of 1] by auto
    then show ?thesis using True 3(4) by simp
  next
    case False
    have "r_cells ((s # rs) ! i) \<noteq> []" if "Suc i < length (s # rs)" for i
      using 3(2) [rule_format, of "Suc i"] that by simp
    then show ?thesis using 3(1) 3(4) False by simp
  qed
qed auto

lemma fold_margin:
  assumes "\<forall>r \<in> set rs. row_ok cols r" "to_lvert os \<le> 2" "to_rvert os \<le> 2"
  shows "to_cols (fold margin rs os) = to_cols os \<and> to_tab (fold margin rs os) = to_tab os \<and>
    to_lvert (fold margin rs os) \<le> 2 \<and> to_rvert (fold margin rs os) \<le> 2"
  using assms
proof (induction rs arbitrary: os)
  case (Cons r rs)
  have "r_cells r \<noteq> [] \<Longrightarrow> c_vert (last (r_cells r)) \<le> 2"
    using Cons.prems(1) by (auto simp: row_ok_def cells_ok_def last_conv_nth)
  then have "to_cols (margin r os) = to_cols os \<and> to_tab (margin r os) = to_tab os \<and> to_lvert (margin r os) \<le> 2 \<and> to_rvert (margin r os) \<le> 2"
    using Cons.prems by (auto simp: margin_def Let_def row_ok_def)
  then show ?case using Cons by auto
qed simp

lemma span_row_cells: "tbl_wf t \<Longrightarrow> s \<in> set (t_spans t) \<Longrightarrow>
    s_layout s < length (t_rows t) \<and> r_cells (t_rows t ! s_layout s) \<noteq> []"
  by (auto simp: tbl_wf_def span_ok_def Let_def)

lemma layout_end_default:
  assumes wf: "tbl_wf t" and hd: "t_rows t = [] \<or> r_cells (hd (t_rows t)) = []"
  shows "tbl_wf (fst (layout_end ln pos t ms)) \<and> t_part (fst (layout_end ln pos t ms)) = PART_DATA"
proof -
  have one: "length (t_rows t) \<le> 1"
  proof (rule ccontr)
    assume "\<not> length (t_rows t) \<le> 1"
    then have "r_cells (t_rows t ! 0) \<noteq> []" "t_rows t \<noteq> []" using wf by (auto simp: tbl_wf_def)
    then show False using hd by (simp add: hd_conv_nth)
  qed
  have spans: "t_spans t = []"
  proof (rule ccontr)
    assume "t_spans t \<noteq> []"
    then have s: "s_layout (hd (t_spans t)) < length (t_rows t)"
      "r_cells (t_rows t ! s_layout (hd (t_spans t))) \<noteq> []"
      using span_row_cells [OF wf] by auto
    then have "s_layout (hd (t_spans t)) = 0" using one by simp
    then show False using s hd by (auto simp: hd_conv_nth)
  qed
  define t0 where "t0 = t\<lparr>t_part := PART_DATA, t_rows := (if t_rows t = [] then [new_row] else t_rows t)\<rparr>"
  obtain r where r: "t_rows t0 = [r]" "row_ok (to_cols (t_opts t0)) r" "r_cells r = []"
    using one hd wf by (cases "t_rows t") (auto simp: t0_def new_row_def row_ok_def cells_ok_def tbl_wf_def)
  have le: "layout_end ln pos t ms =
      (let t = cell_alloc 0 CELL_LEFT t0
       in (t\<lparr>t_opts := (t_opts t)\<lparr>to_lvert := max (to_lvert (t_opts t)) (r_vert (hd (t_rows t)))\<rparr>\<rparr>,
           ms @ [(MANDOCERR_TBLLAYOUT_NONE, ln, pos, [])]))"
    using r unfolding layout_end_def t0_def by (simp add: Let_def)
  have "t_spans t0 = []" "t_part t0 = PART_DATA" "to_tab (t_opts t0) \<noteq> NUL" "to_lvert (t_opts t0) \<le> 2" "to_rvert (t_opts t0) \<le> 2"
    "t_current t0 = None"
    using wf spans by (auto simp: t0_def tbl_wf_def)
  then show ?thesis
    unfolding le using r
    by (auto simp: Let_def cell_alloc_def tbl_wf_def row_ok_def cells_ok_def new_cell_def)
qed

lemma layout_end_ok:
  assumes wf: "tbl_wf t"
  shows "tbl_wf (fst (layout_end ln pos t ms)) \<and> t_part (fst (layout_end ln pos t ms)) = PART_DATA"
proof (cases "t_rows t = [] \<or> r_cells (hd (t_rows t)) = []")
  case False
  let ?rs = "drop_empty (t_rows t)"
  have ne: "\<forall>i. Suc i < length (t_rows t) \<longrightarrow> r_cells (t_rows t ! i) \<noteq> []" using wf by (simp add: tbl_wf_def)
  have hd: "t_rows t \<noteq> []" "r_cells (hd (t_rows t)) \<noteq> []" using False by blast+
  obtain ys where rs0: "?rs \<noteq> []" and full: "\<forall>r \<in> set ?rs. r_cells r \<noteq> []"
    and ys: "t_rows t = ?rs @ ys" "\<forall>y \<in> set ys. r_cells y = []"
    using drop_empty_prefix [OF ne hd] by blast
  have sub: "set ?rs \<subseteq> set (t_rows t)" by (subst ys(1)) auto
  have row: "\<forall>r \<in> set ?rs. row_ok (to_cols (t_opts t)) r" using wf sub by (auto simp: tbl_wf_def)
  have nth: "t_rows t ! i = (if i < length ?rs then ?rs ! i else ys ! (i - length ?rs))" for i
    by (subst ys(1)) (rule nth_append)
  have len: "length (t_rows t) = length ?rs + length ys" by (subst ys(1)) simp
  have sp: "span_ok ?rs s" if s: "s \<in> set (t_spans t)" for s
  proof -
    note c = span_row_cells [OF wf s]
    have "s_layout s < length ?rs"
    proof (rule ccontr)
      assume n: "\<not> s_layout s < length ?rs"
      then have "s_layout s - length ?rs < length ys" using c len by linarith
      then have "t_rows t ! s_layout s \<in> set ys" using n nth [of "s_layout s"] by simp
      then show False using c ys(2) by blast
    qed
    then show ?thesis using span_ok_rows [of "t_rows t" s ?rs] wf s nth by (simp add: tbl_wf_def)
  qed
  have m: "to_cols (fold margin ?rs (t_opts t)) = to_cols (t_opts t) \<and>
      to_tab (fold margin ?rs (t_opts t)) = to_tab (t_opts t) \<and> to_lvert (fold margin ?rs (t_opts t)) \<le> 2 \<and>
      to_rvert (fold margin ?rs (t_opts t)) \<le> 2"
    using fold_margin [OF row] wf by (simp add: tbl_wf_def)
  define t1 where "t1 = t\<lparr>t_part := PART_DATA, t_rows := ?rs, t_opts := fold margin ?rs (t_opts t)\<rparr>"
  have "tbl_wf t1"
    using wf row rs0 full sp m unfolding tbl_wf_def t1_def by simp
  moreover have "tbl_wf (del_opt OPT_VSPACE t1)"
    using tbl_wf_opts [OF \<open>tbl_wf t1\<close>, of "(t_opts t1)\<lparr>to_opts := to_opts (t_opts t1) - {OPT_VSPACE}\<rparr>"] \<open>tbl_wf t1\<close>
    by (simp add: del_opt_def tbl_wf_def)
  moreover have "fst (layout_end ln pos t ms) \<in> {t1, del_opt OPT_VSPACE t1}"
    using False by (auto simp: layout_end_def t1_def Let_def)
  ultimately show ?thesis by (auto simp: del_opt_def t1_def)
qed (use layout_end_default [OF wf] in blast)

lemma tbl_wf_new_row:
  assumes wf: "tbl_wf t" and l: "t_rows t = [] \<or> r_cells (last (t_rows t)) \<noteq> []" and p: "t_part t = PART_LAYOUT"
  shows "tbl_wf (t\<lparr>t_rows := t_rows t @ [new_row]\<rparr>)"
proof -
  have "span_ok (t_rows t @ [new_row]) s" if "s \<in> set (t_spans t)" for s
    using span_ok_rows [of "t_rows t" s "t_rows t @ [new_row]"] wf span_row_cells [OF wf that] that
    by (auto simp: tbl_wf_def nth_append)
  moreover have "r_cells ((t_rows t @ [new_row]) ! i) \<noteq> []" if i: "i < length (t_rows t)" for i
  proof (cases "Suc i < length (t_rows t)")
    case True
    then show ?thesis using wf i by (simp add: nth_append tbl_wf_def)
  next
    case False
    then have "i = length (t_rows t) - 1" "t_rows t \<noteq> []" using i by auto
    then show ?thesis using l i by (simp add: nth_append last_conv_nth)
  qed
  ultimately show ?thesis
    using wf p by (auto simp: tbl_wf_def row_ok_def cells_ok_def new_row_def)
qed

definition row_free :: "tbl_node \<Rightarrow> bool" where
  "row_free t \<longleftrightarrow> t_rows t \<noteq> [] \<and> (\<forall>s \<in> set (t_spans t). Suc (s_layout s) \<noteq> length (t_rows t))"

lemma layout_row_ok:
  assumes wf: "tbl_wf t" and p: "t_part t = PART_LAYOUT" and rp: "rp \<longrightarrow> row_free t"
  shows "tbl_wf (layout_row rp t) \<and> row_free (layout_row rp t) \<and> t_part (layout_row rp t) = PART_LAYOUT \<and>
    t_spans (layout_row rp t) = t_spans t"
proof (cases "\<not> rp \<and> (t_rows t = [] \<or> r_cells (last (t_rows t)) \<noteq> [])")
  case True
  then show ?thesis
    using tbl_wf_new_row [OF wf _ p] span_row_cells [OF wf] p by (fastforce simp: layout_row_def row_free_def)
next
  case False
  have "row_free t"
  proof (cases rp)
    case False
    then have l: "t_rows t \<noteq> []" "r_cells (last (t_rows t)) = []"
      using \<open>\<not> (\<not> rp \<and> (t_rows t = [] \<or> r_cells (last (t_rows t)) \<noteq> []))\<close> by auto
    have "Suc (s_layout s) \<noteq> length (t_rows t)" if "s \<in> set (t_spans t)" for s
    proof
      assume e: "Suc (s_layout s) = length (t_rows t)"
      have "last (t_rows t) = t_rows t ! (length (t_rows t) - 1)" using l(1) by (rule last_conv_nth)
      moreover have "length (t_rows t) - 1 = s_layout s" using e by linarith
      ultimately show False using span_row_cells [OF wf that] l(2) by simp
    qed
    then show ?thesis using l by (simp add: row_free_def)
  qed (use rp in simp)
  then show ?thesis using False wf p by (auto simp: layout_row_def)
qed

lemma layout_loop_ok:
  assumes "tbl_wf t" "t_part t = PART_LAYOUT" "rp \<longrightarrow> row_free t" "pos \<le> length p" "no_expr p" "length p - pos < n"
  shows "\<exists>t' ms'. layout_loop n rp ln p pos t ms = Some (t', ms') \<and> tbl_wf t' \<and> t_spans t' = t_spans t \<and>
    t_part t' \<in> {PART_LAYOUT, PART_DATA}"
  using assms
proof (induction n arbitrary: rp pos t ms)
  case (Suc n)
  obtain i where i: "scan_while isblank_tbl p pos = Some i" "pos \<le> i" "i \<le> length p"
    by (rule scan_from [OF Suc.prems(4), of isblank_tbl]) auto
  obtain x where x: "rd p i = Some x" using rd_le_Some [OF i(3)] by blast
  have nb: "\<not> isblank_tbl x" using scan_while_stop [OF i(1)] x by auto
  consider "x = CHR '',''" | "x = NUL" | "x = CHR ''.''" | "x \<notin> {CHR '','', NUL, CHR ''.''}" by blast
  then show ?case
  proof cases
    case 1
    have s: "Suc i \<le> length p" using rd_lt [OF x] 1 by simp
    then have l: "length p - Suc i < n" using Suc.prems(6) i(2) by linarith
    obtain t' ms' where "layout_loop n False ln p (Suc i) t ms = Some (t', ms')" "tbl_wf t'" "t_spans t' = t_spans t"
      "t_part t' \<in> {PART_LAYOUT, PART_DATA}"
      using Suc.IH [OF Suc.prems(1,2) _ s Suc.prems(5) l, of False ms] by auto
    then show ?thesis using i x 1 by simp
  next
    case 2
    then show ?thesis using i x Suc.prems(1,2) by simp
  next
    case 3
    have "t_spans (fst (layout_end ln (Suc i) t ms)) = t_spans t"
      by (simp add: layout_end_def Let_def cell_alloc_def del_opt_def)
    then show ?thesis
      using i x 3 layout_end_ok [OF Suc.prems(1), of ln "Suc i" ms]
      by (cases "layout_end ln (Suc i) t ms") simp
  next
    case 4
    let ?t = "layout_row rp t"
    note R = layout_row_ok [OF Suc.prems(1-3)]
    let ?k = "length (t_rows ?t) - 1"
    have k: "Suc ?k = length (t_rows ?t)" "?k < length (t_rows ?t)" using R by (auto simp: row_free_def)
    obtain t1 j ms1 where c: "cell ln ?k p i ?t ms = Some (t1, j, ms1)" "grows_row ?k ?t t1" "j \<le> length p" "i < j"
      using cell_ok [OF k(2) _ i(3) Suc.prems(5), of ln ms] R tbl_wf_rows(1) [OF _ k(2)] x nb 4 by auto
    note keeps = grows_row_keeps [OF c(2)]
    have "tbl_wf t1"
    proof (rule tbl_wf_grows [OF _ c(2) k(1)])
      show "\<forall>s \<in> set (t_spans ?t). s_layout s \<noteq> ?k" using R k(1) by (metis row_free_def)
    qed (use R in auto)
    moreover have "row_free t1"
    proof -
      have "t_rows t1 \<noteq> []" using keeps k(2) by auto
      then show ?thesis using R keeps by (simp add: row_free_def)
    qed
    moreover have "length p - j < n" using Suc.prems(6) i(2) c(3,4) by linarith
    ultimately obtain t' ms' where "layout_loop n True ln p j t1 ms1 = Some (t', ms')" "tbl_wf t'"
      "t_spans t' = t_spans t1" "t_part t' \<in> {PART_LAYOUT, PART_DATA}"
      using Suc.IH [OF _ _ _ c(3) Suc.prems(5), of t1 True ms1] R keeps by auto
    then show ?thesis using i x 4 c(1) keeps R by (simp add: Let_def)
  qed
qed simp

lemma tbl_layout_ok:
  assumes "tbl_wf t" "t_part t = PART_LAYOUT" "pos \<le> length p" "no_expr p"
  shows "\<exists>t' ms. tbl_layout t ln p pos = Some (t', ms) \<and> tbl_wf t' \<and> t_spans t' = t_spans t \<and>
    t_part t' \<in> {PART_LAYOUT, PART_DATA}"
  unfolding tbl_layout_def
  by (rule layout_loop_ok [OF assms(1,2) _ assms(3,4)]) simp_all

end
