(* ===== verification/Tbl_Rows.thy ===== *)
theory Tbl_Rows
  imports Tbl_Wf
begin

section \<open>Rows of data\<close>

text \<open>
  The data phase of the tbl parser: which layout cell the next data cell belongs to, that a line
  is read to its end, and that the invariant of \<open>Tbl_Wf\<close> is kept.
\<close>

subsection \<open>The next column\<close>

lemma filter_upt_take:
  "0 < m \<Longrightarrow> m \<le> length (filter P [0..<n]) \<Longrightarrow>
    take m (filter P [0..<n]) = filter P [0..<Suc (filter P [0..<n] ! (m - 1))]"
proof (induction n)
  case (Suc n)
  show ?case
  proof (cases "m \<le> length (filter P [0..<n])")
    case True
    then have "filter P [0..<Suc n] ! (m - 1) = filter P [0..<n] ! (m - 1)"
      using Suc.prems(1) by (auto simp: nth_append)
    then show ?thesis using Suc.IH Suc.prems(1) True by simp
  next
    case False
    then have m: "m = Suc (length (filter P [0..<n]))" "P n"
      using Suc.prems(2) by (auto split: if_splits)
    then have "filter P [0..<Suc n] ! (m - 1) = n" by simp
    then show ?thesis using m by simp
  qed
qed simp

lemma filter_upt_next:
  "filter P [k..<n] = (let c = k + length (takeWhile (\<lambda>i. \<not> P i) [k..<n])
    in if c < n then c # filter P [Suc c..<n] else [])"
proof (induction "n - k" arbitrary: k)
  case (Suc d)
  then have k: "[k..<n] = k # [Suc k..<n]" by (simp add: upt_conv_Cons)
  have IH: "filter P [Suc k..<n] = (let c = Suc k + length (takeWhile (\<lambda>i. \<not> P i) [Suc k..<n])
    in if c < n then c # filter P [Suc c..<n] else [])"
    using Suc.hyps by simp
  show ?case
  proof (cases "P k")
    case True
    then show ?thesis using Suc.hyps(2) by (simp add: k)
  next
    case False
    then show ?thesis unfolding k using IH by (simp add: Let_def)
  qed
qed simp

lemma takeWhile_spans:
  "length (takeWhile (\<lambda>c. c_pos c = CELL_SPAN) (drop k cells)) =
    length (takeWhile (\<lambda>i. \<not> c_pos (cells ! i) \<noteq> CELL_SPAN) [k..<length cells])"
proof -
  have "drop k cells = map ((!) cells) [k..<length cells]" by (rule nth_equalityI) auto
  then show ?thesis by (simp add: takeWhile_map comp_def)
qed

lemma next_col_data:
  assumes "map d_col (s_dats s) = take (length (s_dats s)) (data_cols (row_cells t s))"
  shows "if next_col t s < length (row_cells t s)
    then length (s_dats s) < length (data_cols (row_cells t s)) \<and> data_cols (row_cells t s) ! length (s_dats s) = next_col t s
    else length (s_dats s) = length (data_cols (row_cells t s)) \<and> next_col t s = length (row_cells t s)"
proof -
  let ?cells = "row_cells t s" and ?m = "length (s_dats s)"
  let ?P = "\<lambda>i. c_pos (row_cells t s ! i) \<noteq> CELL_SPAN"
  let ?k = "if s_dats s = [] then 0 else Suc (d_col (last (s_dats s)))"
  have m: "?m \<le> length (data_cols ?cells)"
    using arg_cong [OF assms, of length] by simp
  have k: "?k \<le> length ?cells \<and> take ?m (data_cols ?cells) = filter ?P [0..<?k]"
  proof (cases "s_dats s = []")
    case False
    have "d_col (last (s_dats s)) = map d_col (s_dats s) ! (?m - 1)"
      using False by (simp add: last_conv_nth)
    then have l: "d_col (last (s_dats s)) = data_cols ?cells ! (?m - 1)"
      unfolding assms using False by simp
    have "data_cols ?cells ! (?m - 1) \<in> set (data_cols ?cells)"
      using m False by (intro nth_mem) (cases "s_dats s"; simp)
    then have "d_col (last (s_dats s)) < length ?cells" using l by (simp add: data_cols_def)
    moreover have "0 < ?m" using False by simp
    ultimately show ?thesis
      using False filter_upt_take [of ?m ?P "length ?cells"] m l by (simp add: data_cols_def Suc_le_eq)
  qed simp
  have "data_cols ?cells = filter ?P [0..<?k] @ filter ?P [?k..<length ?cells]"
    unfolding data_cols_def filter_append [symmetric] using upt_add_eq_append [of 0 ?k "length ?cells - ?k"] k by simp
  then have d: "data_cols ?cells = take ?m (data_cols ?cells) @ filter ?P [?k..<length ?cells]" using k by simp
  have n: "next_col t s = ?k + length (takeWhile (\<lambda>i. \<not> ?P i) [?k..<length ?cells])"
    by (simp add: next_col_def Let_def takeWhile_spans)
  have f: "filter ?P [?k..<length ?cells] =
      (if next_col t s < length ?cells then next_col t s # filter ?P [Suc (next_col t s)..<length ?cells] else [])"
    unfolding n by (subst filter_upt_next) (simp add: Let_def)
  have lt: "length (take ?m (data_cols ?cells)) = ?m" using m by simp
  show ?thesis
  proof (cases "next_col t s < length ?cells")
    case True
    have "drop ?m (data_cols ?cells) = next_col t s # filter ?P [Suc (next_col t s)..<length ?cells]"
      using d f True by (metis append_take_drop_id same_append_eq)
    moreover from this have "?m < length (data_cols ?cells)" by (metis drop_all list.distinct(1) not_le)
    ultimately show ?thesis using True by (metis hd_drop_conv_nth list.sel(1))
  next
    case False
    have "drop ?m (data_cols ?cells) = []"
      using d f False by (metis append_take_drop_id same_append_eq)
    moreover have "next_col t s \<le> length ?cells"
    proof -
      have "length (takeWhile (\<lambda>i. \<not> ?P i) [?k..<length ?cells]) \<le> length ?cells - ?k"
        using length_takeWhile_le [of "\<lambda>i. \<not> ?P i" "[?k..<length ?cells]"] by (simp only: length_upt)
      then show ?thesis unfolding n using k by linarith
    qed
    ultimately show ?thesis using m False by simp
  qed
qed

subsection \<open>A longer row\<close>

lemma data_cols_snoc: "data_cols (cells @ [x]) = data_cols cells @ (if c_pos x \<noteq> CELL_SPAN then [length cells] else [])"
proof -
  have "filter (\<lambda>i. c_pos ((cells @ [x]) ! i) \<noteq> CELL_SPAN) [0..<length cells] =
      filter (\<lambda>i. c_pos (cells ! i) \<noteq> CELL_SPAN) [0..<length cells]"
    by (rule filter_cong) (auto simp: nth_append)
  then show ?thesis by (simp add: data_cols_def)
qed

lemma takeWhile_not: "\<forall>z \<in> set zs. \<not> P z \<Longrightarrow> takeWhile P (ys @ zs) = takeWhile P ys"
  by (induction ys) (auto simp: takeWhile_eq_Nil_iff)

lemma count_hspans_snoc: "c_pos x \<noteq> CELL_SPAN \<Longrightarrow> count_hspans (cells @ [x]) col = count_hspans cells col"
  unfolding count_hspans_def by (auto simp: drop_append dest: in_set_dropD intro!: arg_cong [of _ _ length] takeWhile_not)

lemma span_ok_extend:
  assumes "span_ok rows s" "i < length rows"
  shows "span_ok (rows[i := (rows ! i)\<lparr>r_cells := r_cells (rows ! i) @ [new_cell CELL_LEFT c]\<rparr>]) s"
proof (cases "s_layout s = i")
  case True
  let ?cells = "r_cells (rows ! i)"
  have "length (s_dats s) \<le> length (data_cols ?cells)"
    using assms(1) True by (auto simp: span_ok_def Let_def dest!: arg_cong [of _ _ length])
  then show ?thesis
    using assms True by (auto simp: span_ok_def Let_def data_cols_snoc dat_ok_def count_hspans_snoc new_cell_def)
qed (use assms in \<open>auto simp: span_ok_def\<close>)

lemma row_extend:
  assumes "row_ok cols r" "r_cells r \<noteq> []" "Suc (c_col (last (r_cells r))) < cols"
  shows "row_ok cols (r\<lparr>r_cells := r_cells r @ [new_cell CELL_LEFT (Suc (c_col (last (r_cells r))))]\<rparr>)"
proof -
  have "c_col (last (r_cells r)) = length (r_cells r) - 1"
    using assms(1,2) by (simp add: row_ok_def cells_ok_def last_conv_nth)
  then have "Suc (c_col (last (r_cells r))) = length (r_cells r)" using assms(2) by (cases "r_cells r") auto
  then show ?thesis
    using assms by (auto simp: row_ok_def cells_ok_def nth_append new_cell_def less_Suc_eq)
qed

lemma tbl_wf_extend:
  assumes wf: "tbl_wf t" and s: "s \<in> set (t_spans t)" and lt: "Suc (c_col (last (row_cells t s))) < to_cols (t_opts t)"
  shows "tbl_wf (extend_row s t)"
proof -
  let ?i = "s_layout s"
  let ?r = "(t_rows t ! ?i)\<lparr>r_cells := r_cells (t_rows t ! ?i) @
    [new_cell CELL_LEFT (Suc (c_col (last (r_cells (t_rows t ! ?i)))))]\<rparr>"
  note c = span_row_cells [OF wf s]
  have r: "row_ok (to_cols (t_opts t)) ?r"
    using row_extend tbl_wf_rows(1) [OF wf] c lt by (simp add: row_cells_def)
  have e: "extend_row s t = t\<lparr>t_rows := (t_rows t)[?i := ?r]\<rparr>"
    by (simp add: extend_row_def row_cells_def Let_def)
  have "row_ok (to_cols (t_opts t)) x" if "x \<in> set ((t_rows t)[?i := ?r])" for x
  proof -
    have "x = ?r \<or> x \<in> set (t_rows t)" using that set_update_subset_insert [of "t_rows t" ?i ?r] by blast
    then show ?thesis using r wf by (auto simp: tbl_wf_def)
  qed
  moreover have "r_cells ((t_rows t)[?i := ?r] ! k) \<noteq> []" if "k < length (t_rows t)" "r_cells (t_rows t ! k) \<noteq> []" for k
    using that by (cases "k = ?i") auto
  moreover have "span_ok ((t_rows t)[?i := ?r]) x" if "x \<in> set (t_spans t)" for x
    using span_ok_extend [of "t_rows t" x ?i] wf that c by (auto simp: tbl_wf_def)
  ultimately show ?thesis
    using wf unfolding e by (auto simp: tbl_wf_def last_conv_nth)
qed

subsection \<open>Vertical spans\<close>

text \<open>Counting a vertical span changes nothing but the counter.\<close>

definition but_vspans :: "tbl_span \<Rightarrow> tbl_span" where
  "but_vspans s = s\<lparr>s_dats := map (\<lambda>d. d\<lparr>d_vspans := 0\<rparr>) (s_dats s)\<rparr>"

lemma but_vspans_eq:
  assumes "but_vspans s = but_vspans s'"
  shows "s_layout s = s_layout s'" "length (s_dats s) = length (s_dats s')" "map d_col (s_dats s) = map d_col (s_dats s')"
    "map d_string (s_dats s) = map d_string (s_dats s')"
    "map (\<lambda>d. (d_col d, d_hspans d, d_string d, d_pos d)) (s_dats s) = map (\<lambda>d. (d_col d, d_hspans d, d_string d, d_pos d)) (s_dats s')"
proof -
  have m: "map (\<lambda>d. d\<lparr>d_vspans := 0\<rparr>) (s_dats s) = map (\<lambda>d. d\<lparr>d_vspans := 0\<rparr>) (s_dats s')"
    using arg_cong [OF assms, of s_dats] by (simp add: but_vspans_def)
  have f: "map f (s_dats s) = map f (s_dats s')" if "\<And>d. f (d\<lparr>d_vspans := 0\<rparr>) = f d" for f :: "tbl_dat \<Rightarrow> 'a"
    using arg_cong [OF m, of "map f"] that by (simp add: comp_def)
  show "s_layout s = s_layout s'" using arg_cong [OF assms, of s_layout] by (simp add: but_vspans_def)
  show "length (s_dats s) = length (s_dats s')" using arg_cong [OF m, of length] by simp
  show "map d_col (s_dats s) = map d_col (s_dats s')" "map d_string (s_dats s) = map d_string (s_dats s')"
    "map (\<lambda>d. (d_col d, d_hspans d, d_string d, d_pos d)) (s_dats s) = map (\<lambda>d. (d_col d, d_hspans d, d_string d, d_pos d)) (s_dats s')"
    by (rule f, simp)+
qed

lemma span_ok_vspans:
  assumes "span_ok rows s" "but_vspans s = but_vspans s'"
  shows "span_ok rows s'"
proof -
  note e = but_vspans_eq [OF assms(2)]
  have "(\<forall>d \<in> set (s_dats s). dat_ok cells d) = (\<forall>d \<in> set (s_dats s'). dat_ok cells d)" for cells
    using arg_cong [OF e(5), of "list_all (\<lambda>(c, h, x, k). h = count_hspans cells c \<and> (x = None \<longrightarrow> k = DATA_NONE))"]
    by (simp add: list_all_iff dat_ok_def)
  then show ?thesis using assms(1) e by (simp add: span_ok_def Let_def)
qed

definition all_strings :: "tbl_span list \<Rightarrow> bool" where
  "all_strings ss \<longleftrightarrow> (\<forall>s \<in> set ss. \<forall>d \<in> set (s_dats s). d_string d \<noteq> None)"

lemma all_strings_alt: "all_strings ss \<longleftrightarrow> (\<forall>s \<in> set ss. None \<notin> set (map d_string (s_dats s)))"
  by (force simp: all_strings_def)

lemma all_strings_vspans: "all_strings ss \<Longrightarrow> map but_vspans ss = map but_vspans ss' \<Longrightarrow> all_strings ss'"
proof (induction ss arbitrary: ss')
  case (Cons s ss)
  then obtain s' ss2 where "ss' = s' # ss2" "but_vspans s = but_vspans s'" "map but_vspans ss = map but_vspans ss2"
    by (cases ss') auto
  moreover from this have "d_string ` set (s_dats s) = d_string ` set (s_dats s')"
    using arg_cong [OF but_vspans_eq(4) [of s s'], of set] by simp
  ultimately show ?case using Cons by (simp add: all_strings_alt)
qed simp

lemma add_vspan_ok:
  assumes "all_strings ss"
  shows "\<exists>ss'. add_vspan t col ss = Some ss' \<and> map but_vspans ss' = map but_vspans ss"
  using assms
proof (induction ss)
  case (Cons s ss)
  then obtain ss' where ss': "add_vspan t col ss = Some ss'" "map but_vspans ss' = map but_vspans ss"
    by (auto simp: all_strings_def)
  show ?case
  proof (cases "above t col s")
    case (Some k)
    then have k: "k < length (s_dats s)" by (auto simp: above_def Let_def split: if_splits)
    then have "d_string (s_dats s ! k) \<noteq> None" using Cons.prems nth_mem [OF k] by (simp add: all_strings_def del: not_None_eq)
    then obtain str where str: "d_string (s_dats s ! k) = Some str" by blast
    have "(map (\<lambda>d. d\<lparr>d_vspans := 0\<rparr>) (s_dats s))[k := (s_dats s ! k)\<lparr>d_vspans := 0\<rparr>] =
        map (\<lambda>d. d\<lparr>d_vspans := 0\<rparr>) (s_dats s)"
      using k by (intro list_update_same_conv [THEN iffD2]) auto
    then have "but_vspans (s\<lparr>s_dats := (s_dats s)[k := (s_dats s ! k)\<lparr>d_vspans := Suc (d_vspans (s_dats s ! k))\<rparr>]\<rparr>) = but_vspans s"
      by (simp add: but_vspans_def map_update)
    then show ?thesis using Some str ss' by (auto simp: Let_def)
  qed simp
qed (simp add: all_strings_def)

subsection \<open>One cell\<close>

text \<open>
  A line whose escape sequences are complete, and are not ones that the roff parser would have
  expanded.
\<close>

definition esc_line :: "string \<Rightarrow> bool" where
  "esc_line p \<longleftrightarrow> cstring p \<and> \<not> trailing_esc BSLASH p \<and>
     (\<forall>i < length p. p ! i = BSLASH \<longrightarrow> mandoc_escape (drop i p) \<noteq> None)"

lemma dropWhile_prefix: "dropWhile P a = y # ys \<Longrightarrow> dropWhile P (a @ b) = y # ys @ b"
  by (induction a) (auto split: if_splits)

lemma trailing_esc_drop: "trailing_esc c (drop i p) \<Longrightarrow> trailing_esc c p"
proof -
  assume "trailing_esc c (drop i p)"
  then obtain x xs where x: "dropWhile (\<lambda>x. x = CHR ''E'') (rev (drop i p)) = x # xs" "x = c"
    by (auto simp: trailing_esc_def split: list.splits)
  have "rev p = rev (drop i p) @ rev (take i p)" by (metis append_take_drop_id rev_append)
  moreover have "dropWhile (\<lambda>x. x = CHR ''E'') (rev (drop i p) @ rev (take i p)) = (x # xs) @ rev (take i p)"
    using dropWhile_prefix [OF x(1)] by simp
  ultimately show ?thesis using x(2) by (simp add: trailing_esc_def)
qed

lemma esc_line_escape:
  assumes "esc_line p" "i < length p" "p ! i = BSLASH"
  shows "\<exists>r a n e. mandoc_escape (drop i p) = Some (r, a, n, e) \<and> 0 < e \<and> i + e \<le> length p"
proof -
  have "line_ok (drop i p) BSLASH 0"
    using assms(1) trailing_esc_drop by (auto simp: esc_line_def line_ok_def cstring_def dest: in_set_dropD)
  from roff_escape_ok [OF this, of 0 True] obtain r where
    r: "roff_escape True (drop i p) 0 0 = Some r" "res_ok (drop i p) BSLASH 0 r"
    using assms(2,3) by (auto simp: returns_ok_def)
  have "o_rval r \<noteq> ESCAPE_EXPAND" using assms r(1) by (auto simp: esc_line_def mandoc_escape_def)
  moreover from this have "0 < o_iend r" "i + o_iend r \<le> length p"
    using r(2) assms(2) by (auto simp: res_ok_def)
  ultimately show ?thesis using r(1) by (simp add: mandoc_escape_def)
qed

lemma data_end_ok:
  assumes "esc_line p" "pos \<le> length p" "length p - pos < n"
  shows "\<exists>j. data_end n tb p pos = Some j \<and> pos \<le> j \<and> j \<le> length p"
  using assms(2,3)
proof (induction n arbitrary: pos)
  case (Suc n)
  obtain c where c: "rd p pos = Some c" using rd_le_Some [OF Suc.prems(1)] by blast
  show ?case
  proof (cases "c = NUL \<or> c = tb")
    case False
    then have lt: "pos < length p" using rd_not_NUL_less [OF c] by simp
    have go: "\<exists>j. data_end n tb p k = Some j \<and> pos \<le> j \<and> j \<le> length p" if "pos < k" "k \<le> length p" for k
    proof -
      have "length p - k < n" using Suc.prems(2) that by linarith
      then show ?thesis using Suc.IH [of k] that by (meson le_trans less_imp_le)
    qed
    show ?thesis
    proof (cases "c = BSLASH")
      case True
      then obtain r a m e where "mandoc_escape (drop pos p) = Some (r, a, m, e)" "0 < e" "pos + e \<le> length p"
        using esc_line_escape [OF assms(1) lt] c lt by (auto simp: rd_in)
      then show ?thesis using c False True go [of "pos + e"] by simp
    next
      case nb: False
      then show ?thesis using c False go [of "Suc pos"] lt by simp
    qed
  qed (use c Suc.prems in simp)
qed simp

lemma tbl_wf_spans:
  "tbl_wf t \<Longrightarrow> \<forall>s \<in> set ss. span_ok (t_rows t) s \<Longrightarrow> length (t_spans t) \<le> length ss \<Longrightarrow>
    t_part t = PART_CDATA \<longrightarrow> s_dats (last ss) \<noteq> [] \<Longrightarrow> tbl_wf (t\<lparr>t_spans := ss\<rparr>)"
  unfolding tbl_wf_def by (auto dest: order_less_le_trans)

lemma upd_last_snoc [simp]: "upd_last f (xs @ [x]) = xs @ [f x]"
  by (simp add: upd_last_def)

lemma tbl_wf_add_dat:
  assumes wf: "tbl_wf t" and ss: "t_spans t = ss @ [s]"
    and d: "length (s_dats s) < length (data_cols (row_cells t s))" "data_cols (row_cells t s) ! length (s_dats s) = d_col d"
    "dat_ok (row_cells t s) d" and p: "part = PART_CDATA \<or> part = t_part t" "t_part t \<in> {PART_DATA, PART_CDATA}"
  shows "tbl_wf (add_dat d (t\<lparr>t_part := part\<rparr>))"
proof -
  let ?s = "s\<lparr>s_dats := s_dats s @ [d]\<rparr>"
  have "span_ok (t_rows t) ?s"
    using wf ss d by (auto simp: tbl_wf_def span_ok_def Let_def row_cells_def take_Suc_conv_app_nth)
  then have "tbl_wf (t\<lparr>t_spans := ss @ [?s]\<rparr>)"
    using tbl_wf_spans [OF wf, of "ss @ [?s]"] wf ss by (simp add: tbl_wf_def)
  then show ?thesis
    using p unfolding add_dat_def by (auto simp: tbl_wf_def ss)
qed

text \<open>No text block starts on the line.\<close>

definition no_block :: "string \<Rightarrow> bool" where
  "no_block p \<longleftrightarrow> (\<forall>i. take 2 (drop i p) \<noteq> ''T{'')"

lemma strip_ends_within: "strip_ends b p i j = (i', j') \<Longrightarrow> i \<le> i' \<and> j' \<le> j"
  by (auto simp: strip_ends_def Let_def split: if_splits)

lemma dat_ok_filled: "d_hspans d = count_hspans cells (d_col d) \<Longrightarrow> dat_ok cells (d\<lparr>d_string := Some x, d_pos := y\<rparr>)"
  by (simp add: dat_ok_def)

lemma fill_dat_ok:
  assumes wf: "tbl_wf t" and ss: "t_spans t = ss @ [s]"
    and d: "length (s_dats s) < length (data_cols (row_cells t s))" "data_cols (row_cells t s) ! length (s_dats s) = d_col d"
    "d_hspans d = count_hspans (row_cells t s) (d_col d)" "d_pos d = DATA_NONE"
    and p: "t_part t \<in> {PART_DATA, PART_CDATA}" "cstring p" "lo < length p" "lo \<le> pos" "pos \<le> length p"
  shows "\<exists>t' j ms d'. fill_dat ln p lo pos d lp t = Some (t', j, ms) \<and> lo < j \<and> j \<le> length p \<and> tbl_wf t' \<and>
    t_spans t' = ss @ [s\<lparr>s_dats := s_dats s @ [d']\<rparr>] \<and> t_part t' \<in> {PART_CDATA, t_part t} \<and>
    (no_block p \<longrightarrow> t_part t' = t_part t \<and> d_string d' \<noteq> None)"
proof -
  obtain i j where ij: "strip_ends (OPT_NOSPACE \<in> to_opts (t_opts t)) p lo pos = (i, j)" by fastforce
  note w = strip_ends_within [OF ij]
  let ?str = "dat_string p i j"
  obtain c where c: "rd p pos = Some c" using rd_le_Some [OF p(5)] by blast
  show ?thesis
  proof (cases "j = i + 2 \<and> ?str = ''T{''")
    case True
    then have t: "lo < pos" using w by linarith
    have str: "j = i + 2" "dat_string p i j = ''T{''" using True by blast+
    have "take 2 (drop i p) = ''T{''" using str(2) unfolding dat_string_def str(1) by simp
    then have nb: "\<not> no_block p" by (auto simp: no_block_def)
    have "dat_ok (row_cells t s) d" using d by (simp add: dat_ok_def)
    then have "tbl_wf (add_dat d (t\<lparr>t_part := PART_CDATA\<rparr>))"
      using tbl_wf_add_dat [OF wf ss d(1,2)] p(1) by blast
    moreover have "fill_dat ln p lo pos d lp t = Some (add_dat d (t\<lparr>t_part := PART_CDATA\<rparr>), pos, [])"
      unfolding fill_dat_def ij Let_def prod.case str(2) using str(1) by simp
    moreover have "t_spans (add_dat d (t\<lparr>t_part := PART_CDATA\<rparr>)) = ss @ [s\<lparr>s_dats := s_dats s @ [d]\<rparr>]"
      "t_part (add_dat d (t\<lparr>t_part := PART_CDATA\<rparr>)) = PART_CDATA" by (simp_all add: add_dat_def ss)
    ultimately show ?thesis using t nb p(5) by blast
  next
    case False
    let ?d = "d\<lparr>d_string := Some ?str, d_pos := data_pos ?str\<rparr>"
    have "tbl_wf (add_dat ?d (t\<lparr>t_part := t_part t\<rparr>))"
      using tbl_wf_add_dat [OF wf ss, of ?d "t_part t"] d p(1) by (simp add: dat_ok_def)
    then have wf': "tbl_wf (add_dat ?d t)" by simp
    have j: "lo < (if c \<noteq> NUL then Suc pos else pos) \<and> (if c \<noteq> NUL then Suc pos else pos) \<le> length p"
    proof (cases "c = NUL")
      case True
      then have "pos = length p" using c p(2,5) unfolding rd_def cstring_def
        by (metis le_neq_implies_less nth_mem option.inject)
      then show ?thesis using True p(3) by simp
    next
      case f: False
      then show ?thesis using rd_not_NUL_less [OF c] p(4) by simp
    qed
    let ?ms = "if lp \<in> {CELL_HORIZ, CELL_DHORIZ, CELL_DOWN} \<and> data_pos ?str = DATA_DATA \<and> ?str \<noteq> []
      then [(MANDOCERR_TBLDATA_SPAN, ln, i, ?str)] else []"
    have "fill_dat ln p lo pos d lp t = Some (add_dat ?d t, if c \<noteq> NUL then Suc pos else pos, ?ms)"
      using ij False c by (auto simp: fill_dat_def Let_def)
    moreover have "t_spans (add_dat ?d t) = ss @ [s\<lparr>s_dats := s_dats s @ [?d]\<rparr>]"
      "t_part (add_dat ?d t) = t_part t" "d_string ?d \<noteq> None" by (simp_all add: add_dat_def ss)
    ultimately show ?thesis using wf' j by blast
  qed
qed

definition reading :: "tbl_node \<Rightarrow> bool" where
  "reading t \<longleftrightarrow> tbl_wf t \<and> t_part t \<in> {PART_DATA, PART_CDATA} \<and> t_spans t \<noteq> [] \<and> all_strings (butlast (t_spans t))"

definition reads_on :: "string \<Rightarrow> tbl_node \<Rightarrow> tbl_node \<Rightarrow> bool" where
  "reads_on p t t' \<longleftrightarrow> reading t' \<and> length (t_spans t') = length (t_spans t) \<and>
     (no_block p \<longrightarrow> t_part t' = t_part t \<and> (all_strings (t_spans t) \<longrightarrow> all_strings (t_spans t')))"

lemma reads_on_refl: "reading t \<Longrightarrow> reads_on p t t"
  by (simp add: reads_on_def)

lemma reads_on_trans: "reads_on p t t' \<Longrightarrow> reads_on p t' t'' \<Longrightarrow> reads_on p t t''"
  by (auto simp: reads_on_def)

lemma row_cells_spans [simp]: "row_cells (t\<lparr>t_spans := ss\<rparr>) s = row_cells t s"
  by (simp add: row_cells_def)

definition fresh_dat :: "tbl_cell list \<Rightarrow> nat \<Rightarrow> tbl_dat" where
  "fresh_dat cells col = \<lparr>d_col = col, d_string = None, d_hspans = count_hspans cells col, d_vspans = 0,
     d_block = False, d_pos = DATA_NONE\<rparr>"

lemma getdata_fill:
  assumes "data_end (Suc (length p)) (to_tab (t_opts t)) p lo = Some pos" "t_spans t = ss @ [s]"
    "\<not> (next_col t s \<ge> length (row_cells t s) \<and> \<not> Suc (c_col (last (row_cells t s))) < to_cols (t_opts t))"
    "t1 = (if next_col t s \<ge> length (row_cells t s) then extend_row s t else t)"
    "cp = row_cells t1 s ! next_col t s"
    "(if c_pos cp = CELL_DOWN \<or> take (pos - lo) (drop lo p) = BSLASH # ''^''
        then map_option rev (add_vspan t1 (c_col cp) (rev ss)) else Some ss) = Some spans"
  shows "getdata t ln p lo =
    fill_dat ln p lo pos (fresh_dat (row_cells t1 s) (next_col t s)) (c_pos cp) (t1\<lparr>t_spans := spans @ [s]\<rparr>)"
proof -
  have sp: "t_spans t1 = ss @ [s]" using assms(2,4) by (simp add: extend_row_def Let_def)
  have last: "last (t_spans t) = s" using assms(2) by simp
  show ?thesis
    unfolding getdata_def assms(1) bind.bind_lunit Let_def last if_not_P [OF assms(3)] assms(4) [symmetric] assms(5) [symmetric] sp
      butlast_snoc assms(6)
    by (simp add: fresh_dat_def)
qed

lemma getdata_ok:
  assumes rd: "reading t" and p: "esc_line p" "lo < length p"
  shows "\<exists>t' j ms. getdata t ln p lo = Some (t', j, ms) \<and> lo < j \<and> j \<le> length p \<and> reads_on p t t'"
proof -
  obtain ss s where ss: "t_spans t = ss @ [s]" using rd by (metis reading_def append_butlast_last_id)
  have wf: "tbl_wf t" and strs: "all_strings ss" and part: "t_part t \<in> {PART_DATA, PART_CDATA}"
    using rd by (simp_all add: reading_def ss)
  have s: "s \<in> set (t_spans t)" by (simp add: ss)
  then have ok: "span_ok (t_rows t) s" using wf by (simp add: tbl_wf_def)
  then have cols: "map d_col (s_dats s) = take (length (s_dats s)) (data_cols (row_cells t s))"
    by (simp add: span_ok_def Let_def row_cells_def)
  obtain pos where pos: "data_end (Suc (length p)) (to_tab (t_opts t)) p lo = Some pos" "lo \<le> pos" "pos \<le> length p"
    using data_end_ok [OF p(1) less_imp_le [OF p(2)], of "Suc (length p)"] less_Suc_eq_le diff_le_self by blast
  let ?col = "next_col t s"
  note n = next_col_data [OF cols]
  show ?thesis
  proof (cases "?col \<ge> length (row_cells t s) \<and> \<not> Suc (c_col (last (row_cells t s))) < to_cols (t_opts t)")
    case True
    then show ?thesis
      using pos(1) p(2) reads_on_refl [OF rd] by (simp add: getdata_def Let_def ss del: data_end.simps)
  next
    case False
    define t1 where "t1 = (if ?col \<ge> length (row_cells t s) then extend_row s t else t)"
    have t1: "t_spans t1 = t_spans t" "t_part t1 = t_part t" by (simp_all add: t1_def extend_row_def Let_def)
    have wf1: "tbl_wf t1" using tbl_wf_extend [OF wf s] wf False by (simp add: t1_def)
    have cells1: "length (s_dats s) < length (data_cols (row_cells t1 s))"
      "data_cols (row_cells t1 s) ! length (s_dats s) = ?col"
    proof -
      have "row_cells t1 s = (if ?col \<ge> length (row_cells t s)
          then row_cells t s @ [new_cell CELL_LEFT (Suc (c_col (last (row_cells t s))))] else row_cells t s)"
        using span_row_cells [OF wf s] by (simp add: t1_def row_cells_def extend_row_def Let_def)
      then show "length (s_dats s) < length (data_cols (row_cells t1 s))"
        "data_cols (row_cells t1 s) ! length (s_dats s) = ?col"
        using n by (auto simp: data_cols_snoc new_cell_def nth_append split: if_splits)
    qed
    let ?cp = "row_cells t1 s ! ?col"
    obtain spans where spans: "(if c_pos ?cp = CELL_DOWN \<or> take (pos - lo) (drop lo p) = BSLASH # ''^''
        then map_option rev (add_vspan t1 (c_col ?cp) (rev ss)) else Some ss) = Some spans"
      "map but_vspans spans = map but_vspans ss"
    proof (cases "c_pos ?cp = CELL_DOWN \<or> take (pos - lo) (drop lo p) = BSLASH # ''^''")
      case True
      have "all_strings (rev ss)" using strs by (simp add: all_strings_def)
      then obtain ss' where "add_vspan t1 (c_col ?cp) (rev ss) = Some ss'" "map but_vspans ss' = map but_vspans (rev ss)"
        using add_vspan_ok by blast
      then show thesis using True that [of "rev ss'"] by (simp add: rev_map [symmetric])
    qed (use that in simp)
    define t2 where "t2 = t1\<lparr>t_spans := spans @ [s]\<rparr>"
    have len: "length spans = length ss" using arg_cong [OF spans(2), of length] by simp
    have strs2: "all_strings spans" using all_strings_vspans [OF strs] spans(2) by simp
    have wf2: "tbl_wf t2"
      unfolding t2_def
    proof (rule tbl_wf_spans [OF wf1])
      have "span_ok (t_rows t1) x" if x: "x \<in> set spans" for x
      proof -
        obtain i where i: "i < length spans" "x = spans ! i" using x unfolding in_set_conv_nth by blast
        then have "but_vspans (ss ! i) = but_vspans x" using arg_cong [OF spans(2), of "\<lambda>xs. xs ! i"] len by simp
        moreover have "span_ok (t_rows t1) (ss ! i)" using wf1 i len t1(1) by (simp add: tbl_wf_def ss)
        ultimately show ?thesis using span_ok_vspans by blast
      qed
      moreover have "span_ok (t_rows t1) s" using wf1 t1(1) by (simp add: tbl_wf_def ss)
      ultimately show "\<forall>x \<in> set (spans @ [s]). span_ok (t_rows t1) x" by simp
      show "t_part t1 = PART_CDATA \<longrightarrow> s_dats (last (spans @ [s])) \<noteq> []" using wf1 t1 by (simp add: tbl_wf_def ss)
    qed (simp add: len t1 ss)
    let ?d = "fresh_dat (row_cells t1 s) ?col"
    have rc: "row_cells t2 s = row_cells t1 s" by (simp add: row_cells_def t2_def)
    obtain t' j ms d' where f: "fill_dat ln p lo pos ?d (c_pos ?cp) t2 = Some (t', j, ms)" "lo < j" "j \<le> length p"
      "tbl_wf t'" "t_spans t' = spans @ [s\<lparr>s_dats := s_dats s @ [d']\<rparr>]" "t_part t' \<in> {PART_CDATA, t_part t2}"
      "no_block p \<longrightarrow> t_part t' = t_part t2 \<and> d_string d' \<noteq> None"
      using fill_dat_ok [OF wf2, of spans s ?d p lo pos ln "c_pos ?cp"] cells1 part t1(2) p pos
      by (auto simp: t2_def rc esc_line_def row_cells_def fresh_dat_def)
    have "getdata t ln p lo = Some (t', j, ms)"
      using getdata_fill [OF pos(1) ss False t1_def refl spans(1)] f(1) by (simp add: t2_def)
    moreover have "reads_on p t t'"
      using f(4-7) strs2 part t1(2) len
      by (auto simp: reads_on_def reading_def ss t2_def all_strings_def)
    ultimately show ?thesis using f(2,3) by blast
  qed
qed

lemma getdata_loop_ok:
  assumes "reading t" "esc_line p" "pos \<le> length p" "length p - pos < n"
  shows "\<exists>t' ms'. getdata_loop n t ln p pos ms = Some (t', ms') \<and> reads_on p t t'"
  using assms(1,3,4)
proof (induction n arbitrary: t pos ms)
  case (Suc n)
  obtain c where c: "rd p pos = Some c" using rd_le_Some [OF Suc.prems(2)] by blast
  show ?case
  proof (cases "c = NUL")
    case False
    then have lt: "pos < length p" using rd_not_NUL_less [OF c] by simp
    obtain t' j ms' where g: "getdata t ln p pos = Some (t', j, ms')" "pos < j" "j \<le> length p" "reads_on p t t'"
      using getdata_ok [OF Suc.prems(1) assms(2) lt] by blast
    have "length p - j < n" using Suc.prems(3) g(2) lt by linarith
    moreover have "reading t'" using g(4) by (simp add: reads_on_def)
    ultimately obtain t'' ms'' where "getdata_loop n t' ln p j (ms @ ms') = Some (t'', ms'')" "reads_on p t' t''"
      using Suc.IH [OF _ g(3)] by blast
    then show ?thesis using c False g(1) reads_on_trans [OF g(4)] by simp
  qed (use c reads_on_refl [OF Suc.prems(1)] in simp)
qed simp

lemma getdata_all_ok:
  "reading t \<Longrightarrow> esc_line p \<Longrightarrow> pos \<le> length p \<Longrightarrow> \<exists>t' ms. getdata_all t ln p pos = Some (t', ms) \<and> reads_on p t t'"
  unfolding getdata_all_def by (rule getdata_loop_ok) simp_all

end
