(* ===== verification/Tbl_Read.thy ===== *)
theory Tbl_Read
  imports Tbl_Rows
begin

section \<open>Reading a table\<close>

text \<open>
  The invariant of \<open>Tbl_Wf\<close> is kept by a row of data, by a line of a text block, by the options
  line and so by \<open>tbl_read\<close> in every section of the table, which always returns on lines that
  fit the section.
\<close>

subsection \<open>Rows and text blocks\<close>

lemma wf_row_cells: "tbl_wf t \<Longrightarrow> t_part t \<in> {PART_DATA, PART_CDATA} \<Longrightarrow> i < length (t_rows t) \<Longrightarrow> r_cells (t_rows t ! i) \<noteq> []"
proof (cases "Suc i < length (t_rows t)")
  case False
  assume a: "tbl_wf t" "t_part t \<in> {PART_DATA, PART_CDATA}" "i < length (t_rows t)"
  then have "t_rows t \<noteq> []" "length (t_rows t) - 1 = i" using False by auto
  then have "last (t_rows t) = t_rows t ! i" by (simp add: last_conv_nth)
  then show ?thesis using a by (auto simp: tbl_wf_def)
qed (simp add: tbl_wf_def)

lemma tbl_wf_newspan:
  assumes wf: "tbl_wf t" and p: "t_part t = PART_DATA" and i: "i < length (t_rows t)"
  shows "tbl_wf (newspan ln i k t)"
proof -
  let ?s = "\<lparr>s_layout = i, s_dats = [], s_line = ln, s_pos = k\<rparr>"
  have "span_ok (t_rows t) ?s" using wf_row_cells [OF wf _ i] p i by (simp add: span_ok_def Let_def)
  then have "tbl_wf (t\<lparr>t_spans := t_spans t @ [?s]\<rparr>)"
    using tbl_wf_spans [OF wf, of "t_spans t @ [?s]"] wf p by (simp add: tbl_wf_def)
  then show ?thesis by (simp add: newspan_def tbl_wf_def)
qed

lemma newspan_keeps [simp]: "t_part (newspan ln i k t) = t_part t" "t_rows (newspan ln i k t) = t_rows t"
  "t_opts (newspan ln i k t) = t_opts t" "all_strings (t_spans (newspan ln i k t)) = all_strings (t_spans t)"
  by (auto simp: newspan_def all_strings_def)

lemma data_row_less:
  assumes "tbl_wf t" "t_rows t \<noteq> []"
  shows "data_row t < length (t_rows t)"
proof (cases "find (\<lambda>s. s_pos s = SPAN_DATA) (rev (t_spans t))")
  case (Some s)
  then have "s \<in> set (rev (t_spans t))" unfolding find_Some_iff using nth_mem by metis
  then have "s \<in> set (t_spans t)" by simp
  then show ?thesis using Some span_row_cells [OF assms(1)] by (simp add: data_row_def)
qed (use assms(2) in \<open>simp add: data_row_def\<close>)

lemma skip_lines_ok:
  assumes "tbl_wf t" "t_part t = PART_DATA" "i < length (t_rows t)"
  shows "\<exists>t' j. skip_lines ln i t = (t', j) \<and> tbl_wf t' \<and> t_part t' = PART_DATA \<and> j < length (t_rows t') \<and>
    t_rows t' = t_rows t \<and> t_opts t' = t_opts t \<and> all_strings (t_spans t') = all_strings (t_spans t)"
  using assms
proof (induction ln i t rule: skip_lines.induct)
  case (1 ln i t)
  show ?case
  proof (cases "Suc i < length (t_rows t) \<and> \<not> Suc (c_col (last (r_cells (t_rows t ! i)))) < to_cols (t_opts t) \<and>
      only_lines (t_rows t ! i)")
    case True
    then show ?thesis
      using 1(1) [OF True] tbl_wf_newspan [OF 1(2-4)] 1(3) by (simp add: skip_lines.simps [of ln i t])
  next
    case False
    then have "skip_lines ln i t = (t, i)" by (subst skip_lines.simps) (rule if_not_P)
    then show ?thesis using 1(2-4) by simp
  qed
qed

definition keeps_strings :: "string \<Rightarrow> tbl_node \<Rightarrow> tbl_node \<Rightarrow> bool" where
  "keeps_strings p t t' \<longleftrightarrow> (no_block p \<longrightarrow> t_part t \<noteq> PART_CDATA \<longrightarrow> all_strings (t_spans t) \<longrightarrow>
     t_part t' \<noteq> PART_CDATA \<and> all_strings (t_spans t'))"

lemma tbl_data_ok:
  assumes wf: "tbl_wf t" and part: "t_part t = PART_DATA" and strs: "all_strings (t_spans t)"
    and p: "esc_line p" "pos \<le> length p" "p \<noteq> []"
  shows "\<exists>t' ms. tbl_data t ln p pos = Some (t', ms) \<and> tbl_wf t' \<and> t_part t' \<noteq> PART_OPTS \<and> keeps_strings p t t'"
proof -
  have rows: "t_rows t \<noteq> []" using wf part by (simp add: tbl_wf_def)
  note i = data_row_less [OF wf rows]
  consider "p = ''.''" | "p \<noteq> ''.''" "p = ''_'' \<or> p = ''=''" | "p \<noteq> ''.''" "p \<noteq> ''_''" "p \<noteq> ''=''" by blast
  then show ?thesis
  proof cases
    case 1
    then show ?thesis using wf part rows strs by (simp add: tbl_data_def keeps_strings_def)
  next
    case 2
    let ?t = "if \<exists>s \<in> set (t_spans t). s_pos s = SPAN_DATA then t else del_opt OPT_VSPACE t"
    have "tbl_wf ?t" "t_part ?t = PART_DATA" "t_rows ?t = t_rows t" "t_spans ?t = t_spans t"
      using wf part by (simp_all add: del_opt_def tbl_wf_def)
    then show ?thesis
      using tbl_wf_newspan [of ?t "data_row t"] i 2 rows strs p(3) by (simp add: tbl_data_def Let_def keeps_strings_def)
  next
    case 3
    obtain t1 j where t1: "skip_lines ln (data_row t) t = (t1, j)" "tbl_wf t1" "t_part t1 = PART_DATA" "j < length (t_rows t1)"
      "all_strings (t_spans t1) = all_strings (t_spans t)"
      using skip_lines_ok [OF wf part i, of ln] by blast
    let ?t = "newspan ln j SPAN_DATA t1"
    have "reading ?t"
      using tbl_wf_newspan [OF t1(2-4), of ln SPAN_DATA] t1(3,5) strs by (simp add: reading_def newspan_def)
    then obtain t' ms where t': "getdata_all ?t ln p pos = Some (t', ms)" "reads_on p ?t t'"
      using getdata_all_ok [OF _ p(1,2)] by blast
    moreover have "tbl_data t ln p pos = Some (t', ms)" using t'(1) t1(1) 3 rows p(3) by (simp add: tbl_data_def Let_def)
    ultimately show ?thesis
      using t1(3,5) by (auto simp: reads_on_def reading_def keeps_strings_def)
  qed
qed

lemma tbl_wf_part_data: "tbl_wf t \<Longrightarrow> t_part t = PART_CDATA \<Longrightarrow> tbl_wf (t\<lparr>t_part := PART_DATA\<rparr>)"
  by (simp add: tbl_wf_def)

lemma take2_le: "take 2 (drop pos p) = [a, b] \<Longrightarrow> pos + 2 \<le> length p"
proof -
  assume "take 2 (drop pos p) = [a, b]"
  then have "length (take 2 (drop pos p)) = 2" by simp
  then show ?thesis unfolding length_take length_drop by linarith
qed

lemma block_word:
  assumes "pos \<le> length p"
  shows "\<exists>j. block_pos t p pos = Some j \<and> j \<le> length p"
proof (cases "take 2 (drop pos p) = ''T}''")
  case True
  note l = take2_le [OF True]
  obtain j where "scan_while (\<lambda>c. c = CHR '' '') p (pos + 2) = Some j" "j \<le> length p"
    by (rule scan_from [OF l, of "\<lambda>c. c = CHR '' ''"]) auto
  then show ?thesis using True l by (simp add: block_pos_def)
qed (use assms in \<open>simp add: block_pos_def\<close>)

lemma tbl_wf_block_line:
  assumes wf: "tbl_wf t" and part: "t_part t = PART_CDATA" and ss: "t_spans t = ss @ [s]" and ds: "s_dats s = ds @ [d]"
  shows "tbl_wf (t\<lparr>t_spans := ss @ [s\<lparr>s_dats := ds @ [block_line x d]\<rparr>]\<rparr>)"
proof (rule tbl_wf_spans [OF wf])
  have "span_ok (t_rows t) s" using wf by (simp add: tbl_wf_def ss)
  then have "span_ok (t_rows t) (s\<lparr>s_dats := ds @ [block_line x d]\<rparr>)"
    by (auto simp: span_ok_def Let_def ds dat_ok_def block_line_def)
  then show "\<forall>y \<in> set (ss @ [s\<lparr>s_dats := ds @ [block_line x d]\<rparr>]). span_ok (t_rows t) y"
    using wf by (auto simp: tbl_wf_def ss)
qed (simp_all add: ss)

lemma tbl_cdata_ok:
  assumes wf: "tbl_wf t" and part: "t_part t = PART_CDATA" and strs: "all_strings (butlast (t_spans t))"
    and p: "esc_line p" "pos \<le> length p"
  shows "\<exists>t' ms. tbl_cdata t ln p pos = Some (t', ms) \<and> tbl_wf t' \<and> t_part t' \<noteq> PART_OPTS"
proof -
  have ne: "t_spans t \<noteq> []" "s_dats (last (t_spans t)) \<noteq> []" using wf part by (simp_all add: tbl_wf_def)
  obtain ss s where ss: "t_spans t = ss @ [s]" using ne(1) by (metis append_butlast_last_id)
  obtain ds d where ds: "s_dats s = ds @ [d]" using ne(2) ss by (metis append_butlast_last_id last_snoc)
  have go: "\<not> (t_spans t = [] \<or> s_dats (last (t_spans t)) = [] \<or> pos > length p)" using ne p(2) by simp
  note wfd = tbl_wf_part_data [OF wf part]
  obtain j where j: "block_pos t p pos = Some j" "j \<le> length p" using block_word [OF p(2)] by blast
  have inside: "\<exists>t' ms. tbl_cdata t ln p pos = Some (t', ms) \<and> tbl_wf t' \<and> t_part t' \<noteq> PART_OPTS" if "block_end t ln p pos = Some None"
    using tbl_wf_block_line [OF wf part ss ds, of "drop j p"] that go j(1)
    by (auto simp: tbl_cdata_def Let_def ss ds part)
  show ?thesis
  proof (cases "take 2 (drop pos p) = ''T}''")
    case True
    have e: "block_end t ln p pos = (do { c \<leftarrow> rd p j;
        if c = to_tab (t_opts t) then map_option Some (getdata_all (t\<lparr>t_part := PART_DATA\<rparr>) ln p (Suc j))
        else if c = NUL then Some (Some (t\<lparr>t_part := PART_DATA\<rparr>, [])) else Some None })"
      using True j(1) by (auto simp: block_end_def block_pos_def split: if_splits)
    obtain c where c: "rd p j = Some c" using rd_le_Some [OF j(2)] by blast
    consider "c = to_tab (t_opts t)" | "c \<noteq> to_tab (t_opts t)" "c = NUL" | "c \<noteq> to_tab (t_opts t)" "c \<noteq> NUL" by blast
    then show ?thesis
    proof cases
      case 1
      then have "c \<noteq> NUL" using wf by (simp add: tbl_wf_def)
      then have "Suc j \<le> length p" using rd_lt [OF c] by simp
      moreover have "reading (t\<lparr>t_part := PART_DATA\<rparr>)" using wfd strs ne by (simp add: reading_def)
      ultimately obtain t' ms where t': "getdata_all (t\<lparr>t_part := PART_DATA\<rparr>) ln p (Suc j) = Some (t', ms)"
        "reads_on p (t\<lparr>t_part := PART_DATA\<rparr>) t'" using getdata_all_ok [OF _ p(1)] by blast
      moreover from this have "block_end t ln p pos = Some (Some (t', ms))" using e c 1 by simp
      ultimately show ?thesis using go by (auto simp: tbl_cdata_def reads_on_def reading_def)
    next
      case 2
      then have "block_end t ln p pos = Some (Some (t\<lparr>t_part := PART_DATA\<rparr>, []))" using e c by simp
      then show ?thesis using go wfd by (simp add: tbl_cdata_def)
    next
      case 3
      then show ?thesis using inside e c by simp
    qed
  next
    case False
    then show ?thesis using inside by (simp add: block_end_def)
  qed
qed

subsection \<open>Options\<close>

lemma opts_end_at:
  "opts_end active cs \<Longrightarrow> \<exists>q < length cs. cs ! q = CHR '';'' \<and>
     (\<forall>k < q. cs ! k = CHR ''('' \<longrightarrow> (\<exists>m. k < m \<and> m < q \<and> cs ! m = CHR '')'')) \<and>
     (\<not> active \<longrightarrow> (\<exists>m < q. cs ! m = CHR '')''))"
proof (induction active cs rule: opts_end.induct)
  case (2 active c cs)
  have step: "\<exists>q < length (c # cs). (c # cs) ! q = CHR '';'' \<and>
     (\<forall>k < q. (c # cs) ! k = CHR ''('' \<longrightarrow> (\<exists>m. k < m \<and> m < q \<and> (c # cs) ! m = CHR '')'')) \<and>
     (\<not> active \<longrightarrow> (\<exists>m < q. (c # cs) ! m = CHR '')''))"
    if q: "q < length cs" "cs ! q = CHR '';''"
      "\<forall>k < q. cs ! k = CHR ''('' \<longrightarrow> (\<exists>m. k < m \<and> m < q \<and> cs ! m = CHR '')'')"
      and c: "c = CHR ''('' \<or> \<not> active \<and> c \<noteq> CHR '')'' \<longrightarrow> (\<exists>m < q. cs ! m = CHR '')'')" for q
  proof (rule exI [of _ "Suc q"], intro conjI allI impI)
    show "Suc q < length (c # cs)" "(c # cs) ! Suc q = CHR '';''" using q by simp_all
    fix k assume k: "k < Suc q" "(c # cs) ! k = CHR ''(''"
    show "\<exists>m. k < m \<and> m < Suc q \<and> (c # cs) ! m = CHR '')''"
    proof (cases k)
      case 0
      then obtain m where "m < q" "cs ! m = CHR '')''" using k(2) c by auto
      then show ?thesis using 0 by (intro exI [of _ "Suc m"]) simp
    next
      case (Suc j)
      then obtain m where "j < m" "m < q" "cs ! m = CHR '')''" using k q(3) by auto
      then show ?thesis using Suc by (intro exI [of _ "Suc m"]) simp
    qed
  next
    assume "\<not> active"
    show "\<exists>m < Suc q. (c # cs) ! m = CHR '')''"
    proof (cases "c = CHR '')''")
      case False
      then obtain m where "m < q" "cs ! m = CHR '')''" using c \<open>\<not> active\<close> by auto
      then show ?thesis by (intro exI [of _ "Suc m"]) simp
    qed (intro exI [of _ 0], simp)
  qed
  show ?case
  proof (cases "c = CHR '';'' \<and> active")
    case False
    then show ?thesis using 2 step by (auto split: if_splits)
  qed (intro exI [of _ 0], simp)
qed simp

lemma opts_end_line:
  assumes "opts_end True (drop pos p)"
  shows "\<exists>q. option_line p q pos"
proof -
  obtain q where q: "q < length (drop pos p)" "drop pos p ! q = CHR '';''"
    "\<forall>k < q. drop pos p ! k = CHR ''('' \<longrightarrow> (\<exists>m. k < m \<and> m < q \<and> drop pos p ! m = CHR '')'')"
    using opts_end_at [OF assms] by blast
  have "\<exists>m. k < m \<and> m < pos + q \<and> p ! m = CHR '')''" if k: "pos \<le> k" "k < pos + q" "p ! k = CHR ''(''" for k
  proof -
    obtain m where "k - pos < m" "m < q" "drop pos p ! m = CHR '')''"
      using q(1,3) k by (auto dest!: spec [of _ "k - pos"])
    then show ?thesis using k q(1) by (intro exI [of _ "pos + m"]) auto
  qed
  then have "option_line p (pos + q) pos" using q(1,2) by (auto simp: option_line_def)
  then show ?thesis by blast
qed

text \<open>Options change nothing but the options.\<close>

definition sets_opts :: "tbl_node \<Rightarrow> tbl_node \<Rightarrow> bool" where
  "sets_opts t t' \<longleftrightarrow> (\<exists>os tab dec. t' = t\<lparr>t_opts := (t_opts t)\<lparr>to_opts := os, to_tab := tab, to_decimal := dec\<rparr>\<rparr> \<and>
     (to_tab (t_opts t) \<noteq> NUL \<longrightarrow> tab \<noteq> NUL))"

lemma sets_optsI:
  "t' = t\<lparr>t_opts := (t_opts t)\<lparr>to_opts := os, to_tab := tab, to_decimal := dec\<rparr>\<rparr> \<Longrightarrow>
    (to_tab (t_opts t) \<noteq> NUL \<Longrightarrow> tab \<noteq> NUL) \<Longrightarrow> sets_opts t t'"
  unfolding sets_opts_def by blast

lemma sets_opts_refl: "sets_opts t t"
  by (rule sets_optsI [where os = "to_opts (t_opts t)" and tab = "to_tab (t_opts t)" and dec = "to_decimal (t_opts t)"]) simp_all

lemma sets_opts_trans:
  assumes "sets_opts t t'" "sets_opts t' t''"
  shows "sets_opts t t''"
proof -
  obtain os tab dec where t': "t' = t\<lparr>t_opts := (t_opts t)\<lparr>to_opts := os, to_tab := tab, to_decimal := dec\<rparr>\<rparr>"
    "to_tab (t_opts t) \<noteq> NUL \<longrightarrow> tab \<noteq> NUL" using assms(1) unfolding sets_opts_def by blast
  obtain os2 tab2 dec2 where t'': "t'' = t'\<lparr>t_opts := (t_opts t')\<lparr>to_opts := os2, to_tab := tab2, to_decimal := dec2\<rparr>\<rparr>"
    "to_tab (t_opts t') \<noteq> NUL \<longrightarrow> tab2 \<noteq> NUL" using assms(2) unfolding sets_opts_def by blast
  show ?thesis by (rule sets_optsI [where os = os2 and tab = tab2 and dec = dec2]) (use t' t'' in auto)
qed

lemma sets_opts_flags: "sets_opts t (add_opts os t)"
  unfolding add_opts_def
  by (rule sets_optsI [where os = "to_opts (t_opts t) \<union> os" and tab = "to_tab (t_opts t)" and dec = "to_decimal (t_opts t)"]) simp_all

lemma sets_opts_tab: "c \<noteq> NUL \<Longrightarrow> sets_opts t (set_tab c t)"
  unfolding set_tab_def
  by (rule sets_optsI [where os = "to_opts (t_opts t)" and tab = c and dec = "to_decimal (t_opts t)"]) simp_all

lemma sets_opts_decimal: "sets_opts t (set_decimal c t)"
  unfolding set_decimal_def
  by (rule sets_optsI [where os = "to_opts (t_opts t)" and tab = "to_tab (t_opts t)" and dec = c]) simp_all

lemma tbl_wf_sets_opts: "tbl_wf t \<Longrightarrow> sets_opts t t' \<Longrightarrow> tbl_wf t' \<and> t_part t' = t_part t \<and> t_spans t' = t_spans t"
  by (auto simp: sets_opts_def tbl_wf_def)

lemma opt_arg_sets:
  assumes "opt_arg name key t ln p pos = Some (t', j, ms)" "cstring p"
  shows "sets_opts t t'"
proof -
  have nn: "x \<noteq> NUL" if "paren_end p k = Some e" "e - k = 1" "rd p k = Some x" for e k x
    using that assms(2) by (auto simp: paren_end_def Let_def rd_def cstring_def in_set_conv_nth split: if_splits)
  show ?thesis
    using assms(1) nn unfolding opt_arg_def Let_def
    by (auto split: if_splits bind_splits intro: sets_opts_tab sets_opts_decimal sets_opts_refl)
qed

lemma option_loop_sets:
  "option_loop n t ln p pos ms = Some (t', j, ms') \<Longrightarrow> cstring p \<Longrightarrow> sets_opts t t'"
proof (induction n arbitrary: t pos ms)
  case (Suc n)
  show ?case
    using Suc.prems(1)
    by (auto simp: Let_def sets_opts_refl split: if_splits bind_splits option.splits tbl_key.splits
        dest!: opt_arg_sets [OF _ Suc.prems(2)] Suc.IH [OF _ Suc.prems(2)]
        intro: sets_opts_trans [OF sets_opts_flags] sets_opts_trans)
qed simp

subsection \<open>One line\<close>

text \<open>What is asked of a line depends on the part of the table it is in.\<close>

definition line_fits :: "tbl_node \<Rightarrow> string \<Rightarrow> bool" where
  "line_fits t p \<longleftrightarrow> cstring p \<and> (t_part t \<in> {PART_OPTS, PART_LAYOUT} \<longrightarrow> no_expr p) \<and>
     (t_part t \<in> {PART_DATA, PART_CDATA} \<longrightarrow> esc_line p) \<and> (t_part t = PART_DATA \<longrightarrow> p \<noteq> [])"

definition strings_ok :: "tbl_node \<Rightarrow> bool" where
  "strings_ok t \<longleftrightarrow> all_strings (if t_part t = PART_CDATA then butlast (t_spans t) else t_spans t)"

lemma tbl_section_ok:
  assumes wf: "tbl_wf t" and part: "t_part t \<noteq> PART_OPTS" and l: "line_fits t p" "strings_ok t" "pos \<le> length p"
  shows "\<exists>t' ms. tbl_section t ln p pos = Some (t', ms) \<and> tbl_wf t' \<and> t_part t' \<noteq> PART_OPTS \<and> keeps_strings p t t'"
proof (cases "t_part t")
  case PART_LAYOUT
  then obtain t' ms where "tbl_layout t ln p pos = Some (t', ms)" "tbl_wf t'" "t_spans t' = t_spans t"
    "t_part t' \<in> {PART_LAYOUT, PART_DATA}"
    using tbl_layout_ok [OF wf, of pos p ln] l by (auto simp: line_fits_def)
  then show ?thesis using PART_LAYOUT by (auto simp: tbl_section_def keeps_strings_def)
next
  case PART_CDATA
  then obtain t' ms where "tbl_cdata t ln p pos = Some (t', ms)" "tbl_wf t'" "t_part t' \<noteq> PART_OPTS"
    using tbl_cdata_ok [OF wf, of p pos ln] l by (auto simp: line_fits_def strings_ok_def)
  then show ?thesis using PART_CDATA by (simp add: tbl_section_def keeps_strings_def)
next
  case PART_DATA
  then obtain t' ms where "tbl_data t ln p pos = Some (t', ms)" "tbl_wf t'" "keeps_strings p t t'" "t_part t' \<noteq> PART_OPTS"
    using tbl_data_ok [OF wf, of p pos ln] l by (auto simp: line_fits_def strings_ok_def)
  then show ?thesis using PART_DATA by (simp add: tbl_section_def)
qed (use part in simp)

lemma tbl_read_ok:
  assumes wf: "tbl_wf t" and l: "line_fits t p" "strings_ok t" "pos \<le> length p"
  shows "\<exists>t' ms. tbl_read t ln p pos = Some (t', ms) \<and> tbl_wf t' \<and> t_part t' \<noteq> PART_OPTS \<and> keeps_strings p t t'"
proof (cases "t_part t = PART_OPTS")
  case True
  let ?t = "t\<lparr>t_part := PART_LAYOUT\<rparr>"
  have wf1: "tbl_wf ?t" using wf by (simp add: tbl_wf_def)
  have sec: "\<exists>t'' ms. tbl_section t' ln p j = Some (t'', ms) \<and> tbl_wf t'' \<and> t_part t'' \<noteq> PART_OPTS \<and> keeps_strings p t t''"
    if t': "tbl_wf t'" "t_part t' = PART_LAYOUT" "t_spans t' = t_spans t" and j: "j \<le> length p" for t' j
    using tbl_section_ok [OF t'(1) _ _ _ j, of ln] True t' l by (auto simp: line_fits_def strings_ok_def keeps_strings_def)
  show ?thesis
  proof (cases "opts_end True (drop pos p)")
    case e: True
    obtain q where q: "option_line p q pos" using opts_end_line [OF e] by blast
    have "q - pos < Suc (Suc (length p))" using q by (auto simp: option_line_def)
    then obtain t' j ms where o: "tbl_option ?t ln p pos = Some (t', Suc j, ms)" "j \<le> q"
      using option_loop_within [OF q] unfolding tbl_option_def by blast
    have "sets_opts ?t t'" using o(1) option_loop_sets l(1) unfolding tbl_option_def line_fits_def by blast
    from tbl_wf_sets_opts [OF wf1 this] have t': "tbl_wf t'" "t_part t' = PART_LAYOUT" "t_spans t' = t_spans t" by simp_all
    have j: "Suc j \<le> length p" using o(2) q by (auto simp: option_line_def)
    obtain c where c: "rd p (Suc j) = Some c" using rd_le_Some [OF j] by blast
    show ?thesis
    proof (cases "c = NUL")
      case nul: True
      then show ?thesis using True e o(1) c t' l(2) by (simp add: tbl_read_def strings_ok_def keeps_strings_def)
    next
      case False
      then show ?thesis using True e o(1) c sec [OF t' j] by (auto simp: tbl_read_def)
    qed
  next
    case False
    then show ?thesis using True sec [OF wf1 _ _ l(3)] by (simp add: tbl_read_def)
  qed
qed (use tbl_section_ok [OF wf _ l] in \<open>simp add: tbl_read_def\<close>)

end
