(* ===== verification/Tbl_Fields.thy ===== *)
theory Tbl_Fields
  imports Tbl_Read
begin

section \<open>A line of data is its fields\<close>

text \<open>
  The reference: a line without escape sequences and text blocks is split at the tab character,
  and its fields are given to the layout cells of the row that are not spanners, in order.
\<close>

function data_fields :: "char \<Rightarrow> string \<Rightarrow> string list" where
  "data_fields tb [] = []"
| "data_fields tb (c # cs) = takeWhile (\<lambda>x. x \<noteq> tb) (c # cs) # data_fields tb (drop 1 (dropWhile (\<lambda>x. x \<noteq> tb) (c # cs)))"
  by pat_completeness auto
termination
proof (relation "measure (\<lambda>(tb, s). length s)")
  fix tb :: char and c cs
  have "length (dropWhile (\<lambda>x. x \<noteq> tb) cs) \<le> length cs" by (rule length_dropWhile_le)
  then show "((tb, drop 1 (dropWhile (\<lambda>x. x \<noteq> tb) (c # cs))), (tb, c # cs)) \<in> measure (\<lambda>(tb, s). length s)"
    by auto
qed simp

definition trim :: "bool \<Rightarrow> string \<Rightarrow> string" where
  "trim strip f = (if strip then rev (dropWhile (\<lambda>c. c = CHR '' '') (rev (dropWhile (\<lambda>c. c = CHR '' '') f))) else f)"

definition field_dats :: "bool \<Rightarrow> tbl_cell list \<Rightarrow> nat list \<Rightarrow> string list \<Rightarrow> tbl_dat list" where
  "field_dats strip cells cols fs =
     map (\<lambda>(col, f). (fresh_dat cells col)\<lparr>d_string := Some (trim strip f), d_pos := data_pos (trim strip f)\<rparr>) (zip cols fs)"

lemma data_end_plain:
  assumes "cstring p" "BSLASH \<notin> set p" "pos \<le> length p" "length p - pos < n"
  shows "data_end n tb p pos = Some (pos + length (takeWhile (\<lambda>x. x \<noteq> tb) (drop pos p)))"
  using assms(3,4)
proof (induction n arbitrary: pos)
  case (Suc n)
  show ?case
  proof (cases "pos < length p")
    case True
    then have d: "drop pos p = p ! pos # drop (Suc pos) p" by (simp add: Cons_nth_drop_Suc)
    have r: "rd p pos = Some (p ! pos)" using True by (simp add: rd_in)
    have "p ! pos \<in> set p" using True by simp
    then have "p ! pos \<noteq> NUL" "p ! pos \<noteq> BSLASH" using assms(1,2) by (auto simp: cstring_def)
    then show ?thesis
      using Suc.IH [of "Suc pos"] Suc.prems True r by (simp add: d)
  next
    case False
    then show ?thesis using Suc.prems(1) by (simp add: rd_def)
  qed
qed simp

lemma strip_ends_trim:
  assumes f: "f = takeWhile (\<lambda>x. x \<noteq> tb) (drop pos p)" and pos: "pos \<le> length p" and tb: "b \<longrightarrow> tb \<noteq> CHR '' ''"
    and ij: "strip_ends b p pos (pos + length f) = (i, j)"
  shows "i \<le> j \<and> take (j - i) (drop i p) = trim b f"
proof -
  obtain rest where d: "drop pos p = f @ rest" and rest: "rest = dropWhile (\<lambda>x. x \<noteq> tb) (drop pos p)" using f by (metis takeWhile_dropWhile_id)
  show ?thesis
proof (cases b)
  case True
  let ?sp = "\<lambda>c. c = CHR '' ''"
  have i: "i = pos + length (takeWhile ?sp (drop pos p))"
    and j: "j = pos + length f - length (takeWhile ?sp (rev (drop i (take (pos + length f) p))))"
    using ij True by (auto simp: strip_ends_def Let_def)
  show ?thesis
  proof (cases "takeWhile ?sp (drop pos p) = takeWhile ?sp f")
    case same: True
    have le: "length (takeWhile ?sp f) \<le> length f" by (rule length_takeWhile_le)
    have "take (pos + length f) p = take pos p @ f"
      by (metis d append_eq_conv_conj take_add)
    then have di: "drop i (take (pos + length f) p) = dropWhile ?sp f"
      using pos by (simp add: i same dropWhile_eq_drop)
    have jl: "j = i + length (dropWhile ?sp (rev (dropWhile ?sp f)))"
    proof -
      have a: "length (takeWhile ?sp f) + length (dropWhile ?sp f) = length f"
        by (metis length_append takeWhile_dropWhile_id)
      have "length (takeWhile ?sp (rev (dropWhile ?sp f))) + length (dropWhile ?sp (rev (dropWhile ?sp f))) = length (dropWhile ?sp f)"
        by (metis length_append length_rev takeWhile_dropWhile_id)
      moreover have "j = pos + length f - length (takeWhile ?sp (rev (dropWhile ?sp f)))" using j di by simp
      moreover have "i = pos + length (takeWhile ?sp f)" using i same by simp
      ultimately show ?thesis using a by linarith
    qed
    have dd: "drop i p = dropWhile ?sp f @ rest"
    proof -
      have "drop i p = drop (length (takeWhile ?sp f)) (drop pos p)" by (simp add: i same add.commute)
      also have "\<dots> = dropWhile ?sp f @ rest" using le by (simp add: d dropWhile_eq_drop)
      finally show ?thesis .
    qed
    let ?g = "dropWhile ?sp f" and ?k = "dropWhile ?sp (rev (dropWhile ?sp f))"
    have "rev ?g = takeWhile ?sp (rev ?g) @ ?k" by simp
    then have "?g = rev ?k @ rev (takeWhile ?sp (rev ?g))" by (metis rev_append rev_rev_ident)
    then have "take (length ?k) ?g = rev ?k" by (metis append_eq_conv_conj length_rev)
    moreover have "length ?k \<le> length ?g" by (metis length_dropWhile_le length_rev)
    ultimately show ?thesis using True by (simp add: jl dd trim_def)
  next
    case diff: False
    have all: "\<forall>c \<in> set f. c = CHR '' ''"
    proof (rule ccontr)
      assume "\<not> (\<forall>c \<in> set f. c = CHR '' '')"
      then have "takeWhile ?sp (f @ rest) = takeWhile ?sp f" by (auto intro: takeWhile_append1)
      then show False using diff d by simp
    qed
    have t: "takeWhile ?sp (drop pos p) = f @ takeWhile ?sp rest"
      unfolding d by (rule takeWhile_append2) (use all in blast)
    have "takeWhile ?sp rest = []" using rest tb True by (metis (mono_tags, lifting) hd_dropWhile takeWhile_eq_Nil_iff)
    then have "i = pos + length f" using i t by simp
    moreover from this have "j = i" using j by simp
    moreover have "trim b f = []" using all True by (simp add: trim_def dropWhile_eq_Nil_conv [THEN iffD2])
    ultimately show ?thesis by simp
  qed
qed (use ij d in \<open>auto simp: strip_ends_def trim_def\<close>)
qed


text \<open>The fields of the rest of the line go to the columns that are left.\<close>

definition with_dats :: "tbl_node \<Rightarrow> tbl_span list \<Rightarrow> tbl_span \<Rightarrow> tbl_dat list \<Rightarrow> tbl_node" where
  "with_dats t ss s ds = t\<lparr>t_spans := ss @ [s\<lparr>s_dats := ds\<rparr>]\<rparr>"

lemma with_dats_keeps [simp]:
  "row_cells (with_dats t ss s ds) (s\<lparr>s_dats := ds\<rparr>) = row_cells t s" "t_opts (with_dats t ss s ds) = t_opts t"
  "t_spans (with_dats t ss s ds) = ss @ [s\<lparr>s_dats := ds\<rparr>]"
  by (simp_all add: with_dats_def row_cells_def)

lemma fields_Cons:
  assumes "pos < length p"
  shows "data_fields tb (drop pos p) = takeWhile (\<lambda>x. x \<noteq> tb) (drop pos p) #
    data_fields tb (drop (Suc (pos + length (takeWhile (\<lambda>x. x \<noteq> tb) (drop pos p)))) p)"
proof -
  obtain c cs where d: "drop pos p = c # cs" using assms by (cases "drop pos p") auto
  have "drop 1 (dropWhile (\<lambda>x. x \<noteq> tb) (drop pos p)) =
      drop (Suc (pos + length (takeWhile (\<lambda>x. x \<noteq> tb) (drop pos p)))) p"
    by (simp add: dropWhile_eq_drop add.commute)
  then show ?thesis using data_fields.simps(2) [of tb c cs] by (simp only: d)
qed

lemma trim_plain:
  assumes "take 2 (drop i p) \<noteq> ''T{''" "BSLASH \<notin> set p"
  shows "take n (drop i p) \<noteq> ''T{''" "take n (drop i p) \<noteq> BSLASH # x"
proof -
  show "take n (drop i p) \<noteq> ''T{''"
  proof
    assume t: "take n (drop i p) = ''T{''"
    then have "length (take n (drop i p)) = 2" by simp
    then have "2 \<le> n" by simp
    then have "take 2 (drop i p) = take 2 (take n (drop i p))" by simp
    then show False using assms(1) t by simp
  qed
  show "take n (drop i p) \<noteq> BSLASH # x"
  proof
    assume t: "take n (drop i p) = BSLASH # x"
    have "BSLASH \<in> set (take n (drop i p))" unfolding t by simp
    then show False using assms(2) by (meson in_set_dropD in_set_takeD)
  qed
qed

lemma getdata_field:
  assumes p: "cstring p" "BSLASH \<notin> set p" "no_block p" "pos < length p"
    and cols: "map d_col ds = take (length ds) (data_cols (row_cells t s))" "length ds < length (data_cols (row_cells t s))"
    and nd: "\<forall>c \<in> set (row_cells t s). c_pos c \<noteq> CELL_DOWN"
    and f: "f = takeWhile (\<lambda>x. x \<noteq> to_tab (t_opts t)) (drop pos p)"
    and tb: "OPT_NOSPACE \<in> to_opts (t_opts t) \<longrightarrow> to_tab (t_opts t) \<noteq> CHR '' ''"
  shows "\<exists>ms j. getdata (with_dats t ss s ds) ln p pos =
      Some (with_dats t ss s (ds @ field_dats (OPT_NOSPACE \<in> to_opts (t_opts t)) (row_cells t s)
        [data_cols (row_cells t s) ! length ds] [f]), j, ms) \<and>
    j = min (length p) (Suc (pos + length f))"
proof -
  let ?t = "with_dats t ss s ds" and ?s = "s\<lparr>s_dats := ds\<rparr>" and ?cells = "row_cells t s"
  let ?strip = "OPT_NOSPACE \<in> to_opts (t_opts t)"
  have nc: "next_col ?t ?s < length ?cells" "next_col ?t ?s = data_cols ?cells ! length ds"
    using next_col_data [of ?s ?t] cols by (auto split: if_splits)
  have e: "data_end (Suc (length p)) (to_tab (t_opts ?t)) p pos = Some (pos + length f)"
    using data_end_plain [OF p(1,2), of pos "Suc (length p)"] p(4) f by simp
  have le: "pos + length f \<le> length p"
    using length_takeWhile_le [of "\<lambda>x. x \<noteq> to_tab (t_opts t)" "drop pos p"] p(4) unfolding f by simp
  have plain: "take n (drop i p) \<noteq> ''T{''" "take n (drop i p) \<noteq> BSLASH # x" for n i x
    using trim_plain [of i p] p(2,3) by (auto simp: no_block_def)
  have "?cells ! next_col ?t ?s \<in> set ?cells" using nc(1) by simp
  then have nd': "c_pos (?cells ! next_col ?t ?s) \<noteq> CELL_DOWN" using nd by blast
  have g: "getdata ?t ln p pos = fill_dat ln p pos (pos + length f) (fresh_dat ?cells (next_col ?t ?s))
      (c_pos (?cells ! next_col ?t ?s)) (?t\<lparr>t_spans := ss @ [?s]\<rparr>)"
    by (subst getdata_fill [OF e _ _ refl refl, of ss ?s ss]) (use nc(1) nd' plain in simp_all)
  have t_eq: "?t\<lparr>t_spans := ss @ [?s]\<rparr> = ?t" by (simp add: with_dats_def)
  obtain i j where ij: "strip_ends ?strip p pos (pos + length f) = (i, j)" by fastforce
  have "i \<le> j" and str': "take (j - i) (drop i p) = trim ?strip f"
    using strip_ends_trim [OF f _ tb ij] p(4) by simp_all
  then have str: "dat_string p i j = trim ?strip f" by (simp add: dat_string_def)
  obtain c where c: "rd p (pos + length f) = Some c" using rd_le_Some [OF le] by blast
  have j: "(if c \<noteq> NUL then Suc (pos + length f) else pos + length f) = min (length p) (Suc (pos + length f))"
  proof (cases "pos + length f < length p")
    case True
    then have "c \<in> set p" using c by (simp add: rd_in) (metis nth_mem)
    then show ?thesis using p(1) True by (auto simp: cstring_def)
  next
    case False
    then show ?thesis using le c by (simp add: rd_def)
  qed
  have "trim ?strip f \<noteq> ''T{''" using plain(1) [of "j - i" i] unfolding str' by simp
  then show ?thesis
    using g ij str c j nc(2)
    unfolding t_eq by (simp add: fill_dat_def Let_def add_dat_def field_dats_def with_dats_def)
qed

lemma getdata_loop_fields:
  assumes p: "cstring p" "BSLASH \<notin> set p" "no_block p" and nd: "\<forall>c \<in> set (row_cells t s). c_pos c \<noteq> CELL_DOWN"
    and rows: "cells_ok (row_cells t s)" "row_cells t s \<noteq> []"
    and cols: "map d_col ds = take (length ds) (data_cols (row_cells t s))"
      "to_cols (t_opts t) \<le> length (row_cells t s) \<or>
        length ds + length (data_fields (to_tab (t_opts t)) (drop pos p)) \<le> length (data_cols (row_cells t s))"
    and tb: "OPT_NOSPACE \<in> to_opts (t_opts t) \<longrightarrow> to_tab (t_opts t) \<noteq> CHR '' ''"
    and n: "pos \<le> length p" "length p - pos < n"
  shows "\<exists>ms'. getdata_loop n (with_dats t ss s ds) ln p pos ms =
    Some (with_dats t ss s (ds @ field_dats (OPT_NOSPACE \<in> to_opts (t_opts t)) (row_cells t s)
      (drop (length ds) (data_cols (row_cells t s))) (data_fields (to_tab (t_opts t)) (drop pos p))), ms')"
  using cols n
proof (induction n arbitrary: ds pos ms)
  case (Suc n)
  let ?cells = "row_cells t s" and ?tb = "to_tab (t_opts t)" and ?strip = "OPT_NOSPACE \<in> to_opts (t_opts t)"
  let ?t = "with_dats t ss s ds" and ?s = "s\<lparr>s_dats := ds\<rparr>"
  obtain c where c: "rd p pos = Some c" using rd_le_Some [OF Suc.prems(3)] by blast
  show ?case
  proof (cases "pos < length p")
    case False
    then show ?thesis using c Suc.prems(3) by (simp add: rd_def field_dats_def)
  next
    case True
    have "c \<in> set p" using True c by (simp add: rd_in) (metis nth_mem)
    then have cn: "c \<noteq> NUL" using p(1) by (auto simp: cstring_def)
    let ?f = "takeWhile (\<lambda>x. x \<noteq> ?tb) (drop pos p)"
    let ?j = "min (length p) (Suc (pos + length ?f))"
    have fs: "data_fields ?tb (drop pos p) = ?f # data_fields ?tb (drop ?j p)"
      using fields_Cons [OF True, of ?tb] by (cases "Suc (pos + length ?f) \<le> length p") (simp_all add: min_def)
    have dl: "length ds \<le> length (data_cols ?cells)" using arg_cong [OF Suc.prems(1), of length] by simp
    show ?thesis
    proof (cases "length ds < length (data_cols ?cells)")
      case lt: True
      let ?d = "field_dats ?strip ?cells [data_cols ?cells ! length ds] [?f]"
      obtain ms2 where g: "getdata ?t ln p pos = Some (with_dats t ss s (ds @ ?d), ?j, ms2)"
        using getdata_field [OF p True Suc.prems(1) lt nd refl tb] by blast
      have d1: "length ?d = 1" "map d_col ?d = [data_cols ?cells ! length ds]" by (simp_all add: field_dats_def fresh_dat_def)
      have "map d_col (ds @ ?d) = take (length (ds @ ?d)) (data_cols ?cells)"
        using Suc.prems(1) lt d1 by (simp add: take_Suc_conv_app_nth)
      moreover have "to_cols (t_opts t) \<le> length ?cells \<or>
          length (ds @ ?d) + length (data_fields ?tb (drop ?j p)) \<le> length (data_cols ?cells)"
        using Suc.prems(2) d1(1) unfolding fs by simp
      moreover have "length p - ?j < n" using Suc.prems(4) True by linarith
      ultimately obtain ms3 where l: "getdata_loop n (with_dats t ss s (ds @ ?d)) ln p ?j (ms @ ms2) =
        Some (with_dats t ss s ((ds @ ?d) @ field_dats ?strip ?cells
          (drop (length (ds @ ?d)) (data_cols ?cells)) (data_fields ?tb (drop ?j p))), ms3)"
        using Suc.IH [of "ds @ ?d" ?j "ms @ ms2"] by auto
      have "drop (length ds) (data_cols ?cells) = data_cols ?cells ! length ds # drop (Suc (length ds)) (data_cols ?cells)"
        using lt by (simp add: Cons_nth_drop_Suc)
      then have "?d @ field_dats ?strip ?cells (drop (length (ds @ ?d)) (data_cols ?cells)) (data_fields ?tb (drop ?j p)) =
          field_dats ?strip ?cells (drop (length ds) (data_cols ?cells)) (data_fields ?tb (drop pos p))"
        unfolding fs using d1(1) by (simp add: field_dats_def)
      then show ?thesis using c cn g l by simp
    next
      case full: False
      then have to: "to_cols (t_opts t) \<le> length ?cells" using Suc.prems(2) unfolding fs by simp
      have "next_col ?t ?s = length ?cells"
        using next_col_data [of ?s ?t] Suc.prems(1) full by (auto split: if_splits)
      moreover have "\<not> Suc (c_col (last ?cells)) < to_cols (t_opts t)"
      proof -
        have "c_col (last ?cells) = length ?cells - 1" using rows by (simp add: cells_ok_def last_conv_nth)
        then show ?thesis using to rows(2) by (cases ?cells) auto
      qed
      moreover have "data_end (Suc (length p)) ?tb p pos = Some (pos + length ?f)"
        using data_end_plain [OF p(1,2), of pos "Suc (length p)"] True by simp
      ultimately have g: "getdata ?t ln p pos = Some (?t, length p, [(MANDOCERR_TBLDATA_EXTRA, ln, pos, drop pos p)])"
        by (simp add: getdata_def Let_def del: data_end.simps)
      have "0 < n" using Suc.prems(4) True by linarith
      then obtain m where "n = Suc m" by (cases n) auto
      then show ?thesis using c cn g full dl by (simp add: rd_def field_dats_def)
    qed
  qed
qed simp

end
