(* ===== verification/Tbl_Correct.thy ===== *)
theory Tbl_Correct
  imports Tbl_Fields
begin

section \<open>Properties of the tbl parser\<close>

text \<open>
  The theorems about whole lines and whole tables, with sample tables, and two behaviours at the
  edges: text blocks that start before the end of a line, and negative column widths.
\<close>

subsection \<open>Sample lines\<close>

lemma no_expr_Cons: "no_expr (a # b # s) \<longleftrightarrow> \<not> (tolower a = CHR ''w'' \<and> b = CHR ''('') \<and> no_expr (b # s)"
  by (auto simp: no_expr_def nth_Cons split: nat.splits)

lemma no_expr_short [simp]: "no_expr []" "no_expr [a]"
  by (simp_all add: no_expr_def)

lemma esc_line_plain: "cstring p \<Longrightarrow> BSLASH \<notin> set p \<Longrightarrow> esc_line p"
proof -
  assume a: "cstring p" "BSLASH \<notin> set p"
  have "\<not> trailing_esc BSLASH p"
  proof
    assume "trailing_esc BSLASH p"
    then obtain xs where "dropWhile (\<lambda>x. x = CHR ''E'') (rev p) = BSLASH # xs"
      by (auto simp: trailing_esc_def split: list.splits)
    then have "BSLASH \<in> set (dropWhile (\<lambda>x. x = CHR ''E'') (rev p))" by simp
    then show False using a(2) set_dropWhileD by fastforce
  qed
  moreover have "p ! i \<noteq> BSLASH" if "i < length p" for i using a(2) nth_mem [OF that] by metis
  ultimately show ?thesis using a(1) by (simp add: esc_line_def)
qed

lemma no_block_Cons: "no_block (a # s) \<longleftrightarrow> \<not> (a = CHR ''T'' \<and> take 1 s = ''{'') \<and> no_block s"
proof
  assume l: "no_block (a # s)"
  have "take 2 (drop i s) \<noteq> ''T{''" for i using l [unfolded no_block_def, rule_format, of "Suc i"] by simp
  moreover have "\<not> (a = CHR ''T'' \<and> take 1 s = ''{'')"
    using l [unfolded no_block_def, rule_format, of 0] by (cases s) auto
  ultimately show "\<not> (a = CHR ''T'' \<and> take 1 s = ''{'') \<and> no_block s" by (simp add: no_block_def)
next
  assume r: "\<not> (a = CHR ''T'' \<and> take 1 s = ''{'') \<and> no_block s"
  have "take 2 (drop i (a # s)) \<noteq> ''T{''" for i
    using r by (cases i; cases s) (auto simp: no_block_def)
  then show "no_block (a # s)" by (simp add: no_block_def)
qed

lemma no_block_Nil [simp]: "no_block []"
  by (simp add: no_block_def)


lemma data_end_caret: "tb \<noteq> BSLASH \<Longrightarrow> data_end 3 tb (BSLASH # ''^'') 0 = Some 2"
proof -
  have e: "map_option (\<lambda>(_, _, _, e). e) (mandoc_escape (BSLASH # ''^'')) = Some 2" by code_simp
  then obtain r a n where "mandoc_escape (BSLASH # ''^'') = Some (r, a, n, 2)" by (auto split: prod.splits)
  then show ?thesis if "tb \<noteq> BSLASH" using that by (simp add: eval_nat_numeral rd_def)
qed

lemma tbl_lines_ok:
  "tbl_wf t \<Longrightarrow> t_part t \<noteq> PART_CDATA \<Longrightarrow> all_strings (t_spans t) \<Longrightarrow> \<forall>p \<in> set ps. p \<noteq> [] \<and> esc_line p \<and> no_expr p \<and> no_block p \<Longrightarrow>
    \<exists>t'. tbl_lines t ln ps = Some t' \<and> tbl_wf t' \<and> all_strings (t_spans t')"
proof (induction ps arbitrary: t ln)
  case (Cons p ps)
  have "line_fits t p" "strings_ok t" using Cons.prems by (auto simp: line_fits_def strings_ok_def esc_line_def)
  then obtain t' ms where t': "tbl_read t ln p 0 = Some (t', ms)" "tbl_wf t'" "keeps_strings p t t'"
    using tbl_read_ok [OF Cons.prems(1), of p 0 ln] by auto
  then have "t_part t' \<noteq> PART_CDATA" "all_strings (t_spans t')" using Cons.prems by (auto simp: keeps_strings_def)
  then show ?case using Cons.IH [OF t'(2), of "Suc ln"] Cons.prems t'(1) by simp
qed simp

subsection \<open>Properties\<close>



text \<open>
  C11: a table of non-empty lines without text blocks and width expressions, with complete escape
  sequences, is parsed to its end from any state of the counters: no line fails, the result is well-formed and
  every data cell has its string.\<close>

theorem tbl_lines_complete:
  assumes "\<forall>p \<in> set ps. p \<noteq> [] \<and> esc_line p \<and> no_expr p \<and> no_block p"
  shows "\<exists>t. tbl_lines (tbl_alloc pos line) ln ps = Some t \<and> tbl_wf t \<and>
    (\<forall>s \<in> set (t_spans t). \<forall>d \<in> set (s_dats s). d_string d \<noteq> None)"
  using tbl_lines_ok [OF tbl_wf_alloc _ _ assms, of pos line ln] by (auto simp: tbl_alloc_def all_strings_def)

theorem tbl_lines_complete_witness:
  "\<exists>t. tbl_lines (tbl_alloc 0 1) 2 [''tab(:);'', ''l r.'', ''a:1'', ''_'', ''b:22:x''] = Some t \<and> tbl_wf t \<and>
    (\<forall>s \<in> set (t_spans t). \<forall>d \<in> set (s_dats s). d_string d \<noteq> None)"
  by (rule tbl_lines_complete) (simp add: esc_line_plain cstring_def no_expr_Cons no_block_Cons ctype_defs)



text \<open>
  C37: after a text block that ended at once, the cell has no string, and a vertical span
  below it makes the parser compare a NULL pointer with \<open>strcmp\<close>.\<close>

theorem tbl_read_no_string:
  assumes wf: "tbl_wf t" and part: "t_part t = PART_DATA" and tb: "to_tab (t_opts t) \<noteq> BSLASH"
    and row: "\<not> only_lines (t_rows t ! data_row t)" "c_pos (hd (r_cells (t_rows t ! data_row t))) \<noteq> CELL_SPAN"
    and d: "t_spans t \<noteq> []" "s_dats (last (t_spans t)) = d # ds" "d_col d = 0" "d_string d = None"
      "c_pos (layout_of t (last (t_spans t)) d) \<noteq> CELL_DOWN"
  shows "tbl_read t ln (BSLASH # ''^'') 0 = None"
proof -
  let ?i = "data_row t" and ?p = "BSLASH # ''^''"
  let ?t = "newspan ln ?i SPAN_DATA t" and ?s = "\<lparr>s_layout = data_row t, s_dats = [], s_line = ln, s_pos = SPAN_DATA\<rparr>"
  have rows: "t_rows t \<noteq> []" using wf part by (simp add: tbl_wf_def)
  have ne: "r_cells (t_rows t ! ?i) \<noteq> []" using wf_row_cells [OF wf _ data_row_less [OF wf rows]] part by simp
  have skip: "skip_lines ln ?i t = (t, ?i)" using row(1) by (subst skip_lines.simps) simp
  have cells: "row_cells ?t ?s = r_cells (t_rows t ! ?i)" by (simp add: row_cells_def)
  have col: "next_col ?t ?s = 0"
    using row(2) ne by (cases "r_cells (t_rows t ! ?i)") (simp_all add: next_col_def row_cells_def)
  obtain ss where ss: "t_spans t = ss @ [last (t_spans t)]" using d(1) by (metis append_butlast_last_id)
  have c0: "c_col (r_cells (t_rows t ! ?i) ! 0) = 0"
    using tbl_wf_rows(2) [OF wf data_row_less [OF wf rows]] ne by (auto simp: cells_ok_def)
  have lo: "layout_of ?t x y = layout_of t x y" for x y by (simp add: layout_of_def row_cells_def)
  have v: "add_vspan ?t 0 (rev (t_spans t)) = None"
    by (subst ss) (use d lo in \<open>simp add: above_def Let_def\<close>)
  have "getdata ?t ln ?p 0 = None"
  proof -
    have "data_end (Suc (length ?p)) (to_tab (t_opts ?t)) ?p 0 = Some 2"
      using data_end_caret [OF tb] by (simp add: numeral_3_eq_3)
    moreover have "last (t_spans ?t) = ?s" "butlast (t_spans ?t) = t_spans t" by (simp_all add: newspan_def)
    ultimately show ?thesis
      using col cells ne c0 v by (simp add: getdata_def Let_def del: data_end.simps)
  qed
  then show ?thesis
    using part rows skip
    by (simp add: tbl_read_def tbl_section_def tbl_data_def Let_def getdata_all_def rd_def)
qed

theorem tbl_read_no_string_witness:
  "\<exists>t. tbl_lines (tbl_alloc 0 1) 2 [''l.'', ''T{'', ''T}''] = Some t \<and> tbl_read t 5 (BSLASH # ''^'') 0 = None"
proof -
  let ?t = "(tbl_alloc 0 1)\<lparr>t_part := PART_DATA, t_opts := (t_opts (tbl_alloc 0 1))\<lparr>to_cols := 1\<rparr>,
     t_rows := [\<lparr>r_cells = [new_cell CELL_LEFT 0], r_vert = 0\<rparr>],
     t_spans := [\<lparr>s_layout = 0, s_dats = [fresh_dat [new_cell CELL_LEFT 0] 0], s_line = 3, s_pos = SPAN_DATA\<rparr>]\<rparr>"
  have "data_cols [new_cell CELL_LEFT 0] = [0]" by (simp add: data_cols_def new_cell_def)
  then have wf: "tbl_wf ?t"
    by (simp add: tbl_alloc_def tbl_wf_def row_ok_def cells_ok_def span_ok_def dat_ok_def fresh_dat_def new_cell_def)
  have "tbl_lines (tbl_alloc 0 1) 2 [''l.'', ''T{'', ''T}''] = Some ?t" by code_simp
  moreover have "tbl_read ?t 5 (BSLASH # ''^'') 0 = None"
    by (rule tbl_read_no_string [OF wf, where d = "fresh_dat [new_cell CELL_LEFT 0] 0" and ds = "[]"])
       (simp_all add: tbl_alloc_def fresh_dat_def new_cell_def data_row_def only_lines_def layout_of_def row_cells_def)
  ultimately show ?thesis by blast
qed

text \<open>\<open>T{\<close> starts a text block before a tab character too, and the rest of the line is read as more cells.\<close>

lemma tbl_block_not_at_end:
  "map_option (\<lambda>t. (t_part t, map (map d_string \<circ> s_dats) (t_spans t)))
     (tbl_lines (tbl_alloc 0 1) 2 [''tab(:);'', ''l l l.'', ''T{:b'']) =
   Some (PART_CDATA, [[None, Some [], Some ''b'']])"
  by code_simp

text \<open>With a blank as the tab character, trimming runs past the end of an empty field.\<close>

lemma tbl_blank_tab:
  "map_option (\<lambda>t. map (map d_string \<circ> s_dats) (t_spans t))
     (tbl_lines (tbl_alloc 0 1) 2 [''nospaces tab( );'', ''l l l.'', ''a  b'']) = Some [[Some ''a'', Some ''b'', Some ''b'']]"
  by code_simp

text \<open>A negative width is converted to \<open>size_t\<close>.\<close>

lemma mod_width_negative:
  "map_option (\<lambda>(t, c, pos, ms). (uint (c_width c), ms)) (mod_width 1 ''w(0-5)'' (tbl_alloc 0 1, new_cell CELL_LEFT 0, 1, [])) =
    Some (2 ^ 64 - 120, [])"
  by code_simp

end
