(* ===== verification/Roff_Node.thy ===== *)
theory Roff_Node
  imports Mandoc_Util
begin

section \<open>The syntax tree: nodes of \<open>roff.h\<close> and their handling in \<open>roff.c\<close>\<close>

text \<open>
  Nodes live in a heap, a map from addresses to nodes; a pointer is an address or None, the NULL
  pointer.  Dereferencing NULL or a freed node gives None, so that a result is also the statement
  that no such access happens.  Pointers to data that the tree only carries along, like the
  normalised arguments, are opaque addresses.  A token is the name of its constant in \<open>roff.h\<close>.
\<close>

datatype roff_type = ROFFT_ROOT | ROFFT_BLOCK | ROFFT_HEAD | ROFFT_BODY | ROFFT_TAIL | ROFFT_ELEM
  | ROFFT_TEXT | ROFFT_COMMENT | ROFFT_TBL | ROFFT_EQN

datatype mdoc_endbody = ENDBODY_NOT | ENDBODY_SPACE

datatype node_flag = NODE_VALID | NODE_ENDED | NODE_BROKEN | NODE_LINE | NODE_DELIMO | NODE_DELIMC
  | NODE_EOS | NODE_SYNPRETTY | NODE_NOFILL | NODE_NOSRC | NODE_NOPRT | NODE_ID | NODE_HREF

datatype roff_sec = SEC_NONE | SEC_NAME | SEC_LIBRARY | SEC_SYNOPSIS | SEC_DESCRIPTION | SEC_CONTEXT
  | SEC_IMPLEMENTATION | SEC_RETURN_VALUES | SEC_ENVIRONMENT | SEC_FILES | SEC_EXIT_STATUS
  | SEC_EXAMPLES | SEC_DIAGNOSTICS | SEC_COMPATIBILITY | SEC_ERRORS | SEC_SEE_ALSO | SEC_STANDARDS
  | SEC_HISTORY | SEC_AUTHORS | SEC_CAVEATS | SEC_BUGS | SEC_SECURITY | SEC_CUSTOM

type_synonym roff_tok = string

record roff_node =
  nd_parent :: "nat option"
  nd_child :: "nat option"
  nd_last :: "nat option"
  nd_next :: "nat option"
  nd_prev :: "nat option"
  nd_head :: "nat option"
  nd_body :: "nat option"
  nd_tail :: "nat option"
  nd_args :: "nat option"
  nd_norm :: "nat option"
  nd_string :: "string option"
  nd_tag :: "string option"
  nd_span :: "nat option"
  nd_eqn :: "nat option"
  nd_line :: nat
  nd_pos :: nat
  nd_flags :: "node_flag set"
  nd_prev_font :: int
  nd_aux :: int
  nd_tok :: roff_tok
  nd_type :: roff_type
  nd_sec :: roff_sec
  nd_end :: mdoc_endbody

type_synonym node_heap = "nat \<Rightarrow> roff_node option"

datatype roff_next = ROFF_NEXT_SIBLING | ROFF_NEXT_CHILD

datatype man_flag = ROFF_NOFILL | MDOC_PBODY | MDOC_NEWLINE | MDOC_PHRASE | MDOC_PHRASELIT | MDOC_FREECOL
  | MDOC_SYNOPSIS | MDOC_KEEP | MDOC_SMOFF | MDOC_NODELIMC | MAN_ELINE | MAN_BLINE | MDOC_PHRASEQF
  | MDOC_PHRASEQL | MDOC_PHRASEQN | ROFF_NONOFILL

text \<open>The part of \<open>struct roff_man\<close> that the tree depends on, and the heap of its nodes.\<close>

record roff_man =
  m_heap :: node_heap
  m_first :: "nat option"
  m_last :: "nat option"
  m_last_es :: "nat option"
  m_flags :: "man_flag set"
  m_lastsec :: roff_sec
  m_lastnamed :: roff_sec
  m_next :: roff_next

text \<open>Assignments to fields of a node.\<close>

definition node_upd :: "nat \<Rightarrow> (roff_node \<Rightarrow> roff_node) \<Rightarrow> node_heap \<Rightarrow> node_heap option" where
  "node_upd i f h = map_option (\<lambda>nd. h(i \<mapsto> f nd)) (h i)"

subsection \<open>New nodes: \<open>roff_node_alloc\<close>\<close>

text \<open>The allocator returns an address \<open>a\<close> that is not in use.\<close>

definition new_node :: "roff_man \<Rightarrow> nat \<Rightarrow> nat \<Rightarrow> roff_type \<Rightarrow> roff_tok \<Rightarrow> roff_node" where
  "new_node man line pos type tok =
     \<lparr>nd_parent = None, nd_child = None, nd_last = None, nd_next = None, nd_prev = None,
      nd_head = None, nd_body = None, nd_tail = None, nd_args = None, nd_norm = None, nd_string = None, nd_tag = None,
      nd_span = None, nd_eqn = None,
      nd_line = line, nd_pos = pos,
      nd_flags = (if MDOC_SYNOPSIS \<in> m_flags man then {NODE_SYNPRETTY} else {}) \<union>
        (if ROFF_NOFILL \<in> m_flags man \<and> ROFF_NONOFILL \<notin> m_flags man then {NODE_NOFILL} else {}) \<union>
        (if MDOC_NEWLINE \<in> m_flags man then {NODE_LINE} else {}),
      nd_prev_font = 0, nd_aux = 0, nd_tok = tok, nd_type = type, nd_sec = m_lastsec man, nd_end = ENDBODY_NOT\<rparr>"

definition roff_node_alloc :: "nat \<Rightarrow> nat \<Rightarrow> nat \<Rightarrow> roff_type \<Rightarrow> roff_tok \<Rightarrow> roff_man \<Rightarrow> roff_man" where
  "roff_node_alloc a line pos type tok man =
     man\<lparr>m_flags := m_flags man - {MDOC_NEWLINE}, m_heap := (m_heap man)(a \<mapsto> new_node man line pos type tok)\<rparr>"

subsection \<open>Insertion: \<open>roff_node_append\<close>\<close>

definition link_sibling :: "nat \<Rightarrow> nat \<Rightarrow> node_heap \<Rightarrow> node_heap option" where
  "link_sibling q n h = do {
     l \<leftarrow> h q;
     h \<leftarrow> (case nd_next l of
       Some x \<Rightarrow> do { h \<leftarrow> node_upd n (nd_next_update (\<lambda>_. Some x)) h; node_upd x (nd_prev_update (\<lambda>_. Some n)) h }
     | None \<Rightarrow> do { p \<leftarrow> nd_parent l; node_upd p (nd_last_update (\<lambda>_. Some n)) h });
     h \<leftarrow> node_upd q (nd_next_update (\<lambda>_. Some n)) h;
     h \<leftarrow> node_upd n (nd_prev_update (\<lambda>_. Some q)) h;
     l \<leftarrow> h q;
     node_upd n (nd_parent_update (\<lambda>_. nd_parent l)) h}"

definition link_child :: "nat \<Rightarrow> nat \<Rightarrow> node_heap \<Rightarrow> node_heap option" where
  "link_child q n h = do {
     l \<leftarrow> h q;
     h \<leftarrow> (case nd_child l of
       Some x \<Rightarrow> do { h \<leftarrow> node_upd n (nd_next_update (\<lambda>_. Some x)) h; node_upd x (nd_prev_update (\<lambda>_. Some n)) h }
     | None \<Rightarrow> node_upd q (nd_last_update (\<lambda>_. Some n)) h);
     h \<leftarrow> node_upd q (nd_child_update (\<lambda>_. Some n)) h;
     node_upd n (nd_parent_update (\<lambda>_. Some q)) h}"

text \<open>Heads, bodies and tails are entered into their block and share its normalised data.\<close>

definition link_part :: "nat \<Rightarrow> node_heap \<Rightarrow> node_heap option" where
  "link_part n h = do {
     nd \<leftarrow> h n;
     if nd_type nd \<notin> {ROFFT_HEAD, ROFFT_BODY, ROFFT_TAIL} \<or> nd_type nd = ROFFT_BODY \<and> nd_end nd \<noteq> ENDBODY_NOT then Some h
     else do {
       p \<leftarrow> nd_parent nd;
       h \<leftarrow> node_upd p (case nd_type nd of
           ROFFT_HEAD \<Rightarrow> nd_head_update (\<lambda>_. Some n)
         | ROFFT_BODY \<Rightarrow> nd_body_update (\<lambda>_. Some n)
         | _ \<Rightarrow> nd_tail_update (\<lambda>_. Some n)) h;
       pd \<leftarrow> h p;
       h \<leftarrow> node_upd n (nd_norm_update (\<lambda>_. nd_norm pd)) h;
       if nd_type pd = ROFFT_BLOCK then Some h else None}}"

definition roff_node_append :: "nat \<Rightarrow> roff_man \<Rightarrow> roff_man option" where
  "roff_node_append n man = do {
     q \<leftarrow> m_last man;
     h \<leftarrow> (case m_next man of
       ROFF_NEXT_SIBLING \<Rightarrow> link_sibling q n (m_heap man)
     | ROFF_NEXT_CHILD \<Rightarrow> link_child q n (m_heap man));
     h \<leftarrow> link_part n h;
     Some (man\<lparr>m_heap := h, m_last := Some n\<rparr>)}"

text \<open>The functions that allocate and insert nodes; the text has been translated by \<open>roff_strdup\<close>.\<close>

definition set_next :: "roff_next \<Rightarrow> roff_man \<Rightarrow> roff_man" where
  "set_next x man = man\<lparr>m_next := x\<rparr>"

definition man_upd :: "nat \<Rightarrow> (roff_node \<Rightarrow> roff_node) \<Rightarrow> roff_man \<Rightarrow> roff_man option" where
  "man_upd i f man = map_option (\<lambda>h. man\<lparr>m_heap := h\<rparr>) (node_upd i f (m_heap man))"

definition roff_word_alloc :: "nat \<Rightarrow> nat \<Rightarrow> nat \<Rightarrow> string \<Rightarrow> roff_man \<Rightarrow> roff_man option" where
  "roff_word_alloc a line pos word man = do {
     let man = roff_node_alloc a line pos ROFFT_TEXT ''TOKEN_NONE'' man;
     man \<leftarrow> man_upd a (nd_string_update (\<lambda>_. Some word)) man;
     man \<leftarrow> roff_node_append a man;
     man \<leftarrow> man_upd a (nd_flags_update (\<lambda>fs. fs \<union> {NODE_VALID, NODE_ENDED})) man;
     Some (set_next ROFF_NEXT_SIBLING man)}"

definition roff_word_append :: "string \<Rightarrow> roff_man \<Rightarrow> roff_man option" where
  "roff_word_append word man = do {
     n \<leftarrow> m_last man;
     nd \<leftarrow> m_heap man n;
     s \<leftarrow> nd_string nd;
     man \<leftarrow> man_upd n (nd_string_update (\<lambda>_. Some (s @ '' '' @ word))) man;
     Some (set_next ROFF_NEXT_SIBLING man)}"

definition roff_part_alloc :: "roff_type \<Rightarrow> nat \<Rightarrow> nat \<Rightarrow> nat \<Rightarrow> roff_tok \<Rightarrow> roff_man \<Rightarrow> roff_man option" where
  "roff_part_alloc type a line pos tok man =
     map_option (set_next ROFF_NEXT_CHILD) (roff_node_append a (roff_node_alloc a line pos type tok man))"

definition roff_elem_alloc :: "nat \<Rightarrow> nat \<Rightarrow> nat \<Rightarrow> roff_tok \<Rightarrow> roff_man \<Rightarrow> roff_man option" where
  "roff_elem_alloc = roff_part_alloc ROFFT_ELEM"

definition roff_block_alloc :: "nat \<Rightarrow> nat \<Rightarrow> nat \<Rightarrow> roff_tok \<Rightarrow> roff_man \<Rightarrow> roff_man option" where
  "roff_block_alloc = roff_part_alloc ROFFT_BLOCK"

definition roff_head_alloc :: "nat \<Rightarrow> nat \<Rightarrow> nat \<Rightarrow> roff_tok \<Rightarrow> roff_man \<Rightarrow> roff_man option" where
  "roff_head_alloc = roff_part_alloc ROFFT_HEAD"

definition roff_body_alloc :: "nat \<Rightarrow> nat \<Rightarrow> nat \<Rightarrow> roff_tok \<Rightarrow> roff_man \<Rightarrow> roff_man option" where
  "roff_body_alloc = roff_part_alloc ROFFT_BODY"

subsection \<open>Removal: \<open>roff_node_unlink\<close>, \<open>roff_node_relink\<close>, \<open>roff_node_delete\<close>\<close>

definition unlink_links :: "nat \<Rightarrow> node_heap \<Rightarrow> node_heap option" where
  "unlink_links n h = do {
     nd \<leftarrow> h n;
     h \<leftarrow> (case nd_prev nd of Some x \<Rightarrow> node_upd x (nd_next_update (\<lambda>_. nd_next nd)) h | None \<Rightarrow> Some h);
     h \<leftarrow> (case nd_next nd of Some x \<Rightarrow> node_upd x (nd_prev_update (\<lambda>_. nd_prev nd)) h | None \<Rightarrow> Some h);
     case nd_parent nd of
       None \<Rightarrow> Some h
     | Some p \<Rightarrow> node_upd p (\<lambda>pd.
         let pd = (if nd_child pd = Some n then pd\<lparr>nd_child := nd_next nd\<rparr> else pd)
         in if nd_last pd = Some n then pd\<lparr>nd_last := nd_prev nd\<rparr> else pd) h}"

definition roff_node_unlink :: "nat \<Rightarrow> roff_man \<Rightarrow> roff_man option" where
  "roff_node_unlink n man = do {
     h \<leftarrow> unlink_links n (m_heap man);
     nd \<leftarrow> h n;
     let man = man\<lparr>m_heap := h\<rparr>;
     let man = (if m_last man = Some n
       then (if nd_prev nd = None then man\<lparr>m_last := nd_parent nd, m_next := ROFF_NEXT_CHILD\<rparr>
             else man\<lparr>m_last := nd_prev nd, m_next := ROFF_NEXT_SIBLING\<rparr>)
       else man);
     Some (if m_first man = Some n then man\<lparr>m_first := None\<rparr> else man)}"

definition roff_node_relink :: "nat \<Rightarrow> roff_man \<Rightarrow> roff_man option" where
  "roff_node_relink n man = do {
     man \<leftarrow> roff_node_unlink n man;
     man \<leftarrow> man_upd n (\<lambda>nd. nd\<lparr>nd_prev := None, nd_next := None\<rparr>) man;
     roff_node_append n man}"

definition roff_node_free :: "nat \<Rightarrow> roff_man \<Rightarrow> roff_man" where
  "roff_node_free n man = man\<lparr>m_heap := (m_heap man)(n := None)\<rparr>"

partial_function (option) roff_node_delete :: "nat \<Rightarrow> roff_man \<Rightarrow> roff_man option" where
  "roff_node_delete n man =
     (case m_heap man n of
        None \<Rightarrow> None
      | Some nd \<Rightarrow>
          (case nd_child nd of
             Some c \<Rightarrow> Option.bind (roff_node_delete c man) (roff_node_delete n)
           | None \<Rightarrow> map_option (roff_node_free n) (roff_node_unlink n man)))"

subsection \<open>Start and end of a document\<close>

text \<open>A node as \<open>calloc\<close> returns it: the first constant of every enumeration.\<close>

definition zero_node :: roff_node where
  "zero_node =
     \<lparr>nd_parent = None, nd_child = None, nd_last = None, nd_next = None, nd_prev = None,
      nd_head = None, nd_body = None, nd_tail = None, nd_args = None, nd_norm = None, nd_string = None, nd_tag = None,
      nd_span = None, nd_eqn = None, nd_line = 0, nd_pos = 0, nd_flags = {}, nd_prev_font = 0, nd_aux = 0,
      nd_tok = ''ROFF_br'', nd_type = ROFFT_ROOT, nd_sec = SEC_NONE, nd_end = ENDBODY_NOT\<rparr>"

text \<open>The register \<open>nS\<close>, which \<open>roff_state_reset\<close> also clears, is not part of the tree.\<close>

definition roff_state_reset :: "roff_man \<Rightarrow> roff_man" where
  "roff_state_reset man = man\<lparr>m_last := m_first man, m_last_es := None, m_flags := {}, m_lastsec := SEC_NONE,
     m_lastnamed := SEC_NONE, m_next := ROFF_NEXT_CHILD\<rparr>"

definition roff_man_alloc1 :: "nat \<Rightarrow> roff_man \<Rightarrow> roff_man" where
  "roff_man_alloc1 a man = roff_state_reset (man\<lparr>m_heap := (m_heap man)(a \<mapsto> zero_node), m_first := Some a\<rparr>)"

definition roff_man_free1 :: "roff_man \<Rightarrow> roff_man option" where
  "roff_man_free1 man = (case m_first man of Some r \<Rightarrow> roff_node_delete r man | None \<Rightarrow> Some man)"

definition roff_man_reset :: "nat \<Rightarrow> roff_man \<Rightarrow> roff_man option" where
  "roff_man_reset a man = map_option (roff_man_alloc1 a) (roff_man_free1 man)"

subsection \<open>Navigation\<close>

definition roff_tok_transparent :: "roff_tok \<Rightarrow> bool" where
  "roff_tok_transparent tok \<longleftrightarrow> tok \<in> set [''ROFF_ft'', ''ROFF_ll'', ''ROFF_mc'', ''ROFF_po'', ''ROFF_ta'',
     ''MDOC_Db'', ''MDOC_Es'', ''MDOC_Sm'', ''MDOC_Tg'', ''MAN_DT'', ''MAN_UC'', ''MAN_PD'', ''MAN_AT'']"

definition roff_node_transparent :: "roff_node \<Rightarrow> bool" where
  "roff_node_transparent nd \<longleftrightarrow>
     nd_type nd = ROFFT_COMMENT \<or> NODE_NOPRT \<in> nd_flags nd \<or> roff_tok_transparent (nd_tok nd)"

text \<open>Follow \<open>next\<close> or \<open>prev\<close> until a node that is not transparent, or NULL.\<close>

partial_function (option) skip_nodes :: "(roff_node \<Rightarrow> nat option) \<Rightarrow> node_heap \<Rightarrow> nat option \<Rightarrow> nat option option" where
  "skip_nodes next h n =
     (case n of
        None \<Rightarrow> Some None
      | Some i \<Rightarrow> (case h i of
            None \<Rightarrow> None
          | Some nd \<Rightarrow> if roff_node_transparent nd then skip_nodes next h (next nd) else Some (Some i)))"

definition roff_node_child :: "node_heap \<Rightarrow> nat \<Rightarrow> nat option option" where
  "roff_node_child h n = do { nd \<leftarrow> h n; skip_nodes nd_next h (nd_child nd) }"

definition roff_node_prev :: "node_heap \<Rightarrow> nat \<Rightarrow> nat option option" where
  "roff_node_prev h n = do { nd \<leftarrow> h n; skip_nodes nd_prev h (nd_prev nd) }"

definition roff_node_next :: "node_heap \<Rightarrow> nat \<Rightarrow> nat option option" where
  "roff_node_next h n = do { nd \<leftarrow> h n; skip_nodes nd_next h (nd_next nd) }"

subsection \<open>Text of a subtree: \<open>deroff\<close>\<close>

fun deroff_lead :: "string \<Rightarrow> string" where
  "deroff_lead [] = []"
| "deroff_lead (c # cs) =
     (if c = BSLASH \<and> cs \<noteq> [] \<and> hd cs \<in> set '' %&0^|~'' then deroff_lead (tl cs)
      else if isspace c then deroff_lead cs else c # cs)"

definition deroff_trail :: "string \<Rightarrow> string" where
  "deroff_trail s =
     (let s = (if s \<noteq> [] \<and> last s = BSLASH then butlast s else s)
      in rev (dropWhile isspace (rev s)))"

text \<open>
  The first text is copied up to its trimmed size; later ones are formatted with that size as
  the minimum width of the field, and so are not trimmed at the end.
\<close>

definition deroff_text :: "string \<Rightarrow> string option \<Rightarrow> string option" where
  "deroff_text s dest =
     (let cp = deroff_lead s; sz = length (deroff_trail cp)
      in if sz = 0 then dest
         else case dest of
           None \<Rightarrow> Some (take sz cp)
         | Some d \<Rightarrow> Some (d @ '' '' @ replicate (sz - length cp) CHR '' '' @ cp))"

partial_function (option) deroff_list :: "node_heap \<Rightarrow> string option \<Rightarrow> nat option \<Rightarrow> string option option" where
  "deroff_list h dest n =
     (case n of
        None \<Rightarrow> Some dest
      | Some i \<Rightarrow> (case h i of
            None \<Rightarrow> None
          | Some nd \<Rightarrow> Option.bind
              (case nd_string nd of Some s \<Rightarrow> Some (deroff_text s dest) | None \<Rightarrow> deroff_list h dest (nd_child nd))
              (\<lambda>dest. deroff_list h dest (nd_next nd))))"

definition deroff :: "node_heap \<Rightarrow> string option \<Rightarrow> nat \<Rightarrow> string option option" where
  "deroff h dest n = do {
     nd \<leftarrow> h n;
     case nd_string nd of Some s \<Rightarrow> Some (deroff_text s dest) | None \<Rightarrow> deroff_list h dest (nd_child nd)}"

end
