(* ===== verification/Roff_Tree.thy ===== *)
theory Roff_Tree
  imports Roff_Node
begin

section \<open>The syntax tree as a tree\<close>

text \<open>
  The abstract tree is a function from nodes to the lists of their children.  \<open>tree_ok\<close> says
  that the links of a set of nodes represent it: doubly linked lists of siblings, first and last
  child, parents, every node in at most one list, and no cycles.
\<close>

type_synonym kids = "nat \<Rightarrow> nat list"

definition hd_opt :: "'a list \<Rightarrow> 'a option" where
  "hd_opt xs = (case xs of [] \<Rightarrow> None | x # _ \<Rightarrow> Some x)"

definition last_opt :: "'a list \<Rightarrow> 'a option" where
  "last_opt xs = (if xs = [] then None else Some (last xs))"

lemma hd_opt_simps [simp]: "hd_opt [] = None" "hd_opt (x # xs) = Some x"
  by (simp_all add: hd_opt_def)

lemma last_opt_simps [simp]: "last_opt [] = None" "last_opt (xs @ [x]) = Some x" "last_opt (x # xs) = Some (last (x # xs))"
  by (simp_all add: last_opt_def)

lemma hd_opt_append: "hd_opt (xs @ ys) = (if xs = [] then hd_opt ys else hd_opt xs)"
  by (cases xs) auto

lemma last_opt_append: "last_opt (xs @ ys) = (if ys = [] then last_opt xs else last_opt ys)"
  by (simp add: last_opt_def)

text \<open>A list of siblings, between what comes before and what comes after it.\<close>

primrec siblings :: "node_heap \<Rightarrow> nat \<Rightarrow> nat option \<Rightarrow> nat list \<Rightarrow> nat option \<Rightarrow> bool" where
  "siblings h p before [] after \<longleftrightarrow> True"
| "siblings h p before (x # xs) after \<longleftrightarrow>
     (\<exists>nd. h x = Some nd \<and> nd_parent nd = Some p \<and> nd_prev nd = before \<and>
       nd_next nd = (if xs = [] then after else hd_opt xs)) \<and> siblings h p (Some x) xs after"

lemma siblings_append:
  "siblings h p b (xs @ ys) a \<longleftrightarrow>
     siblings h p b xs (if ys = [] then a else hd_opt ys) \<and> siblings h p (if xs = [] then b else last_opt xs) ys a"
  by (induction xs arbitrary: b) (auto simp: hd_opt_append last_opt_def)

definition links_of :: "roff_node \<Rightarrow> nat option \<times> nat option \<times> nat option" where
  "links_of nd = (nd_parent nd, nd_prev nd, nd_next nd)"

lemma siblings_cong:
  "(\<And>x. x \<in> set xs \<Longrightarrow> map_option links_of (h' x) = map_option links_of (h x)) \<Longrightarrow>
    siblings h' p b xs a = siblings h p b xs a"
proof (induction xs arbitrary: b)
  case (Cons x xs)
  have "map_option links_of (h' x) = map_option links_of (h x)" using Cons.prems by simp
  then have "(\<exists>nd. h' x = Some nd \<and> nd_parent nd = q \<and> nd_prev nd = r \<and> nd_next nd = s) =
      (\<exists>nd. h x = Some nd \<and> nd_parent nd = q \<and> nd_prev nd = r \<and> nd_next nd = s)" for q r s
    by (cases "h x"; cases "h' x") (auto simp: links_of_def)
  then show ?case using Cons.IH Cons.prems by simp
qed simp

definition edges :: "kids \<Rightarrow> nat set \<Rightarrow> (nat \<times> nat) set" where
  "edges kids A = {(p, c). p \<in> A \<and> c \<in> set (kids p)}"

definition ends_ok :: "node_heap \<Rightarrow> nat \<Rightarrow> nat list \<Rightarrow> bool" where
  "ends_ok h i xs \<longleftrightarrow> (\<exists>nd. h i = Some nd \<and> nd_child nd = hd_opt xs \<and> nd_last nd = last_opt xs)"

definition tree_ok :: "node_heap \<Rightarrow> kids \<Rightarrow> nat set \<Rightarrow> bool" where
  "tree_ok h kids A \<longleftrightarrow> finite A \<and> acyclic (edges kids A) \<and>
     (\<forall>i \<in> A. ends_ok h i (kids i) \<and> siblings h i None (kids i) None \<and> distinct (kids i) \<and> set (kids i) \<subseteq> A) \<and>
     (\<forall>i \<in> A. \<forall>j \<in> A. i \<noteq> j \<longrightarrow> set (kids i) \<inter> set (kids j) = {})"

lemma tree_okD:
  assumes "tree_ok h kids A" "i \<in> A"
  shows "ends_ok h i (kids i)" "siblings h i None (kids i) None" "distinct (kids i)" "set (kids i) \<subseteq> A"
  using assms by (auto simp: tree_ok_def)

lemma tree_ok_single: "tree_ok h kids A \<Longrightarrow> i \<in> A \<Longrightarrow> j \<in> A \<Longrightarrow> x \<in> set (kids i) \<Longrightarrow> x \<in> set (kids j) \<Longrightarrow> i = j"
  unfolding tree_ok_def by blast

text \<open>The heap may change wherever the links of the tree are not.\<close>

definition ends_of :: "roff_node \<Rightarrow> nat option \<times> nat option" where
  "ends_of nd = (nd_child nd, nd_last nd)"

lemma ends_ok_cong: "map_option ends_of (h' i) = map_option ends_of (h i) \<Longrightarrow> ends_ok h' i xs = ends_ok h i xs"
  by (cases "h i"; cases "h' i") (auto simp: ends_ok_def ends_of_def)

lemma tree_ok_cong:
  assumes "\<And>i. i \<in> A \<Longrightarrow> map_option ends_of (h' i) = map_option ends_of (h i)"
    and "\<And>i x. i \<in> A \<Longrightarrow> x \<in> set (kids i) \<Longrightarrow> map_option links_of (h' x) = map_option links_of (h x)"
  shows "tree_ok h' kids A = tree_ok h kids A"
proof -
  have "siblings h' i None (kids i) None = siblings h i None (kids i) None" if "i \<in> A" for i
    by (rule siblings_cong) (rule assms(2) [OF that])
  then show ?thesis using ends_ok_cong [of h' _ h] assms(1) by (simp add: tree_ok_def)
qed

text \<open>One list of children changes.\<close>

lemma tree_ok_upd:
  assumes ok: "tree_ok h kids A" and p: "p \<in> A"
    and other: "\<And>i. i \<in> A \<Longrightarrow> i \<noteq> p \<Longrightarrow> map_option ends_of (h' i) = map_option ends_of (h i)"
      "\<And>i x. i \<in> A \<Longrightarrow> i \<noteq> p \<Longrightarrow> x \<in> set (kids i) \<Longrightarrow> map_option links_of (h' x) = map_option links_of (h x)"
    and xs: "ends_ok h' p xs" "siblings h' p None xs None" "distinct xs" "set xs \<subseteq> A"
      "\<And>i. i \<in> A \<Longrightarrow> i \<noteq> p \<Longrightarrow> set (kids i) \<inter> set xs = {}" "acyclic (edges (kids(p := xs)) A)"
  shows "tree_ok h' (kids(p := xs)) A"
proof -
  have "siblings h' i None (kids i) None" if "i \<in> A" "i \<noteq> p" for i
    using siblings_cong [of "kids i" h' h i None None] other(2) [OF that] tree_okD(2) [OF ok that(1)] by blast
  moreover have "ends_ok h' i (kids i)" if "i \<in> A" "i \<noteq> p" for i
    using ends_ok_cong [of h' i h] other(1) [OF that] tree_okD(1) [OF ok that(1)] by blast
  moreover have "set ((kids(p := xs)) i) \<inter> set ((kids(p := xs)) j) = {}" if "i \<in> A" "j \<in> A" "i \<noteq> j" for i j
  proof -
    have "set (kids i) \<inter> set (kids j) = {}" using ok that by (simp add: tree_ok_def)
    then show ?thesis using xs(5) [OF that(1)] xs(5) [OF that(2)] that(3) by (auto simp: Int_commute)
  qed
  ultimately show ?thesis
    using ok xs(1-4,6) tree_okD(3,4) [OF ok] by (simp add: tree_ok_def)
qed


subsection \<open>Insertion\<close>

text \<open>A node outside all lists, which may be the root of a tree of its own.\<close>

definition loose :: "kids \<Rightarrow> nat set \<Rightarrow> nat \<Rightarrow> bool" where
  "loose kids A n \<longleftrightarrow> n \<in> A \<and> (\<forall>p \<in> A. n \<notin> set (kids p))"

lemma edges_insert:
  assumes "p \<in> A" "set xs = insert n (set (kids p))"
  shows "edges (kids(p := xs)) A = insert (p, n) (edges kids A)"
  using assms by (auto simp: edges_def split: if_splits)

lemma siblings_step: "siblings h p b xs a \<Longrightarrow> xs = ys @ x # zs \<Longrightarrow>
    \<exists>nd. h x = Some nd \<and> nd_parent nd = Some p \<and> nd_prev nd = (if ys = [] then b else last_opt ys) \<and>
      nd_next nd = (if zs = [] then a else hd_opt zs)"
  by (simp add: siblings_append)

lemma siblings_before:
  assumes "siblings h p b (y # ys) a" "distinct (y # ys)" "h y = Some yd" "h' y = Some (yd\<lparr>nd_prev := b'\<rparr>)"
    and "\<And>x. x \<in> set ys \<Longrightarrow> map_option links_of (h' x) = map_option links_of (h x)"
  shows "siblings h' p b' (y # ys) a"
  using assms siblings_cong [of ys h' h p "Some y" a] by simp

lemma insert_sibling_ok:
  assumes ok: "tree_ok h kids A" and p: "p \<in> A" "kids p = xs @ q # ys"
    and n: "loose kids A n" "(n, p) \<notin> (edges kids A)\<^sup>*" "h n = Some nd" "nd_prev nd = None" "nd_next nd = None"
  shows "\<exists>h'. link_sibling q n h = Some h' \<and> tree_ok h' (kids(p := xs @ q # n # ys)) A \<and>
    (\<exists>nd'. h' n = Some nd' \<and> nd_parent nd' = Some p)"
proof -
  note K = tree_okD [OF ok p(1)]
  have d: "distinct (xs @ q # ys)" "set (xs @ q # ys) \<subseteq> A" using K(3,4) by (simp_all add: p(2))
  have nA: "n \<in> A" "n \<notin> set (xs @ q # ys)" "n \<noteq> p" using n(1,2) p by (auto simp: loose_def)
  have q: "(p, q) \<in> edges kids A" using p by (simp add: edges_def)
  have pk: "p \<notin> set (xs @ q # ys)"
  proof
    assume "p \<in> set (xs @ q # ys)"
    then have "(p, p) \<in> edges kids A" using p by (simp add: edges_def)
    then show False using ok by (auto simp: tree_ok_def acyclic_def)
  qed
  obtain qd where qd: "h q = Some qd" "nd_parent qd = Some p" "nd_prev qd = last_opt xs" "nd_next qd = hd_opt ys"
    using siblings_step [OF K(2) p(2)] by (auto simp: last_opt_def split: if_splits)
  obtain pd where pd: "h p = Some pd" "nd_child pd = hd_opt (xs @ q # ys)" "nd_last pd = last_opt (xs @ q # ys)"
    using K(1) by (auto simp: ends_ok_def p(2))
  let ?nd = "nd\<lparr>nd_next := hd_opt ys, nd_prev := Some q, nd_parent := Some p\<rparr>"
  have "\<exists>h'. link_sibling q n h = Some h' \<and> h' n = Some ?nd \<and> h' q = Some (qd\<lparr>nd_next := Some n\<rparr>) \<and>
      h' p = Some (if ys = [] then pd\<lparr>nd_last := Some n\<rparr> else pd) \<and>
      (\<forall>y zs. ys = y # zs \<longrightarrow> h' y = map_option (nd_prev_update (\<lambda>_. Some n)) (h y)) \<and>
      (\<forall>x. x \<notin> {n, q, p} \<longrightarrow> (\<forall>y zs. ys = y # zs \<longrightarrow> x \<noteq> y) \<longrightarrow> h' x = h x)"
  proof (cases ys)
    case Nil
    then show ?thesis
      using qd pd(1) n(3,5) nA pk by (auto simp: link_sibling_def node_upd_def)
  next
    case (Cons y zs)
    obtain yd where yd: "h y = Some yd"
      using siblings_step [OF K(2), of "xs @ [q]" y zs] by (auto simp: p(2) Cons)
    show ?thesis
      using qd pd(1) yd n(3) nA pk d by (auto simp: link_sibling_def node_upd_def Cons)
  qed
  then obtain h' where h': "link_sibling q n h = Some h'" "h' n = Some ?nd" "h' q = Some (qd\<lparr>nd_next := Some n\<rparr>)"
      "h' p = Some (if ys = [] then pd\<lparr>nd_last := Some n\<rparr> else pd)"
      "\<And>y zs. ys = y # zs \<Longrightarrow> h' y = map_option (nd_prev_update (\<lambda>_. Some n)) (h y)"
      "\<And>x. x \<notin> {n, q, p} \<Longrightarrow> (\<And>y zs. ys = y # zs \<Longrightarrow> x \<noteq> y) \<Longrightarrow> h' x = h x"
    by blast
  have ends: "map_option ends_of (h' i) = map_option ends_of (h i)" if "i \<noteq> p" for i
  proof -
    consider "i = n" | "i = q" | y zs where "ys = y # zs" "i = y" | "i \<notin> {n, q, p}" "\<And>y zs. ys = y # zs \<Longrightarrow> i \<noteq> y"
      using \<open>i \<noteq> p\<close> by blast
    then show ?thesis
    proof cases
      case (3 y zs)
      then show ?thesis using h'(5) [OF 3(1)] by (cases "h y") (simp_all add: ends_of_def)
    next
      case 4
      then show ?thesis using h'(6) by simp
    qed (use h'(2,3) n(3) qd(1) in \<open>simp_all add: ends_of_def\<close>)
  qed
  have links: "map_option links_of (h' x) = map_option links_of (h x)" if x: "x \<notin> {n, q} \<union> set ys" for x
  proof (cases "x = p")
    case True
    then show ?thesis using h'(4) pd(1) by (simp add: links_of_def)
  next
    case False
    have "h' x = h x" by (rule h'(6)) (use x False in auto)
    then show ?thesis by simp
  qed
  have links2: "map_option links_of (h' x) = map_option links_of (h x)" if "ys = y # zs" "x \<in> set zs" for x y zs
  proof -
    have "h' x = h x" by (rule h'(6)) (use that d nA pk in auto)
    then show ?thesis by simp
  qed
  have "tree_ok h' (kids(p := xs @ q # n # ys)) A"
  proof (rule tree_ok_upd [OF ok p(1)])
    show "map_option links_of (h' x) = map_option links_of (h x)" if "i \<in> A" "i \<noteq> p" "x \<in> set (kids i)" for i x
    proof (rule links)
      have "x \<notin> set (kids p)" using tree_ok_single [OF ok that(1) p(1) that(3)] that(2) by blast
      moreover have "x \<noteq> n" using n(1) that by (auto simp: loose_def)
      ultimately show "x \<notin> {n, q} \<union> set ys" using p(2) by auto
    qed
    show "ends_ok h' p (xs @ q # n # ys)"
      using pd h'(4) by (auto simp: ends_ok_def hd_opt_append last_opt_append last_opt_def)
    show "siblings h' p None (xs @ q # n # ys) None"
    proof -
      have s: "siblings h p None (xs @ q # ys) None" using K(2) p(2) by simp
      then have "siblings h p None xs (Some q)" by (simp add: siblings_append)
      moreover have "siblings h' p None xs (Some q) = siblings h p None xs (Some q)"
      proof (rule siblings_cong)
        fix x assume "x \<in> set xs"
        then have "x \<notin> {n, q} \<union> set ys" using d(1) nA(2) by auto
        then show "map_option links_of (h' x) = map_option links_of (h x)" by (rule links)
      qed
      ultimately have 1: "siblings h' p None xs (Some q)" by simp
      have sy: "siblings h p (Some q) ys None" using s by (simp add: siblings_append)
      have 2: "siblings h' p (Some n) ys None"
      proof (cases ys)
        case (Cons y zs)
        obtain yd where yd: "h y = Some yd" using sy Cons by auto
        show ?thesis
          unfolding Cons
        proof (rule siblings_before [where h = h and b = "Some q" and yd = yd])
          show "siblings h p (Some q) (y # zs) None" "distinct (y # zs)" using sy d Cons by simp_all
          show "h y = Some yd" "h' y = Some (yd\<lparr>nd_prev := Some n\<rparr>)" using yd h'(5) [OF Cons] by simp_all
          show "map_option links_of (h' x) = map_option links_of (h x)" if "x \<in> set zs" for x
            using links2 [OF Cons that] .
        qed
      qed simp
      have "nd_prev qd = (if xs = [] then None else last_opt xs)" using qd(3) by simp
      then show ?thesis
        using 1 2 h'(2,3) qd by (auto simp: siblings_append)
    qed
    show "distinct (xs @ q # n # ys)" "set (xs @ q # n # ys) \<subseteq> A" using d nA by auto
    show "set (kids i) \<inter> set (xs @ q # n # ys) = {}" if "i \<in> A" "i \<noteq> p" for i
    proof -
      have "set (kids i) \<inter> set (kids p) = {}" using ok p(1) that by (simp add: tree_ok_def)
      moreover have "n \<notin> set (kids i)" using n(1) that(1) by (simp add: loose_def)
      ultimately show ?thesis using p(2) by auto
    qed
    show "acyclic (edges (kids(p := xs @ q # n # ys)) A)"
      using ok n(2) p by (subst edges_insert [where n = n]) (auto simp: tree_ok_def)
  qed (use ends in blast)
  then show ?thesis using h'(1,2) by auto
qed

lemma insert_child_ok:
  assumes ok: "tree_ok h kids A" and p: "p \<in> A"
    and n: "loose kids A n" "(n, p) \<notin> (edges kids A)\<^sup>*" "h n = Some nd" "nd_prev nd = None" "nd_next nd = None"
  shows "\<exists>h'. link_child p n h = Some h' \<and> tree_ok h' (kids(p := n # kids p)) A \<and>
    (\<exists>nd'. h' n = Some nd' \<and> nd_parent nd' = Some p)"
proof -
  note K = tree_okD [OF ok p]
  have nA: "n \<in> A" "n \<notin> set (kids p)" "n \<noteq> p" using n(1,2) p by (auto simp: loose_def)
  have pk: "p \<notin> set (kids p)"
  proof
    assume "p \<in> set (kids p)"
    then have "(p, p) \<in> edges kids A" using p by (simp add: edges_def)
    then show False using ok by (auto simp: tree_ok_def acyclic_def)
  qed
  obtain pd where pd: "h p = Some pd" "nd_child pd = hd_opt (kids p)" "nd_last pd = last_opt (kids p)"
    using K(1) by (auto simp: ends_ok_def)
  let ?nd = "nd\<lparr>nd_next := hd_opt (kids p), nd_parent := Some p\<rparr>"
  have "\<exists>h'. link_child p n h = Some h' \<and> h' n = Some ?nd \<and>
      h' p = Some (if kids p = [] then pd\<lparr>nd_last := Some n, nd_child := Some n\<rparr> else pd\<lparr>nd_child := Some n\<rparr>) \<and>
      (\<forall>y zs. kids p = y # zs \<longrightarrow> h' y = map_option (nd_prev_update (\<lambda>_. Some n)) (h y)) \<and>
      (\<forall>x. x \<notin> {n, p} \<longrightarrow> (\<forall>y zs. kids p = y # zs \<longrightarrow> x \<noteq> y) \<longrightarrow> h' x = h x)"
  proof (cases "kids p")
    case Nil
    then show ?thesis using pd n(3,5) nA by (auto simp: link_child_def node_upd_def)
  next
    case (Cons y zs)
    obtain yd where yd: "h y = Some yd" using K(2) by (auto simp: Cons)
    show ?thesis using pd yd n(3) nA pk K(3) by (auto simp: link_child_def node_upd_def Cons)
  qed
  then obtain h' where h': "link_child p n h = Some h'" "h' n = Some ?nd"
      "h' p = Some (if kids p = [] then pd\<lparr>nd_last := Some n, nd_child := Some n\<rparr> else pd\<lparr>nd_child := Some n\<rparr>)"
      "\<And>y zs. kids p = y # zs \<Longrightarrow> h' y = map_option (nd_prev_update (\<lambda>_. Some n)) (h y)"
      "\<And>x. x \<notin> {n, p} \<Longrightarrow> (\<And>y zs. kids p = y # zs \<Longrightarrow> x \<noteq> y) \<Longrightarrow> h' x = h x"
    by blast
  have ends: "map_option ends_of (h' i) = map_option ends_of (h i)" if "i \<noteq> p" for i
  proof -
    consider "i = n" | y zs where "kids p = y # zs" "i = y" | "i \<notin> {n, p}" "\<And>y zs. kids p = y # zs \<Longrightarrow> i \<noteq> y"
      using \<open>i \<noteq> p\<close> by blast
    then show ?thesis
    proof cases
      case (2 y zs)
      then show ?thesis using h'(4) [OF 2(1)] by (cases "h y") (simp_all add: ends_of_def)
    next
      case 3
      then show ?thesis using h'(5) by simp
    qed (use h'(2) n(3) in \<open>simp_all add: ends_of_def\<close>)
  qed
  have links: "map_option links_of (h' x) = map_option links_of (h x)" if x: "x \<noteq> n" "\<And>y zs. kids p = y # zs \<Longrightarrow> x \<noteq> y" for x
  proof (cases "x = p")
    case True
    then show ?thesis using h'(3) pd(1) by (simp add: links_of_def)
  next
    case False
    have "h' x = h x" by (rule h'(5)) (use x False in auto)
    then show ?thesis by simp
  qed
  have "tree_ok h' (kids(p := n # kids p)) A"
  proof (rule tree_ok_upd [OF ok p])
    show "map_option links_of (h' x) = map_option links_of (h x)" if "i \<in> A" "i \<noteq> p" "x \<in> set (kids i)" for i x
    proof (rule links)
      have "x \<notin> set (kids p)" using tree_ok_single [OF ok that(1) p that(3)] that(2) by blast
      then show "x \<noteq> y" if "kids p = y # zs" for y zs using that by auto
      show "x \<noteq> n" using n(1) that by (auto simp: loose_def)
    qed
    show "ends_ok h' p (n # kids p)"
      using pd h'(3) by (auto simp: ends_ok_def last_opt_def)
    have "siblings h' p (Some n) (kids p) None"
    proof (cases "kids p")
      case (Cons y zs)
      obtain yd where yd: "h y = Some yd" using K(2) Cons by auto
      show ?thesis
        unfolding Cons
      proof (rule siblings_before [where h = h and b = None and yd = yd])
        show "siblings h p None (y # zs) None" "distinct (y # zs)" using K(2,3) Cons by simp_all
        show "h y = Some yd" "h' y = Some (yd\<lparr>nd_prev := Some n\<rparr>)" using yd h'(4) [OF Cons] by simp_all
        show "map_option links_of (h' x) = map_option links_of (h x)" if "x \<in> set zs" for x
          by (rule links) (use that K(3) nA Cons in auto)
      qed
    qed simp
    then show "siblings h' p None (n # kids p) None" using h'(2) n(4) by (cases "kids p") auto
    show "distinct (n # kids p)" "set (n # kids p) \<subseteq> A" using K(3,4) nA by auto
    show "set (kids i) \<inter> set (n # kids p) = {}" if "i \<in> A" "i \<noteq> p" for i
    proof -
      have "set (kids i) \<inter> set (kids p) = {}" using ok p that by (simp add: tree_ok_def)
      moreover have "n \<notin> set (kids i)" using n(1) that(1) by (simp add: loose_def)
      ultimately show ?thesis by auto
    qed
    show "acyclic (edges (kids(p := n # kids p)) A)"
      using ok n(2) p by (subst edges_insert [where n = n]) (auto simp: tree_ok_def)
  qed (use ends in blast)
  then show ?thesis using h'(1,2) by auto
qed

text \<open>Links never change what a node holds.\<close>

definition data_of :: "roff_node \<Rightarrow> roff_node" where
  "data_of nd = nd\<lparr>nd_parent := None, nd_child := None, nd_last := None, nd_next := None, nd_prev := None,
     nd_head := None, nd_body := None, nd_tail := None, nd_norm := None\<rparr>"

definition same_data :: "node_heap \<Rightarrow> node_heap \<Rightarrow> bool" where
  "same_data h h' \<longleftrightarrow> (\<forall>i. map_option data_of (h' i) = map_option data_of (h i))"

lemma same_data_refl [simp]: "same_data h h"
  by (simp add: same_data_def)

lemma same_data_trans: "same_data h h' \<Longrightarrow> same_data h' h'' \<Longrightarrow> same_data h h''"
  by (simp add: same_data_def)

lemma node_upd_data: "node_upd i f h = Some h' \<Longrightarrow> (\<And>nd. data_of (f nd) = data_of nd) \<Longrightarrow> same_data h h'"
  by (auto simp: node_upd_def same_data_def)

lemma data_of_links:
  "data_of (nd_parent_update f nd) = data_of nd" "data_of (nd_child_update f nd) = data_of nd"
  "data_of (nd_last_update f nd) = data_of nd" "data_of (nd_next_update f nd) = data_of nd"
  "data_of (nd_prev_update f nd) = data_of nd" "data_of (nd_head_update f nd) = data_of nd"
  "data_of (nd_body_update f nd) = data_of nd" "data_of (nd_tail_update f nd) = data_of nd"
  "data_of (nd_norm_update f nd) = data_of nd"
  by (simp_all add: data_of_def)

lemma same_data_node: "same_data h h' \<Longrightarrow> h i = Some nd \<Longrightarrow> \<exists>nd'. h' i = Some nd' \<and> data_of nd' = data_of nd"
  unfolding same_data_def by (cases "h' i") (auto dest!: spec [of _ i])

lemma link_sibling_data: "link_sibling q n h = Some h' \<Longrightarrow> same_data h h'"
  unfolding link_sibling_def
  by (auto split: bind_splits option.splits elim!: same_data_trans dest!: node_upd_data simp: data_of_links)

lemma link_child_data: "link_child q n h = Some h' \<Longrightarrow> same_data h h'"
  unfolding link_child_def
  by (auto split: bind_splits option.splits elim!: same_data_trans dest!: node_upd_data simp: data_of_links)

lemma data_of_type: "data_of nd' = data_of nd \<Longrightarrow> nd_type nd' = nd_type nd \<and> nd_end nd' = nd_end nd \<and>
    nd_flags nd' = nd_flags nd \<and> nd_tok nd' = nd_tok nd \<and> nd_string nd' = nd_string nd"
proof -
  assume e: "data_of nd' = data_of nd"
  have "nd_type (data_of nd) = nd_type nd" "nd_end (data_of nd) = nd_end nd" "nd_flags (data_of nd) = nd_flags nd"
    "nd_tok (data_of nd) = nd_tok nd" "nd_string (data_of nd) = nd_string nd" for nd
    by (simp_all add: data_of_def)
  then show ?thesis using e by metis
qed

definition is_part :: "roff_node \<Rightarrow> bool" where
  "is_part nd \<longleftrightarrow> nd_type nd \<in> {ROFFT_HEAD, ROFFT_TAIL} \<or> nd_type nd = ROFFT_BODY \<and> nd_end nd = ENDBODY_NOT"

lemma link_part_ok:
  assumes ok: "tree_ok h kids A" and n: "h n = Some nd" "nd_parent nd = Some p" "h p = Some pd"
    and part: "is_part nd \<longrightarrow> nd_type pd = ROFFT_BLOCK"
  shows "\<exists>h'. link_part n h = Some h' \<and> tree_ok h' kids A \<and> same_data h h'"
proof (cases "is_part nd")
  case False
  then show ?thesis using n(1) ok by (auto simp: link_part_def is_part_def)
next
  case True
  define f :: "roff_node \<Rightarrow> roff_node" where "f = (case nd_type nd of ROFFT_HEAD \<Rightarrow> nd_head_update (\<lambda>_. Some n)
    | ROFFT_BODY \<Rightarrow> nd_body_update (\<lambda>_. Some n) | _ \<Rightarrow> nd_tail_update (\<lambda>_. Some n))"
  have f: "data_of (f x) = data_of x" "ends_of (f x) = ends_of x" "links_of (f x) = links_of x" "nd_type (f x) = nd_type x" for x
    by (auto simp: f_def data_of_links ends_of_def links_of_def split: roff_type.split)
  let ?h = "h(p \<mapsto> f pd)"
  obtain nd2 pd2 where n2: "?h n = Some nd2" "?h p = Some pd2" "pd2 = f pd" using n by (cases "n = p") auto
  let ?h' = "?h(n \<mapsto> nd2\<lparr>nd_norm := nd_norm pd2\<rparr>)"
  have "link_part n h = Some ?h'"
    using n n2 True part by (auto simp: link_part_def node_upd_def is_part_def f_def [symmetric] f(4))
  moreover have "map_option data_of (?h' i) = map_option data_of (h i)" "map_option ends_of (?h' i) = map_option ends_of (h i)"
    "map_option links_of (?h' i) = map_option links_of (h i)" for i
    using n n2 f by (auto simp: data_of_links ends_of_def links_of_def split: if_splits)
  then have "tree_ok ?h' kids A" "same_data h ?h'"
    using ok tree_ok_cong [of A ?h' h kids] by (simp_all only: same_data_def simp_thms)
  ultimately show ?thesis by blast
qed

primrec ins_after :: "nat \<Rightarrow> nat \<Rightarrow> nat list \<Rightarrow> nat list" where
  "ins_after q n [] = []"
| "ins_after q n (x # xs) = (if x = q then x # n # xs else x # ins_after q n xs)"

lemma ins_after_split: "q \<notin> set xs \<Longrightarrow> ins_after q n (xs @ q # ys) = xs @ q # n # ys"
  by (induction xs) auto

text \<open>The parent of the new node, and its children with the new one.\<close>

definition append_at :: "roff_man \<Rightarrow> kids \<Rightarrow> nat \<Rightarrow> bool" where
  "append_at man kids p \<longleftrightarrow> (\<exists>q. m_last man = Some q \<and>
     (case m_next man of ROFF_NEXT_SIBLING \<Rightarrow> q \<in> set (kids p) | ROFF_NEXT_CHILD \<Rightarrow> p = q))"

definition append_kids :: "roff_man \<Rightarrow> kids \<Rightarrow> nat \<Rightarrow> nat \<Rightarrow> nat list" where
  "append_kids man kids p n =
     (case m_next man of ROFF_NEXT_SIBLING \<Rightarrow> ins_after (the (m_last man)) n (kids p) | ROFF_NEXT_CHILD \<Rightarrow> n # kids p)"

text \<open>The node with its links, before it is entered into its block.\<close>

lemma roff_node_append_links:
  assumes ok: "tree_ok (m_heap man) kids A" and p: "p \<in> A" "append_at man kids p"
    and n: "loose kids A n" "(n, p) \<notin> (edges kids A)\<^sup>*" "m_heap man n = Some nd" "nd_prev nd = None" "nd_next nd = None"
    and pd: "m_heap man p = Some pd"
  shows "\<exists>h nd' pd'. roff_node_append n man = map_option (\<lambda>h'. man\<lparr>m_heap := h', m_last := Some n\<rparr>) (link_part n h) \<and>
    tree_ok h (kids(p := append_kids man kids p n)) A \<and> same_data (m_heap man) h \<and>
    h n = Some nd' \<and> nd_parent nd' = Some p \<and> is_part nd' = is_part nd \<and> nd_type nd' = nd_type nd \<and>
    h p = Some pd' \<and> nd_type pd' = nd_type pd"
proof -
  obtain q where q: "m_last man = Some q" using p(2) by (auto simp: append_at_def)
  define link where "link = (case m_next man of ROFF_NEXT_SIBLING \<Rightarrow> link_sibling q n (m_heap man)
    | ROFF_NEXT_CHILD \<Rightarrow> link_child q n (m_heap man))"
  have "\<exists>h nd'. link = Some h \<and> tree_ok h (kids(p := append_kids man kids p n)) A \<and>
    h n = Some nd' \<and> nd_parent nd' = Some p \<and> same_data (m_heap man) h"
  proof (cases "m_next man")
    case ROFF_NEXT_SIBLING
    then have "q \<in> set (kids p)" using p(2) q by (auto simp: append_at_def)
    then obtain xs ys where k: "kids p = xs @ q # ys" "q \<notin> set xs" by (meson split_list_first)
    show ?thesis
      using insert_sibling_ok [OF ok p(1) k(1) n] link_sibling_data [of q n "m_heap man"] ROFF_NEXT_SIBLING q ins_after_split [OF k(2)] k(1)
      by (auto simp: link_def append_kids_def)
  next
    case ROFF_NEXT_CHILD
    then have "p = q" using p(2) q by (auto simp: append_at_def)
    then show ?thesis
      using insert_child_ok [OF ok p(1) n] link_child_data [of q n "m_heap man"] ROFF_NEXT_CHILD
      by (auto simp: link_def append_kids_def)
  qed
  then obtain h nd' where h: "link = Some h" "tree_ok h (kids(p := append_kids man kids p n)) A"
    "h n = Some nd'" "nd_parent nd' = Some p" "same_data (m_heap man) h" by blast
  obtain pd' where pd': "h p = Some pd'" "data_of pd' = data_of pd" using same_data_node [OF h(5) pd] by blast
  have "data_of nd' = data_of nd" using same_data_node [OF h(5) n(3)] h(3) by auto
  then have "is_part nd' = is_part nd \<and> nd_type nd' = nd_type nd \<and> nd_type pd' = nd_type pd"
    using data_of_type [of nd' nd] data_of_type [OF pd'(2)] by (simp add: is_part_def)
  moreover have "roff_node_append n man = map_option (\<lambda>h'. man\<lparr>m_heap := h', m_last := Some n\<rparr>) (link_part n h)"
    using q h(1) unfolding link_def roff_node_append_def
    by (cases "link_part n h") (simp_all split: roff_next.splits)
  ultimately show ?thesis using h pd'(1) by blast
qed

text \<open>The pointer of a block to its part of a type.\<close>

definition part_of_block :: "roff_type \<Rightarrow> roff_node \<Rightarrow> nat option" where
  "part_of_block type pd = (case type of ROFFT_HEAD \<Rightarrow> nd_head pd | ROFFT_BODY \<Rightarrow> nd_body pd | _ \<Rightarrow> nd_tail pd)"

lemma link_part_entry:
  assumes "h n = Some nd" "nd_parent nd = Some p" "h p = Some pd" "is_part nd" "n \<noteq> p"
  shows "(link_part n h = None) = (nd_type pd \<noteq> ROFFT_BLOCK)"
    "link_part n h = Some h' \<Longrightarrow> map_option (part_of_block (nd_type nd)) (h' p) = Some (Some n)"
  using assms by (auto simp: link_part_def node_upd_def is_part_def part_of_block_def split: if_splits)

lemma roff_node_append_ok:
  assumes ok: "tree_ok (m_heap man) kids A" and p: "p \<in> A" "append_at man kids p"
    and n: "loose kids A n" "(n, p) \<notin> (edges kids A)\<^sup>*" "m_heap man n = Some nd" "nd_prev nd = None" "nd_next nd = None"
    and part: "m_heap man p = Some pd" "is_part nd \<longrightarrow> nd_type pd = ROFFT_BLOCK"
  shows "\<exists>h'. roff_node_append n man = Some (man\<lparr>m_heap := h', m_last := Some n\<rparr>) \<and>
    tree_ok h' (kids(p := append_kids man kids p n)) A \<and> same_data (m_heap man) h'"
proof -
  obtain h nd' pd' where h: "roff_node_append n man = map_option (\<lambda>h'. man\<lparr>m_heap := h', m_last := Some n\<rparr>) (link_part n h)"
    "tree_ok h (kids(p := append_kids man kids p n)) A" "same_data (m_heap man) h" "h n = Some nd'" "nd_parent nd' = Some p"
    "is_part nd' = is_part nd" "h p = Some pd'" "nd_type pd' = nd_type pd"
    using roff_node_append_links [OF ok p n part(1)] by blast
  have "is_part nd' \<longrightarrow> nd_type pd' = ROFFT_BLOCK" using part(2) h(6,8) by simp
  then obtain h' where "link_part n h = Some h'" "tree_ok h' (kids(p := append_kids man kids p n)) A" "same_data h h'"
    using link_part_ok [OF h(2,4,5,7)] by blast
  then show ?thesis using h(1) same_data_trans [OF h(3)] by auto
qed

lemma roff_node_append_part:
  assumes ok: "tree_ok (m_heap man) kids A" and p: "p \<in> A" "append_at man kids p"
    and n: "loose kids A n" "(n, p) \<notin> (edges kids A)\<^sup>*" "m_heap man n = Some nd" "nd_prev nd = None" "nd_next nd = None"
    and part: "m_heap man p = Some pd" "is_part nd" "n \<noteq> p"
  shows "(roff_node_append n man = None) = (nd_type pd \<noteq> ROFFT_BLOCK)"
    "roff_node_append n man = Some man' \<Longrightarrow> map_option (part_of_block (nd_type nd)) (m_heap man' p) = Some (Some n)"
proof -
  obtain h nd' pd' where h: "roff_node_append n man = map_option (\<lambda>h'. man\<lparr>m_heap := h', m_last := Some n\<rparr>) (link_part n h)"
    "h n = Some nd'" "nd_parent nd' = Some p" "is_part nd' = is_part nd" "nd_type nd' = nd_type nd" "h p = Some pd'" "nd_type pd' = nd_type pd"
    using roff_node_append_links [OF ok p n part(1)] by blast
  have "is_part nd'" using part(2) h(4) by simp
  note L = link_part_entry [OF h(2,3,6) this part(3)]
  show "(roff_node_append n man = None) = (nd_type pd \<noteq> ROFFT_BLOCK)" using L(1) h(1,7) by simp
  show "map_option (part_of_block (nd_type nd)) (m_heap man' p) = Some (Some n)" if "roff_node_append n man = Some man'"
    using L(2) h(1,5) that by (cases "link_part n h") auto
qed

end
