(* ===== verification/Roff_Unlink.thy ===== *)
theory Roff_Unlink
  imports Roff_Tree
begin

section \<open>Removal of nodes from the syntax tree\<close>

lemma siblings_after:
  assumes "siblings h p b (xs @ [x]) a" "distinct (xs @ [x])" "h x = Some xd" "h' x = Some (xd\<lparr>nd_next := a'\<rparr>)"
    and "\<And>y. y \<in> set xs \<Longrightarrow> map_option links_of (h' y) = map_option links_of (h y)"
  shows "siblings h' p b (xs @ [x]) a'"
  using assms siblings_cong [of xs h' h p b "Some x"] by (simp add: siblings_append)

lemma not_own_child:
  assumes "tree_ok h kids A" "p \<in> A"
  shows "p \<notin> set (kids p)"
proof
  assume "p \<in> set (kids p)"
  then have "(p, p) \<in> edges kids A" using assms(2) by (simp add: edges_def)
  then show False using assms(1) by (auto simp: tree_ok_def acyclic_def)
qed

lemma unlink_heap:
  assumes "h n = Some nd" "nd_parent nd = Some p" "nd_prev nd = last_opt xs" "nd_next nd = hd_opt ys"
    and "h p = Some pd" "nd_child pd = hd_opt (xs @ n # ys)" "nd_last pd = last_opt (xs @ n # ys)"
    and "distinct (p # xs @ n # ys)" "\<And>x. x \<in> set (xs @ ys) \<Longrightarrow> h x \<noteq> None"
  shows "\<exists>h'. unlink_links n h = Some h' \<and> h' n = Some nd \<and>
      h' p = Some (pd\<lparr>nd_child := hd_opt (xs @ ys), nd_last := last_opt (xs @ ys)\<rparr>) \<and>
      (xs \<noteq> [] \<longrightarrow> h' (last xs) = map_option (nd_next_update (\<lambda>_. hd_opt ys)) (h (last xs))) \<and>
      (ys \<noteq> [] \<longrightarrow> h' (hd ys) = map_option (nd_prev_update (\<lambda>_. last_opt xs)) (h (hd ys))) \<and>
      (\<forall>x. x \<noteq> p \<longrightarrow> (xs \<noteq> [] \<longrightarrow> x \<noteq> last xs) \<longrightarrow> (ys \<noteq> [] \<longrightarrow> x \<noteq> hd ys) \<longrightarrow> h' x = h x)"
proof -
  have X: "last xs \<notin> {p, n} \<and> last xs \<notin> set ys" if "xs \<noteq> []"
  proof -
    have "set xs \<inter> set ys = {}" "p \<notin> set xs" "n \<notin> set xs" using assms(8) by auto
    then show ?thesis using last_in_set [OF that] by blast
  qed
  have Y: "ys \<noteq> [] \<Longrightarrow> hd ys \<notin> {p, n}" using assms(8) hd_in_set [of ys] by auto
  have N: "n \<noteq> p" using assms(8) by auto
  have hd_xs: "hd_opt (xs @ n # ys) = Some n \<longleftrightarrow> xs = []" using assms(8) by (cases xs) auto
  have last_ys: "last_opt (xs @ n # ys) = Some n \<longleftrightarrow> ys = []"
    using assms(8) last_in_set [of ys] by (cases "ys = []") (auto simp: last_opt_def)
  have pd': "(let pd = (if nd_child pd = Some n then pd\<lparr>nd_child := nd_next nd\<rparr> else pd)
      in if nd_last pd = Some n then pd\<lparr>nd_last := nd_prev nd\<rparr> else pd) =
      pd\<lparr>nd_child := hd_opt (xs @ ys), nd_last := last_opt (xs @ ys)\<rparr>"
    using assms(3,4,6,7) hd_xs last_ys
    by (cases "xs = []"; cases "ys = []") (auto simp: hd_opt_append last_opt_append last_opt_def)
  obtain xd yd where xd: "xs \<noteq> [] \<Longrightarrow> h (last xs) = Some xd" and yd: "ys \<noteq> [] \<Longrightarrow> h (hd ys) = Some yd"
    using assms(9) [of "last xs"] assms(9) [of "hd ys"] by fastforce
  have L: "last_opt xs = (if xs = [] then None else Some (last xs))" "hd_opt ys = (if ys = [] then None else Some (hd ys))"
    by (auto simp: last_opt_def hd_opt_def split: list.split)
  show ?thesis
  proof (cases "xs = []"; cases "ys = []")
    assume "xs = []" "ys = []"
    then show ?thesis using assms(1,2,5) L N pd' assms(3,4) by (auto simp: unlink_links_def node_upd_def)
  next
    assume c: "xs = []" "ys \<noteq> []"
    then show ?thesis using assms(1,2,5) L N pd' assms(3,4) Y yd by (auto simp: unlink_links_def node_upd_def)
  next
    assume c: "xs \<noteq> []" "ys = []"
    then show ?thesis using assms(1,2,5) L N pd' assms(3,4) X xd by (auto simp: unlink_links_def node_upd_def)
  next
    assume c: "xs \<noteq> []" "ys \<noteq> []"
    have "last xs \<noteq> hd ys" using X [OF c(1)] hd_in_set [OF c(2)] by metis
    then show ?thesis
      using assms(1,2,5) L N pd' assms(3,4) X Y xd yd c by (auto simp: unlink_links_def node_upd_def)
  qed
qed

lemma unlink_links_data: "unlink_links n h = Some h' \<Longrightarrow> same_data h h'"
  unfolding unlink_links_def
  by (auto split: bind_splits option.splits elim!: same_data_trans dest!: node_upd_data simp: data_of_links Let_def)

lemma edges_sub: "set xs \<subseteq> set (kids p) \<Longrightarrow> edges (kids(p := xs)) A \<subseteq> edges kids A"
  by (auto simp: edges_def split: if_splits)

lemma unlink_links_ok:
  assumes ok: "tree_ok h kids A" and p: "p \<in> A" "kids p = xs @ n # ys"
  shows "\<exists>h'. unlink_links n h = Some h' \<and> tree_ok h' (kids(p := xs @ ys)) A \<and> same_data h h' \<and> h' n = h n \<and>
    (\<forall>x. x \<notin> set (kids p) \<longrightarrow> map_option links_of (h' x) = map_option links_of (h x))"
proof -
  note K = tree_okD [OF ok p(1)]
  have d: "distinct (p # xs @ n # ys)" using K(3) not_own_child [OF ok p(1)] by (simp add: p(2))
  have s: "siblings h p None (xs @ n # ys) None" using K(2) by (simp add: p(2))
  obtain nd where nd: "h n = Some nd" "nd_parent nd = Some p" "nd_prev nd = last_opt xs" "nd_next nd = hd_opt ys"
    using siblings_step [OF K(2) p(2)] by (auto simp: last_opt_def split: if_splits)
  obtain pd where pd: "h p = Some pd" "nd_child pd = hd_opt (xs @ n # ys)" "nd_last pd = last_opt (xs @ n # ys)"
    using K(1) by (auto simp: ends_ok_def p(2))
  have some: "h x \<noteq> None" if "x \<in> A" for x using tree_okD(1) [OF ok that] by (auto simp: ends_ok_def)
  have "h x \<noteq> None" if "x \<in> set (xs @ ys)" for x using some [of x] K(4) that by (auto simp: p(2))
  from unlink_heap [OF nd pd d this] obtain h' where h': "unlink_links n h = Some h'" "h' n = Some nd"
      "h' p = Some (pd\<lparr>nd_child := hd_opt (xs @ ys), nd_last := last_opt (xs @ ys)\<rparr>)"
    and hx: "xs \<noteq> [] \<Longrightarrow> h' (last xs) = map_option (nd_next_update (\<lambda>_. hd_opt ys)) (h (last xs))"
    and hy: "ys \<noteq> [] \<Longrightarrow> h' (hd ys) = map_option (nd_prev_update (\<lambda>_. last_opt xs)) (h (hd ys))"
    and same: "\<And>x. x \<noteq> p \<Longrightarrow> (xs \<noteq> [] \<longrightarrow> x \<noteq> last xs) \<Longrightarrow> (ys \<noteq> [] \<longrightarrow> x \<noteq> hd ys) \<Longrightarrow> h' x = h x"
    by blast
  have ends: "map_option ends_of (h' i) = map_option ends_of (h i)" if "i \<noteq> p" for i
  proof -
    consider "xs \<noteq> []" "i = last xs" | "ys \<noteq> []" "i = hd ys" | "xs \<noteq> [] \<longrightarrow> i \<noteq> last xs" "ys \<noteq> [] \<longrightarrow> i \<noteq> hd ys" by blast
    then show ?thesis
    proof cases
      case 1
      then show ?thesis using hx by (cases "h i") (simp_all add: ends_of_def)
    next
      case 2
      then show ?thesis using hy by (cases "h i") (simp_all add: ends_of_def)
    next
      case 3
      then show ?thesis using same [OF that] by simp
    qed
  qed
  have links: "map_option links_of (h' x) = map_option links_of (h x)"
    if "xs \<noteq> [] \<longrightarrow> x \<noteq> last xs" "ys \<noteq> [] \<longrightarrow> x \<noteq> hd ys" for x
  proof (cases "x = p")
    case True
    then show ?thesis using h'(3) pd(1) by (simp add: links_of_def)
  next
    case False
    then show ?thesis using same [OF False that] by simp
  qed
  have sx: "siblings h p None xs (Some n)" and sy: "siblings h p (Some n) ys None"
    using s by (simp_all add: siblings_append)
  have sx': "siblings h' p None xs (hd_opt ys)"
  proof (cases xs rule: rev_cases)
    case (snoc zs z)
    obtain zd where zd: "h z = Some zd" using sx by (auto simp: snoc siblings_append)
    have "siblings h' p None (zs @ [z]) (hd_opt ys)"
    proof (rule siblings_after [where h = h and xd = zd and a = "Some n"])
      show "map_option links_of (h' y) = map_option links_of (h y)" if "y \<in> set zs" for y
        by (rule links) (use that d snoc in \<open>auto dest: hd_in_set\<close>)
    qed (use sx snoc d zd hx in simp_all)
    then show ?thesis by (simp add: snoc)
  qed simp
  have sy': "siblings h' p (last_opt xs) ys None"
  proof (cases ys)
    case (Cons z zs)
    obtain zd where zd: "h z = Some zd" using sy by (auto simp: Cons)
    show ?thesis
      unfolding Cons
    proof (rule siblings_before [where h = h and b = "Some n" and yd = zd])
      show "map_option links_of (h' y) = map_option links_of (h y)" if "y \<in> set zs" for y
        by (rule links) (use that d Cons in \<open>auto dest: last_in_set\<close>)
    qed (use sy Cons d zd hy in simp_all)
  qed simp
  have "tree_ok h' (kids(p := xs @ ys)) A"
  proof (rule tree_ok_upd [OF ok p(1)])
    show "map_option links_of (h' x) = map_option links_of (h x)" if "i \<in> A" "i \<noteq> p" "x \<in> set (kids i)" for i x
    proof (rule links)
      have "x \<notin> set (kids p)" using tree_ok_single [OF ok that(1) p(1) that(3)] that(2) by blast
      then show "xs \<noteq> [] \<longrightarrow> x \<noteq> last xs" "ys \<noteq> [] \<longrightarrow> x \<noteq> hd ys" by (auto simp: p(2))
    qed
    show "ends_ok h' p (xs @ ys)" using h'(3) by (simp add: ends_ok_def)
    show "siblings h' p None (xs @ ys) None" using sx' sy' by (cases "ys = []") (auto simp: siblings_append last_opt_def)
    show "distinct (xs @ ys)" "set (xs @ ys) \<subseteq> A" using d K(4) by (auto simp: p(2))
    show "set (kids i) \<inter> set (xs @ ys) = {}" if "i \<in> A" "i \<noteq> p" for i
    proof -
      have "set (kids i) \<inter> set (kids p) = {}" using ok p(1) that by (simp add: tree_ok_def)
      then show ?thesis using p(2) by auto
    qed
    show "acyclic (edges (kids(p := xs @ ys)) A)"
      by (rule acyclic_subset [OF _ edges_sub]) (use ok p(2) in \<open>auto simp: tree_ok_def\<close>)
  qed (use ends in blast)
  moreover have "map_option links_of (h' x) = map_option links_of (h x)" if "x \<notin> set (kids p)" for x
    by (rule links) (use that in \<open>auto simp: p(2)\<close>)
  ultimately show ?thesis using h'(1,2) nd(1) unlink_links_data by auto
qed

end
