(* ===== verification/Roff_Delete.thy ===== *)
theory Roff_Delete
  imports Roff_Unlink
begin

section \<open>Removal of whole subtrees from the syntax tree\<close>

definition prune :: "nat set \<Rightarrow> kids \<Rightarrow> kids" where
  "prune D kids = (\<lambda>i. filter (\<lambda>x. x \<notin> D) (kids i))"

definition subtree :: "kids \<Rightarrow> nat set \<Rightarrow> nat \<Rightarrow> nat set" where
  "subtree kids A n = {x. (n, x) \<in> (edges kids A)\<^sup>*}"

text \<open>A node that has a parent, or the root.\<close>

definition in_tree :: "node_heap \<Rightarrow> kids \<Rightarrow> nat set \<Rightarrow> nat \<Rightarrow> bool" where
  "in_tree h kids A n \<longleftrightarrow> n \<in> A \<and>
     ((\<exists>p \<in> A. n \<in> set (kids p)) \<or> map_option links_of (h n) = Some (None, None, None))"

text \<open>The place before a node, where the parser continues when the node goes away.\<close>

definition point :: "roff_node \<Rightarrow> nat option \<times> roff_next" where
  "point nd = (if nd_prev nd = None then (nd_parent nd, ROFF_NEXT_CHILD) else (nd_prev nd, ROFF_NEXT_SIBLING))"

definition parse_point :: "roff_man \<Rightarrow> nat option \<times> roff_next" where
  "parse_point man = (m_last man, m_next man)"

definition links_kept :: "node_heap \<Rightarrow> node_heap \<Rightarrow> kids \<Rightarrow> nat set \<Rightarrow> nat set \<Rightarrow> nat \<Rightarrow> bool" where
  "links_kept h h' kids A D n \<longleftrightarrow> (\<forall>x. x \<notin> D \<longrightarrow> (\<forall>p \<in> A. n \<in> set (kids p) \<longrightarrow> x \<notin> set (kids p)) \<longrightarrow>
     map_option links_of (h' x) = map_option links_of (h x))"

lemma links_keptD: "links_kept h h' kids A D n \<Longrightarrow> x \<notin> D \<Longrightarrow> (\<And>p. p \<in> A \<Longrightarrow> n \<in> set (kids p) \<Longrightarrow> x \<notin> set (kids p)) \<Longrightarrow>
    map_option links_of (h' x) = map_option links_of (h x)"
  by (simp add: links_kept_def)

lemma tree_ok_kids_cong: "(\<And>i. i \<in> A \<Longrightarrow> kids' i = kids i) \<Longrightarrow> tree_ok h kids' A = tree_ok h kids A"
proof -
  assume e: "\<And>i. i \<in> A \<Longrightarrow> kids' i = kids i"
  then have "edges kids' A = edges kids A" by (auto simp: edges_def)
  then show ?thesis using e by (simp add: tree_ok_def)
qed

lemma subtree_in: "tree_ok h kids A \<Longrightarrow> n \<in> A \<Longrightarrow> subtree kids A n \<subseteq> A"
proof
  fix x assume ok: "tree_ok h kids A" "n \<in> A" "x \<in> subtree kids A n"
  have "(n, x) \<in> (edges kids A)\<^sup>*" using ok(3) by (simp add: subtree_def)
  then show "x \<in> A"
    by (induction rule: rtrancl_induct) (use ok(1,2) in \<open>auto simp: edges_def tree_ok_def\<close>)
qed

lemma subtree_self [simp]: "n \<in> subtree kids A n"
  by (simp add: subtree_def)

lemma no_way_back:
  assumes "tree_ok h kids A" "p \<in> A" "c \<in> set (kids p)"
  shows "p \<notin> subtree kids A c"
proof
  assume "p \<in> subtree kids A c"
  moreover have "(p, c) \<in> edges kids A" using assms by (simp add: edges_def)
  ultimately have "(p, p) \<in> (edges kids A)\<^sup>+" by (simp add: subtree_def rtrancl_into_trancl2)
  then show False using assms(1) by (auto simp: tree_ok_def acyclic_def)
qed

text \<open>The subtree of a node consists of that of its first child and of the rest.\<close>

lemma subtree_prune:
  assumes ok: "tree_ok h kids A" "n \<in> A" "kids n = c # cs"
  defines "D \<equiv> subtree kids A c"
  shows "subtree (prune D kids) (A - D) n \<union> D = subtree kids A n" "n \<notin> D" "c \<notin> subtree (prune D kids) (A - D) n"
proof -
  have sub: "edges (prune D kids) (A - D) \<subseteq> edges kids A" by (auto simp: edges_def prune_def)
  show n: "n \<notin> D" unfolding D_def by (rule no_way_back [OF ok(1,2)]) (simp add: ok(3))
  have nc: "(n, c) \<in> edges kids A" using ok by (simp add: edges_def)
  show "subtree (prune D kids) (A - D) n \<union> D = subtree kids A n"
  proof (intro equalityI subsetI)
    fix x assume "x \<in> subtree (prune D kids) (A - D) n \<union> D"
    then show "x \<in> subtree kids A n"
      using rtrancl_mono [OF sub] nc by (auto simp: subtree_def D_def intro: converse_rtrancl_into_rtrancl)
  next
    fix x assume "x \<in> subtree kids A n"
    then have "(n, x) \<in> (edges kids A)\<^sup>*" by (simp add: subtree_def)
    then show "x \<in> subtree (prune D kids) (A - D) n \<union> D"
    proof (induction rule: rtrancl_induct)
      case (step y z)
      show ?case
      proof (cases "z \<in> D")
        case False
        then have "y \<notin> D" using step(2) by (auto simp: D_def subtree_def intro: rtrancl_into_rtrancl)
        then have "(y, z) \<in> edges (prune D kids) (A - D)" "y \<in> subtree (prune D kids) (A - D) n"
          using step False by (auto simp: edges_def prune_def)
        then show ?thesis by (auto simp: subtree_def intro: rtrancl_into_rtrancl)
      qed simp
    qed simp
  qed
  have "subtree (prune D kids) (A - D) n \<inter> D = {}"
  proof -
    have "x \<notin> D" if "(n, x) \<in> (edges (prune D kids) (A - D))\<^sup>*" for x
      using that by (induction rule: rtrancl_induct) (use n in \<open>auto simp: edges_def prune_def\<close>)
    then show ?thesis by (auto simp: subtree_def)
  qed
  then show "c \<notin> subtree (prune D kids) (A - D) n" using subtree_self [of c kids A] by (auto simp: D_def)
qed

lemma filter_other: "n \<notin> set xs \<Longrightarrow> filter (\<lambda>x. x \<noteq> n) xs = xs"
  by (induction xs) auto

lemma prune_prune: "prune E (prune D kids) = prune (D \<union> E) kids"
  by (auto simp: prune_def fun_eq_iff intro: filter_cong)

subsection \<open>One node: \<open>roff_node_unlink\<close>\<close>

lemma unlink_links_placed:
  assumes ok: "tree_ok h kids A" and n: "in_tree h kids A n"
  shows "\<exists>h'. unlink_links n h = Some h' \<and> tree_ok h' (prune {n} kids) A \<and> same_data h h' \<and> h' n = h n \<and>
    links_kept h h' kids A {} n"
proof (cases "\<exists>p \<in> A. n \<in> set (kids p)")
  case True
  then obtain p where p: "p \<in> A" "n \<in> set (kids p)" by blast
  then obtain xs ys where k: "kids p = xs @ n # ys" by (meson split_list)
  obtain h' where h': "unlink_links n h = Some h'" "tree_ok h' (kids(p := xs @ ys)) A" "same_data h h'" "h' n = h n"
    and keep: "\<And>x. x \<notin> set (kids p) \<Longrightarrow> map_option links_of (h' x) = map_option links_of (h x)"
    using unlink_links_ok [OF ok p(1) k] by blast
  have "n \<notin> set (xs @ ys)" using tree_okD(3) [OF ok p(1)] by (auto simp: k)
  then have "filter (\<lambda>x. x \<notin> {n}) (xs @ n # ys) = xs @ ys" by (simp add: filter_other)
  moreover have "n \<notin> set (kids i)" if "i \<in> A" "i \<noteq> p" for i
    using tree_ok_single [OF ok that(1) p(1) _ p(2)] that(2) by blast
  ultimately have "prune {n} kids i = (kids(p := xs @ ys)) i" if "i \<in> A" for i
    using that by (auto simp: prune_def k filter_id_conv)
  then have "tree_ok h' (prune {n} kids) A" using h'(2) tree_ok_kids_cong by metis
  moreover have "links_kept h h' kids A {} n" using keep p by (auto simp: links_kept_def)
  ultimately show ?thesis using h' by blast
next
  case False
  then obtain nd where nd: "h n = Some nd" "nd_parent nd = None" "nd_prev nd = None" "nd_next nd = None"
    using n by (auto simp: in_tree_def links_of_def)
  then have "unlink_links n h = Some h" by (simp add: unlink_links_def)
  moreover have "prune {n} kids i = kids i" if "i \<in> A" for i
    using False that by (auto simp: prune_def filter_id_conv)
  then have "tree_ok h (prune {n} kids) A" using ok tree_ok_kids_cong by metis
  ultimately show ?thesis by (simp add: links_kept_def)
qed

lemma roff_node_unlink_ok:
  assumes ok: "tree_ok (m_heap man) kids A" and n: "in_tree (m_heap man) kids A n" "m_heap man n = Some nd"
  shows "\<exists>man'. roff_node_unlink n man = Some man' \<and> tree_ok (m_heap man') (prune {n} kids) A \<and>
    same_data (m_heap man) (m_heap man') \<and> m_heap man' n = Some nd \<and>
    links_kept (m_heap man) (m_heap man') kids A {} n \<and>
    parse_point man' = (if m_last man = Some n then point nd else parse_point man) \<and>
    m_first man' = (if m_first man = Some n then None else m_first man)"
proof -
  obtain h' where h': "unlink_links n (m_heap man) = Some h'" "tree_ok h' (prune {n} kids) A" "same_data (m_heap man) h'"
    "h' n = m_heap man n" "links_kept (m_heap man) h' kids A {} n"
    using unlink_links_placed [OF ok n(1)] by blast
  then show ?thesis
    using n(2) by (auto simp: roff_node_unlink_def point_def parse_point_def Let_def)
qed

subsection \<open>A subtree: \<open>roff_node_delete\<close>\<close>

text \<open>
  Everything \<open>roff_node_delete\<close> does, relative to the subtree \<open>D\<close>: its nodes are freed, the
  others keep their data and remain a tree, and the parse point moves out of the subtree.
\<close>

definition deleted :: "nat \<Rightarrow> nat set \<Rightarrow> kids \<Rightarrow> nat set \<Rightarrow> roff_man \<Rightarrow> roff_man \<Rightarrow> bool" where
  "deleted n D kids A man man' \<longleftrightarrow>
     tree_ok (m_heap man') (prune D kids) (A - D) \<and>
     (\<forall>i. map_option data_of (m_heap man' i) = (if i \<in> D then None else map_option data_of (m_heap man i))) \<and>
     links_kept (m_heap man) (m_heap man') kids A D n \<and>
     parse_point man' = (if m_last man \<in> Some ` D then point (the (m_heap man n)) else parse_point man) \<and>
     m_first man' = (if m_first man \<in> Some ` D then None else m_first man)"

lemma tree_ok_remove:
  assumes ok: "tree_ok h kids A" and n: "\<And>i. i \<in> A \<Longrightarrow> n \<notin> set (kids i)"
  shows "tree_ok (h(n := None)) kids (A - {n})"
proof -
  have s: "edges kids (A - {n}) \<subseteq> edges kids A" by (auto simp: edges_def)
  have "tree_ok h kids (A - {n})"
    using ok n acyclic_subset [OF _ s] by (fastforce simp: tree_ok_def)
  moreover have "tree_ok (h(n := None)) kids (A - {n}) = tree_ok h kids (A - {n})"
    by (rule tree_ok_cong) (use n in auto)
  ultimately show ?thesis by simp
qed

lemma delete_leaf:
  assumes ok: "tree_ok (m_heap man) kids A" and n: "in_tree (m_heap man) kids A n" "kids n = []"
  shows "\<exists>man'. roff_node_delete n man = Some man' \<and> deleted n (subtree kids A n) kids A man man'"
proof -
  have nA: "n \<in> A" using n by (simp add: in_tree_def)
  then obtain nd where nd: "m_heap man n = Some nd" "nd_child nd = None"
    using tree_okD(1) [OF ok nA] n(2) by (auto simp: ends_ok_def)
  obtain man' where man': "roff_node_unlink n man = Some man'" "tree_ok (m_heap man') (prune {n} kids) A"
    "same_data (m_heap man) (m_heap man')" "m_heap man' n = Some nd" "links_kept (m_heap man) (m_heap man') kids A {} n"
    "parse_point man' = (if m_last man = Some n then point nd else parse_point man)"
    "m_first man' = (if m_first man = Some n then None else m_first man)"
    using roff_node_unlink_ok [OF ok n(1) nd(1)] by blast
  have r: "subtree kids A n = {n}"
  proof -
    have "x = n" if "(n, x) \<in> (edges kids A)\<^sup>*" for x
      using that by (induction rule: rtrancl_induct) (use n(2) in \<open>auto simp: edges_def\<close>)
    then show ?thesis by (auto simp: subtree_def)
  qed
  have "roff_node_delete n man = Some (roff_node_free n man')"
    by (subst roff_node_delete.simps) (simp add: nd man'(1))
  moreover have "tree_ok (m_heap (roff_node_free n man')) (prune {n} kids) (A - {n})"
    using tree_ok_remove [OF man'(2)] by (auto simp: roff_node_free_def prune_def)
  moreover have "links_kept (m_heap man) (m_heap (roff_node_free n man')) kids A {n} n"
    using man'(5) by (auto simp: links_kept_def roff_node_free_def)
  ultimately show ?thesis
    using man'(3,6,7) nd(1) by (auto simp: deleted_def r roff_node_free_def same_data_def parse_point_def)
qed

lemma roff_node_delete_ok:
  assumes "tree_ok (m_heap man) kids A" "in_tree (m_heap man) kids A n"
  shows "\<exists>man'. roff_node_delete n man = Some man' \<and> deleted n (subtree kids A n) kids A man man'"
  using assms
proof (induction "card (subtree kids A n)" arbitrary: n man kids A rule: less_induct)
  case less
  note ok = less.prems(1) and pl = less.prems(2)
  have nA: "n \<in> A" using pl by (simp add: in_tree_def)
  have fin: "finite (subtree kids A n)" using subtree_in [OF ok nA] ok finite_subset by (auto simp: tree_ok_def)
  show ?case
  proof (cases "kids n")
    case Nil
    then show ?thesis using delete_leaf [OF ok pl] by simp
  next
    case (Cons c cs)
    define D where "D = subtree kids A c"
    define kids1 where "kids1 = prune D kids"
    define E where "E = subtree kids1 (A - D) n"
    note R = subtree_prune [OF ok nA Cons, folded D_def, folded kids1_def, folded E_def]
    have cA: "c \<in> A" using tree_okD(4) [OF ok nA] Cons by auto
    have cn: "c \<in> set (kids n)" by (simp add: Cons)
    obtain nd where nd: "m_heap man n = Some nd" "nd_child nd = Some c"
      using tree_okD(1) [OF ok nA] Cons by (auto simp: ends_ok_def)
    obtain cd where cd: "m_heap man c = Some cd" "nd_parent cd = Some n" "nd_prev cd = None"
      using tree_okD(2) [OF ok nA] Cons by auto
    have sub: "D \<subseteq> subtree kids A n" "E \<subseteq> subtree kids A n" using R(1) by blast+
    have cD: "c \<in> D" by (simp add: D_def)
    have "D \<noteq> subtree kids A n" using R(2) subtree_self [of n kids A] by blast
    then have "card D < card (subtree kids A n)" using psubset_card_mono [OF fin] sub(1) by blast
    moreover have "in_tree (m_heap man) kids A c" using cA cn nA by (auto simp: in_tree_def)
    ultimately obtain man1 where m1: "roff_node_delete c man = Some man1" "deleted c D kids A man man1"
      using less.hyps ok unfolding D_def by blast
    then have ok1: "tree_ok (m_heap man1) kids1 (A - D)" by (simp add: deleted_def kids1_def)
    have keep1: "links_kept (m_heap man) (m_heap man1) kids A D c" using m1(2) by (simp add: deleted_def)
    have c_only: "p = n" if "p \<in> A" "c \<in> set (kids p)" for p using tree_ok_single [OF ok that(1) nA that(2) cn] .
    have ln: "map_option links_of (m_heap man1 n) = map_option links_of (m_heap man n)"
      by (rule links_keptD [OF keep1 R(2)]) (use c_only not_own_child [OF ok nA] in blast)
    have pl1: "in_tree (m_heap man1) kids1 (A - D) n"
    proof (cases "\<exists>p \<in> A. n \<in> set (kids p)")
      case True
      then obtain p where p: "p \<in> A" "n \<in> set (kids p)" by blast
      have "p \<notin> D"
      proof
        assume "p \<in> D"
        then have "p \<in> subtree kids A n" using R(1) by blast
        then show False using no_way_back [OF ok p] by blast
      qed
      then show ?thesis using p R(2) nA by (auto simp: in_tree_def kids1_def prune_def)
    next
      case False
      then show ?thesis using pl ln R(2) by (auto simp: in_tree_def)
    qed
    have "E \<noteq> subtree kids A n" using R(3) sub(1) cD by blast
    then have "card E < card (subtree kids A n)" using psubset_card_mono [OF fin] sub(2) by blast
    then obtain man2 where m2: "roff_node_delete n man1 = Some man2" "deleted n E kids1 (A - D) man1 man2"
      using less.hyps ok1 pl1 unfolding E_def by blast
    have "roff_node_delete n man = Some man2"
      by (subst roff_node_delete.simps) (simp add: nd m1(1) m2(1))
    moreover have "deleted n (D \<union> E) kids A man man2"
      unfolding deleted_def
    proof (intro conjI allI)
      show "tree_ok (m_heap man2) (prune (D \<union> E) kids) (A - (D \<union> E))"
      proof -
        have "A - D - E = A - (D \<union> E)" by blast
        then show ?thesis using m2(2) by (simp add: deleted_def kids1_def prune_prune)
      qed
      show "map_option data_of (m_heap man2 i) = (if i \<in> D \<union> E then None else map_option data_of (m_heap man i))" for i
        using m1(2) m2(2) by (simp add: deleted_def)
      show "links_kept (m_heap man) (m_heap man2) kids A (D \<union> E) n"
        unfolding links_kept_def
      proof (intro allI impI)
        fix x assume x: "x \<notin> D \<union> E" "\<forall>p \<in> A. n \<in> set (kids p) \<longrightarrow> x \<notin> set (kids p)"
        have "x \<notin> set (kids n)"
        proof
          assume "x \<in> set (kids n)"
          then have "(n, x) \<in> edges kids A" using nA by (simp add: edges_def)
          then have "x \<in> subtree kids A n" by (auto simp: subtree_def)
          then show False using R(1) x(1) by blast
        qed
        then have "map_option links_of (m_heap man1 x) = map_option links_of (m_heap man x)"
          using links_keptD [OF keep1] x(1) c_only by blast
        moreover have "map_option links_of (m_heap man2 x) = map_option links_of (m_heap man1 x)"
        proof (rule links_keptD [where n = n and D = E and kids = kids1 and A = "A - D"])
          show "links_kept (m_heap man1) (m_heap man2) kids1 (A - D) E n" using m2(2) by (simp add: deleted_def)
          show "x \<notin> E" using x(1) by simp
          show "x \<notin> set (kids1 p)" if "p \<in> A - D" "n \<in> set (kids1 p)" for p
            using x(2) that by (auto simp: kids1_def prune_def)
        qed
        ultimately show "map_option links_of (m_heap man2 x) = map_option links_of (m_heap man x)" by simp
      qed
      have point1: "point (the (m_heap man1 n)) = point (the (m_heap man n))"
        using ln nd(1) by (cases "m_heap man1 n") (auto simp: links_of_def point_def)
      have "point (the (m_heap man c)) = (Some n, ROFF_NEXT_CHILD)" using cd by (simp add: point_def)
      then have p1: "parse_point man1 = (if m_last man \<in> Some ` D then (Some n, ROFF_NEXT_CHILD) else parse_point man)"
        using m1(2) by (simp add: deleted_def)
      have p2: "parse_point man2 = (if m_last man1 \<in> Some ` E then point (the (m_heap man n)) else parse_point man1)"
        using m2(2) point1 by (simp add: deleted_def)
      have "n \<in> E" by (simp add: E_def)
      then show "parse_point man2 =
          (if m_last man \<in> Some ` (D \<union> E) then point (the (m_heap man n)) else parse_point man)"
        using p1 p2 by (auto simp: parse_point_def split: if_splits)
      show "m_first man2 = (if m_first man \<in> Some ` (D \<union> E) then None else m_first man)"
        using m1(2) m2(2) by (auto simp: deleted_def)
    qed
    moreover have "D \<union> E = subtree kids A n" using R(1) by blast
    ultimately show ?thesis by auto
  qed
qed

end
