(* ===== verification/Roff_Walk.thy ===== *)
theory Roff_Walk
  imports Roff_Delete
begin

section \<open>Walking through the syntax tree\<close>

definition visible :: "node_heap \<Rightarrow> nat \<Rightarrow> bool" where
  "visible h i \<longleftrightarrow> (\<exists>nd. h i = Some nd \<and> \<not> roff_node_transparent nd)"

text \<open>Following a link that runs along a list finds the first visible node of the list.\<close>

primrec runs_along :: "(roff_node \<Rightarrow> nat option) \<Rightarrow> node_heap \<Rightarrow> nat list \<Rightarrow> bool" where
  "runs_along f h [] \<longleftrightarrow> True"
| "runs_along f h (x # xs) \<longleftrightarrow> (\<exists>nd. h x = Some nd \<and> f nd = hd_opt xs) \<and> runs_along f h xs"

lemma skip_nodes_find: "runs_along f h xs \<Longrightarrow> skip_nodes f h (hd_opt xs) = Some (List.find (visible h) xs)"
  by (induction xs) (auto simp: skip_nodes.simps [of _ _ None] skip_nodes.simps [of _ _ "Some x" for x] visible_def)

lemma runs_along_next: "siblings h p b xs None \<Longrightarrow> runs_along nd_next h xs"
  by (induction xs arbitrary: b) auto

lemma runs_along_prev: "siblings h p None xs a \<Longrightarrow> runs_along nd_prev h (rev xs)"
proof (induction xs arbitrary: a rule: rev_induct)
  case (snoc x xs)
  have "last_opt xs = hd_opt (rev xs)" by (cases xs rule: rev_cases) simp_all
  then show ?case using snoc by (auto simp: siblings_append last_opt_def split: if_splits)
qed simp

lemma siblings_around:
  assumes "tree_ok h kids A" "p \<in> A" "kids p = xs @ n # ys"
  shows "\<exists>nd. h n = Some nd \<and> nd_prev nd = hd_opt (rev xs) \<and> nd_next nd = hd_opt ys"
    "runs_along nd_next h ys" "runs_along nd_prev h (rev xs)"
proof -
  have s: "siblings h p None (xs @ n # ys) None" using tree_okD(2) [OF assms(1,2)] assms(3) by simp
  have "last_opt xs = hd_opt (rev xs)" by (cases xs rule: rev_cases) simp_all
  then show "\<exists>nd. h n = Some nd \<and> nd_prev nd = hd_opt (rev xs) \<and> nd_next nd = hd_opt ys"
    using siblings_step [OF s refl] by (auto simp: last_opt_def split: if_splits)
  show "runs_along nd_next h ys" "runs_along nd_prev h (rev xs)"
    using s by (auto simp: siblings_append intro: runs_along_next runs_along_prev)
qed

text \<open>The texts of a list of nodes: where a node has no text, those of its children.\<close>

inductive node_texts :: "node_heap \<Rightarrow> kids \<Rightarrow> nat list \<Rightarrow> string list \<Rightarrow> bool" for h kids where
  none: "node_texts h kids [] []"
| leaf: "h x = Some nd \<Longrightarrow> nd_string nd = Some s \<Longrightarrow> node_texts h kids xs ts \<Longrightarrow> node_texts h kids (x # xs) (s # ts)"
| inner: "h x = Some nd \<Longrightarrow> nd_string nd = None \<Longrightarrow> node_texts h kids (kids x) us \<Longrightarrow> node_texts h kids xs ts \<Longrightarrow>
    node_texts h kids (x # xs) (us @ ts)"

inductive_cases node_texts_nilE: "node_texts h kids [] ts"
inductive_cases node_texts_consE: "node_texts h kids (x # xs) ts"

lemma node_texts_unique: "node_texts h kids xs ts \<Longrightarrow> node_texts h kids xs us \<Longrightarrow> ts = us"
proof (induction xs ts arbitrary: us rule: node_texts.induct)
  case none
  then show ?case by (blast elim: node_texts_nilE)
next
  case (leaf x nd s xs ts)
  obtain ts' where ts': "us = s # ts'" "node_texts h kids xs ts'"
    by (rule node_texts_consE [OF leaf.prems]) (use leaf.hyps(1,2) in simp_all)
  show ?case using leaf.IH [OF ts'(2)] ts'(1) by simp
next
  case (inner x nd us1 xs ts)
  obtain vs ts' where ts': "us = vs @ ts'" "node_texts h kids (kids x) vs" "node_texts h kids xs ts'"
    by (rule node_texts_consE [OF inner.prems]) (use inner.hyps(1,2) in simp_all)
  show ?case using inner.IH(1) [OF ts'(2)] inner.IH(2) [OF ts'(3)] ts'(1) by simp
qed

lemma deroff_list_ok:
  assumes "runs_along nd_next h xs"
    and "\<And>x nd. x \<in> set xs \<Longrightarrow> h x = Some nd \<Longrightarrow> nd_string nd = None \<Longrightarrow>
      \<exists>us. node_texts h kids (kids x) us \<and> (\<forall>d. deroff_list h d (nd_child nd) = Some (fold deroff_text us d))"
  shows "\<exists>ts. node_texts h kids xs ts \<and> (\<forall>d. deroff_list h d (hd_opt xs) = Some (fold deroff_text ts d))"
  using assms
proof (induction xs)
  case Nil
  have "deroff_list h d None = Some d" for d by (subst deroff_list.simps) simp
  then show ?case using node_texts.none by force
next
  case (Cons x xs)
  obtain nd where nd: "h x = Some nd" "nd_next nd = hd_opt xs" using Cons.prems(1) by auto
  have "runs_along nd_next h xs" using Cons.prems(1) by simp
  from Cons.IH [OF this] Cons.prems(2) obtain ts where ts: "node_texts h kids xs ts"
    "\<And>d. deroff_list h d (hd_opt xs) = Some (fold deroff_text ts d)" by (metis list.set_intros(2))
  show ?case
  proof (cases "nd_string nd")
    case (Some s)
    have "deroff_list h d (hd_opt (x # xs)) = Some (fold deroff_text (s # ts) d)" for d
      by (subst deroff_list.simps) (simp add: nd Some ts(2))
    then show ?thesis using node_texts.leaf [of h x nd s kids xs ts] nd(1) Some ts(1) by blast
  next
    case None
    obtain us where us: "node_texts h kids (kids x) us" "\<And>d. deroff_list h d (nd_child nd) = Some (fold deroff_text us d)"
      using Cons.prems(2) [of x nd] nd(1) None by auto
    have "deroff_list h d (hd_opt (x # xs)) = Some (fold deroff_text (us @ ts) d)" for d
      by (subst deroff_list.simps) (simp add: nd None us(2) ts(2))
    then show ?thesis using node_texts.inner [of h x nd kids us xs ts] nd(1) None us(1) ts(1) by blast
  qed
qed

lemma deroff_children_ok:
  assumes ok: "tree_ok h kids A" and n: "n \<in> A"
  shows "\<exists>us. node_texts h kids (kids n) us \<and> (\<forall>d. deroff_list h d (hd_opt (kids n)) = Some (fold deroff_text us d))"
  using n
proof (induction "card (subtree kids A n)" arbitrary: n rule: less_induct)
  case less
  have fin: "finite (subtree kids A n)" using subtree_in [OF ok less.prems] ok finite_subset by (auto simp: tree_ok_def)
  show ?case
  proof (rule deroff_list_ok)
    show "runs_along nd_next h (kids n)" by (rule runs_along_next [OF tree_okD(2) [OF ok less.prems]])
    fix x nd assume x: "x \<in> set (kids n)" and nd: "h x = Some nd" "nd_string nd = None"
    have xA: "x \<in> A" using x tree_okD(4) [OF ok less.prems] by auto
    have "subtree kids A x \<subseteq> subtree kids A n"
      using x less.prems by (auto simp: subtree_def edges_def intro: converse_rtrancl_into_rtrancl)
    moreover have "subtree kids A x \<noteq> subtree kids A n"
      using no_way_back [OF ok less.prems x] subtree_self [of n kids A] by blast
    ultimately have "card (subtree kids A x) < card (subtree kids A n)" using psubset_card_mono [OF fin] by blast
    moreover have "nd_child nd = hd_opt (kids x)" using tree_okD(1) [OF ok xA] nd(1) by (simp add: ends_ok_def)
    ultimately show "\<exists>us. node_texts h kids (kids x) us \<and> (\<forall>d. deroff_list h d (nd_child nd) = Some (fold deroff_text us d))"
      using less.hyps [of x] xA by simp
  qed
qed

lemma deroff_node_ok:
  assumes ok: "tree_ok h kids A" and n: "n \<in> A"
  shows "\<exists>ts. node_texts h kids [n] ts \<and> deroff h d n = Some (fold deroff_text ts d)"
proof -
  obtain nd where nd: "h n = Some nd" "nd_child nd = hd_opt (kids n)" using tree_okD(1) [OF ok n] by (auto simp: ends_ok_def)
  show ?thesis
  proof (cases "nd_string nd")
    case (Some s)
    then show ?thesis using nd node_texts.leaf [of h n nd s kids "[]" "[]"] node_texts.none [of h kids] by (force simp: deroff_def)
  next
    case None
    obtain us where us: "node_texts h kids (kids n) us" "\<And>d. deroff_list h d (hd_opt (kids n)) = Some (fold deroff_text us d)"
      using deroff_children_ok [OF ok n] by blast
    then show ?thesis using nd None node_texts.inner [of h n nd kids us "[]" "[]"] node_texts.none [of h kids] by (force simp: deroff_def)
  qed
qed

subsection \<open>Blanks around a text\<close>

text \<open>White space, and the escape sequences for blanks and for nothing.\<close>

definition leading_blank :: "string \<Rightarrow> bool" where
  "leading_blank g \<longleftrightarrow> (\<exists>c. g = [c] \<and> isspace c) \<or> (\<exists>c \<in> set '' %&0^|~''. g = [BSLASH, c])"

lemma isspace_BSLASH [simp]: "\<not> isspace BSLASH"
  by (simp add: isspace_def ord_of_def)

lemma deroff_lead_blanks:
  "list_all leading_blank gs \<Longrightarrow> m \<noteq> [] \<Longrightarrow> \<not> isspace (hd m) \<Longrightarrow> hd m \<noteq> BSLASH \<Longrightarrow> deroff_lead (concat gs @ m) = m"
proof (induction gs)
  case Nil
  then show ?case by (cases m) auto
next
  case (Cons g gs)
  then show ?case by (auto simp: leading_blank_def)
qed

lemma deroff_trail_blanks:
  assumes "m \<noteq> []" "\<not> isspace (last m)" "last m \<noteq> BSLASH" "list_all isspace bl" "bs \<in> {[], [BSLASH]}"
  shows "deroff_trail (m @ bl @ bs) = m"
proof -
  have r: "rev (dropWhile isspace (rev (m @ bl))) = m"
    using assms(1,2,4) dropWhile_append2 [of "rev bl" isspace "rev m"]
    by (cases m rule: rev_cases) (simp_all add: list_all_iff)
  show ?thesis
  proof (cases "bs = []")
    case True
    have "last (m @ bl) \<noteq> BSLASH"
    proof (cases "bl = []")
      case True
      then show ?thesis using assms(1,3) by simp
    next
      case False
      then have "isspace (last bl)" using assms(4) by (simp add: list_all_iff)
      then show ?thesis using False isspace_BSLASH by (metis last_appendR)
    qed
    then show ?thesis using True r by (simp add: deroff_trail_def)
  next
    case False
    then have "bs = [BSLASH]" using assms(5) by simp
    then show ?thesis using r by (simp add: deroff_trail_def butlast_append)
  qed
qed

end
