(* ===== verification/Roff_Syntax.thy ===== *)
theory Roff_Syntax
  imports Roff_Walk
begin

section \<open>Correctness of the syntax tree\<close>

text \<open>The state of the parser: a tree, and a place in it where the next node goes.\<close>

definition man_ok :: "roff_man \<Rightarrow> kids \<Rightarrow> nat set \<Rightarrow> bool" where
  "man_ok man kids A \<longleftrightarrow> tree_ok (m_heap man) kids A \<and> (\<exists>p \<in> A. append_at man kids p)"

lemma tree_ok_dom: "tree_ok h kids A \<Longrightarrow> i \<in> A \<Longrightarrow> \<exists>nd. h i = Some nd"
  using tree_okD(1) [of h kids A i] by (auto simp: ends_ok_def)

text \<open>A new node.\<close>

lemma tree_ok_new:
  assumes ok: "tree_ok h kids A" and a: "h a = None"
    and nd: "nd_child nd = None" "nd_last nd = None"
  shows "tree_ok (h(a \<mapsto> nd)) (kids(a := [])) (insert a A)" "loose (kids(a := [])) (insert a A) a" "a \<notin> A"
    "edges (kids(a := [])) (insert a A) = edges kids A"
proof -
  show aA: "a \<notin> A" using tree_ok_dom [OF ok, of a] a by auto
  have nk: "a \<notin> set (kids i)" if "i \<in> A" for i using tree_okD(4) [OF ok that] aA by auto
  show e: "edges (kids(a := [])) (insert a A) = edges kids A" using aA by (auto simp: edges_def split: if_splits)
  have "tree_ok (h(a \<mapsto> nd)) kids A = tree_ok h kids A"
    by (rule tree_ok_cong) (use aA nk in auto)
  then have ok': "tree_ok (h(a \<mapsto> nd)) kids A" using ok by simp
  have "ends_ok (h(a \<mapsto> nd)) a []" using nd by (simp add: ends_ok_def)
  then show "tree_ok (h(a \<mapsto> nd)) (kids(a := [])) (insert a A)"
    using ok' e aA unfolding tree_ok_def by (auto simp del: fun_upd_apply simp: fun_upd_def)
  show "loose (kids(a := [])) (insert a A) a" using nk by (auto simp: loose_def)
qed

lemma append_new_ok:
  assumes ok: "tree_ok (m_heap man) kids A" and p: "p \<in> A" "append_at man kids p" and a: "m_heap man a = None"
    and nd: "nd_child nd = None" "nd_last nd = None" "nd_prev nd = None" "nd_next nd = None"
    and part: "is_part nd \<longrightarrow> (\<exists>pd. m_heap man p = Some pd \<and> nd_type pd = ROFFT_BLOCK)"
  shows "\<exists>h' nd'. roff_node_append a (man\<lparr>m_flags := fs, m_heap := (m_heap man)(a \<mapsto> nd)\<rparr>) =
      Some (man\<lparr>m_flags := fs, m_heap := h', m_last := Some a\<rparr>) \<and>
    tree_ok h' (kids(a := [], p := append_kids man kids p a)) (insert a A) \<and>
    (\<forall>i. i \<noteq> a \<longrightarrow> map_option data_of (h' i) = map_option data_of (m_heap man i)) \<and>
    h' a = Some nd' \<and> data_of nd' = data_of nd"
proof -
  let ?man = "man\<lparr>m_flags := fs, m_heap := (m_heap man)(a \<mapsto> nd)\<rparr>"
  note N = tree_ok_new [OF ok a nd(1,2)]
  obtain pd where pd: "m_heap man p = Some pd" using tree_ok_dom [OF ok p(1)] by blast
  have ap: "p \<noteq> a" using p(1) N(3) by auto
  have no_edge: "(a, p) \<notin> (edges kids A)\<^sup>*"
  proof
    assume "(a, p) \<in> (edges kids A)\<^sup>*"
    then show False using ap N(3) by (auto simp: edges_def elim: converse_rtranclE)
  qed
  have "append_at ?man (kids(a := [])) p" "append_kids ?man (kids(a := [])) p a = append_kids man kids p a"
    using p(2) ap by (auto simp: append_at_def append_kids_def split: roff_next.splits)
  moreover have "\<exists>h'. roff_node_append a ?man = Some (?man\<lparr>m_heap := h', m_last := Some a\<rparr>) \<and>
      tree_ok h' (kids(a := [], p := append_kids ?man (kids(a := [])) p a)) (insert a A) \<and> same_data (m_heap ?man) h'"
    by (rule roff_node_append_ok [where nd = nd and pd = pd])
      (use N nd p part pd ap no_edge calculation(1) in auto)
  ultimately obtain h' where m: "roff_node_append a ?man = Some (man\<lparr>m_flags := fs, m_heap := h', m_last := Some a\<rparr>)"
    "tree_ok h' (kids(a := [], p := append_kids man kids p a)) (insert a A)" "same_data (m_heap ?man) h'" by auto
  obtain nd' where nd': "h' a = Some nd'" "data_of nd' = data_of nd"
    using same_data_node [OF m(3), of a nd] by auto
  have "\<forall>i. i \<noteq> a \<longrightarrow> map_option data_of (h' i) = map_option data_of (m_heap man i)"
    using m(3) by (auto simp: same_data_def)
  then show ?thesis using m(1,2) nd' by auto
qed

lemma in_append_kids: "append_at man kids p \<Longrightarrow> a \<in> set (append_kids man kids p a)"
proof -
  have "q \<in> set xs \<Longrightarrow> a \<in> set (ins_after q a xs)" for q xs by (induction xs) auto
  then show "append_at man kids p \<Longrightarrow> a \<in> set (append_kids man kids p a)"
    by (auto simp: append_at_def append_kids_def split: roff_next.splits)
qed

text \<open>The parse point after the insertion of a text, and of an element that may have children.\<close>

lemma append_at_after:
  assumes "p \<noteq> a" "append_at man kids p"
  shows "append_at (man'\<lparr>m_heap := h, m_last := Some a, m_next := ROFF_NEXT_SIBLING\<rparr>) (kids(a := [], p := append_kids man kids p a)) p"
    "append_at (man'\<lparr>m_heap := h, m_last := Some a, m_next := ROFF_NEXT_CHILD\<rparr>) kids' a"
  using in_append_kids [OF assms(2), of a] assms(1) by (auto simp: append_at_def)

text \<open>What an inserting function leaves behind.\<close>

definition inserted :: "nat \<Rightarrow> nat \<Rightarrow> kids \<Rightarrow> nat set \<Rightarrow> roff_man \<Rightarrow> roff_man \<Rightarrow> bool" where
  "inserted a p kids A man man' \<longleftrightarrow>
     man_ok man' (kids(a := [], p := append_kids man kids p a)) (insert a A) \<and> m_last man' = Some a \<and>
     (\<forall>i. i \<noteq> a \<longrightarrow> map_option data_of (m_heap man' i) = map_option data_of (m_heap man i))"

lemma man_upd_data:
  assumes "tree_ok h kids A" "h a = Some nd" "links_of (f nd) = links_of nd" "ends_of (f nd) = ends_of nd"
  shows "tree_ok (h(a \<mapsto> f nd)) kids A"
proof -
  have "tree_ok (h(a \<mapsto> f nd)) kids A = tree_ok h kids A"
    by (rule tree_ok_cong) (use assms in auto)
  then show ?thesis using assms(1) by simp
qed

lemma word_inserted:
  assumes ok: "tree_ok (m_heap man) kids A" and p: "p \<in> A" "append_at man kids p" and a: "m_heap man a = None"
  shows "\<exists>man' nd. roff_word_alloc a line pos w man = Some man' \<and> inserted a p kids A man man' \<and>
    m_next man' = ROFF_NEXT_SIBLING \<and> m_heap man' a = Some nd \<and> nd_type nd = ROFFT_TEXT \<and> nd_string nd = Some w \<and>
    {NODE_VALID, NODE_ENDED} \<subseteq> nd_flags nd"
proof -
  have pa: "p \<noteq> a" using tree_ok_dom [OF ok p(1)] a by auto
  let ?nd = "new_node man line pos ROFFT_TEXT ''TOKEN_NONE''\<lparr>nd_string := Some w\<rparr>"
  have "nd_child ?nd = None" "nd_last ?nd = None" "nd_prev ?nd = None" "nd_next ?nd = None" "\<not> is_part ?nd"
    by (simp_all add: new_node_def is_part_def)
  with append_new_ok [OF ok p a, of ?nd "m_flags man - {MDOC_NEWLINE}"] obtain h nd where
    h: "roff_node_append a (man\<lparr>m_flags := m_flags man - {MDOC_NEWLINE}, m_heap := (m_heap man)(a \<mapsto> ?nd)\<rparr>) =
      Some (man\<lparr>m_flags := m_flags man - {MDOC_NEWLINE}, m_heap := h, m_last := Some a\<rparr>)"
    "tree_ok h (kids(a := [], p := append_kids man kids p a)) (insert a A)"
    "\<And>i. i \<noteq> a \<Longrightarrow> map_option data_of (h i) = map_option data_of (m_heap man i)"
    "h a = Some nd" "data_of nd = data_of ?nd" by blast
  let ?h = "h(a \<mapsto> nd_flags_update (\<lambda>fs. fs \<union> {NODE_VALID, NODE_ENDED}) nd)"
  let ?m = "man\<lparr>m_flags := m_flags man - {MDOC_NEWLINE}, m_heap := ?h, m_last := Some a, m_next := ROFF_NEXT_SIBLING\<rparr>"
  have "roff_word_alloc a line pos w man = Some ?m"
    using h(1,4) by (simp add: roff_word_alloc_def roff_node_alloc_def man_upd_def node_upd_def set_next_def Let_def)
  moreover have t: "tree_ok ?h (kids(a := [], p := append_kids man kids p a)) (insert a A)"
    by (rule man_upd_data [OF h(2,4)]) (simp_all add: links_of_def ends_of_def)
  have "append_at ?m (kids(a := [], p := append_kids man kids p a)) p"
    using append_at_after(1) [OF pa p(2), where man' = "man\<lparr>m_flags := m_flags man - {MDOC_NEWLINE}\<rparr>" and h = ?h] by simp
  then have "inserted a p kids A man ?m"
    using t h(3) p(1) by (auto simp: inserted_def man_ok_def)
  ultimately show ?thesis
    using data_of_type [OF h(5)] by (auto simp: new_node_def)
qed

lemma part_inserted:
  assumes ok: "tree_ok (m_heap man) kids A" and p: "p \<in> A" "append_at man kids p" and a: "m_heap man a = None"
    and part: "type \<in> {ROFFT_HEAD, ROFFT_BODY, ROFFT_TAIL} \<longrightarrow> (\<exists>pd. m_heap man p = Some pd \<and> nd_type pd = ROFFT_BLOCK)"
  shows "\<exists>man' nd. roff_part_alloc type a line pos tok man = Some man' \<and> inserted a p kids A man man' \<and>
    m_next man' = ROFF_NEXT_CHILD \<and> m_heap man' a = Some nd \<and> nd_type nd = type \<and> nd_tok nd = tok"
proof -
  let ?nd = "new_node man line pos type tok"
  have "nd_child ?nd = None" "nd_last ?nd = None" "nd_prev ?nd = None" "nd_next ?nd = None"
    "is_part ?nd \<longrightarrow> (\<exists>pd. m_heap man p = Some pd \<and> nd_type pd = ROFFT_BLOCK)"
    using part by (auto simp: new_node_def is_part_def)
  with append_new_ok [OF ok p a, of ?nd "m_flags man - {MDOC_NEWLINE}"] obtain h nd where
    h: "roff_node_append a (man\<lparr>m_flags := m_flags man - {MDOC_NEWLINE}, m_heap := (m_heap man)(a \<mapsto> ?nd)\<rparr>) =
      Some (man\<lparr>m_flags := m_flags man - {MDOC_NEWLINE}, m_heap := h, m_last := Some a\<rparr>)"
    "tree_ok h (kids(a := [], p := append_kids man kids p a)) (insert a A)"
    "\<And>i. i \<noteq> a \<Longrightarrow> map_option data_of (h i) = map_option data_of (m_heap man i)"
    "h a = Some nd" "data_of nd = data_of ?nd" by blast
  let ?m = "man\<lparr>m_flags := m_flags man - {MDOC_NEWLINE}, m_heap := h, m_last := Some a, m_next := ROFF_NEXT_CHILD\<rparr>"
  have "roff_part_alloc type a line pos tok man = Some ?m"
    using h(1) by (simp add: roff_part_alloc_def roff_node_alloc_def set_next_def)
  moreover have "inserted a p kids A man ?m"
    using h(2,3) by (auto simp: inserted_def man_ok_def append_at_def)
  ultimately show ?thesis
    using data_of_type [OF h(5)] h(4) by (auto simp: new_node_def)
qed

text \<open>A head, body or tail of a block is entered there, and one of any other node stops the program.\<close>

lemma part_entered:
  assumes ok: "tree_ok (m_heap man) kids A" and p: "p \<in> A" "append_at man kids p" and a: "m_heap man a = None"
    and pd: "m_heap man p = Some pd" and part: "type \<in> {ROFFT_HEAD, ROFFT_BODY, ROFFT_TAIL}"
  shows "(roff_part_alloc type a line pos tok man = None) = (nd_type pd \<noteq> ROFFT_BLOCK)"
    "roff_part_alloc type a line pos tok man = Some man' \<Longrightarrow> map_option (part_of_block type) (m_heap man' p) = Some (Some a)"
proof -
  let ?nd = "new_node man line pos type tok"
  let ?man = "man\<lparr>m_flags := m_flags man - {MDOC_NEWLINE}, m_heap := (m_heap man)(a \<mapsto> ?nd)\<rparr>"
  have nd: "nd_child ?nd = None" "nd_last ?nd = None" "nd_prev ?nd = None" "nd_next ?nd = None" "is_part ?nd" "nd_type ?nd = type"
    using part by (auto simp: new_node_def is_part_def)
  note N = tree_ok_new [OF ok a nd(1,2)]
  have ap: "a \<noteq> p" using p(1) N(3) by auto
  have no_edge: "(a, p) \<notin> (edges (kids(a := [])) (insert a A))\<^sup>*"
    unfolding N(4) using ap N(3) by (auto simp: edges_def elim: converse_rtranclE)
  have at: "append_at ?man (kids(a := [])) p"
    using p(2) ap by (auto simp: append_at_def split: roff_next.splits)
  have heap: "m_heap ?man a = Some ?nd" "m_heap ?man p = Some pd" using pd ap by auto
  have tree: "tree_ok (m_heap ?man) (kids(a := [])) (insert a A)" using N(1) by simp
  have pA: "p \<in> insert a A" using p(1) by simp
  note L = roff_node_append_part [OF tree pA at N(2) no_edge heap(1) nd(3,4) heap(2) nd(5) ap]
  have alloc: "roff_part_alloc type a line pos tok man = map_option (set_next ROFF_NEXT_CHILD) (roff_node_append a ?man)"
    by (simp add: roff_part_alloc_def roff_node_alloc_def)
  show "(roff_part_alloc type a line pos tok man = None) = (nd_type pd \<noteq> ROFFT_BLOCK)"
    unfolding alloc using L(1) by simp
  show "map_option (part_of_block type) (m_heap man' p) = Some (Some a)" if "roff_part_alloc type a line pos tok man = Some man'"
    using that L(2) nd(6) unfolding alloc by (auto simp: set_next_def)
qed

subsection \<open>Deletion\<close>

lemma sibling_outside:
  assumes "tree_ok h kids A" "p \<in> A" "n \<in> set (kids p)" "x \<in> set (kids p)" "x \<noteq> n"
  shows "x \<notin> subtree kids A n"
proof
  assume "x \<in> subtree kids A n"
  then have "(n, x) \<in> (edges kids A)\<^sup>*" by (simp add: subtree_def)
  then obtain y where y: "(n, y) \<in> (edges kids A)\<^sup>*" "(y, x) \<in> edges kids A"
    using assms(5) by (auto elim: rtranclE)
  then have "y = p" using tree_ok_single [OF assms(1) _ assms(2) _ assms(4)] by (auto simp: edges_def)
  then show False using y(1) no_way_back [OF assms(1-3)] by (simp add: subtree_def)
qed

lemma subtree_step: "q \<in> A \<Longrightarrow> x \<in> set (kids q) \<Longrightarrow> q \<in> subtree kids A n \<Longrightarrow> x \<in> subtree kids A n"
  by (auto simp: subtree_def edges_def intro: rtrancl_into_rtrancl)

lemma append_at_pruned:
  assumes ok: "tree_ok (m_heap man) kids A" and p: "p \<in> A" "n \<in> set (kids p)"
    and at: "\<exists>q \<in> A. append_at man kids q"
    and del: "deleted n (subtree kids A n) kids A man man'"
  shows "\<exists>q \<in> A - subtree kids A n. append_at man' (prune (subtree kids A n) kids) q"
proof (cases "m_last man \<in> Some ` subtree kids A n")
  case True
  obtain xs ys where k: "kids p = xs @ n # ys" using p(2) by (meson split_list)
  have pD: "p \<in> A - subtree kids A n" using no_way_back [OF ok p] p(1) by simp
  obtain nd where nd: "m_heap man n = Some nd" "nd_parent nd = Some p" "nd_prev nd = last_opt xs"
    using siblings_step [OF tree_okD(2) [OF ok p(1)] k] by (auto simp: last_opt_def split: if_splits)
  have pt: "parse_point man' = point nd" using del True nd(1) by (simp add: deleted_def)
  show ?thesis
  proof (cases xs rule: rev_cases)
    case Nil
    then show ?thesis using pt nd pD by (auto simp: point_def parse_point_def append_at_def)
  next
    case (snoc zs x)
    have "x \<noteq> n" using tree_okD(3) [OF ok p(1)] by (auto simp: k snoc)
    then have "x \<notin> subtree kids A n" using sibling_outside [OF ok p, of x] by (simp add: k snoc)
    then have "x \<in> set (prune (subtree kids A n) kids p)" by (simp add: prune_def k snoc)
    then show ?thesis using pt nd pD snoc by (auto simp: point_def parse_point_def append_at_def)
  qed
next
  case False
  then have pt: "m_last man' = m_last man" "m_next man' = m_next man" using del by (simp_all add: deleted_def parse_point_def)
  obtain q l where q: "q \<in> A" "m_last man = Some l" "case m_next man of ROFF_NEXT_SIBLING \<Rightarrow> l \<in> set (kids q) | ROFF_NEXT_CHILD \<Rightarrow> q = l"
    using at by (auto simp: append_at_def)
  have l: "l \<notin> subtree kids A n" using False q(2) by auto
  then have "q \<notin> subtree kids A n" using q subtree_step [of q A l kids n] by (auto split: roff_next.splits)
  then show ?thesis using q l pt by (auto simp: append_at_def prune_def split: roff_next.splits)
qed

subsection \<open>Example\<close>

text \<open>A document with a section head of two words.\<close>

definition no_man :: roff_man where
  "no_man = \<lparr>m_heap = (\<lambda>_. None), m_first = None, m_last = None, m_last_es = None, m_flags = {}, m_lastsec = SEC_NONE,
     m_lastnamed = SEC_NONE, m_next = ROFF_NEXT_CHILD\<rparr>"

definition doc0 :: roff_man where
  "doc0 = roff_man_alloc1 0 no_man"

definition doc1 :: roff_man where
  "doc1 = the (roff_elem_alloc 5 4 1 ''MDOC_Em'' doc0)"

definition doc2 :: roff_man where
  "doc2 = the (roff_word_alloc 6 4 5 '' one '' doc1)"

definition doc3 :: roff_man where
  "doc3 = the (roff_word_alloc 7 4 9 '' two '' doc2)"

definition doc_kids :: kids where
  "doc_kids = (\<lambda>i. if i = 0 then [5] else if i = 5 then [6, 7] else [])"

lemma doc0_ok: "tree_ok (m_heap doc0) (\<lambda>_. []) {0}" "append_at doc0 (\<lambda>_. []) 0" "m_next doc0 = ROFF_NEXT_CHILD"
  by (auto simp: tree_ok_def ends_ok_def edges_def doc0_def roff_man_alloc1_def roff_state_reset_def zero_node_def append_at_def acyclic_def)

lemma doc0_heap: "i \<noteq> 0 \<Longrightarrow> m_heap doc0 i = None"
  by (simp add: doc0_def roff_man_alloc1_def roff_state_reset_def no_man_def)

lemma inserted_heap: "inserted a p kids A man man' \<Longrightarrow> i \<noteq> a \<Longrightarrow> (m_heap man' i = None) = (m_heap man i = None)"
  unfolding inserted_def by (metis map_option_is_None)

lemma inserted_tree: "inserted a p kids A man man' \<Longrightarrow> kids' = kids(a := [], p := append_kids man kids p a) \<Longrightarrow> A' = insert a A \<Longrightarrow>
    tree_ok (m_heap man') kids' A' \<and> m_last man' = Some a"
  by (simp add: inserted_def man_ok_def)

lemma doc1_ok: "tree_ok (m_heap doc1) ((\<lambda>_. [])(0 := [5])) {0, 5}" "m_last doc1 = Some 5" "m_next doc1 = ROFF_NEXT_CHILD"
  "i \<notin> {0, 5} \<Longrightarrow> m_heap doc1 i = None"
proof -
  have ins: "inserted 5 0 (\<lambda>_. []) {0} doc0 doc1" "m_next doc1 = ROFF_NEXT_CHILD"
    using part_inserted [OF doc0_ok(1) _ doc0_ok(2) doc0_heap [of 5], of ROFFT_ELEM 4 1 "''MDOC_Em''"]
    by (auto simp: doc1_def roff_elem_alloc_def)
  have "tree_ok (m_heap doc1) ((\<lambda>_. [])(0 := [5])) {0, 5} \<and> m_last doc1 = Some 5"
    by (rule inserted_tree [OF ins(1)]) (auto simp: append_kids_def doc0_ok(3))
  then show "tree_ok (m_heap doc1) ((\<lambda>_. [])(0 := [5])) {0, 5}" "m_last doc1 = Some 5" "m_next doc1 = ROFF_NEXT_CHILD"
    using ins(2) by simp_all
  show "m_heap doc1 i = None" if "i \<notin> {0, 5}" using inserted_heap [OF ins(1), of i] doc0_heap [of i] that by simp
qed

lemma doc1_elem: "map_option nd_type (m_heap doc1 5) \<noteq> Some ROFFT_BLOCK"
  using part_inserted [OF doc0_ok(1) _ doc0_ok(2) doc0_heap [of 5], of ROFFT_ELEM 4 1 "''MDOC_Em''"]
  by (auto simp: doc1_def roff_elem_alloc_def)

lemma doc2_ok: "tree_ok (m_heap doc2) ((\<lambda>_. [])(0 := [5], 5 := [6])) {0, 5, 6}" "m_last doc2 = Some 6"
  "m_next doc2 = ROFF_NEXT_SIBLING" "i \<notin> {0, 5, 6} \<Longrightarrow> m_heap doc2 i = None"
proof -
  have at: "append_at doc1 ((\<lambda>_. [])(0 := [5])) 5" using doc1_ok by (simp add: append_at_def)
  have ins: "inserted 6 5 ((\<lambda>_. [])(0 := [5])) {0, 5} doc1 doc2" "m_next doc2 = ROFF_NEXT_SIBLING"
    using word_inserted [OF doc1_ok(1) _ at doc1_ok(4), of 6 4 5 "'' one ''"] by (auto simp: doc2_def)
  have "tree_ok (m_heap doc2) ((\<lambda>_. [])(0 := [5], 5 := [6])) {0, 5, 6} \<and> m_last doc2 = Some 6"
    by (rule inserted_tree [OF ins(1)]) (auto simp: append_kids_def doc1_ok fun_eq_iff)
  then show "tree_ok (m_heap doc2) ((\<lambda>_. [])(0 := [5], 5 := [6])) {0, 5, 6}" "m_last doc2 = Some 6"
    "m_next doc2 = ROFF_NEXT_SIBLING" using ins(2) by simp_all
  show "m_heap doc2 i = None" if "i \<notin> {0, 5, 6}" using inserted_heap [OF ins(1), of i] doc1_ok(4) [of i] that by simp
qed

lemma doc3_ok: "tree_ok (m_heap doc3) doc_kids {0, 5, 6, 7}" "m_last doc3 = Some 7" "m_next doc3 = ROFF_NEXT_SIBLING"
proof -
  have at: "append_at doc2 ((\<lambda>_. [])(0 := [5], 5 := [6])) 5" using doc2_ok by (simp add: append_at_def)
  have ins: "inserted 7 5 ((\<lambda>_. [])(0 := [5], 5 := [6])) {0, 5, 6} doc2 doc3" "m_next doc3 = ROFF_NEXT_SIBLING"
    using word_inserted [OF doc2_ok(1) _ at doc2_ok(4), of 7 4 9 "'' two ''"] by (auto simp: doc3_def)
  have "tree_ok (m_heap doc3) doc_kids {0, 5, 6, 7} \<and> m_last doc3 = Some 7"
    by (rule inserted_tree [OF ins(1)]) (auto simp: append_kids_def doc2_ok doc_kids_def fun_eq_iff)
  then show "tree_ok (m_heap doc3) doc_kids {0, 5, 6, 7}" "m_last doc3 = Some 7" "m_next doc3 = ROFF_NEXT_SIBLING"
    using ins(2) by simp_all
qed

lemma doc3_text: "map_option nd_type (m_heap doc3 6) = Some ROFFT_TEXT"
proof -
  have "append_at doc1 ((\<lambda>_. [])(0 := [5])) 5" using doc1_ok by (simp add: append_at_def)
  then have "\<exists>man' nd. roff_word_alloc 6 4 5 '' one '' doc1 = Some man' \<and> m_heap man' 6 = Some nd \<and> nd_type nd = ROFFT_TEXT"
    using word_inserted [OF doc1_ok(1) _ _ doc1_ok(4), of 5 6 4 5 "'' one ''"] by (simp (no_asm_use)) blast
  then obtain man' nd where "roff_word_alloc 6 4 5 '' one '' doc1 = Some man'" "m_heap man' 6 = Some nd" "nd_type nd = ROFFT_TEXT"
    by blast
  then have nd: "m_heap doc2 6 = Some nd" "nd_type nd = ROFFT_TEXT" by (simp_all add: doc2_def)
  have "append_at doc2 ((\<lambda>_. [])(0 := [5], 5 := [6])) 5" using doc2_ok by (simp add: append_at_def)
  then have "\<exists>man''. roff_word_alloc 7 4 9 '' two '' doc2 = Some man'' \<and>
      inserted 7 5 ((\<lambda>_. [])(0 := [5], 5 := [6])) {0, 5, 6} doc2 man''"
    using word_inserted [OF doc2_ok(1) _ _ doc2_ok(4), of 5 7 4 9 "'' two ''"] by (simp (no_asm_use)) blast
  then obtain man'' where "roff_word_alloc 7 4 9 '' two '' doc2 = Some man''"
    "inserted 7 5 ((\<lambda>_. [])(0 := [5], 5 := [6])) {0, 5, 6} doc2 man''" by blast
  then have "inserted 7 5 ((\<lambda>_. [])(0 := [5], 5 := [6])) {0, 5, 6} doc2 doc3" by (simp add: doc3_def)
  then have "map_option data_of (m_heap doc3 6) = map_option data_of (m_heap doc2 6)" unfolding inserted_def by simp
  then obtain nd' where "m_heap doc3 6 = Some nd'" "data_of nd' = data_of nd" using nd(1) by auto
  then show ?thesis using nd(2) data_of_type [of nd' nd] by simp
qed

subsection \<open>Moving a node\<close>

definition at_point :: "nat option \<times> roff_next \<Rightarrow> roff_man \<Rightarrow> roff_man" where
  "at_point pt man = man\<lparr>m_last := fst pt, m_next := snd pt\<rparr>"

lemma append_at_cong: "m_last man' = m_last man \<Longrightarrow> m_next man' = m_next man \<Longrightarrow>
    append_at man' kids p = append_at man kids p \<and> append_kids man' kids p n = append_kids man kids p n"
  by (cases "m_next man") (simp_all add: append_at_def append_kids_def)

lemma edges_prune: "edges (prune D kids) A \<subseteq> edges kids A"
  by (auto simp: edges_def prune_def)

lemma relinked:
  assumes ok: "tree_ok (m_heap man) kids A" and n: "in_tree (m_heap man) kids A n" "m_heap man n = Some nd"
  defines "m \<equiv> at_point (if m_last man = Some n then point nd else parse_point man) man"
  assumes p: "p \<in> A" "p \<notin> subtree kids A n" "append_at m (prune {n} kids) p"
    and part: "is_part nd \<Longrightarrow> map_option nd_type (m_heap man p) = Some ROFFT_BLOCK"
  shows "\<exists>man'. roff_node_relink n man = Some man' \<and>
    tree_ok (m_heap man') ((prune {n} kids)(p := append_kids m (prune {n} kids) p n)) A \<and>
    same_data (m_heap man) (m_heap man') \<and> m_last man' = Some n"
proof -
  obtain man1 where m1: "roff_node_unlink n man = Some man1" "tree_ok (m_heap man1) (prune {n} kids) A"
    "same_data (m_heap man) (m_heap man1)" "m_heap man1 n = Some nd"
    "parse_point man1 = (if m_last man = Some n then point nd else parse_point man)"
    using roff_node_unlink_ok [OF ok n] by blast
  let ?f = "\<lambda>nd :: roff_node. nd\<lparr>nd_prev := None, nd_next := None\<rparr>"
  let ?h = "(m_heap man1)(n \<mapsto> ?f nd)"
  let ?man2 = "man1\<lparr>m_heap := ?h\<rparr>"
  have nA: "n \<in> A" using n(1) by (simp add: in_tree_def)
  have loose: "loose (prune {n} kids) A n" using nA by (simp add: loose_def prune_def)
  have "tree_ok ?h (prune {n} kids) A = tree_ok (m_heap man1) (prune {n} kids) A"
    by (rule tree_ok_cong) (use m1(4) in \<open>auto simp: ends_of_def prune_def\<close>)
  then have ok2: "tree_ok (m_heap ?man2) (prune {n} kids) A" using m1(2) by simp
  have sd: "same_data (m_heap man) (m_heap ?man2)"
    using m1(3,4) n(2) by (auto simp: same_data_def data_of_links)
  obtain pd where pd: "m_heap ?man2 p = Some pd" using tree_ok_dom [OF ok2 p(1)] by blast
  have type: "is_part (?f nd) \<longrightarrow> nd_type pd = ROFFT_BLOCK"
  proof
    assume "is_part (?f nd)"
    then have "is_part nd" by (simp add: is_part_def)
    then obtain pd0 where "m_heap man p = Some pd0" "nd_type pd0 = ROFFT_BLOCK" using part by auto
    then obtain pd' where "m_heap ?man2 p = Some pd'" "data_of pd' = data_of pd0" using same_data_node [OF sd] by blast
    then show "nd_type pd = ROFFT_BLOCK" using pd data_of_type [of pd' pd0] \<open>nd_type pd0 = ROFFT_BLOCK\<close> by simp
  qed
  have mp: "m_last ?man2 = m_last m" "m_next ?man2 = m_next m"
    using arg_cong [OF m1(5), of fst] arg_cong [OF m1(5), of snd] by (simp_all add: m_def at_point_def parse_point_def)
  note c = append_at_cong [OF mp, of "prune {n} kids" p n]
  have nr: "(n, p) \<notin> (edges (prune {n} kids) A)\<^sup>*"
    using p(2) rtrancl_mono [OF edges_prune [of "{n}" kids A]] by (auto simp: subtree_def)
  have at: "append_at ?man2 (prune {n} kids) p" using p(3) c by blast
  have hn: "m_heap ?man2 n = Some (?f nd)" "nd_prev (?f nd) = None" "nd_next (?f nd) = None" by simp_all
  from roff_node_append_ok [OF ok2 p(1) at loose nr hn pd type]
  obtain h' where h': "roff_node_append n ?man2 = Some (?man2\<lparr>m_heap := h', m_last := Some n\<rparr>)"
    "tree_ok h' ((prune {n} kids)(p := append_kids m (prune {n} kids) p n)) A" "same_data (m_heap ?man2) h'"
    using c by auto
  have "roff_node_relink n man = Some (?man2\<lparr>m_heap := h', m_last := Some n\<rparr>)"
    using m1(1,4) h'(1) by (simp add: roff_node_relink_def man_upd_def node_upd_def)
  then show ?thesis using h'(2) same_data_trans [OF sd h'(3)] by auto
qed

subsection \<open>Properties\<close>

text \<open>
  C21: \<open>roff_word_alloc\<close> inserts one new text node at the parse point and leaves everything else alone: after
  it the nodes form the tree in which the list of children at the parse point has gained exactly that node, behind
  the last node parsed or as the first child; the node holds the given text, is marked as valid and ended and
  becomes the last node parsed; no other node changes its content, and the parser can go on.
\<close>

theorem roff_word_alloc_tree:
  assumes "tree_ok (m_heap man) kids A" "p \<in> A" "append_at man kids p" "m_heap man a = None"
  shows "\<exists>man' nd. roff_word_alloc a line pos w man = Some man' \<and>
    man_ok man' (kids(a := [], p := append_kids man kids p a)) (insert a A) \<and> parse_point man' = (Some a, ROFF_NEXT_SIBLING) \<and>
    (\<forall>i. i \<noteq> a \<longrightarrow> map_option data_of (m_heap man' i) = map_option data_of (m_heap man i)) \<and>
    m_heap man' a = Some nd \<and> nd_type nd = ROFFT_TEXT \<and> nd_string nd = Some w \<and> {NODE_VALID, NODE_ENDED} \<subseteq> nd_flags nd"
  using word_inserted [OF assms, of line pos w] by (auto simp: inserted_def parse_point_def)

theorem roff_word_alloc_tree_witness:
  "\<exists>man'. roff_word_alloc 7 4 9 ''two'' doc2 = Some man' \<and>
    man_ok man' (((\<lambda>_. [])(0 := [5], 5 := [6]))(7 := [], 5 := append_kids doc2 ((\<lambda>_. [])(0 := [5], 5 := [6])) 5 7)) (insert 7 {0, 5, 6})"
proof -
  have "append_at doc2 ((\<lambda>_. [])(0 := [5], 5 := [6])) 5" using doc2_ok by (simp add: append_at_def)
  then show ?thesis using roff_word_alloc_tree [OF doc2_ok(1), of 5 7 4 9 "''two''"] doc2_ok(4) [of 7] by auto
qed

text \<open>
  C22: The functions for elements, blocks, heads, bodies and tails are stopped by the assertion at the end of
  \<open>roff_node_append\<close> exactly if a head, body or tail is to be inserted into a node that is not a block.  In all
  other cases they insert one node of the given type at the parse point, the next node becomes its child, no other
  node changes its content, and a block points to its new head, body or tail.
\<close>

theorem roff_part_alloc_tree:
  assumes "tree_ok (m_heap man) kids A" "p \<in> A" "append_at man kids p" "m_heap man a = None"
  shows "if type \<in> {ROFFT_HEAD, ROFFT_BODY, ROFFT_TAIL} \<and> map_option nd_type (m_heap man p) \<noteq> Some ROFFT_BLOCK
    then roff_part_alloc type a line pos tok man = None
    else \<exists>man' nd. roff_part_alloc type a line pos tok man = Some man' \<and>
      man_ok man' (kids(a := [], p := append_kids man kids p a)) (insert a A) \<and> parse_point man' = (Some a, ROFF_NEXT_CHILD) \<and>
      (\<forall>i. i \<noteq> a \<longrightarrow> map_option data_of (m_heap man' i) = map_option data_of (m_heap man i)) \<and>
      m_heap man' a = Some nd \<and> nd_type nd = type \<and> nd_tok nd = tok \<and>
      (type \<in> {ROFFT_HEAD, ROFFT_BODY, ROFFT_TAIL} \<longrightarrow> map_option (part_of_block type) (m_heap man' p) = Some (Some a))"
proof -
  obtain pd where pd: "m_heap man p = Some pd" using tree_ok_dom [OF assms(1,2)] by blast
  note E = part_entered [OF assms(1-4) pd, of type line pos tok]
  show ?thesis
  proof (cases "type \<in> {ROFFT_HEAD, ROFFT_BODY, ROFFT_TAIL} \<and> nd_type pd \<noteq> ROFFT_BLOCK")
    case True
    then show ?thesis using E(1) pd by simp
  next
    case False
    then have "type \<in> {ROFFT_HEAD, ROFFT_BODY, ROFFT_TAIL} \<longrightarrow> (\<exists>pd. m_heap man p = Some pd \<and> nd_type pd = ROFFT_BLOCK)"
      using pd by auto
    from part_inserted [OF assms(1-4) this, of line pos tok] obtain man' nd where
      m: "roff_part_alloc type a line pos tok man = Some man'" "inserted a p kids A man man'" "m_next man' = ROFF_NEXT_CHILD"
      "m_heap man' a = Some nd" "nd_type nd = type" "nd_tok nd = tok" by blast
    have "type \<in> {ROFFT_HEAD, ROFFT_BODY, ROFFT_TAIL} \<longrightarrow> map_option (part_of_block type) (m_heap man' p) = Some (Some a)"
      using E(2) m(1) by blast
    then show ?thesis using False m pd by (auto simp: inserted_def parse_point_def)
  qed
qed

text \<open>A block with a head, and a head of an element.\<close>

theorem roff_part_alloc_tree_witness:
  "\<exists>man1 man2. roff_part_alloc ROFFT_BLOCK 6 4 5 ''MDOC_Ao'' doc1 = Some man1 \<and>
    roff_part_alloc ROFFT_HEAD 7 4 5 ''MDOC_Ao'' man1 = Some man2 \<and> map_option nd_head (m_heap man2 6) = Some (Some 7) \<and>
    roff_part_alloc ROFFT_HEAD 7 4 5 ''MDOC_Ao'' doc1 = None"
proof -
  let ?k = "(\<lambda>_. [])(0 := [5])" and ?A = "{0, 5}"
  have at: "append_at doc1 ?k 5" using doc1_ok by (simp add: append_at_def)
  obtain man1 nd where m1: "roff_part_alloc ROFFT_BLOCK 6 4 5 ''MDOC_Ao'' doc1 = Some man1"
    "man_ok man1 (?k(6 := [], 5 := append_kids doc1 ?k 5 6)) (insert 6 ?A)" "parse_point man1 = (Some 6, ROFF_NEXT_CHILD)"
    "m_heap man1 6 = Some nd" "nd_type nd = ROFFT_BLOCK"
    "\<forall>i. i \<noteq> 6 \<longrightarrow> map_option data_of (m_heap man1 i) = map_option data_of (m_heap doc1 i)"
    using roff_part_alloc_tree [OF doc1_ok(1) _ at doc1_ok(4) [of 6], of ROFFT_BLOCK 4 5 "''MDOC_Ao''"] by auto
  have free: "m_heap man1 7 = None" using m1(6) doc1_ok(4) [of 7] by (auto dest: spec [of _ 7])
  have at1: "append_at man1 (?k(6 := [], 5 := append_kids doc1 ?k 5 6)) 6"
    using m1(3) by (simp add: append_at_def parse_point_def)
  have "tree_ok (m_heap man1) (?k(6 := [], 5 := append_kids doc1 ?k 5 6)) (insert 6 ?A)" using m1(2) by (simp add: man_ok_def)
  from roff_part_alloc_tree [OF this _ at1 free, of ROFFT_HEAD 4 5 "''MDOC_Ao''"] m1(4,5) obtain man2 where
    m2: "roff_part_alloc ROFFT_HEAD 7 4 5 ''MDOC_Ao'' man1 = Some man2" "map_option nd_head (m_heap man2 6) = Some (Some 7)"
    by (auto simp: part_of_block_def)
  have "map_option nd_type (m_heap doc1 5) \<noteq> Some ROFFT_BLOCK" by (rule doc1_elem)
  then have "roff_part_alloc ROFFT_HEAD 7 4 5 ''MDOC_Ao'' doc1 = None"
    using roff_part_alloc_tree [OF doc1_ok(1) _ at doc1_ok(4) [of 7], of ROFFT_HEAD 4 5 "''MDOC_Ao''"] by auto
  then show ?thesis using m1(1) m2 by blast
qed

text \<open>
  C19: \<open>roff_node_delete\<close> always ends and removes exactly the subtree of the node: all its nodes are freed,
  each once, no other node changes its content, what remains is the same tree without them, and the parse point
  moves out of the subtree, to the preceding sibling or, when there is none, to the beginning of the parent, so
  that the parser never keeps a pointer to a freed node.
\<close>

theorem roff_node_delete_tree:
  assumes "man_ok man kids A" "p \<in> A" "n \<in> set (kids p)"
  shows "\<exists>man'. roff_node_delete n man = Some man' \<and>
    man_ok man' (prune (subtree kids A n) kids) (A - subtree kids A n) \<and>
    (\<forall>i. map_option data_of (m_heap man' i) = (if i \<in> subtree kids A n then None else map_option data_of (m_heap man i))) \<and>
    parse_point man' = (if m_last man \<in> Some ` subtree kids A n then point (the (m_heap man n)) else parse_point man)"
proof -
  have ok: "tree_ok (m_heap man) kids A" "\<exists>q \<in> A. append_at man kids q" using assms(1) by (auto simp: man_ok_def)
  have "n \<in> A" using tree_okD(4) [OF ok(1) assms(2)] assms(3) by auto
  then have "in_tree (m_heap man) kids A n" using assms(2,3) by (auto simp: in_tree_def)
  from roff_node_delete_ok [OF ok(1) this] obtain man' where
    d: "roff_node_delete n man = Some man'" "deleted n (subtree kids A n) kids A man man'" by blast
  then show ?thesis
    using append_at_pruned [OF ok(1) assms(2,3) ok(2) d(2)] by (auto simp: deleted_def man_ok_def)
qed

theorem roff_node_delete_tree_witness:
  "\<exists>man'. roff_node_delete 5 doc3 = Some man' \<and>
    man_ok man' (prune (subtree doc_kids {0, 5, 6, 7} 5) doc_kids) ({0, 5, 6, 7} - subtree doc_kids {0, 5, 6, 7} 5)"
proof -
  have "append_at doc3 doc_kids 5" using doc3_ok by (simp add: append_at_def doc_kids_def)
  then have "man_ok doc3 doc_kids {0, 5, 6, 7}" using doc3_ok(1) unfolding man_ok_def by blast
  then show ?thesis using roff_node_delete_tree [of doc3 doc_kids "{0, 5, 6, 7}" 0 5] by (auto simp: doc_kids_def)
qed

text \<open>
  C23: \<open>roff_node_relink\<close> moves a node with its whole subtree to the parse point: after it the nodes form the
  tree in which the node is gone from its old list of children and inserted at the parse point, which is the place
  just before the node when the node itself was the last one parsed; no node changes its content or is lost.
\<close>

theorem roff_node_relink_tree:
  assumes "tree_ok (m_heap man) kids A" "in_tree (m_heap man) kids A n" "m_heap man n = Some nd"
    and "pt = (if m_last man = Some n then point nd else parse_point man)"
    and "p \<in> A" "p \<notin> subtree kids A n" "append_at (at_point pt man) (prune {n} kids) p"
    and "is_part nd \<Longrightarrow> map_option nd_type (m_heap man p) = Some ROFFT_BLOCK"
  shows "\<exists>man'. roff_node_relink n man = Some man' \<and>
    tree_ok (m_heap man') ((prune {n} kids)(p := append_kids (at_point pt man) (prune {n} kids) p n)) A \<and>
    same_data (m_heap man) (m_heap man') \<and> m_last man' = Some n"
  using relinked [OF assms(1-3,5,6)] assms(4,7,8) by simp

theorem roff_node_relink_tree_witness:
  "\<exists>man'. roff_node_relink 6 doc3 = Some man' \<and>
    tree_ok (m_heap man') ((prune {6} doc_kids)(5 := append_kids (at_point (parse_point doc3) doc3) (prune {6} doc_kids) 5 6)) {0, 5, 6, 7} \<and>
    same_data (m_heap doc3) (m_heap man') \<and> m_last man' = Some 6"
proof -
  obtain nd where nd: "m_heap doc3 6 = Some nd" using tree_ok_dom [OF doc3_ok(1), of 6] by auto
  have part: "\<not> is_part nd"
  proof -
    have "map_option nd_type (m_heap doc3 6) = Some ROFFT_TEXT" by (rule doc3_text)
    then show ?thesis using nd by (simp add: is_part_def)
  qed
  have pl: "in_tree (m_heap doc3) doc_kids {0, 5, 6, 7} 6" by (auto simp: in_tree_def doc_kids_def)
  have "5 \<notin> subtree doc_kids {0, 5, 6, 7} 6" by (rule no_way_back [OF doc3_ok(1)]) (simp_all add: doc_kids_def)
  moreover have "append_at (at_point (parse_point doc3) doc3) (prune {6} doc_kids) 5"
    using doc3_ok by (simp add: append_at_def at_point_def parse_point_def prune_def doc_kids_def)
  ultimately show ?thesis
    using roff_node_relink_tree [OF doc3_ok(1) pl nd, of "parse_point doc3" 5] doc3_ok(2) part by simp
qed

text \<open>
  C24: \<open>roff_man_reset\<close>, which runs between two documents, frees every node of the old tree, however it was
  built, and starts with a root that has no children, at which the next node goes; memory outside the old tree is
  untouched.
\<close>

theorem roff_man_reset_tree:
  assumes "tree_ok (m_heap man) kids A" "m_first man = Some r" "in_tree (m_heap man) kids A r"
    and "A = subtree kids A r" "m_heap man a = None"
  shows "\<exists>man'. roff_man_reset a man = Some man' \<and> man_ok man' (\<lambda>_. []) {a} \<and>
    m_first man' = Some a \<and> parse_point man' = (Some a, ROFF_NEXT_CHILD) \<and>
    (\<forall>i. i \<noteq> a \<longrightarrow> map_option data_of (m_heap man' i) = (if i \<in> A then None else map_option data_of (m_heap man i)))"
proof -
  obtain man1 where m1: "roff_node_delete r man = Some man1" "deleted r A kids A man man1"
    using roff_node_delete_ok [OF assms(1,3)] assms(4) by auto
  have "roff_man_reset a man = Some (roff_man_alloc1 a man1)"
    using assms(2) m1(1) by (simp add: roff_man_reset_def roff_man_free1_def)
  moreover have "man_ok (roff_man_alloc1 a man1) (\<lambda>_. []) {a}"
    by (simp add: man_ok_def tree_ok_def ends_ok_def edges_def roff_man_alloc1_def roff_state_reset_def zero_node_def
        append_at_def acyclic_def)
  moreover have "map_option data_of (m_heap (roff_man_alloc1 a man1) i) = map_option data_of (m_heap man1 i)" if "i \<noteq> a" for i
    using that by (simp add: roff_man_alloc1_def roff_state_reset_def)
  ultimately show ?thesis
    using m1(2) by (simp add: deleted_def roff_man_alloc1_def roff_state_reset_def parse_point_def)
qed

theorem roff_man_reset_tree_witness:
  "\<exists>man'. roff_man_reset 1 doc0 = Some man' \<and> man_ok man' (\<lambda>_. []) {1} \<and> m_heap man' 0 = None"
proof -
  have r: "{0} = subtree (\<lambda>_. []) {0} (0 :: nat)" by (auto simp: subtree_def edges_def)
  have pl: "in_tree (m_heap doc0) (\<lambda>_. []) {0} 0"
    by (simp add: in_tree_def links_of_def doc0_def roff_man_alloc1_def roff_state_reset_def zero_node_def)
  have f: "m_first doc0 = Some 0" by (simp add: doc0_def roff_man_alloc1_def roff_state_reset_def)
  show ?thesis using roff_man_reset_tree [OF doc0_ok(1) f pl r doc0_heap [of 1]] by fastforce
qed

text \<open>
  C25: \<open>roff_node_child\<close>, \<open>roff_node_next\<close> and \<open>roff_node_prev\<close> always return, and give the first child, the next
  and the previous sibling that is printed, that is, not a comment, not marked as not to be printed, and not one of
  the requests and macros without output; NULL when there is no such node.
\<close>

theorem roff_node_neighbours:
  assumes "tree_ok h kids A" "p \<in> A" "kids p = xs @ n # ys"
  shows "roff_node_child h p = Some (List.find (visible h) (kids p)) \<and>
    roff_node_next h n = Some (List.find (visible h) ys) \<and> roff_node_prev h n = Some (List.find (visible h) (rev xs))"
proof -
  note S = siblings_around [OF assms]
  obtain pd where pd: "h p = Some pd" "nd_child pd = hd_opt (kids p)" using tree_okD(1) [OF assms(1,2)] by (auto simp: ends_ok_def)
  obtain nd where nd: "h n = Some nd" "nd_prev nd = hd_opt (rev xs)" "nd_next nd = hd_opt ys" using S(1) by blast
  have "runs_along nd_next h (kids p)" by (rule runs_along_next [OF tree_okD(2) [OF assms(1,2)]])
  then show ?thesis
    using pd nd S(2,3) by (simp add: roff_node_child_def roff_node_next_def roff_node_prev_def skip_nodes_find)
qed

theorem roff_node_neighbours_witness:
  "roff_node_child (m_heap doc3) 5 = Some (List.find (visible (m_heap doc3)) (doc_kids 5)) \<and>
    roff_node_next (m_heap doc3) 6 = Some (List.find (visible (m_heap doc3)) [7]) \<and>
    roff_node_prev (m_heap doc3) 6 = Some (List.find (visible (m_heap doc3)) (rev []))"
  using roff_node_neighbours [OF doc3_ok(1), of 5 "[]" 6 "[7]"] by (simp add: doc_kids_def)

text \<open>
  C26: \<open>deroff\<close> always returns; it visits the texts below a node once each, from left to right, not looking below
  nodes that have a text of their own, and adds them to the destination one after another.
\<close>

theorem deroff_texts:
  assumes "tree_ok h kids A" "n \<in> A"
  shows "\<exists>!ts. node_texts h kids [n] ts \<and> deroff h d n = Some (fold deroff_text ts d)"
  using deroff_node_ok [OF assms, of d] node_texts_unique by blast

theorem deroff_texts_witness:
  "\<exists>!ts. node_texts (m_heap doc3) doc_kids [5] ts \<and> deroff (m_heap doc3) None 5 = Some (fold deroff_text ts None)"
  by (rule deroff_texts [OF doc3_ok(1)]) simp

text \<open>
  C27: \<open>deroff\<close> removes the blanks before a text, among them the escape sequences for blanks, and if the destination
  is still empty, also the blanks and the backslash after it.  But from a text that is added to others the blanks
  and the backslash at the end are not removed, because its trimmed size becomes the minimum width of the output
  field instead of the maximum number of characters.
\<close>

theorem deroff_text_ends:
  assumes "h n = Some nd" "nd_string nd = Some (concat gs @ m @ bl @ bs)" "list_all leading_blank gs"
    and "m \<noteq> []" "\<not> isspace (hd m)" "hd m \<noteq> BSLASH" "\<not> isspace (last m)" "last m \<noteq> BSLASH"
    and "list_all isspace bl" "bs \<in> {[], [BSLASH]}"
  shows "deroff h None n = Some (Some m) \<and> deroff h (Some d) n = Some (Some (d @ '' '' @ m @ bl @ bs))"
proof -
  have "deroff_lead (concat gs @ m @ bl @ bs) = m @ bl @ bs"
    using deroff_lead_blanks [OF assms(3), of "m @ bl @ bs"] assms(4-6) by simp
  moreover have "deroff_trail (m @ bl @ bs) = m" by (rule deroff_trail_blanks [OF assms(4,7-10)])
  ultimately show ?thesis using assms(1,2,4) by (simp add: deroff_def deroff_text_def Let_def)
qed

theorem deroff_text_ends_witness:
  "\<exists>nd. deroff [6 \<mapsto> nd] None 6 = Some (Some ''one'') \<and> deroff [6 \<mapsto> nd] (Some ''no'') 6 = Some (Some ''no one '')"
proof -
  let ?nd = "new_node doc0 4 5 ROFFT_TEXT ''TOKEN_NONE''\<lparr>nd_string := Some ('' '' @ BSLASH # ''&one '')\<rparr>"
  have "nd_string ?nd = Some (concat ['' '', [BSLASH, CHR ''&'']] @ ''one'' @ '' '' @ [])" by simp
  from deroff_text_ends [OF _ this, of "[6 \<mapsto> ?nd]" 6 "''no''"] show ?thesis
    by (intro exI [of _ ?nd]) (simp add: leading_blank_def isspace_def ord_of_def)
qed

end
