(* ===== verification/Roff_Str.thy ===== *)
theory Roff_Str
  imports Roff_Escape Roff_Num
begin

section \<open>Number registers, strings and character translations: \<open>roff.c\<close>\<close>

text \<open>
  The tables of the roff parser: number registers, user-defined strings and macros, renamed
  macros, and the translations of \<open>.tr\<close> and \<open>.char\<close>.  Every table is a list with the newest
  entry first, as the linked lists in the code are.  Names hold no NUL byte.
\<close>

subsection \<open>Constant tables\<close>

text \<open>The names of the mdoc(7) and man(7) macros, and the predefined strings of \<open>predefs.in\<close>.\<close>

definition mdoc_names :: "string list" where
  "mdoc_names = [
     ''Dd'', ''Dt'', ''Os'', ''Sh'', ''Ss'', ''Pp'', ''D1'', ''Dl'', ''Bd'', ''Ed'', ''Bl'', ''El'', ''It'',
     ''Ad'', ''An'', ''Ap'', ''Ar'', ''Cd'', ''Cm'', ''Dv'', ''Er'', ''Ev'', ''Ex'', ''Fa'', ''Fd'', ''Fl'',
     ''Fn'', ''Ft'', ''Ic'', ''In'', ''Li'', ''Nd'', ''Nm'', ''Op'', ''Ot'', ''Pa'', ''Rv'', ''St'', ''Va'',
     ''Vt'', ''Xr'', ''%A'', ''%B'', ''%D'', ''%I'', ''%J'', ''%N'', ''%O'', ''%P'', ''%R'', ''%T'', ''%V'',
     ''Ac'', ''Ao'', ''Aq'', ''At'', ''Bc'', ''Bf'', ''Bo'', ''Bq'', ''Bsx'', ''Bx'', ''Db'', ''Dc'', ''Do'',
     ''Dq'', ''Ec'', ''Ef'', ''Em'', ''Eo'', ''Fx'', ''Ms'', ''No'', ''Ns'', ''Nx'', ''Ox'', ''Pc'', ''Pf'',
     ''Po'', ''Pq'', ''Qc'', ''Ql'', ''Qo'', ''Qq'', ''Re'', ''Rs'', ''Sc'', ''So'', ''Sq'', ''Sm'', ''Sx'',
     ''Sy'', ''Tn'', ''Ux'', ''Xc'', ''Xo'', ''Fo'', ''Fc'', ''Oo'', ''Oc'', ''Bk'', ''Ek'', ''Bt'', ''Hf'',
     ''Fr'', ''Ud'', ''Lb'', ''Lp'', ''Lk'', ''Mt'', ''Brq'', ''Bro'', ''Brc'', ''%C'', ''Es'', ''En'',
     ''Dx'', ''%Q'', ''%U'', ''Ta'', ''Tg'']"

definition man_names :: "string list" where
  "man_names = [
     ''TH'', ''SH'', ''SS'', ''TP'', ''TQ'', ''LP'', ''PP'', ''P'', ''IP'', ''HP'', ''SM'', ''SB'', ''BI'',
     ''IB'', ''BR'', ''RB'', ''R'', ''B'', ''I'', ''IR'', ''RI'', ''RE'', ''RS'', ''DT'', ''UC'', ''PD'',
     ''AT'', ''in'', ''SY'', ''YS'', ''OP'', ''EX'', ''EE'', ''UR'', ''UE'', ''MT'', ''ME'', ''MR'']"

definition predefs :: "(string \<times> string) list" where
  "predefs = [
     (''Am'', ''&''), (''Ba'', [BSLASH] @ ''fR|'' @ [BSLASH] @ ''fP''), (''Ge'', [BSLASH] @ ''(>=''),
     (''Gt'', ''>''), (''If'', ''infinity''), (''Le'', [BSLASH] @ ''(<=''), (''Lq'', [BSLASH] @ ''(lq''),
     (''Lt'', ''<''), (''Na'', ''NaN''), (''Ne'', [BSLASH] @ ''(!=''), (''Pi'', ''pi''),
     (''Pm'', [BSLASH] @ ''(+-''), (''Rq'', [BSLASH] @ ''(rq''), (''left-bracket'', ''[''),
     (''left-parenthesis'', ''(''), (''lp'', ''(''), (''left-singlequote'', [BSLASH] @ ''(oq''),
     (''q'', [BSLASH] @ ''(dq''), (''quote-left'', [BSLASH] @ ''(oq''),
     (''quote-right'', [BSLASH] @ ''(cq''), (''R'', [BSLASH] @ ''(rg''), (''right-bracket'', '']''),
     (''right-parenthesis'', '')''), (''rp'', '')''), (''right-singlequote'', [BSLASH] @ ''(cq''),
     (''Tm'', ''(Tm)''), (''Px'', ''POSIX''), (''Ai'', ''ANSI''), ([SQUOTE], [BSLASH] @ [SQUOTE]),
     (''aa'', [BSLASH] @ ''(aa''), (''ga'', [BSLASH] @ ''(ga''), ([CHR 0x60], [BSLASH] @ [CHR 0x60]),
     (''lq'', [BSLASH] @ ''(lq''), (''rq'', [BSLASH] @ ''(rq''), (''ua'', [BSLASH] @ ''(ua''),
     (''va'', [BSLASH] @ ''(va''), (''<='', [BSLASH] @ ''(<=''), (''>='', [BSLASH] @ ''(>='')]"

subsection \<open>The state\<close>

datatype roff_macroset = MACROSET_NONE | MACROSET_MDOC | MACROSET_MAN

datatype roffdef = ROFFDEF_USER | ROFFDEF_PRE | ROFFDEF_REN | ROFFDEF_STD | ROFFDEF_UNDEF

definition ROFFDEF_ANY :: "roffdef set" where
  "ROFFDEF_ANY = {ROFFDEF_USER, ROFFDEF_PRE, ROFFDEF_REN, ROFFDEF_STD}"

text \<open>A register has a value and a step; the value of a string is None for a NULL pointer.\<close>

type_synonym regtab = "(string \<times> int \<times> int) list"
type_synonym roffkv = "(string \<times> string option) list"

text \<open>
  \<open>r_mstack\<close> holds the arguments of the active macro calls, the innermost first; it stands for
  \<open>mstack\<close> up to \<open>mstackpos\<close>.  \<open>r_macroset\<close> is \<open>man->meta.macroset\<close>.
\<close>

record roff =
  r_mstack :: "string list list"
  r_regtab :: regtab
  r_strtab :: roffkv
  r_rentab :: roffkv
  r_xmbtab :: roffkv
  r_xtab :: "(char \<Rightarrow> string option) option"
  r_control :: char
  r_escape :: char
  r_macroset :: roff_macroset

definition roff_init :: roff where
  "roff_init = \<lparr>r_mstack = [], r_regtab = [], r_strtab = [], r_rentab = [], r_xmbtab = [], r_xtab = None,
     r_control = NUL, r_escape = BSLASH, r_macroset = MACROSET_NONE\<rparr>"

subsection \<open>Tables as lists\<close>

text \<open>Replace the value of the first entry with the key, or put a new entry in front.\<close>

fun kv_replace :: "string \<Rightarrow> 'v \<Rightarrow> (string \<times> 'v) list \<Rightarrow> (string \<times> 'v) list" where
  "kv_replace k v [] = []"
| "kv_replace k v ((k', v') # kvs) = (if k' = k then (k, v) # kvs else (k', v') # kv_replace k v kvs)"

definition kv_put :: "string \<Rightarrow> 'v \<Rightarrow> (string \<times> 'v) list \<Rightarrow> (string \<times> 'v) list" where
  "kv_put k v kvs = (if map_of kvs k = None then (k, v) # kvs else kv_replace k v kvs)"

lemma map_of_kv_replace: "map_of kvs k \<noteq> None \<Longrightarrow> map_of (kv_replace k v kvs) = (map_of kvs)(k \<mapsto> v)"
  by (induction k v kvs rule: kv_replace.induct) (auto simp: fun_eq_iff split: if_splits)

lemma map_of_kv_put [simp]: "map_of (kv_put k v kvs) = (map_of kvs)(k \<mapsto> v)"
  by (simp add: kv_put_def map_of_kv_replace)

lemma keys_kv_replace: "map fst (kv_replace k v kvs) = map fst kvs"
  by (induction k v kvs rule: kv_replace.induct) auto

lemma kv_put_distinct: "distinct (map fst kvs) \<Longrightarrow> distinct (map fst (kv_put k v kvs))"
  by (auto simp: kv_put_def keys_kv_replace map_of_eq_None_iff)

subsection \<open>Registers\<close>

text \<open>\<open>step\<close> is None for INT_MIN, which keeps the step.  The sums overflow as \<open>int\<close>.\<close>

definition roff_setregn :: "string \<Rightarrow> int \<Rightarrow> char \<Rightarrow> int option \<Rightarrow> roff \<Rightarrow> roff option" where
  "roff_setregn name val sign step r = do {
     let (v, s) = (case map_of (r_regtab r) name of Some vs \<Rightarrow> vs | None \<Rightarrow> (0, 0));
     v \<leftarrow> (if sign = CHR ''+'' then ck_int (v + val) else if sign = CHR ''-'' then ck_int (v - val) else Some val);
     Some (r\<lparr>r_regtab := kv_put name (v, case step of None \<Rightarrow> s | Some s' \<Rightarrow> s') (r_regtab r)\<rparr>)}"

definition roff_setreg :: "string \<Rightarrow> int \<Rightarrow> char \<Rightarrow> roff \<Rightarrow> roff option" where
  "roff_setreg name val sign r = roff_setregn name val sign None r"

text \<open>The read-only registers, after the dot; -1 for none.\<close>

definition roff_getregro :: "roff \<Rightarrow> char \<Rightarrow> int" where
  "roff_getregro r c =
     (if c = CHR ''$'' then (case r_mstack r of [] \<Rightarrow> 0 | a # _ \<Rightarrow> int (length a))
      else if c = CHR ''A'' then 0
      else if c = CHR ''g'' then 1
      else if c = CHR ''H'' then 24
      else if c = CHR ''j'' then 0
      else if c = CHR ''l'' then 78 * 24
      else if c = CHR ''T'' then 1
      else if c = CHR ''V'' then 40
      else -1)"

definition reg_readonly :: "roff \<Rightarrow> string \<Rightarrow> int" where
  "reg_readonly r name = (if length name = 2 \<and> hd name = CHR ''.'' then roff_getregro r (name ! 1) else -1)"

definition roff_getregn :: "string \<Rightarrow> char \<Rightarrow> roff \<Rightarrow> (int \<times> roff) option" where
  "roff_getregn name sign r =
     (if reg_readonly r name \<noteq> -1 then Some (reg_readonly r name, r)
      else case map_of (r_regtab r) name of
        Some (v, s) \<Rightarrow> do {
          v \<leftarrow> (if sign = CHR ''+'' then ck_int (v + s) else if sign = CHR ''-'' then ck_int (v - s) else Some v);
          Some (v, r\<lparr>r_regtab := kv_put name (v, s) (r_regtab r)\<rparr>)}
      | None \<Rightarrow> do { r \<leftarrow> roff_setregn name 0 NUL None r; Some (0, r) })"

definition roff_getreg :: "string \<Rightarrow> roff \<Rightarrow> (int \<times> roff) option" where
  "roff_getreg name r = roff_getregn name NUL r"

definition roff_hasregn :: "roff \<Rightarrow> string \<Rightarrow> bool" where
  "roff_hasregn r name \<longleftrightarrow> reg_readonly r name \<noteq> -1 \<or> map_of (r_regtab r) name \<noteq> None"

subsection \<open>Strings\<close>

text \<open>
  The copy loop of \<open>roff_setstrn\<close>: two escape characters become one.  The byte after the last
  one may be read, so the rest of the string is an argument as well.
\<close>

fun copy_mode :: "string \<Rightarrow> nat \<Rightarrow> string" where
  "copy_mode [] n = []"
| "copy_mode (c # cs) n =
     (if n = 0 then []
      else if c = BSLASH \<and> cs \<noteq> [] \<and> hd cs = BSLASH then BSLASH # copy_mode (tl cs) (n - 2)
      else c # copy_mode cs (n - 1))"

definition roff_setstrn :: "string \<Rightarrow> (string \<times> nat) option \<Rightarrow> nat \<Rightarrow> roffkv \<Rightarrow> roffkv" where
  "roff_setstrn name str mode tab =
     (let base = (case map_of tab name of Some v \<Rightarrow> if mode = 0 then None else v | None \<Rightarrow> None);
          val = (case str of
              None \<Rightarrow> base
            | Some (s, sz) \<Rightarrow> Some ((case base of None \<Rightarrow> [] | Some b \<Rightarrow> b) @ copy_mode s sz @
                (if mode > 1 then [NEWLINE] else [])))
      in kv_put name val tab)"

definition set_strtab :: "string \<Rightarrow> (string \<times> nat) option \<Rightarrow> nat \<Rightarrow> roff \<Rightarrow> roff" where
  "set_strtab name str mode r = r\<lparr>r_strtab := roff_setstrn name str mode (r_strtab r)\<rparr>"

definition set_rentab :: "string \<Rightarrow> (string \<times> nat) option \<Rightarrow> nat \<Rightarrow> roff \<Rightarrow> roff" where
  "set_rentab name str mode r = r\<lparr>r_rentab := roff_setstrn name str mode (r_rentab r)\<rparr>"

definition roff_setstr :: "string \<Rightarrow> string option \<Rightarrow> nat \<Rightarrow> roff \<Rightarrow> roff" where
  "roff_setstr name str mode r =
     set_rentab name None 0 (set_strtab name (map_option (\<lambda>s. (s, length s)) str) mode r)"

text \<open>The loops of \<open>roff_getstrn\<close> skip entries whose value is NULL.\<close>

definition kv_find :: "string \<Rightarrow> roffkv \<Rightarrow> string option" where
  "kv_find name tab = (case List.find (\<lambda>(k, v). k = name \<and> v \<noteq> None) tab of Some (k, v) \<Rightarrow> v | None \<Rightarrow> None)"

definition std_macro :: "roff \<Rightarrow> string \<Rightarrow> bool" where
  "std_macro r name \<longleftrightarrow> r_macroset r \<noteq> MACROSET_MAN \<and> name \<in> set mdoc_names \<or>
     r_macroset r \<noteq> MACROSET_MDOC \<and> name \<in> set man_names"

text \<open>The value, the type of the definition (None for 0), and the new state.\<close>

definition roff_getstrn :: "string \<Rightarrow> roffdef set \<Rightarrow> roff \<Rightarrow> string option \<times> roffdef option \<times> roff" where
  "roff_getstrn name deftype r =
     (let user = kv_find name (r_strtab r); ren = kv_find name (r_rentab r); pre = map_of predefs name
      in if user \<noteq> None \<and> ROFFDEF_USER \<in> deftype then (user, Some ROFFDEF_USER, r)
         else if ren \<noteq> None \<and> ROFFDEF_REN \<in> deftype then (ren, Some ROFFDEF_REN, r)
         else if pre \<noteq> None \<and> ROFFDEF_PRE \<in> deftype then (pre, Some ROFFDEF_PRE, r)
         else if std_macro r name \<and> ROFFDEF_STD \<in> deftype then (None, Some ROFFDEF_STD, r)
         else if user = None \<and> ren = None \<and> pre = None \<and> \<not> std_macro r name \<and> deftype \<noteq> ROFFDEF_ANY then
           (if ROFFDEF_REN \<in> deftype then (None, Some ROFFDEF_UNDEF, r)
            else (None, None, set_rentab name None 0 (set_strtab name (Some ([], 0)) 0 r)))
         else (None, None, r))"

subsection \<open>Names: \<open>roff_getname\<close>\<close>

text \<open>
  The function changes the line: an identifier with escaped bytes is compacted in place and the
  freed bytes become blanks.  The result is the line, the position after the name, and its size.
  A name that ends in a lone escape character (which \<open>roff_parse_comment\<close> removes from lines)
  would contain the terminator; it has no result.
\<close>

definition blank_range :: "nat \<Rightarrow> nat \<Rightarrow> string \<Rightarrow> string" where
  "blank_range i j buf = take i buf @ replicate (j - i) CHR '' '' @ drop (max i j) buf"

partial_function (option) getname_loop ::
  "nat \<Rightarrow> nat \<Rightarrow> nat \<Rightarrow> string \<Rightarrow> nat \<Rightarrow> nat \<Rightarrow> (string \<times> nat \<times> nat \<times> msg list) option" where
  "getname_loop ln pos start_pos buf cp namesz =
     Option.bind (rd buf cp) (\<lambda>c.
     if c = NUL then Some (buf, cp, namesz, [])
     else if c = CHR '' '' \<or> c = TAB then Some (buf, Suc cp, namesz, [])
     else if c \<noteq> BSLASH then
       getname_loop ln pos start_pos
         (if start_pos + namesz < cp then (buf[start_pos + namesz := c])[cp := CHR '' ''] else buf) (Suc cp) (Suc namesz)
     else Option.bind (rd buf (Suc cp)) (\<lambda>d.
     if d = CHR ''{'' \<or> d = CHR ''}'' then Some (buf, cp, namesz, [])
     else Option.bind (roff_escape True (drop cp buf) 0 0) (\<lambda>r.
     if o_rval r \<noteq> ESCAPE_UNDEF then
       Some (buf, cp + o_iend r, namesz,
         [(MANDOCERR_NAMESC, ln, pos, take namesz (drop start_pos buf) @ take (o_iend r) (drop cp buf))])
     else Option.bind (rd buf (cp + o_inam r)) (\<lambda>e.
     if e = NUL \<or> cp + o_iend r > length buf then None
     else getname_loop ln pos start_pos
       (blank_range (max cp (start_pos + Suc namesz)) (cp + o_iend r) (buf[start_pos + namesz := e]))
       (cp + o_iend r) (Suc namesz)))))"

definition roff_getname :: "nat \<Rightarrow> nat \<Rightarrow> string \<Rightarrow> nat \<Rightarrow> (string \<times> nat \<times> nat \<times> msg list) option" where
  "roff_getname ln pos buf start_pos = do {
     c \<leftarrow> rd buf start_pos;
     if c = NUL then Some (buf, start_pos, 0, [])
     else do {
       (buf, cp, namesz, ms) \<leftarrow> getname_loop ln pos start_pos buf start_pos 0;
       cp \<leftarrow> scan_while (\<lambda>c. c = CHR '' '') buf cp;
       Some (buf, cp, namesz, ms)}}"

subsection \<open>The control character: \<open>roff_getcontrol\<close>\<close>

definition roff_getcontrol :: "roff \<Rightarrow> string \<Rightarrow> nat \<Rightarrow> nat option option" where
  "roff_getcontrol r cp pos = do {
     c \<leftarrow> rd cp pos;
     p \<leftarrow> (if r_control r \<noteq> NUL then Some (if c = r_control r then Some (Suc pos) else None)
          else if c = BSLASH then do { d \<leftarrow> rd cp (Suc pos); Some (if d = CHR ''.'' then Some (pos + 2) else None) }
          else Some (if c = CHR ''.'' \<or> c = SQUOTE then Some (Suc pos) else None));
     case p of
       None \<Rightarrow> Some None
     | Some p \<Rightarrow> do { p \<leftarrow> scan_while (\<lambda>c. c = CHR '' '' \<or> c = TAB) cp p; Some (Some p) }}"

subsection \<open>Translation of text: \<open>roff_strdup\<close>\<close>

text \<open>
  After an invalid escape sequence the rest of the text is copied, but its size is not added, so
  that it is cut off by the terminator written at the end.
\<close>

definition xmb_match :: "roffkv \<Rightarrow> string \<Rightarrow> (string \<times> string option) option" where
  "xmb_match tab p = List.find (\<lambda>(k, v). take (length k) p = k) tab"

partial_function (option) strdup_loop :: "roff \<Rightarrow> string \<Rightarrow> string \<Rightarrow> string option" where
  "strdup_loop r p res =
     (case p of
        [] \<Rightarrow> Some res
      | c # cs \<Rightarrow>
          if ord_of c \<ge> 128 then None
          else if c \<noteq> BSLASH then
            strdup_loop r cs (res @ (case r_xtab r of None \<Rightarrow> [c] | Some x \<Rightarrow> (case x c of None \<Rightarrow> [c] | Some s \<Rightarrow> s)))
          else case xmb_match (r_xmbtab r) p of
            Some (k, v) \<Rightarrow> strdup_loop r (drop (length k) p) (res @ (case v of None \<Rightarrow> [] | Some s \<Rightarrow> s))
          | None \<Rightarrow> Option.bind (mandoc_escape p) (\<lambda>(esc, arg, argsz, len).
              if esc = ESCAPE_ERROR then Some res
              else strdup_loop r (drop len p) (res @ take len p)))"

definition roff_strdup :: "roff \<Rightarrow> string \<Rightarrow> string option" where
  "roff_strdup r p = (if r_xmbtab r = [] \<and> r_xtab r = None then Some p else strdup_loop r p [])"

end
