(* ===== verification/Roff_Req.thy ===== *)
theory Roff_Req
  imports Roff_Str
begin

section \<open>Requests on registers, strings and translations: \<open>roff.c\<close>\<close>

text \<open>
  Each handler gets the line number, the line, and the position of its arguments; all of them
  return \<open>ROFF_IGN\<close>, and the result is the new state with the messages issued.
\<close>

type_synonym req_out = "(roff \<times> msg list) option"

text \<open>Define one of the two kinds of names and hide the other.\<close>

definition def_string :: "string \<Rightarrow> (string \<times> nat) option \<Rightarrow> nat \<Rightarrow> roff \<Rightarrow> roff" where
  "def_string name str mode r = set_rentab name None 0 (set_strtab name str mode r)"

definition def_renamed :: "string \<Rightarrow> (string \<times> nat) option \<Rightarrow> roff \<Rightarrow> roff" where
  "def_renamed name str r = set_strtab name None 0 (set_rentab name str 0 r)"

definition roff_ds :: "bool \<Rightarrow> nat \<Rightarrow> string \<Rightarrow> nat \<Rightarrow> roff \<Rightarrow> req_out" where
  "roff_ds append_mode ln buf pos r = do {
     c \<leftarrow> rd buf pos;
     if c = NUL then Some (r, [])
     else do {
       (buf, sp, namesz, ms) \<leftarrow> roff_getname ln pos buf pos;
       e \<leftarrow> rd buf (pos + namesz);
       if e = BSLASH then Some (r, ms)
       else do {
         let sp = (if e = TAB then pos + namesz else sp);
         q \<leftarrow> rd buf sp;
         let s = drop (if q = DQUOTE then Suc sp else sp) buf;
         Some (def_string (take namesz (drop pos buf)) (Some (s, length s)) (if append_mode then 1 else 0) r, ms)}}}"

partial_function (option) rm_loop :: "nat \<Rightarrow> string \<Rightarrow> nat \<Rightarrow> roff \<Rightarrow> msg list \<Rightarrow> (roff \<times> msg list) option" where
  "rm_loop ln buf cp r ms =
     Option.bind (rd buf cp) (\<lambda>c.
     if c = NUL then Some (r, ms)
     else Option.bind (roff_getname ln cp buf cp) (\<lambda>(buf, cp', namesz, ms').
     Option.bind (rd buf (cp + namesz)) (\<lambda>e.
       let name = take namesz (drop cp buf); r = set_rentab name None 0 (set_strtab name None 0 r)
       in if e = BSLASH \<or> e = TAB then Some (r, ms @ ms')
          else rm_loop ln buf cp' r (ms @ ms'))))"

definition roff_rm :: "nat \<Rightarrow> string \<Rightarrow> nat \<Rightarrow> roff \<Rightarrow> req_out" where
  "roff_rm ln buf pos r = rm_loop ln buf pos r []"

definition roff_als :: "nat \<Rightarrow> string \<Rightarrow> nat \<Rightarrow> roff \<Rightarrow> req_out" where
  "roff_als ln buf pos r = do {
     c \<leftarrow> rd buf pos;
     if c = NUL then Some (r, [])
     else do {
       (buf, oldn, newsz, ms) \<leftarrow> roff_getname ln pos buf pos;
       e \<leftarrow> rd buf (pos + newsz);
       old \<leftarrow> rd buf oldn;
       if e = BSLASH \<or> e = TAB \<or> old = NUL then Some (r, ms)
       else do {
         (buf, _, oldsz, ms') \<leftarrow> roff_getname ln oldn buf oldn;
         if oldsz = 0 then Some (r, ms @ ms')
         else do {
           let val = ''.'' @ take oldsz (drop oldn buf) @ '' '' @ [BSLASH] @ ''$@'' @ [BSLASH, DQUOTE, NEWLINE];
           Some (def_string (take newsz (drop pos buf)) (Some (val, length val)) 0 r, ms @ ms')}}}}"

text \<open>
  If both names of \<open>.rn\<close> are the same user-defined string or renamed macro, setting the new value
  frees the old one, which is then copied: undefined behaviour.
\<close>

definition rename_to :: "string \<Rightarrow> string \<Rightarrow> roff \<Rightarrow> roff option" where
  "rename_to newn oldn r =
     (case roff_getstrn oldn ROFFDEF_ANY r of
        (Some v, Some ROFFDEF_USER, r) \<Rightarrow>
          if newn = oldn then None
          else Some (set_rentab newn None 0 (set_strtab oldn None 0 (set_strtab newn (Some (v, length v)) 0 r)))
      | (Some v, Some ROFFDEF_PRE, r) \<Rightarrow> Some (def_string newn (Some (v, length v)) 0 r)
      | (Some v, Some ROFFDEF_REN, r) \<Rightarrow>
          if newn = oldn then None
          else Some (set_strtab newn None 0 (set_rentab oldn None 0 (set_rentab newn (Some (v, length v)) 0 r)))
      | (_, Some ROFFDEF_STD, r) \<Rightarrow> Some (def_renamed newn (Some (oldn, length oldn)) r)
      | (_, _, r) \<Rightarrow> Some (def_string newn None 0 r))"

definition roff_rn :: "nat \<Rightarrow> string \<Rightarrow> nat \<Rightarrow> roff \<Rightarrow> req_out" where
  "roff_rn ln buf pos r = do {
     c \<leftarrow> rd buf pos;
     if c = NUL then Some (r, [])
     else do {
       (buf, newn, oldsz, ms) \<leftarrow> roff_getname ln pos buf pos;
       e \<leftarrow> rd buf (pos + oldsz);
       n \<leftarrow> rd buf newn;
       if e = BSLASH \<or> e = TAB \<or> n = NUL then Some (r, ms)
       else do {
         (buf, _, newsz, ms') \<leftarrow> roff_getname ln newn buf newn;
         if newsz = 0 then Some (r, ms @ ms')
         else do {
           r \<leftarrow> rename_to (take newsz (drop newn buf)) (take oldsz (drop pos buf)) r;
           Some (r, ms @ ms')}}}}"

subsection \<open>Registers\<close>

definition roff_nr :: "nat \<Rightarrow> string \<Rightarrow> nat \<Rightarrow> roff \<Rightarrow> req_out" where
  "roff_nr ln buf pos r = do {
     c \<leftarrow> rd buf pos;
     if c = NUL then Some (r, [])
     else do {
       (buf, vp, keysz, ms) \<leftarrow> roff_getname ln pos buf pos;
       e \<leftarrow> rd buf (pos + keysz);
       if e = BSLASH \<or> e = TAB then Some (r, ms)
       else do {
         sign \<leftarrow> rd buf vp;
         let vp = (if sign = CHR ''+'' \<or> sign = CHR ''-'' then Suc vp else vp);
         v \<leftarrow> roff_evalnum ln True (drop vp buf) 0 CHR ''u'' False;
         if \<not> n_ok v then Some (r, ms @ n_msgs v)
         else do {
           iv \<leftarrow> n_res v;
           sp \<leftarrow> scan_while isspace buf (vp + n_pos v);
           s \<leftarrow> roff_evalnum ln True (drop sp buf) 0 NUL False;
           r \<leftarrow> roff_setregn (take keysz (drop pos buf)) iv sign
                 (if n_ok s \<and> n_res s \<noteq> Some (-2147483648) then n_res s else None) r;
           Some (r, ms @ n_msgs v @ n_msgs s)}}}}"

definition roff_rr :: "nat \<Rightarrow> string \<Rightarrow> nat \<Rightarrow> roff \<Rightarrow> req_out" where
  "roff_rr ln buf pos r = do {
     c \<leftarrow> rd buf pos;
     if c = NUL then Some (r, [])
     else do {
       (buf, _, namesz, ms) \<leftarrow> roff_getname ln pos buf pos;
       Some (r\<lparr>r_regtab := (let name = take namesz (drop pos buf); tab = r_regtab r
               in takeWhile (\<lambda>(k, _). k \<noteq> name) tab @ tl (dropWhile (\<lambda>(k, _). k \<noteq> name) tab))\<rparr>, ms)}}"

subsection \<open>Control and escape characters\<close>

definition roff_cc :: "nat \<Rightarrow> string \<Rightarrow> nat \<Rightarrow> roff \<Rightarrow> req_out" where
  "roff_cc ln buf pos r = do {
     c \<leftarrow> rd buf pos;
     let p = (if c = NUL then pos else Suc pos);
     let r = r\<lparr>r_control := (if c = NUL \<or> c = CHR ''.'' then NUL else c)\<rparr>;
     d \<leftarrow> rd buf p;
     Some (r, if d \<noteq> NUL then [(MANDOCERR_ARG_EXCESS, ln, p, ''cc ... '' @ drop p buf)] else [])}"

definition roff_ec :: "nat \<Rightarrow> string \<Rightarrow> nat \<Rightarrow> roff \<Rightarrow> req_out" where
  "roff_ec ln buf pos r = do {
     c \<leftarrow> rd buf pos;
     if c = NUL then Some (r\<lparr>r_escape := BSLASH\<rparr>, [])
     else do {
       d \<leftarrow> rd buf (Suc pos);
       Some (r\<lparr>r_escape := c\<rparr>, if d \<noteq> NUL then [(MANDOCERR_ARG_EXCESS, ln, Suc pos, ''ec ... '' @ drop (Suc pos) buf)] else [])}}"

definition roff_eo :: "nat \<Rightarrow> string \<Rightarrow> nat \<Rightarrow> roff \<Rightarrow> req_out" where
  "roff_eo ln buf pos r = do {
     c \<leftarrow> rd buf pos;
     Some (r\<lparr>r_escape := NUL\<rparr>, if c \<noteq> NUL then [(MANDOCERR_ARG_SKIP, ln, pos, ''eo '' @ drop pos buf)] else [])}"

subsection \<open>Translations\<close>

definition xtab_set :: "char \<Rightarrow> string \<Rightarrow> roff \<Rightarrow> roff option" where
  "xtab_set c s r =
     (if ord_of c \<ge> 128 then None
      else Some (r\<lparr>r_xtab := Some ((case r_xtab r of None \<Rightarrow> (\<lambda>_. None) | Some x \<Rightarrow> x)(c := Some s))\<rparr>))"

definition xmb_set :: "string \<Rightarrow> (string \<times> nat) \<Rightarrow> nat \<Rightarrow> roff \<Rightarrow> roff" where
  "xmb_set key str mode r = r\<lparr>r_xmbtab := roff_setstrn key (Some str) mode (r_xmbtab r)\<rparr>"

text \<open>One character or escape sequence at a position: the position after it, None for an error.\<close>

definition glyph_end :: "string \<Rightarrow> nat \<Rightarrow> nat option option" where
  "glyph_end buf p = do {
     c \<leftarrow> rd buf p;
     if c = BSLASH then do {
       (esc, _, _, len) \<leftarrow> mandoc_escape (drop p buf);
       Some (if esc = ESCAPE_ERROR then None else Some (p + len))}
     else Some (Some (Suc p))}"

text \<open>One pair of \<open>.tr\<close>: the new state and the position of the next pair, None to give up.\<close>

definition tr_pair :: "nat \<Rightarrow> string \<Rightarrow> nat \<Rightarrow> roff \<Rightarrow> (roff \<times> msg list \<times> nat option) option" where
  "tr_pair ln buf p r = do {
     fe \<leftarrow> glyph_end buf p;
     case fe of None \<Rightarrow> Some (r, [], None)
     | Some p2 \<Rightarrow> do {
         d \<leftarrow> rd buf p2;
         se \<leftarrow> glyph_end buf p2;
         case se of None \<Rightarrow> Some (r, [], None)
         | Some p3 \<Rightarrow> do {
             let ms = (if d = NUL then [(MANDOCERR_TR_ODD, ln, p, ''tr '' @ drop p buf)] else []);
             let second = (if d = NUL then '' '' else drop p2 buf);
             let ssz = (if d = NUL then 1 else p3 - p2);
             c \<leftarrow> rd buf p;
             r \<leftarrow> (if p2 - p > 1 then Some (xmb_set (take (p2 - p) (drop p buf)) (second, ssz) 0 r)
                  else xtab_set c (take ssz second) r);
             Some (r, ms, Some (if d = NUL then p2 else p3))}}}"

partial_function (option) tr_loop :: "nat \<Rightarrow> string \<Rightarrow> nat \<Rightarrow> roff \<Rightarrow> msg list \<Rightarrow> (roff \<times> msg list) option" where
  "tr_loop ln buf p r ms =
     Option.bind (rd buf p) (\<lambda>c.
     if c = NUL then Some (r, ms)
     else Option.bind (tr_pair ln buf p r) (\<lambda>(r, ms', q).
       case q of None \<Rightarrow> Some (r, ms @ ms') | Some p \<Rightarrow> tr_loop ln buf p r (ms @ ms')))"

definition roff_tr :: "nat \<Rightarrow> nat \<Rightarrow> string \<Rightarrow> nat \<Rightarrow> roff \<Rightarrow> req_out" where
  "roff_tr ln ppos buf pos r = do {
     c \<leftarrow> rd buf pos;
     if c = NUL then Some (r, [(MANDOCERR_REQ_EMPTY, ln, ppos, ''tr'')]) else tr_loop ln buf pos r []}"

text \<open>Counting the font escape sequences in the replacement string of \<open>.char\<close>.\<close>

partial_function (option) count_fonts :: "string \<Rightarrow> nat \<Rightarrow> nat option" where
  "count_fonts p font =
     (case p of
        [] \<Rightarrow> Some font
      | c # cs \<Rightarrow>
          if c \<noteq> BSLASH then count_fonts cs font
          else Option.bind (mandoc_escape p) (\<lambda>(esc, arg, argsz, len).
            count_fonts (drop len p)
              (if esc \<in> {ESCAPE_FONT, ESCAPE_FONTROMAN, ESCAPE_FONTITALIC, ESCAPE_FONTBOLD, ESCAPE_FONTBI,
                  ESCAPE_FONTCR, ESCAPE_FONTCB, ESCAPE_FONTCI, ESCAPE_FONTPREV} then Suc font else font)))"

definition char_key :: "string \<Rightarrow> nat \<Rightarrow> nat option option" where
  "char_key buf kp = do {
     c \<leftarrow> rd buf kp;
     if c = NUL then Some None
     else do {
       e \<leftarrow> (if c = BSLASH then do {
              (esc, _, _, len) \<leftarrow> mandoc_escape (drop kp buf);
              Some (if esc \<noteq> ESCAPE_SPECIAL then None else Some (kp + len)) }
            else Some (Some (Suc kp)));
       case e of None \<Rightarrow> Some None
       | Some p \<Rightarrow> do { d \<leftarrow> rd buf p; Some (if d \<noteq> CHR '' '' \<and> d \<noteq> NUL then None else Some p) }}}"

text \<open>
  Approximate the effect of \<open>.char\<close> using the \<open>.tr\<close> tables.  The font is restored after a
  replacement of a single byte by the C string with a form feed and the letter P, and after
  others by the escape sequence.
\<close>

definition char_define :: "string \<Rightarrow> string \<Rightarrow> nat \<Rightarrow> roff \<Rightarrow> roff option" where
  "char_define key v font r =
     (if length key = 1 then xtab_set (hd key) (v @ (if font > 0 then [CHR 0x0C, CHR ''P''] else [])) r
      else let r = xmb_set key (v, length v) 0 r
        in Some (if font > 0 then xmb_set key (BSLASH # ''fP'', 3) 1 r else r))"

definition roff_char :: "nat \<Rightarrow> string \<Rightarrow> nat \<Rightarrow> roff \<Rightarrow> req_out" where
  "roff_char ln buf pos r = do {
     k \<leftarrow> char_key buf pos;
     case k of
       None \<Rightarrow> Some (r, [(MANDOCERR_CHAR_ARG, ln, pos, ''char '' @ drop pos buf)])
     | Some p \<Rightarrow> do {
         vp \<leftarrow> scan_while (\<lambda>c. c = CHR '' '') buf p;
         let v = drop vp buf;
         font \<leftarrow> count_fonts v 0;
         r \<leftarrow> char_define (take (p - pos) (drop pos buf)) v font r;
         Some (r, if font > 1 then [(MANDOCERR_CHAR_FONT, ln, vp, v)] else [])}}"

end
