(* ===== verification/Roff_Str_Lemmas.thy ===== *)
theory Roff_Str_Lemmas
  imports Roff_Req
begin

section \<open>Lemmas on registers, strings and names\<close>

subsection \<open>Lookup\<close>

definition keys_ok :: "(string \<times> 'v) list \<Rightarrow> bool" where
  "keys_ok tab \<longleftrightarrow> distinct (map fst tab)"

definition lookup :: "roffkv \<Rightarrow> string \<Rightarrow> string option" where
  "lookup tab name = (case map_of tab name of Some v \<Rightarrow> v | None \<Rightarrow> None)"

lemma keys_ok_put [simp]: "keys_ok tab \<Longrightarrow> keys_ok (kv_put k v tab)"
  by (simp add: keys_ok_def kv_put_distinct)

lemma kv_find_lookup: "keys_ok tab \<Longrightarrow> kv_find name tab = lookup tab name"
proof (induction tab)
  case Nil
  then show ?case by (simp add: kv_find_def lookup_def)
next
  case (Cons e tab)
  obtain k v where e: "e = (k, v)" by (cases e)
  have IH: "kv_find name tab = lookup tab name" using Cons by (simp add: keys_ok_def)
  show ?case
  proof (cases "k = name \<and> v = None")
    case True
    then have "map_of tab name = None" using Cons.prems e by (auto simp: keys_ok_def map_of_eq_None_iff)
    then show ?thesis using IH True e by (simp add: kv_find_def lookup_def)
  next
    case False
    then show ?thesis using IH e by (auto simp: kv_find_def lookup_def)
  qed
qed

lemma keys_ok_setstrn [simp]: "keys_ok tab \<Longrightarrow> keys_ok (roff_setstrn name str mode tab)"
  by (simp add: roff_setstrn_def Let_def)

text \<open>What a name is set to.\<close>

definition new_value :: "(string \<times> nat) option \<Rightarrow> nat \<Rightarrow> string option \<Rightarrow> string option" where
  "new_value str mode old =
     (let base = (if mode = 0 then None else old)
      in case str of None \<Rightarrow> base
         | Some (s, sz) \<Rightarrow> Some ((case base of None \<Rightarrow> [] | Some b \<Rightarrow> b) @ copy_mode s sz @ (if mode > 1 then [NEWLINE] else [])))"

lemma lookup_setstrn: "lookup (roff_setstrn name str mode tab) = (lookup tab)(name := new_value str mode (lookup tab name))"
  by (auto simp: roff_setstrn_def lookup_def new_value_def Let_def fun_eq_iff split: option.split)

lemma copy_mode_plain: "BSLASH \<notin> set s \<Longrightarrow> copy_mode s (length s) = s"
  by (induction s) auto

subsection \<open>Names without escape sequences\<close>

definition name_char :: "char \<Rightarrow> bool" where
  "name_char c \<longleftrightarrow> c \<notin> {NUL, CHR '' '', TAB, BSLASH}"

definition word_end :: "string \<Rightarrow> bool" where
  "word_end s \<longleftrightarrow> s = [] \<or> hd s = CHR '' '' \<or> hd s = TAB"

lemma getname_loop_plain:
  assumes "list_all name_char v" "word_end rest"
  shows "getname_loop ln pos (length pre) (pre @ u @ v @ rest) (length pre + length u) (length u) =
    Some (pre @ u @ v @ rest, length pre + length u + length v + (if rest = [] then 0 else 1), length u + length v, [])"
  using assms
proof (induction v arbitrary: u)
  case Nil
  show ?case
  proof (cases rest)
    case Nil
    then show ?thesis by (subst getname_loop.simps) (simp add: rd_def)
  next
    case (Cons c cs)
    then have "c = CHR '' '' \<or> c = TAB" using Nil.prems by (simp add: word_end_def)
    then show ?thesis using Cons by (subst getname_loop.simps) (auto simp: rd_def nth_append)
  qed
next
  case (Cons c v)
  have c: "name_char c" "list_all name_char v" using Cons.prems by simp_all
  have IH: "getname_loop ln pos (length pre) (pre @ (u @ [c]) @ v @ rest) (length pre + length (u @ [c])) (length (u @ [c])) =
    Some (pre @ (u @ [c]) @ v @ rest, length pre + length (u @ [c]) + length v + (if rest = [] then 0 else 1), length (u @ [c]) + length v, [])"
    by (rule Cons.IH) (use c Cons.prems in simp_all)
  have "rd (pre @ u @ (c # v) @ rest) (length pre + length u) = Some c" by (simp add: rd_def nth_append)
  then show ?case using IH c(1) by (subst getname_loop.simps) (simp add: name_char_def)
qed

lemma scan_while_append:
  "list_all P v \<Longrightarrow> \<not> P NUL \<Longrightarrow> rest = [] \<or> \<not> P (hd rest) \<Longrightarrow> scan_while P (pre @ v @ rest) (length pre) = Some (length pre + length v)"
proof (induction v arbitrary: pre)
  case Nil
  then show ?case by (cases rest) (auto simp: scan_while.simps rd_def nth_append)
next
  case (Cons c v)
  have "scan_while P ((pre @ [c]) @ v @ rest) (length (pre @ [c])) = Some (length (pre @ [c]) + length v)"
    by (rule Cons.IH) (use Cons.prems in simp_all)
  moreover have "rd (pre @ (c # v) @ rest) (length pre) = Some c" by (simp add: rd_def nth_append)
  ultimately show ?case using Cons.prems by (subst scan_while.simps) simp
qed

lemma roff_getname_plain:
  assumes "w \<noteq> []" "list_all name_char w" "list_all (\<lambda>c. c = CHR '' '') bl" "rest = [] \<or> hd rest \<noteq> CHR '' ''"
  shows "roff_getname ln pos (pre @ w @ CHR '' '' # bl @ rest) (length pre) =
    Some (pre @ w @ CHR '' '' # bl @ rest, length pre + length w + Suc (length bl), length w, [])"
proof -
  have l: "getname_loop ln pos (length pre) (pre @ w @ CHR '' '' # bl @ rest) (length pre) 0 =
      Some (pre @ w @ CHR '' '' # bl @ rest, length pre + length w + 1, length w, [])"
    using getname_loop_plain [of w "CHR '' '' # bl @ rest" ln pos pre "[]"] assms(2) by (simp add: word_end_def)
  have "scan_while (\<lambda>c. c = CHR '' '') ((pre @ w @ [CHR '' '']) @ bl @ rest) (length (pre @ w @ [CHR '' ''])) =
      Some (length (pre @ w @ [CHR '' '']) + length bl)"
    by (rule scan_while_append) (use assms in auto)
  moreover obtain c cs where "w = c # cs" "c \<noteq> NUL" using assms(1,2) by (cases w) (auto simp: name_char_def)
  ultimately show ?thesis using l by (simp add: roff_getname_def rd_def nth_append)
qed

lemma roff_getname_last:
  assumes "w \<noteq> []" "list_all name_char w"
  shows "roff_getname ln pos (pre @ w) (length pre) = Some (pre @ w, length pre + length w, length w, [])"
proof -
  have l: "getname_loop ln pos (length pre) (pre @ w) (length pre) 0 = Some (pre @ w, length pre + length w, length w, [])"
    using getname_loop_plain [of w "[]" ln pos pre "[]"] assms(2) by (simp add: word_end_def)
  have "scan_while (\<lambda>c. c = CHR '' '') ((pre @ w) @ [] @ []) (length (pre @ w)) = Some (length (pre @ w) + 0)"
    by (subst scan_while.simps) (simp add: rd_def)
  moreover obtain c cs where "w = c # cs" "c \<noteq> NUL" using assms by (cases w) (auto simp: name_char_def)
  ultimately show ?thesis using l by (simp add: roff_getname_def rd_def nth_append)
qed

end
