(* ===== verification/Roff_Num_Bounds.thy ===== *)
theory Roff_Num_Bounds
  imports Roff_Num
begin

section \<open>Results of numeric expressions fit into \<open>int\<close>\<close>

definition bounded :: "num_out option \<Rightarrow> bool" where
  "bounded r \<longleftrightarrow> (\<forall>out v. r = Some out \<longrightarrow> n_res out = Some v \<longrightarrow> in_int v)"

lemma boundedI: "(\<And>out v. r = Some out \<Longrightarrow> n_res out = Some v \<Longrightarrow> in_int v) \<Longrightarrow> bounded r"
  by (simp add: bounded_def)

lemma boundedD: "bounded (Some out) \<Longrightarrow> n_res out = Some v \<Longrightarrow> in_int v"
  by (simp add: bounded_def)

lemma bounded_None [simp]: "bounded None"
  by (simp add: bounded_def)

lemma bind_SomeE: "Option.bind m f = Some y \<Longrightarrow> (\<And>x. m = Some x \<Longrightarrow> f x = Some y \<Longrightarrow> P) \<Longrightarrow> P"
  by (cases m) auto

lemma d_to_int_bounded: "d_to_int x = Some y \<Longrightarrow> in_int y"
  by (simp add: d_to_int_def)

lemma getnum_tail_bounded:
  "(if c then Some (False, pos, None) else Option.bind m (\<lambda>u. if want then Option.bind (d_to_int (g u)) (\<lambda>r. Some (True, h u, Some r))
     else Some (True, h u, None))) = Some (ok, p, Some x) \<Longrightarrow> in_int x"
  by (cases c; cases m; cases want) (auto elim!: bind_SomeE simp: d_to_int_bounded)

lemma roff_getnum_bounded: "roff_getnum want v pos unit sp = Some (ok, p, Some x) \<Longrightarrow> in_int x"
  unfolding roff_getnum_def Let_def
  by (erule getnum_tail_bounded | erule bind_SomeE | clarify | simp only: prod.case)+

lemma in_int_between: "in_int b \<Longrightarrow> - \<bar>b\<bar> + 1 \<le> x \<Longrightarrow> x \<le> \<bar>b\<bar> - 1 \<Longrightarrow> in_int x"
  unfolding in_int_def int_limits by linarith

lemma smod_in_int: "in_int b \<Longrightarrow> b \<noteq> 0 \<Longrightarrow> in_int (a smod b)"
  using smod_int_range [of b a] in_int_between [of b "a smod b"] by simp

lemma apply_op_bounded:
  assumes "apply_op opr a b = Some (x, z)" "in_int a" "in_int b"
  shows "in_int x"
proof -
  have "x = 0 \<or> in_int x \<or> (\<exists>c. x = c_bool c) \<or> x = a smod b \<and> b \<noteq> 0 \<or> x = min a b \<or> x = max a b"
    using assms(1) unfolding apply_op_def by (simp split: if_splits) (auto)
  then show ?thesis
    using assms(2,3) smod_in_int [of b a] by (auto simp: min_def max_def) (simp add: in_int_def int_limits)
qed

lemma evalpar_bounded:
  assumes num: "\<And>w p. bounded (num w p)"
  shows "bounded (evalpar num want v unit sp pos)"
proof (rule boundedI)
  fix out x assume e: "evalpar num want v unit sp pos = Some out" and x: "n_res out = Some x"
  obtain c where c: "rd v pos = Some c" using e by (auto simp: evalpar_def bind_eq_Some_conv)
  show "in_int x"
  proof (cases "c = CHR ''(''")
    case False
    then show ?thesis using e x c roff_getnum_bounded by (auto simp: evalpar_def bind_eq_Some_conv)
  next
    case True
    then obtain r where r: "num want (Suc pos) = Some r" "n_res out = n_res r"
      using e c by (auto simp: evalpar_def bind_eq_Some_conv split: if_splits)
    then show ?thesis using num [of want "Suc pos"] x by (auto simp: bounded_def)
  qed
qed

lemma evalloop_bounded:
  assumes par: "\<And>w p. bounded (par w p)" and res: "\<And>x. res = Some x \<Longrightarrow> in_int x"
  shows "bounded (evalloop n par ln want v sp pos res ms)"
  using res
proof (induction n arbitrary: pos res ms)
  case (Suc n)
  show ?case
  proof (rule boundedI)
    fix out x assume e: "evalloop (Suc n) par ln want v sp pos res ms = Some out" and x: "n_res out = Some x"
    obtain p opr p' where p: "skip_if sp v pos = Some p" "roff_getop v p = Some (opr, p')"
      using e by (auto simp: bind_eq_Some_conv)
    show "in_int x"
    proof (cases opr)
      case None
      then show ?thesis using e p x Suc.prems by auto
    next
      case (Some o')
      then obtain p2 r where r: "skip_if sp v p' = Some p2" "par True p2 = Some r"
        using e p by (auto simp: bind_eq_Some_conv)
      show ?thesis
      proof (cases "n_ok r")
        case False
        then show ?thesis using e p Some r x Suc.prems by auto
      next
        case True
        then obtain p3 res' ms' where c: "skip_if sp v (n_pos r) = Some p3" "combine ln want v o' p3 res r = Some (res', ms')"
          "evalloop n par ln want v sp p3 res' (ms @ n_msgs r @ ms') = Some out"
          using e p Some r by (auto simp: bind_eq_Some_conv)
        have "in_int y" if y: "res' = Some y" for y
        proof (cases want)
          case False
          then show ?thesis using c(2) y Suc.prems by (simp add: combine_def)
        next
          case True
          then obtain a b z where ab: "res = Some a" "n_res r = Some b" "apply_op o' a b = Some (y, z)"
            using c(2) y by (auto simp: combine_def bind_eq_Some_conv)
          then show ?thesis using apply_op_bounded [OF ab(3)] Suc.prems par [of True p2] r(2) by (auto simp: bounded_def)
        qed
        then show ?thesis using Suc.IH [of res' p3] c(3) x by (auto simp: bounded_def)
      qed
    qed
  qed
qed simp

lemma evalnum_bounded: "bounded (evalnum n ln v unit sp want pos)"
proof (induction n arbitrary: want pos sp)
  case (Suc n)
  have par: "bounded (evalpar (evalnum n ln v unit True) w v unit sp p)" for w p
    by (rule evalpar_bounded) (rule Suc)
  show ?case
  proof (rule boundedI)
    fix out x assume e: "evalnum (Suc n) ln v unit sp want pos = Some out" and x: "n_res out = Some x"
    obtain p r where r: "skip_if sp v pos = Some p" "evalpar (evalnum n ln v unit True) want v unit sp p = Some r"
      using e by (auto simp: bind_eq_Some_conv Let_def)
    show "in_int x"
    proof (cases "n_ok r")
      case False
      then show ?thesis using e r x par [of want p] by (auto simp: bounded_def Let_def)
    next
      case True
      have "bounded (evalloop (Suc (length v)) (\<lambda>w p. evalpar (evalnum n ln v unit True) w v unit sp p) ln want v sp (n_pos r) (n_res r) (n_msgs r))"
        by (rule evalloop_bounded [OF par]) (use par [of want p] r in \<open>auto simp: bounded_def\<close>)
      moreover have "evalloop (Suc (length v)) (\<lambda>w p. evalpar (evalnum n ln v unit True) w v unit sp p) ln want v sp (n_pos r) (n_res r) (n_msgs r) = Some out"
        using e r True by (simp add: Let_def del: evalloop.simps)
      ultimately show ?thesis using x unfolding bounded_def by blast
    qed
  qed
qed simp

lemma roff_evalnum_bounded: "roff_evalnum ln want v pos unit sp = Some out \<Longrightarrow> n_res out = Some x \<Longrightarrow> in_int x"
  using evalnum_bounded [of "Suc (length v)" ln v unit sp want pos] unfolding roff_evalnum_def bounded_def by blast

end
