(* ===== verification/Roff_Str_Inv.thy ===== *)
theory Roff_Str_Inv
  imports Roff_Str_Lemmas Roff_Num_Bounds
begin

section \<open>Invariants of registers and strings\<close>

definition regs_ok :: "regtab \<Rightarrow> bool" where
  "regs_ok tab \<longleftrightarrow> keys_ok tab \<and> (\<forall>name v s. map_of tab name = Some (v, s) \<longrightarrow> in_int v \<and> in_int s)"

text \<open>No name is a user-defined string and a renamed macro at once.\<close>

definition names_ok :: "roffkv \<Rightarrow> roffkv \<Rightarrow> bool" where
  "names_ok str ren \<longleftrightarrow> keys_ok str \<and> keys_ok ren \<and> (\<forall>x. lookup str x = None \<or> lookup ren x = None)"

definition roff_ok :: "roff \<Rightarrow> bool" where
  "roff_ok r \<longleftrightarrow> regs_ok (r_regtab r) \<and> names_ok (r_strtab r) (r_rentab r) \<and> keys_ok (r_xmbtab r)"

lemma roff_okI: "regs_ok (r_regtab r) \<Longrightarrow> names_ok (r_strtab r) (r_rentab r) \<Longrightarrow> keys_ok (r_xmbtab r) \<Longrightarrow> roff_ok r"
  by (simp add: roff_ok_def)

lemma roff_init_ok: "roff_ok roff_init"
  by (simp add: roff_ok_def regs_ok_def names_ok_def keys_ok_def roff_init_def lookup_def)

subsection \<open>Registers\<close>

lemma regs_ok_put: "regs_ok tab \<Longrightarrow> in_int v \<Longrightarrow> in_int s \<Longrightarrow> regs_ok (kv_put name (v, s) tab)"
  by (auto simp: regs_ok_def)

lemma in_int_0 [simp]: "in_int 0"
  by (simp add: in_int_def int_limits)

lemma roff_setregn_ok:
  assumes ok: "roff_ok r" and set: "roff_setregn name val sign step r = Some r'"
    and v: "in_int val" "\<And>s. step = Some s \<Longrightarrow> in_int s"
  shows "roff_ok r'"
proof -
  obtain v0 s0 where vs: "(case map_of (r_regtab r) name of Some vs \<Rightarrow> vs | None \<Rightarrow> (0, 0)) = (v0, s0)" by (cases "case map_of (r_regtab r) name of Some vs \<Rightarrow> vs | None \<Rightarrow> (0, 0)")
  have reg: "regs_ok (r_regtab r)" using ok by (simp add: roff_ok_def)
  then have s0: "in_int v0" "in_int s0" using vs by (auto simp: regs_ok_def split: option.splits)
  obtain v1 where v1: "in_int v1" "r' = r\<lparr>r_regtab := kv_put name (v1, case step of None \<Rightarrow> s0 | Some s' \<Rightarrow> s') (r_regtab r)\<rparr>"
    using set v(1) vs by (auto simp: roff_setregn_def bind_eq_Some_conv split: if_splits)
  have "in_int (case step of None \<Rightarrow> s0 | Some s' \<Rightarrow> s')" using s0 v(2) by (simp split: option.split)
  then show ?thesis using ok v1 regs_ok_put [OF reg v1(1)] by (simp add: roff_ok_def)
qed

lemma roff_getregn_ok:
  assumes ok: "roff_ok r" and get: "roff_getregn name sign r = Some (x, r')"
  shows "roff_ok r'"
proof (cases "reg_readonly r name \<noteq> -1")
  case True
  then show ?thesis using assms by (simp add: roff_getregn_def)
next
  case ro: False
  show ?thesis
  proof (cases "map_of (r_regtab r) name")
    case None
    then show ?thesis using get ro roff_setregn_ok [OF ok, of name 0 NUL None] by (auto simp: roff_getregn_def bind_eq_Some_conv)
  next
    case (Some vs)
    obtain v s where vs: "vs = (v, s)" by (cases vs)
    have reg: "regs_ok (r_regtab r)" using ok by (simp add: roff_ok_def)
    then have "in_int v" "in_int s" using Some vs by (auto simp: regs_ok_def)
    moreover obtain v1 where "in_int v1 \<or> v1 = v" "r' = r\<lparr>r_regtab := kv_put name (v1, s) (r_regtab r)\<rparr>"
      using get ro Some vs by (auto simp: roff_getregn_def bind_eq_Some_conv split: if_splits)
    ultimately show ?thesis using ok regs_ok_put [OF reg, of v1 s name] by (auto simp: roff_ok_def)
  qed
qed

subsection \<open>Names\<close>

lemma names_ok_def_string: "names_ok str ren \<Longrightarrow> names_ok (roff_setstrn name x mode str) (roff_setstrn name None 0 ren)"
  by (auto simp: names_ok_def lookup_setstrn new_value_def)

lemma def_string_ok: "roff_ok r \<Longrightarrow> roff_ok (def_string name x mode r)"
  by (simp add: roff_ok_def def_string_def set_strtab_def set_rentab_def names_ok_def_string)

lemma names_ok_swap: "names_ok str ren \<longleftrightarrow> names_ok ren str"
  unfolding names_ok_def by metis

lemma def_renamed_ok: "roff_ok r \<Longrightarrow> roff_ok (def_renamed name x r)"
  using names_ok_def_string [of "r_rentab r" "r_strtab r" name x 0]
  by (simp add: roff_ok_def def_renamed_def set_strtab_def set_rentab_def names_ok_swap)

lemma names_ok_clear: "names_ok str ren \<Longrightarrow> names_ok (roff_setstrn name None 0 str) ren"
  by (auto simp: names_ok_def lookup_setstrn new_value_def)

lemma roff_setstr_ok: "roff_ok r \<Longrightarrow> roff_ok (roff_setstr name str mode r)"
  using def_string_ok by (simp add: roff_setstr_def def_string_def)

lemma roff_getstrn_ok: "roff_ok r \<Longrightarrow> roff_getstrn name d r = (x, t, r') \<Longrightarrow> roff_ok r'"
  using def_string_ok [of r name "Some ([], 0)" 0]
  by (auto simp: roff_getstrn_def def_string_def Let_def split: if_splits)

lemma roff_getstrn_any: "snd (snd (roff_getstrn name ROFFDEF_ANY r)) = r"
  by (simp add: roff_getstrn_def Let_def)

lemma rename_user_ok:
  assumes "roff_ok r"
  shows "roff_ok (set_rentab newn None 0 (set_strtab oldn None 0 (set_strtab newn x 0 r)))"
proof -
  have "names_ok (roff_setstrn newn x 0 (r_strtab r)) (roff_setstrn newn None 0 (r_rentab r))"
    using assms names_ok_def_string by (simp add: roff_ok_def)
  from names_ok_clear [OF this, of oldn] show ?thesis
    using assms by (simp add: roff_ok_def set_strtab_def set_rentab_def)
qed

lemma rename_renamed_ok:
  assumes "roff_ok r"
  shows "roff_ok (set_strtab newn None 0 (set_rentab oldn None 0 (set_rentab newn x 0 r)))"
proof -
  have "names_ok (roff_setstrn newn x 0 (r_rentab r)) (roff_setstrn newn None 0 (r_strtab r))"
    using assms names_ok_swap [of "r_strtab r"] by (simp add: roff_ok_def names_ok_def_string)
  from names_ok_clear [OF this, of oldn] show ?thesis
    using assms names_ok_swap [of "roff_setstrn oldn None 0 (roff_setstrn newn x 0 (r_rentab r))"]
    by (simp add: roff_ok_def set_strtab_def set_rentab_def)
qed

lemma rename_to_ok:
  assumes "roff_ok r" "rename_to newn oldn r = Some r'"
  shows "roff_ok r'"
proof -
  obtain v t where g: "roff_getstrn oldn ROFFDEF_ANY r = (v, t, r)"
    using roff_getstrn_any [of oldn r] by (metis prod.collapse)
  show ?thesis
    using assms unfolding rename_to_def g
    by (auto split: option.splits roffdef.splits if_splits
        intro: rename_user_ok rename_renamed_ok def_string_ok def_renamed_ok)
qed

subsection \<open>Requests\<close>

lemma roff_ds_ok: "roff_ok r \<Longrightarrow> roff_ds am ln buf pos r = Some (r', ms) \<Longrightarrow> roff_ok r'"
  by (auto simp: roff_ds_def bind_eq_Some_conv Let_def def_string_ok split: if_splits)

lemma roff_als_ok: "roff_ok r \<Longrightarrow> roff_als ln buf pos r = Some (r', ms) \<Longrightarrow> roff_ok r'"
  by (auto simp: roff_als_def bind_eq_Some_conv Let_def def_string_ok split: if_splits)

lemma roff_rn_ok: "roff_ok r \<Longrightarrow> roff_rn ln buf pos r = Some (r', ms) \<Longrightarrow> roff_ok r'"
  by (auto simp: roff_rn_def bind_eq_Some_conv Let_def rename_to_ok split: if_splits)

lemma roff_rm_ok: "roff_ok r \<Longrightarrow> roff_rm ln buf pos r = Some (r', ms) \<Longrightarrow> roff_ok r'"
  unfolding roff_rm_def
proof -
  have step: "roff_ok r \<longrightarrow> roff_ok (fst out)"
    if IH: "\<And>ln buf cp r ms out. f ln buf cp r ms = Some out \<Longrightarrow> roff_ok r \<longrightarrow> roff_ok (fst out)"
      and run: "Option.bind (rd buf cp) (\<lambda>c. if c = NUL then Some (r, ms)
        else Option.bind (roff_getname ln cp buf cp) (\<lambda>(buf, cp', namesz, ms'). Option.bind (rd buf (cp + namesz)) (\<lambda>e.
          let name = take namesz (drop cp buf); r = set_rentab name None 0 (set_strtab name None 0 r)
          in if e = BSLASH \<or> e = TAB then Some (r, ms @ ms') else f ln buf cp' r (ms @ ms')))) = Some out"
    for f ln buf cp r ms out
  proof
    assume r: "roff_ok r"
    have ok: "roff_ok (set_rentab name None 0 (set_strtab name None 0 r))" for name
      using def_string_ok [OF r, of name None 0] by (simp add: def_string_def)
    show "roff_ok (fst out)"
      using run r ok IH by (cases out) (auto simp: bind_eq_Some_conv Let_def split: if_splits)
  qed
  have "roff_ok r \<longrightarrow> roff_ok (fst out)" if "rm_loop ln buf pos r [] = Some out" for out
    by (rule rm_loop.raw_induct [OF step that])
  then show "roff_ok r \<Longrightarrow> rm_loop ln buf pos r [] = Some (r', ms) \<Longrightarrow> roff_ok r'" by fastforce
qed

lemma roff_nr_ok:
  assumes ok: "roff_ok r" and nr: "roff_nr ln buf pos r = Some (r', ms)"
  shows "roff_ok r'"
proof -
  have "r' = r \<or> (\<exists>key iv sign step. roff_setregn key iv sign step r = Some r' \<and> in_int iv \<and> (\<forall>s. step = Some s \<longrightarrow> in_int s))"
    using nr unfolding roff_nr_def Let_def
    by (auto simp: bind_eq_Some_conv split: if_splits dest: roff_evalnum_bounded) (blast dest: roff_evalnum_bounded)+
  then show ?thesis using ok roff_setregn_ok by blast
qed

lemma delete_filter: "distinct (map fst tab) \<Longrightarrow>
    takeWhile (\<lambda>(k, _). k \<noteq> name) tab @ tl (dropWhile (\<lambda>(k, _). k \<noteq> name) tab) = filter (\<lambda>(k, _). k \<noteq> name) tab"
proof (induction tab)
  case (Cons e tab)
  have "fst e \<notin> fst ` set tab" using Cons.prems by simp
  then have "x \<in> set tab \<Longrightarrow> fst x \<noteq> fst e" for x by (metis imageI)
  then have "fst e = name \<Longrightarrow> filter (\<lambda>(k, _). k \<noteq> name) tab = tab" by (intro filter_True) (auto simp: case_prod_beta)
  then show ?case using Cons by (cases e) auto
qed simp

lemma roff_rr_ok: "roff_ok r \<Longrightarrow> roff_rr ln buf pos r = Some (r', ms) \<Longrightarrow> roff_ok r'"
proof -
  have "regs_ok tab \<Longrightarrow> regs_ok (takeWhile (\<lambda>(k, _). k \<noteq> name) tab @ tl (dropWhile (\<lambda>(k, _). k \<noteq> name) tab))" for name and tab :: regtab
    unfolding regs_ok_def keys_ok_def 
    by (auto simp: delete_filter distinct_map_filter dest!: map_of_SomeD intro: map_of_is_SomeI)
  then show "roff_ok r \<Longrightarrow> roff_rr ln buf pos r = Some (r', ms) \<Longrightarrow> roff_ok r'"
    by (auto simp: roff_rr_def roff_ok_def bind_eq_Some_conv Let_def split: if_splits)
qed

end
