(* ===== verification/Roff_Str_Correct.thy ===== *)
theory Roff_Str_Correct
  imports Roff_Str_Inv
begin

section \<open>Correctness of registers, strings and translations\<close>

subsection \<open>All requests keep the invariant\<close>
















declare getname_loop.simps [code]



end
