(* ===== verification/Roff_Str_Props.thy ===== *)
theory Roff_Str_Props
  imports Roff_Str_Correct
begin

section \<open>What requests on strings and registers mean\<close>

subsection \<open>Strings\<close>

text \<open>The value that \<open>\*\<close> pastes for a name; None when the name is defined to be empty on use.\<close>

definition string_value :: "roff \<Rightarrow> string \<Rightarrow> string option" where
  "string_value r x = fst (roff_getstrn x {ROFFDEF_USER, ROFFDEF_PRE} r)"

lemma string_value_lookup:
  assumes "roff_ok r"
  shows "string_value r x = (case lookup (r_strtab r) x of Some v \<Rightarrow> Some v | None \<Rightarrow> map_of predefs x)"
  using assms by (auto simp: string_value_def roff_getstrn_def Let_def roff_ok_def names_ok_def kv_find_lookup split: option.split)

lemma def_string_tabs:
  "lookup (r_strtab (def_string name x mode r)) = (lookup (r_strtab r))(name := new_value x mode (lookup (r_strtab r) name))"
  "lookup (r_rentab (def_string name x mode r)) = (lookup (r_rentab r))(name := None)"
  "r_macroset (def_string name x mode r) = r_macroset r"
  by (simp_all add: def_string_def set_strtab_def set_rentab_def lookup_setstrn new_value_def)

definition unquote :: "string \<Rightarrow> string" where
  "unquote val = (if val \<noteq> [] \<and> hd val = DQUOTE then tl val else val)"

lemma ds_run:
  assumes w: "w \<noteq> []" "list_all name_char w" and bl: "list_all (\<lambda>c. c = CHR '' '') bl" "val = [] \<or> hd val \<noteq> CHR '' ''"
  shows "roff_ds am ln (pre @ w @ CHR '' '' # bl @ val) (length pre) r =
    Some (def_string w (Some (unquote val, length (unquote val))) (if am then 1 else 0) r, [])"
proof -
  obtain c cs where c: "w = c # cs" "c \<noteq> NUL" using w by (cases w) (auto simp: name_char_def)
  define buf where "buf = pre @ w @ CHR '' '' # bl @ val"
  define p where "p = length pre + length w + Suc (length bl)"
  have 1: "rd buf (length pre) = Some c" using c by (simp add: buf_def rd_def nth_append)
  have 2: "rd buf (length pre + length w) = Some CHR '' ''" by (simp add: buf_def rd_def nth_append)
  have 3: "drop p buf = val" by (simp add: buf_def p_def)
  then have 4: "drop (Suc p) buf = tl val" by (metis drop_Suc tl_drop)
  have 5: "rd buf p = Some (case val of [] \<Rightarrow> NUL | x # _ \<Rightarrow> x)"
    by (cases val) (simp_all add: buf_def p_def rd_def nth_append)
  have 6: "take (length w) (drop (length pre) buf) = w" by (simp add: buf_def)
  have 7: "roff_getname ln (length pre) buf (length pre) = Some (buf, p, length w, [])"
    using roff_getname_plain [OF w bl, of ln "length pre" pre] by (simp add: buf_def p_def)
  have 8: "length buf = p + length val" by (simp add: buf_def p_def)
  show ?thesis
    unfolding buf_def [symmetric] using c(2)
    by (cases val) (simp_all add: roff_ds_def unquote_def Let_def 1 2 3 4 5 6 7 8)
qed

text \<open>
  C28: After \<open>.ds name value\<close> the string has exactly the given value, with an initial quote removed and pairs of
  backslashes reduced to one; after \<open>.as\<close> the value is appended to the user-defined one, if any.  No other string
  changes, whatever was defined before, and a renamed macro of the same name is no longer visible.
\<close>

theorem roff_ds_defines:
  assumes "roff_ok r" "w \<noteq> []" "list_all name_char w" "list_all (\<lambda>c. c = CHR '' '') bl" "val = [] \<or> hd val \<noteq> CHR '' ''"
  shows "\<exists>r'. roff_ds am ln (pre @ w @ CHR '' '' # bl @ val) (length pre) r = Some (r', []) \<and>
    string_value r' = (string_value r)(w \<mapsto> (if am then case kv_find w (r_strtab r) of None \<Rightarrow> [] | Some v \<Rightarrow> v else []) @
      copy_mode (unquote val) (length (unquote val))) \<and>
    kv_find w (r_rentab r') = None"
proof -
  let ?r = "def_string w (Some (unquote val, length (unquote val))) (if am then 1 else 0) r"
  have ok: "roff_ok ?r" using def_string_ok [OF assms(1)] .
  have u: "kv_find w (r_strtab r) = lookup (r_strtab r) w" "kv_find w (r_rentab ?r) = lookup (r_rentab ?r) w"
    using assms(1) ok kv_find_lookup by (simp_all add: roff_ok_def names_ok_def)
  have "string_value ?r x = ((string_value r)(w \<mapsto> (if am then case kv_find w (r_strtab r) of None \<Rightarrow> [] | Some v \<Rightarrow> v else []) @
      copy_mode (unquote val) (length (unquote val)))) x" for x
    using string_value_lookup [OF ok, of x] string_value_lookup [OF assms(1), of x] u(1)
    by (auto simp: def_string_tabs new_value_def split: option.splits)
  then show ?thesis using ds_run [OF assms(2-5)] u(2) by (auto simp: def_string_tabs)
qed

theorem roff_ds_defines_witness:
  "\<exists>r'. roff_ds False 3 (''.ds x a'' @ [BSLASH, BSLASH] @ ''b'') 4 roff_init = Some (r', []) \<and>
    string_value r' ''x'' = Some (''a'' @ [BSLASH] @ ''b'')"
  using roff_ds_defines [OF roff_init_ok, of "''x''" "[]" "''a'' @ [BSLASH, BSLASH] @ ''b''" False 3 "''.ds ''"]
  by (auto simp: name_char_def unquote_def numeral_eq_Suc)

subsection \<open>Renaming\<close>

text \<open>What a name stands for when it is called as a macro.\<close>

datatype definition_of = User string | Renamed string | Predefined string | Standard | Undefined

definition builtin :: "roff \<Rightarrow> string \<Rightarrow> definition_of" where
  "builtin r x = (case map_of predefs x of Some v \<Rightarrow> Predefined v | None \<Rightarrow> if std_macro r x then Standard else Undefined)"

definition stands_for :: "roff \<Rightarrow> string \<Rightarrow> definition_of" where
  "stands_for r x = (case kv_find x (r_strtab r) of Some v \<Rightarrow> User v | None \<Rightarrow>
     (case kv_find x (r_rentab r) of Some v \<Rightarrow> Renamed v | None \<Rightarrow> builtin r x))"

lemma stands_for_lookup: "roff_ok r \<Longrightarrow> stands_for r x = (case lookup (r_strtab r) x of Some v \<Rightarrow> User v | None \<Rightarrow>
    (case lookup (r_rentab r) x of Some v \<Rightarrow> Renamed v | None \<Rightarrow> builtin r x))"
  by (simp add: stands_for_def roff_ok_def names_ok_def kv_find_lookup split: option.split)

definition reduced :: "string \<Rightarrow> string" where
  "reduced v = copy_mode v (length v)"

text \<open>What the new name stands for.\<close>

definition renamed_meaning :: "roff \<Rightarrow> string \<Rightarrow> string \<Rightarrow> definition_of" where
  "renamed_meaning r newn oldn = (case stands_for r oldn of
      User v \<Rightarrow> User (reduced v) | Renamed v \<Rightarrow> Renamed (reduced v) | Predefined v \<Rightarrow> User (reduced v)
    | Standard \<Rightarrow> Renamed (reduced oldn) | Undefined \<Rightarrow> builtin r newn)"

lemma rename_lookups:
  assumes ok: "roff_ok r" and ne: "newn \<noteq> oldn"
  shows "\<exists>r'. rename_to newn oldn r = Some r'"
    and "rename_to newn oldn r = Some r' \<Longrightarrow> lookup (r_strtab r') = (lookup (r_strtab r))
      (newn := (case stands_for r oldn of User v \<Rightarrow> Some (reduced v) | Predefined v \<Rightarrow> Some (reduced v) | _ \<Rightarrow> None),
       oldn := (case stands_for r oldn of User v \<Rightarrow> None | _ \<Rightarrow> lookup (r_strtab r) oldn))"
    and "rename_to newn oldn r = Some r' \<Longrightarrow> lookup (r_rentab r') = (lookup (r_rentab r))
      (newn := (case stands_for r oldn of Renamed v \<Rightarrow> Some (reduced v) | Standard \<Rightarrow> Some (reduced oldn) | _ \<Rightarrow> None),
       oldn := (case stands_for r oldn of Renamed v \<Rightarrow> None | _ \<Rightarrow> lookup (r_rentab r) oldn))"
    and "rename_to newn oldn r = Some r' \<Longrightarrow> r_macroset r' = r_macroset r"
proof -
  have kv: "kv_find oldn (r_strtab r) = lookup (r_strtab r) oldn" "kv_find oldn (r_rentab r) = lookup (r_rentab r) oldn"
    using ok by (simp_all add: roff_ok_def names_ok_def kv_find_lookup)
  note defs = rename_to_def roff_getstrn_def Let_def kv ROFFDEF_ANY_def def_string_def def_renamed_def set_strtab_def
    set_rentab_def lookup_setstrn new_value_def reduced_def stands_for_def builtin_def
  consider v where "lookup (r_strtab r) oldn = Some v"
    | v where "lookup (r_strtab r) oldn = None" "lookup (r_rentab r) oldn = Some v"
    | v where "lookup (r_strtab r) oldn = None" "lookup (r_rentab r) oldn = None" "map_of predefs oldn = Some v"
    | "lookup (r_strtab r) oldn = None" "lookup (r_rentab r) oldn = None" "map_of predefs oldn = None" "std_macro r oldn"
    | "lookup (r_strtab r) oldn = None" "lookup (r_rentab r) oldn = None" "map_of predefs oldn = None" "\<not> std_macro r oldn"
    by (meson option.exhaust)
  note cs = this
  show "\<exists>r'. rename_to newn oldn r = Some r'"
    by (rule cs) (use ne in \<open>simp_all add: defs\<close>)
  assume r': "rename_to newn oldn r = Some r'"
  show "lookup (r_strtab r') = (lookup (r_strtab r))
      (newn := (case stands_for r oldn of User v \<Rightarrow> Some (reduced v) | Predefined v \<Rightarrow> Some (reduced v) | _ \<Rightarrow> None),
       oldn := (case stands_for r oldn of User v \<Rightarrow> None | _ \<Rightarrow> lookup (r_strtab r) oldn))"
    by (rule cs) (use ne r' in \<open>auto simp: defs fun_eq_iff\<close>)
  show "lookup (r_rentab r') = (lookup (r_rentab r))
      (newn := (case stands_for r oldn of Renamed v \<Rightarrow> Some (reduced v) | Standard \<Rightarrow> Some (reduced oldn) | _ \<Rightarrow> None),
       oldn := (case stands_for r oldn of Renamed v \<Rightarrow> None | _ \<Rightarrow> lookup (r_rentab r) oldn))"
    by (rule cs) (use ne r' in \<open>auto simp: defs fun_eq_iff\<close>)
  show "r_macroset r' = r_macroset r" by (rule cs) (use ne r' in \<open>auto simp: defs\<close>)
qed

lemma rename_to_means:
  assumes ok: "roff_ok r" and ne: "newn \<noteq> oldn" and r': "rename_to newn oldn r = Some r'"
  shows "stands_for r' =
    (stands_for r)(newn := renamed_meaning r newn oldn,
      oldn := (case stands_for r oldn of User v \<Rightarrow> builtin r oldn | Renamed v \<Rightarrow> builtin r oldn | d \<Rightarrow> d))"
proof
  fix x
  have b: "builtin r' x = builtin r x" for x 
  proof -
    have "std_macro r' x = std_macro r x" by (simp add: std_macro_def rename_lookups(4) [OF ok ne r'])
    then show ?thesis by (simp add: builtin_def)
  qed
  have excl: "lookup (r_strtab r) oldn = None \<or> lookup (r_rentab r) oldn = None" using ok by (simp add: roff_ok_def names_ok_def)
  have old: "stands_for r oldn = (case lookup (r_strtab r) oldn of Some v \<Rightarrow> User v | None \<Rightarrow>
    (case lookup (r_rentab r) oldn of Some v \<Rightarrow> Renamed v | None \<Rightarrow> builtin r oldn))" by (rule stands_for_lookup [OF ok])
  have bo: "builtin r oldn \<noteq> User v" "builtin r oldn \<noteq> Renamed v" for v by (auto simp: builtin_def split: option.split)
  show "stands_for r' x = ((stands_for r)(newn := renamed_meaning r newn oldn,
      oldn := (case stands_for r oldn of User v \<Rightarrow> builtin r oldn | Renamed v \<Rightarrow> builtin r oldn | d \<Rightarrow> d))) x"
    unfolding stands_for_lookup [OF rename_to_ok [OF ok r']] rename_lookups(2,3) [OF ok ne r'] b
    using ne excl old bo
    by (cases "x = oldn"; cases "x = newn"; cases "stands_for r oldn")
      (auto simp: renamed_meaning_def stands_for_lookup [OF ok] split: option.splits)
qed

text \<open>
  C29: \<open>.rn old new\<close> for two different names, the old one not being a predefined string, which roff(7) does not
  support: a user-defined string or a renamed macro gets the new name and is no longer visible under the old one,
  which keeps only its built-in meaning; a standard macro can be called by the new name in addition; an undefined
  old name deletes the definition of the new one; every other name keeps its meaning.  (A value is copied once
  more in copy mode, so pairs of backslashes in it are reduced.)
\<close>

theorem roff_rn_renames:
  assumes "roff_ok r" "old \<noteq> []" "list_all name_char old" "list_all (\<lambda>c. c = CHR '' '') bl" "newn \<noteq> []" "list_all name_char newn"
    and "newn \<noteq> old" and "\<And>v. stands_for r old \<noteq> Predefined v"
  shows "\<exists>r'. roff_rn ln (pre @ old @ CHR '' '' # bl @ newn) (length pre) r = Some (r', []) \<and> roff_ok r' \<and>
    stands_for r' = (stands_for r)
      (newn := (case stands_for r old of User v \<Rightarrow> User (reduced v) | Renamed v \<Rightarrow> Renamed (reduced v)
          | Standard \<Rightarrow> Renamed (reduced old) | _ \<Rightarrow> builtin r newn),
       old := (if stands_for r old = Standard then Standard else builtin r old))"
proof -
  define buf where "buf = pre @ old @ CHR '' '' # bl @ newn"
  define p where "p = length pre + length old + Suc (length bl)"
  obtain c cs where c: "old = c # cs" "c \<noteq> NUL" using assms(2,3) by (cases old) (auto simp: name_char_def)
  obtain d ds where d: "newn = d # ds" "d \<noteq> NUL" "d \<noteq> CHR '' ''" using assms(5,6) by (cases newn) (auto simp: name_char_def)
  have 1: "rd buf (length pre) = Some c" using c by (simp add: buf_def rd_def nth_append)
  have 2: "rd buf (length pre + length old) = Some CHR '' ''" by (simp add: buf_def rd_def nth_append)
  have 3: "rd buf p = Some d" using d by (simp add: buf_def p_def rd_def nth_append)
  have 4: "take (length old) (drop (length pre) buf) = old" by (simp add: buf_def)
  have 5: "drop p buf = newn" by (simp add: buf_def p_def)
  have 6: "roff_getname ln (length pre) buf (length pre) = Some (buf, p, length old, [])"
    using roff_getname_plain [OF assms(2-4), of newn ln "length pre" pre] d by (simp add: buf_def p_def)
  have 7: "roff_getname ln p buf p = Some (buf, p + length newn, length newn, [])"
    using roff_getname_last [OF assms(5,6), of ln p "pre @ old @ CHR '' '' # bl"] by (simp add: buf_def p_def add.assoc)
  obtain r' where r': "rename_to newn old r = Some r'" using rename_lookups(1) [OF assms(1,7)] by blast
  have run: "roff_rn ln buf (length pre) r = Some (r', [])"
    using c(2) d(1,2) r' by (simp add: roff_rn_def 1 2 3 4 5 6 7)
  have und: "builtin r old = Undefined" if "stands_for r old = Undefined"
    using that by (simp add: stands_for_def split: option.splits)
  have "stands_for r' = (stands_for r)
      (newn := (case stands_for r old of User v \<Rightarrow> User (reduced v) | Renamed v \<Rightarrow> Renamed (reduced v)
          | Standard \<Rightarrow> Renamed (reduced old) | _ \<Rightarrow> builtin r newn),
       old := (if stands_for r old = Standard then Standard else builtin r old))"
    unfolding rename_to_means [OF assms(1,7) r'] renamed_meaning_def
    using assms(8) und by (cases "stands_for r old") (simp_all, blast)
  then show ?thesis using run rename_to_ok [OF assms(1) r'] by (auto simp: buf_def)
qed

theorem roff_rn_renames_witness:
  "\<exists>r'. roff_rn 3 ''.rn Sh Xx'' 4 roff_init = Some (r', []) \<and> stands_for r' ''Xx'' = Renamed ''Sh''"
proof -
  have "map_of predefs ''Sh'' = None" "std_macro roff_init ''Sh''"
    by (simp_all add: predefs_def std_macro_def roff_init_def mdoc_names_def)
  moreover have "kv_find ''Sh'' (r_strtab roff_init) = None" "kv_find ''Sh'' (r_rentab roff_init) = None"
    by (simp_all add: roff_init_def kv_find_def)
  ultimately have "stands_for roff_init ''Sh'' = Standard" by (simp add: stands_for_def builtin_def)
  then show ?thesis
    using roff_rn_renames [OF roff_init_ok, of "''Sh''" "[]" "''Xx''" 3 "''.rn ''"]
    by (auto simp: name_char_def reduced_def numeral_eq_Suc)
qed

subsection \<open>Registers\<close>

text \<open>Reading a register \<open>k\<close> times, as \<open>\n\<close> with a sign does.\<close>

fun read_reg :: "nat \<Rightarrow> string \<Rightarrow> char \<Rightarrow> roff \<Rightarrow> (int list \<times> roff) option" where
  "read_reg 0 name sign r = Some ([], r)"
| "read_reg (Suc k) name sign r = do {
     (x, r) \<leftarrow> roff_getregn name sign r;
     (xs, r) \<leftarrow> read_reg k name sign r;
     Some (x # xs, r)}"

lemma reg_readonly_regtab [simp]: "reg_readonly (r\<lparr>r_regtab := tab\<rparr>) name = reg_readonly r name"
proof -
  have "roff_getregro (r\<lparr>r_regtab := tab\<rparr>) = roff_getregro r" by (simp add: roff_getregro_def fun_eq_iff)
  then show ?thesis by (simp add: reg_readonly_def)
qed

lemma getregn_step:
  assumes "reg_readonly r name = -1" "map_of (r_regtab r) name = Some (v, s)" "in_int (v + s)"
  shows "roff_getregn name CHR ''+'' r = Some (v + s, r\<lparr>r_regtab := kv_put name (v + s, s) (r_regtab r)\<rparr>)"
  using assms by (simp add: roff_getregn_def ck_int_def)

lemma in_int_convex: "in_int a \<Longrightarrow> in_int b \<Longrightarrow> a \<le> x \<and> x \<le> b \<or> b \<le> x \<and> x \<le> a \<Longrightarrow> in_int x"
  by (auto simp: in_int_def)

lemma read_reg_steps:
  assumes "reg_readonly r name = -1" "map_of (r_regtab r) name = Some (v, s)" "in_int v" "in_int (v + int k * s)"
  shows "\<exists>r'. read_reg k name CHR ''+'' r = Some (map (\<lambda>i. v + int (Suc i) * s) [0..<k], r') \<and>
    map_of (r_regtab r') = (map_of (r_regtab r))(name \<mapsto> (v + int k * s, s))"
  using assms
proof (induction k arbitrary: r v)
  case 0
  then show ?case by (auto simp: fun_eq_iff)
next
  case (Suc k)
  have e: "v + int (Suc k) * s = v + s + int k * s" by (simp add: algebra_simps)
  have i: "in_int (v + s)"
  proof (rule in_int_convex [OF Suc.prems(3,4)])
    have "0 \<le> s \<Longrightarrow> 0 \<le> int k * s" "s \<le> 0 \<Longrightarrow> int k * s \<le> 0" by (simp_all add: mult_nonneg_nonpos)
    then show "v \<le> v + s \<and> v + s \<le> v + int (Suc k) * s \<or> v + int (Suc k) * s \<le> v + s \<and> v + s \<le> v"
      unfolding e by linarith
  qed
  let ?r = "r\<lparr>r_regtab := kv_put name (v + s, s) (r_regtab r)\<rparr>"
  have ro: "reg_readonly ?r name = -1" using Suc.prems(1) by simp
  have "\<exists>r'. read_reg k name CHR ''+'' ?r = Some (map (\<lambda>i. v + s + int (Suc i) * s) [0..<k], r') \<and>
      map_of (r_regtab r') = (map_of (r_regtab ?r))(name \<mapsto> (v + s + int k * s, s))"
    by (rule Suc.IH [OF ro]) (use i Suc.prems(4) in \<open>simp_all add: e del: of_nat_Suc\<close>)
  then obtain r' where r': "read_reg k name CHR ''+'' ?r = Some (map (\<lambda>i. v + s + int (Suc i) * s) [0..<k], r')"
    "map_of (r_regtab r') = (map_of (r_regtab r))(name \<mapsto> (v + s + int k * s, s))" by auto
  have l: "map (\<lambda>i. v + int (Suc i) * s) [0..<Suc k] = (v + s) # map (\<lambda>i. v + s + int (Suc i) * s) [0..<k]"
    by (simp add: map_upt_Suc algebra_simps del: upt_Suc)
  show ?case
    using getregn_step [OF Suc.prems(1,2) i] r' unfolding e l by (auto simp: fun_eq_iff)
qed

text \<open>
  C30: A number register counts: after \<open>roff_setregn\<close> has given it a value and a step, reading it \<open>k\<close> times with
  a plus sign gives the value increased by one step, by two steps and so on, and leaves the other registers alone;
  this holds as long as the last number fits into an \<open>int\<close>.
\<close>

theorem register_counts:
  assumes "reg_readonly r name = -1" "in_int v" "in_int s" "in_int (v + int k * s)" "sign \<notin> {CHR ''+'', CHR ''-''}"
  shows "\<exists>r1 r2. roff_setregn name v sign (Some s) r = Some r1 \<and>
    read_reg k name CHR ''+'' r1 = Some (map (\<lambda>i. v + int (Suc i) * s) [0..<k], r2) \<and>
    map_of (r_regtab r2) = (map_of (r_regtab r))(name \<mapsto> (v + int k * s, s))"
proof -
  let ?r1 = "r\<lparr>r_regtab := kv_put name (v, s) (r_regtab r)\<rparr>"
  have s: "roff_setregn name v sign (Some s) r = Some ?r1"
    using assms(5) by (simp add: roff_setregn_def split_beta)
  have "reg_readonly ?r1 name = -1" using assms(1) by simp
  from read_reg_steps [OF this, of v s k] show ?thesis using s assms(2,4) by auto
qed

theorem register_counts_witness:
  "\<exists>r1 r2. roff_setregn ''x'' 5 NUL (Some 2) roff_init = Some r1 \<and>
    read_reg 3 ''x'' CHR ''+'' r1 = Some ([7, 9, 11], r2)"
  using register_counts [of roff_init "''x''" 5 2 3 NUL]
  by (auto simp: reg_readonly_def in_int_def int_limits upt_rec)

subsection \<open>Translations\<close>

definition plain_char :: "char \<Rightarrow> bool" where
  "plain_char c \<longleftrightarrow> c \<noteq> NUL \<and> c \<noteq> BSLASH \<and> ord_of c < 128"

text \<open>What a byte is replaced with.\<close>

definition translation :: "roff \<Rightarrow> char \<Rightarrow> string" where
  "translation r c = (case r_xtab r of None \<Rightarrow> [c] | Some x \<Rightarrow> (case x c of None \<Rightarrow> [c] | Some s \<Rightarrow> s))"

lemma strdup_loop_plain: "list_all plain_char p \<Longrightarrow> strdup_loop r (p @ s) res = strdup_loop r s (res @ concat (map (translation r) p))"
proof (induction p arbitrary: res)
  case (Cons c p)
  then have "c \<noteq> BSLASH" "ord_of c < 128" by (simp_all add: plain_char_def)
  then have "strdup_loop r ((c # p) @ s) res = strdup_loop r (p @ s) (res @ translation r c)"
    by (subst strdup_loop.simps) (simp add: translation_def)
  then show ?case using Cons by simp
qed simp

lemma roff_strdup_plain: "list_all plain_char p \<Longrightarrow> roff_strdup r p = Some (concat (map (translation r) p))"
proof -
  assume p: "list_all plain_char p"
  have "strdup_loop r [] res = Some res" for res by (subst strdup_loop.simps) simp
  then have "strdup_loop r p [] = Some (concat (map (translation r) p))" using strdup_loop_plain [OF p, of r "[]" "[]"] by simp
  moreover have "r_xtab r = None \<Longrightarrow> concat (map (translation r) p) = p" by (induction p) (simp_all add: translation_def)
  ultimately show ?thesis by (simp add: roff_strdup_def)
qed

definition pairs :: "(char \<times> char) list \<Rightarrow> string" where
  "pairs ps = concat (map (\<lambda>(a, b). [a, b]) ps)"

lemma xtab_set_plain: "plain_char a \<Longrightarrow> \<exists>r'. xtab_set a s r = Some r' \<and> translation r' = (translation r)(a := s)"
  by (auto simp: xtab_set_def plain_char_def translation_def fun_eq_iff split: option.split)

lemma tr_loop_plain:
  assumes "\<And>a b. (a, b) \<in> set ps \<Longrightarrow> plain_char a \<and> plain_char b"
  shows "\<exists>r'. tr_loop ln (pre @ pairs ps) (length pre) r ms = Some (r', ms) \<and>
    (\<forall>c. translation r' c = (case map_of (rev ps) c of Some d \<Rightarrow> [d] | None \<Rightarrow> translation r c))"
  using assms
proof (induction ps arbitrary: pre r)
  case Nil
  then show ?case by (subst tr_loop.simps) (simp add: pairs_def rd_def)
next
  case (Cons p ps)
  obtain a b where p: "p = (a, b)" by (cases p)
  have ab: "plain_char a" "plain_char b" using Cons.prems p by auto
  define buf where "buf = pre @ pairs (p # ps)"
  have b2: "buf = (pre @ [a, b]) @ pairs ps" by (simp add: buf_def pairs_def p)
  have r1: "rd buf (length pre) = Some a" "rd buf (Suc (length pre)) = Some b" by (simp_all add: b2 rd_def nth_append)
  have g: "glyph_end buf (length pre) = Some (Some (Suc (length pre)))"
    "glyph_end buf (Suc (length pre)) = Some (Some (Suc (Suc (length pre))))"
    using ab by (simp_all add: glyph_end_def r1 plain_char_def)
  have d: "take (Suc 0) (drop (Suc (length pre)) buf) = [b]" by (simp add: b2)
  obtain r1' where r1': "xtab_set a [b] r = Some r1'" "translation r1' = (translation r)(a := [b])" using xtab_set_plain [OF ab(1)] by blast
  have "tr_pair ln buf (length pre) r = Some (r1', [], Some (Suc (Suc (length pre))))"
    using ab by (simp add: tr_pair_def g r1 d r1'(1) plain_char_def)
  then have "tr_loop ln buf (length pre) r ms = tr_loop ln buf (Suc (Suc (length pre))) r1' ms"
    using ab(1) by (subst tr_loop.simps) (simp add: r1 plain_char_def)
  then have step: "tr_loop ln buf (length pre) r ms = tr_loop ln ((pre @ [a, b]) @ pairs ps) (length (pre @ [a, b])) r1' ms"
    by (simp add: b2)
  have "\<exists>r'. tr_loop ln ((pre @ [a, b]) @ pairs ps) (length (pre @ [a, b])) r1' ms = Some (r', ms) \<and>
      (\<forall>c. translation r' c = (case map_of (rev ps) c of Some d \<Rightarrow> [d] | None \<Rightarrow> translation r1' c))"
    by (rule Cons.IH) (rule Cons.prems, simp)
  then obtain r' where r': "tr_loop ln ((pre @ [a, b]) @ pairs ps) (length (pre @ [a, b])) r1' ms = Some (r', ms)"
    "\<And>c. translation r' c = (case map_of (rev ps) c of Some d \<Rightarrow> [d] | None \<Rightarrow> translation r1' c)" by blast
  have "translation r' c = (case map_of (rev (p # ps)) c of Some d \<Rightarrow> [d] | None \<Rightarrow> translation r c)" for c
    using r'(2) [of c] r1'(2) by (auto simp: p map_add_def split: option.split)
  then show ?case using step r'(1) by (auto simp: buf_def)
qed

text \<open>
  C31: \<open>.tr\<close> followed by pairs of characters translates text: in every text without escape sequences that is read
  afterwards, the first character of each pair is replaced with the second one, the last pair for a character
  counts, and all other characters are treated as before.
\<close>

theorem roff_tr_translates:
  assumes "ps \<noteq> []" "\<And>a b. (a, b) \<in> set ps \<Longrightarrow> plain_char a \<and> plain_char b" "list_all plain_char t"
  shows "\<exists>r'. roff_tr ln ppos (pre @ pairs ps) (length pre) r = Some (r', []) \<and>
    roff_strdup r' t = Some (concat (map (\<lambda>c. case map_of (rev ps) c of Some d \<Rightarrow> [d] | None \<Rightarrow> translation r c) t))"
proof -
  obtain r' where r': "tr_loop ln (pre @ pairs ps) (length pre) r [] = Some (r', [])"
    "\<And>c. translation r' c = (case map_of (rev ps) c of Some d \<Rightarrow> [d] | None \<Rightarrow> translation r c)"
    using tr_loop_plain [OF assms(2), of ps ln pre r "[]"] by blast
  obtain a b qs where ps: "ps = (a, b) # qs" using assms(1) by (cases ps) auto
  then have "rd (pre @ pairs ps) (length pre) = Some a" "a \<noteq> NUL" using assms(2) by (auto simp: pairs_def rd_def nth_append plain_char_def)
  then have "roff_tr ln ppos (pre @ pairs ps) (length pre) r = Some (r', [])" using r'(1) by (simp add: roff_tr_def)
  moreover have "translation r' = (\<lambda>c. case map_of (rev ps) c of Some d \<Rightarrow> [d] | None \<Rightarrow> translation r c)" using r'(2) by blast
  ultimately show ?thesis using roff_strdup_plain [OF assms(3), of r'] by auto
qed

theorem roff_tr_translates_witness:
  "\<exists>r'. roff_tr 3 1 ''.tr abbc'' 4 roff_init = Some (r', []) \<and> roff_strdup r' ''abx'' = Some ''bcx''"
proof -
  let ?ps = "[(CHR ''a'', CHR ''b''), (CHR ''b'', CHR ''c'')]"
  have "list_all (\<lambda>(a, b). plain_char a \<and> plain_char b) ?ps" by (simp add: plain_char_def ord_of_def)
  then have ps: "plain_char a \<and> plain_char b" if "(a, b) \<in> set ?ps" for a b using that by (auto simp: list_all_iff)
  have t: "list_all plain_char ''abx''" by (simp add: plain_char_def ord_of_def)
  have "translation roff_init c = [c]" for c by (simp add: translation_def roff_init_def)
  moreover have "\<exists>r'. roff_tr 3 1 (''.tr '' @ pairs ?ps) (length ''.tr '') roff_init = Some (r', []) \<and>
      roff_strdup r' ''abx'' = Some (concat (map (\<lambda>c. case map_of (rev ?ps) c of Some d \<Rightarrow> [d] | None \<Rightarrow> translation roff_init c) ''abx''))"
  proof (rule roff_tr_translates)
    show "plain_char a \<and> plain_char b" if "(a, b) \<in> set ?ps" for a b by (rule ps [OF that])
  qed (use t in simp_all)
  ultimately show ?thesis by (simp add: pairs_def numeral_eq_Suc)
qed

text \<open>
  C32: When a translation is active and a text contains an invalid escape sequence, \<open>roff_strdup\<close> returns only the
  part before it: the rest, which is copied \<open>to pass along the bogus string\<close>, is cut off again.
\<close>

theorem roff_strdup_cuts:
  assumes "list_all plain_char t" "mandoc_escape (BSLASH # s) = Some (ESCAPE_ERROR, a, n, l)"
    and "xmb_match (r_xmbtab r) (BSLASH # s) = None" "r_xtab r \<noteq> None"
  shows "roff_strdup r (t @ BSLASH # s) = Some (concat (map (translation r) t))"
proof -
  have "strdup_loop r (BSLASH # s) res = Some res" for res
    using assms(2,3) by (subst strdup_loop.simps) (simp add: ord_of_def)
  then show ?thesis using strdup_loop_plain [OF assms(1), of r "BSLASH # s" "[]"] assms(4)
    by (cases "r_xtab r") (simp_all add: roff_strdup_def)
qed

theorem roff_strdup_cuts_witness:
  "roff_strdup (roff_init\<lparr>r_xtab := Some (\<lambda>_. None)\<rparr>) (''ab'' @ BSLASH # ''f[xyz]lost'') = Some ''ab''"
proof -
  have "mandoc_escape (BSLASH # ''f[xyz]lost'') = Some (ESCAPE_ERROR, 3, 3, 7)" by code_simp
  then show ?thesis
    using roff_strdup_cuts [of "''ab''" "''f[xyz]lost''" 3 3 7 "roff_init\<lparr>r_xtab := Some (\<lambda>_. None)\<rparr>"]
    by (simp add: plain_char_def ord_of_def xmb_match_def roff_init_def translation_def)
qed

end
