(* ===== verification/Roff_Expand.thy ===== *)
theory Roff_Expand
  imports Roff_Str
begin

section \<open>Expansion of escape sequences in input lines: \<open>roff_expand\<close>\<close>

text \<open>
  A line is a string and the size of its buffer, which the code compares with a limit.  Positions
  are those of the parse of the sequence by \<open>roff_escape\<close>.
\<close>

type_synonym cbuf = "string \<times> nat"

definition EXPAND_LIMIT :: nat where "EXPAND_LIMIT = 1000"
definition SHRT_MAX :: nat where "SHRT_MAX = 32767"

definition patch :: "string \<Rightarrow> nat \<Rightarrow> string \<Rightarrow> nat \<Rightarrow> string" where
  "patch buf i repl j = take i buf @ repl @ drop j buf"

definition roff_expand_patch :: "string \<Rightarrow> nat \<Rightarrow> string \<Rightarrow> nat \<Rightarrow> cbuf" where
  "roff_expand_patch buf i repl j = (patch buf i repl j, Suc (length (patch buf i repl j)))"

text \<open>The decimal number that \<open>snprintf\<close> prints for the conversion \<open>d\<close>.\<close>

function dec_digits :: "nat \<Rightarrow> string" where
  "dec_digits n = (if n < 10 then [char_of (48 + n)] else dec_digits (n div 10) @ [char_of (48 + n mod 10)])"
  by pat_completeness auto
termination by (relation "measure id") auto

declare dec_digits.simps [simp del]

definition print_d :: "int \<Rightarrow> string" where
  "print_d x = (if x < 0 then ''-'' @ dec_digits (nat (- x)) else dec_digits (nat x))"

text \<open>
  A sequence that needs no expansion is skipped; with a non-standard escape character, it is
  translated to backslashes and backslashes to \<open>\e\<close>.
\<close>

function translate_esc :: "char \<Rightarrow> cbuf \<Rightarrow> nat \<Rightarrow> nat \<Rightarrow> (cbuf \<times> nat) option" where
  "translate_esc ec b pos iend =
     (if pos < iend then
        (case rd (fst b) pos of
           None \<Rightarrow> None
         | Some c \<Rightarrow>
             if c = ec then
               translate_esc ec ((fst b)[pos := BSLASH], snd b) (if Suc pos < iend then Suc (Suc pos) else Suc pos) iend
             else if c = BSLASH then
               translate_esc ec (roff_expand_patch (fst b) pos [BSLASH, CHR ''e''] (Suc pos)) (Suc (Suc pos)) (Suc iend)
             else translate_esc ec b (Suc pos) iend)
      else Some (b, pos))"
  by pat_completeness auto
termination by (relation "measure (\<lambda>(ec, b, pos, iend). iend - pos)") auto

declare translate_esc.simps [simp del]

text \<open>
  Escaped backslashes and dots in names are reduced in place: the line and the end of the name,
  which is inside the line.
\<close>

function reduce_name :: "string \<Rightarrow> nat \<Rightarrow> nat \<Rightarrow> nat \<Rightarrow> string \<times> nat" where
  "reduce_name buf isrc idst iendarg =
     (if isrc < iendarg then
        (let isrc = (if Suc isrc < iendarg \<and> buf ! isrc = BSLASH \<and> (buf ! Suc isrc = BSLASH \<or> buf ! Suc isrc = CHR ''.'')
                     then Suc isrc else isrc)
         in reduce_name (buf[idst := buf ! isrc]) (Suc isrc) (Suc idst) iendarg)
      else (buf, iendarg - (isrc - idst)))"
  by pat_completeness auto
termination by (relation "measure (\<lambda>(buf, isrc, idst, iendarg). iendarg - isrc)") (auto simp: Let_def)

declare reduce_name.simps [simp del]

text \<open>The width of a text, as the number of its characters.\<close>

partial_function (option) width_loop :: "string \<Rightarrow> nat \<Rightarrow> nat \<Rightarrow> nat \<Rightarrow> mandoc_esc \<Rightarrow> nat option" where
  "width_loop buf iarg iendarg rsz subtype =
     (if iarg < iendarg then
        Option.bind (rd buf iarg) (\<lambda>c.
        let asz = (if subtype = ESCAPE_SKIPCHAR then 0 else 1)
        in if c \<noteq> BSLASH then width_loop buf (Suc iarg) iendarg (rsz + asz) subtype
           else Option.bind (roff_escape True buf 0 iarg) (\<lambda>e.
             if o_rval e = ESCAPE_EXPAND then None
             else width_loop buf (o_iend e) iendarg
               (if o_rval e \<in> {ESCAPE_SPECIAL, ESCAPE_NUMBERED, ESCAPE_UNICODE, ESCAPE_OVERSTRIKE, ESCAPE_UNDEF} then rsz + asz
                else if o_rval e = ESCAPE_DEVICE then rsz + 8 * asz else rsz)
               (o_rval e)))
      else Some rsz)"

text \<open>
  What is done with one sequence: a string is pasted over it, or the loop goes on at some
  position of a changed line.
\<close>

datatype expand_act = Paste string roff string "msg list" | Go_on roff cbuf nat "msg list"

definition seq_text :: "string \<Rightarrow> esc_out \<Rightarrow> string" where
  "seq_text buf e = take (o_iend e - o_iesc e) (drop (o_iesc e) buf)"

definition expand_string :: "nat \<Rightarrow> roff \<Rightarrow> cbuf \<Rightarrow> esc_out \<Rightarrow> expand_act option" where
  "expand_string ln r b e =
     (if length (fst b) < o_iendarg e then None
      else Some (let (buf, iendarg) = reduce_name (fst b) (o_iarg e) (o_iarg e) (o_iendarg e);
          name = take (iendarg - o_iarg e) (drop (o_iarg e) buf)
      in if iendarg = o_iarg e then Paste [] r buf []
         else case roff_getstrn name {ROFFDEF_USER, ROFFDEF_PRE} r of
           (Some v, _, r) \<Rightarrow> Paste v r buf []
         | (None, _, r) \<Rightarrow>
             if name = ''.T'' then Go_on (set_strtab ''.T'' None 0 r) (buf, snd b) (o_iend e) []
             else Paste [] r buf [(MANDOCERR_STR_UNDEF, ln, o_iesc e, name)]))"

definition join_args :: "bool \<Rightarrow> string list \<Rightarrow> string" where
  "join_args quote_args args =
     concat (case map (\<lambda>a. if quote_args then DQUOTE # a @ [DQUOTE] else a) args of
       [] \<Rightarrow> [] | x # xs \<Rightarrow> x # map (\<lambda>y. CHR '' '' # y) xs)"

definition expand_args :: "nat \<Rightarrow> roff \<Rightarrow> cbuf \<Rightarrow> nat \<Rightarrow> esc_out \<Rightarrow> expand_act option" where
  "expand_args ln r b pos e =
     (case r_mstack r of
        [] \<Rightarrow> Some (Paste [] r (fst b) [(MANDOCERR_ARG_UNDEF, ln, o_iesc e, seq_text (fst b) e)])
      | args # _ \<Rightarrow> do {
          c \<leftarrow> rd (fst b) (o_iarg e);
          if isdigit c \<and> c \<noteq> CHR ''0'' then
            (let argi = nat (digit_val c) - 1
             in Some (Paste (if argi < length args then args ! argi else []) r (fst b) []))
          else if c = CHR ''*'' \<or> c = CHR ''@'' then
            (let s = join_args (c = CHR ''@'') args; n = o_iend e - o_iesc e;
                 sz = (if length s \<noteq> n then o_iesc e + length s + (snd b - o_iend e) else snd b)
             in Some (Go_on r (patch (fst b) (o_iesc e) s (o_iend e), sz) pos []))
          else Some (Paste [] r (fst b) [(MANDOCERR_ARG_NONUM, ln, o_iesc e, seq_text (fst b) e)])})"

definition expand_numexp :: "nat \<Rightarrow> roff \<Rightarrow> cbuf \<Rightarrow> esc_out \<Rightarrow> expand_act option" where
  "expand_numexp ln r b e =
     (if o_iarg e < o_iendarg e \<and> o_iendarg e < o_iend e then do {
        v \<leftarrow> roff_evalnum ln False (drop (o_iarg e) (fst b)) 0 CHR ''u'' False;
        Some (Paste (if n_ok v \<and> n_pos v = o_iendarg e - o_iarg e then ''1'' else ''0'') r (fst b) (n_msgs v))}
      else Some (Paste ''0'' r (fst b) []))"

definition expand_register :: "roff \<Rightarrow> cbuf \<Rightarrow> esc_out \<Rightarrow> expand_act option" where
  "expand_register r b e =
     (if length (fst b) < o_iendarg e then None
      else let (buf, iendarg) = reduce_name (fst b) (o_iarg e) (o_iarg e) (o_iendarg e)
      in if o_iarg e < iendarg then do {
           sign \<leftarrow> rd buf (Suc (o_inam e));
           (v, r) \<leftarrow> roff_getregn (take (iendarg - o_iarg e) (drop (o_iarg e) buf)) sign r;
           Some (Paste (print_d v) r buf [])}
         else Some (Paste [] r buf []))"

definition expand_seq :: "nat \<Rightarrow> roff \<Rightarrow> cbuf \<Rightarrow> nat \<Rightarrow> esc_out \<Rightarrow> expand_act option" where
  "expand_seq ln r b pos e = do {
     c \<leftarrow> rd (fst b) (o_inam e);
     if c = CHR ''*'' then expand_string ln r b e
     else if c = CHR ''$'' then expand_args ln r b pos e
     else if c = CHR ''A'' then Some (Paste (if o_iarg e < o_iendarg e then ''1'' else ''0'') r (fst b) [])
     else if c = CHR ''B'' then expand_numexp ln r b e
     else if c = CHR ''V'' then
       (let buf = patch (fst b) (o_iendarg e) ''}'' (o_iend e)
        in Some (Go_on r (roff_expand_patch buf (o_iesc e) ''${'' (o_iarg e)) pos
             [(MANDOCERR_UNSUPP, ln, o_iesc e, seq_text (fst b) e)]))
     else if c = CHR ''g'' then Some (Paste [] r (fst b) [])
     else if c = CHR ''n'' then expand_register r b e
     else if c = CHR ''w'' then do {
       w \<leftarrow> width_loop (fst b) (o_iarg e) (o_iendarg e) 0 ESCAPE_UNDEF;
       Some (Paste (print_d (int w * 24)) r (fst b) [])}
     else Some (Paste [] r (fst b) [])}"

text \<open>The result says whether the line is to be ignored (\<open>ROFF_IGN\<close> instead of \<open>ROFF_CONT\<close>).\<close>

partial_function (option) expand_loop ::
  "nat \<Rightarrow> char \<Rightarrow> roff \<Rightarrow> cbuf \<Rightarrow> nat \<Rightarrow> nat \<Rightarrow> msg list \<Rightarrow> (bool \<times> roff \<times> cbuf \<times> msg list) option" where
  "expand_loop ln ec r b pos count ms =
     Option.bind (rd (fst b) pos) (\<lambda>c.
     if c = NUL then Some (False, r, b, ms)
     else if c \<noteq> ec then
       (if c = BSLASH then expand_loop ln ec r (roff_expand_patch (fst b) pos [BSLASH, CHR ''e''] (Suc pos)) (Suc (Suc pos)) count ms
        else expand_loop ln ec r b (Suc pos) count ms)
     else Option.bind (roff_escape False (fst b) ln pos) (\<lambda>e.
       if o_rval e \<noteq> ESCAPE_EXPAND then
         Option.bind (translate_esc ec b pos (o_iend e)) (\<lambda>(b, pos). expand_loop ln ec r b pos count (ms @ o_msgs e))
       else Option.bind (expand_seq ln r b pos e) (\<lambda>act.
         case act of
           Go_on r b pos ms' \<Rightarrow> expand_loop ln ec r b pos count (ms @ o_msgs e @ ms')
         | Paste res r buf ms' \<Rightarrow>
             if Suc count > EXPAND_LIMIT \<or> snd b + length res > SHRT_MAX
             then Some (True, r, (buf, snd b), ms @ o_msgs e @ ms' @ [(MANDOCERR_ROFFLOOP, ln, o_iesc e, [])])
             else expand_loop ln ec r (roff_expand_patch buf (o_iesc e) res (o_iend e)) pos (Suc count) (ms @ o_msgs e @ ms'))))"

definition roff_expand :: "nat \<Rightarrow> char \<Rightarrow> roff \<Rightarrow> cbuf \<Rightarrow> nat \<Rightarrow> (bool \<times> roff \<times> cbuf \<times> msg list) option" where
  "roff_expand ln ec r b pos = expand_loop ln ec r b pos 0 []"

end
