(* ===== verification/Roff_Expand_Lemmas.thy ===== *)
theory Roff_Expand_Lemmas
  imports Roff_Expand
begin

section \<open>Bracketed names in escape sequences\<close>

definition bracket_name :: "string \<Rightarrow> bool" where
  "bracket_name w \<longleftrightarrow> w \<noteq> [] \<and> hd w \<noteq> CHR '' '' \<and> list_all (\<lambda>c. c \<notin> {NUL, CHR '']'', BSLASH}) w"

definition bracketed :: "char \<Rightarrow> string \<Rightarrow> string" where
  "bracketed nam w = BSLASH # nam # CHR ''['' # w @ '']''"

lemma esc_switch_expand:
  assumes "rd buf i = Some nam" "nam \<in> {CHR ''*'', CHR ''n''}"
  shows "esc_switch buf (esc_init i) = Some (Inr ((esc_init i)\<lparr>e_rval := ESCAPE_EXPAND\<rparr>))"
proof -
  consider "nam = CHR ''*''" | "nam = CHR ''n''" using assms(2) by blast
  then show ?thesis
    by cases (use assms(1) in \<open>simp_all add: esc_switch_def esc_noarg_def esc_form_def esc_init_def\<close>)
qed

definition name_state :: "nat \<Rightarrow> esc_state" where
  "name_state i = \<lparr>e_rval = ESCAPE_EXPAND, e_inam = i, e_iarg = i + 2, e_iendarg = i + 2, e_iend = i + 1,
     e_maxl = None, e_term = CHR '']'', e_err = MANDOCERR_OK, e_argl = None, e_msgs = []\<rparr>"

lemma esc_body_name:
  assumes "rd buf a = Some BSLASH" "rd buf (Suc a) = Some nam" "rd buf (a + 2) = Some CHR ''[''" "rd buf (a + 3) = Some x"
    and "nam \<in> {CHR ''*'', CHR ''n''}" "x \<noteq> CHR '' ''"
  shows "esc_body sub rn buf ln a = esc_argument sub rn buf ln a ((name_state (Suc a))\<lparr>e_iendarg := a + 2\<rparr>, False)"
proof -
  have "scan_while (\<lambda>c. c = CHR ''E'') buf (Suc a) = Some (Suc a)"
    using assms(2,5) by (subst scan_while.simps) auto
  then show ?thesis
    using assms esc_switch_expand [OF assms(2,5)]
    by (auto simp: esc_body_def esc_then_def esc_missing_def esc_sub_def esc_start_def esc_standard_def
        esc_standard_at_def esc_init_def name_state_def numeral_2_eq_2 numeral_3_eq_3)
qed

lemma bracketed_nth:
  assumes "m < length w"
  shows "(pre @ bracketed nam w @ post) ! (length pre + 3 + m) = w ! m"
proof -
  have b: "pre @ bracketed nam w @ post = (pre @ [BSLASH, nam, CHR ''['']) @ (w @ '']'' @ post)" by (simp add: bracketed_def)
  have i: "length pre + 3 + m = length (pre @ [BSLASH, nam, CHR ''['']) + m" by simp
  show ?thesis unfolding b i nth_append_length_plus using assms by (simp only: nth_append if_True)
qed

lemma escape_bracketed:
  assumes w: "bracket_name w" and nam: "nam \<in> {CHR ''*'', CHR ''n''}"
  shows "roff_escape False (pre @ bracketed nam w @ post) ln (length pre) =
    Some \<lparr>o_rval = ESCAPE_EXPAND, o_iesc = length pre, o_inam = Suc (length pre), o_iarg = length pre + 3,
      o_iendarg = length pre + 3 + length w, o_iend = length pre + 4 + length w, o_msgs = []\<rparr>"
proof -
  define buf where "buf = pre @ bracketed nam w @ post"
  let ?a = "length pre" and ?j = "length pre + 3 + length w"
  obtain x ws where x: "w = x # ws" "x \<noteq> CHR '' ''" using w by (cases w) (auto simp: bracket_name_def)
  have r: "rd buf ?a = Some BSLASH" "rd buf (Suc ?a) = Some nam" "rd buf (?a + 2) = Some CHR ''[''" "rd buf (?a + 3) = Some x"
    using x by (simp_all add: buf_def bracketed_def rd_def nth_append)
  have j: "?j < length buf" "buf ! ?j = CHR '']''" by (simp_all add: buf_def bracketed_def nth_append)
  have plain: "buf ! i \<notin> {NUL, CHR '']'', BSLASH}" if "?a + 3 \<le> i" "i < ?j" for i
  proof -
    define k where "k = i - (?a + 3)"
    have k: "i = ?a + 3 + k" unfolding k_def using that(1) by arith
    have kw: "k < length w" using that(2) unfolding k by arith
    have "buf ! i = w ! k" using bracketed_nth [OF kw] by (simp add: buf_def k)
    then show ?thesis using w kw by (simp add: bracket_name_def list_all_length)
  qed
  let ?st = "(name_state (Suc ?a))\<lparr>e_iendarg := ?a + 3\<rparr>"
  obtain v where v: "esc_loop (Suc (Suc (length buf))) (roff_escape_rec (length buf) False buf ln) buf BSLASH nam False ?st True =
      Some (Inr (?st\<lparr>e_iendarg := ?j, e_iend := ?j + 1\<rparr>, v))"
    using esc_loop_plain [of ?st ?j buf BSLASH nam "Suc (Suc (length buf))" "roff_escape_rec (length buf) False buf ln" True] j plain nam
    by (auto simp: name_state_def)
  have "esc_body (roff_escape_rec (length buf) False buf ln) False buf ln ?a =
      esc_finish False buf ln ?a nam (?st\<lparr>e_iendarg := ?j, e_iend := ?j + 1\<rparr>, v)"
    using v esc_body_name [OF r nam x(2), of "roff_escape_rec (length buf) False buf ln" False ln]
    by (simp add: esc_argument_def r name_state_def esc_then_def numeral_2_eq_2 numeral_3_eq_3 del: esc_loop.simps)
  also have "\<dots> = Some \<lparr>o_rval = ESCAPE_EXPAND, o_iesc = ?a, o_inam = Suc ?a, o_iarg = ?a + 3,
      o_iendarg = ?j, o_iend = ?a + 4 + length w, o_msgs = []\<rparr>"
    using nam by (auto simp: esc_finish_def esc_post_def esc_class_def esc_exit_at_def esc_return_def esc_out_msgs_def
        esc_diag_def Let_def name_state_def)
  finally show ?thesis by (simp add: roff_escape_def buf_def)
qed


text \<open>The arguments of a macro: \<open>\$*\<close>.\<close>

abbreviation STAR :: string where "STAR \<equiv> [BSLASH, CHR ''$'', CHR ''*'']"

lemma escape_star:
  "roff_escape False (pre @ STAR @ post) ln (length pre) =
    Some \<lparr>o_rval = ESCAPE_EXPAND, o_iesc = length pre, o_inam = Suc (length pre), o_iarg = length pre + 2,
      o_iendarg = length pre + 3, o_iend = length pre + 3, o_msgs = []\<rparr>"
proof -
  define buf where "buf = pre @ STAR @ post"
  let ?a = "length pre"
  have r: "rd buf ?a = Some BSLASH" "rd buf (Suc ?a) = Some CHR ''$''" "rd buf (Suc (Suc ?a)) = Some CHR ''*''"
    by (simp_all add: buf_def rd_def nth_append)
  have "scan_while (\<lambda>c. c = CHR ''E'') buf (Suc ?a) = Some (Suc ?a)"
    using r(2) by (subst scan_while.simps) auto
  moreover have "esc_switch buf (esc_init (Suc ?a)) = Some (Inr ((esc_init (Suc ?a))\<lparr>e_rval := ESCAPE_EXPAND\<rparr>))"
    using r(2) by (simp add: esc_switch_def esc_noarg_def esc_form_def esc_init_def)
  ultimately have "roff_escape False buf ln ?a =
      Some \<lparr>o_rval = ESCAPE_EXPAND, o_iesc = ?a, o_inam = Suc ?a, o_iarg = ?a + 2,
        o_iendarg = ?a + 3, o_iend = ?a + 3, o_msgs = []\<rparr>"
    using r by (simp add: roff_escape_def esc_body_def esc_then_def esc_missing_def esc_sub_def esc_start_def esc_standard_def
        esc_standard_at_def esc_init_def esc_argument_def esc_finish_def esc_post_def esc_class_def esc_exit_at_def
        esc_return_def esc_out_msgs_def esc_diag_def Let_def numeral_2_eq_2 numeral_3_eq_3)
  then show ?thesis by (simp add: buf_def)
qed

section \<open>Steps of the expansion\<close>

definition lit_char :: "char \<Rightarrow> bool" where
  "lit_char c \<longleftrightarrow> c \<noteq> NUL \<and> c \<noteq> BSLASH"

lemma expand_loop_end: "expand_loop ln ec r (buf, sz) (length buf) n ms = Some (False, r, (buf, sz), ms)"
  by (subst expand_loop.simps) (simp add: rd_def)

lemma expand_loop_lit:
  "list_all lit_char t \<Longrightarrow> expand_loop ln BSLASH r (pre @ t @ s, sz) (length pre) n ms =
     expand_loop ln BSLASH r ((pre @ t) @ s, sz) (length (pre @ t)) n ms"
proof (induction t arbitrary: pre)
  case (Cons c t)
  then have c: "c \<noteq> NUL" "c \<noteq> BSLASH" by (simp_all add: lit_char_def)
  have "rd (pre @ (c # t) @ s) (length pre) = Some c" by (simp add: rd_def)
  then have "expand_loop ln BSLASH r (pre @ (c # t) @ s, sz) (length pre) n ms =
      expand_loop ln BSLASH r ((pre @ [c]) @ t @ s, sz) (length (pre @ [c])) n ms"
    using c by (subst expand_loop.simps) simp
  then show ?case using Cons.IH [of "pre @ [c]"] Cons.prems by simp
qed simp

lemma reduce_name_plain:
  "(\<And>k. i \<le> k \<Longrightarrow> k < j \<Longrightarrow> buf ! k \<noteq> BSLASH) \<Longrightarrow> i \<le> j \<Longrightarrow> reduce_name buf i i j = (buf, j)"
proof (induction "j - i" arbitrary: i)
  case (Suc d)
  then have "i < j" by simp
  moreover have "buf ! i \<noteq> BSLASH" using Suc.prems(1) \<open>i < j\<close> by blast
  moreover have "reduce_name buf (Suc i) (Suc i) j = (buf, j)" using Suc \<open>i < j\<close> by auto
  ultimately show ?case by (subst reduce_name.simps) (simp add: Let_def)
qed (subst reduce_name.simps, simp)

lemma reduce_name_bracketed:
  assumes "bracket_name w"
  shows "reduce_name (pre @ bracketed nam w @ post) (length pre + 3) (length pre + 3) (length pre + 3 + length w) =
    (pre @ bracketed nam w @ post, length pre + 3 + length w)"
proof (rule reduce_name_plain)
  fix k assume k: "length pre + 3 \<le> k" "k < length pre + 3 + length w"
  define m where "m = k - (length pre + 3)"
  have m: "k = length pre + 3 + m" "m < length w" using k unfolding m_def by arith+
  show "(pre @ bracketed nam w @ post) ! k \<noteq> BSLASH"
    using assms m(2) unfolding m(1) bracketed_nth [OF m(2)] by (simp add: bracket_name_def list_all_length)
qed simp

lemma bracketed_name: "take (length w) (drop (length pre + 3) (pre @ bracketed nam w @ post)) = w"
  by (simp add: bracketed_def)

lemma patch_bracketed: "patch (pre @ bracketed nam w @ post) (length pre) v (length pre + 4 + length w) = pre @ v @ post"
  by (simp add: patch_def bracketed_def numeral_eq_Suc)

lemma getstrn_found: "fst (roff_getstrn w {ROFFDEF_USER, ROFFDEF_PRE} r) = Some v \<Longrightarrow>
    \<exists>d. roff_getstrn w {ROFFDEF_USER, ROFFDEF_PRE} r = (Some v, d, r)"
  by (auto simp: roff_getstrn_def Let_def split: if_splits)

lemma kv_put_same: "map_of tab k = Some v \<Longrightarrow> kv_put k v tab = tab"
proof -
  have "map_of tab k = Some v \<Longrightarrow> kv_replace k v tab = tab"
    by (induction k v tab rule: kv_replace.induct) (auto split: if_splits)
  then show "map_of tab k = Some v \<Longrightarrow> kv_put k v tab = tab" by (simp add: kv_put_def)
qed

end
