(* ===== verification/Roff_Expand_Props.thy ===== *)
theory Roff_Expand_Props
  imports Roff_Expand_Lemmas Roff_Str_Props
begin

section \<open>What the expansion of a line gives\<close>

subsection \<open>Interpolation\<close>

text \<open>A line as a list of pieces: literal text, strings and registers with bracketed names.\<close>

datatype piece = Lit string | Str string | Num string

fun source :: "piece \<Rightarrow> string" where
  "source (Lit t) = t"
| "source (Str w) = bracketed CHR ''*'' w"
| "source (Num w) = bracketed CHR ''n'' w"

fun piece_value :: "roff \<Rightarrow> piece \<Rightarrow> string option" where
  "piece_value r (Lit t) = Some t"
| "piece_value r (Str w) = string_value r w"
| "piece_value r (Num w) =
     (if reg_readonly r w \<noteq> -1 then Some (print_d (reg_readonly r w))
      else map_option (\<lambda>(v, s). print_d v) (map_of (r_regtab r) w))"

text \<open>Names without escapes, and values that are literal text again.\<close>

fun piece_name :: "piece \<Rightarrow> string option" where
  "piece_name (Lit t) = None"
| "piece_name (Str w) = Some w"
| "piece_name (Num w) = Some w"

definition piece_ok :: "roff \<Rightarrow> piece \<Rightarrow> bool" where
  "piece_ok r p \<longleftrightarrow> (case piece_name p of None \<Rightarrow> True | Some w \<Rightarrow> bracket_name w) \<and>
     (case piece_value r p of None \<Rightarrow> False | Some v \<Rightarrow> list_all lit_char v)"

definition pieces :: "piece list \<Rightarrow> string" where
  "pieces ps = concat (map source ps)"

definition interpolated :: "roff \<Rightarrow> piece list \<Rightarrow> string" where
  "interpolated r ps = concat (map (\<lambda>p. case piece_value r p of None \<Rightarrow> [] | Some v \<Rightarrow> v) ps)"

lemma pieces_simps [simp]: "pieces [] = []" "pieces (p # ps) = source p @ pieces ps" by (simp_all add: pieces_def)
lemma interpolated_simps [simp]: "interpolated r [] = []"
  "interpolated r (p # ps) = (case piece_value r p of None \<Rightarrow> [] | Some v \<Rightarrow> v) @ interpolated r ps" by (simp_all add: interpolated_def)

lemma rd_bracketed:
  "rd (pre @ bracketed nam w @ post) (length pre) = Some BSLASH"
  "rd (pre @ bracketed nam w @ post) (Suc (length pre)) = Some nam"
  "rd (pre @ bracketed nam w @ post) (Suc (Suc (length pre))) = Some CHR ''[''"
  by (simp_all add: bracketed_def rd_def nth_append)

definition name_seq :: "nat \<Rightarrow> string \<Rightarrow> esc_out" where
  "name_seq i w = \<lparr>o_rval = ESCAPE_EXPAND, o_iesc = i, o_inam = Suc i, o_iarg = i + 3,
     o_iendarg = i + 3 + length w, o_iend = i + 4 + length w, o_msgs = []\<rparr>"

lemma expand_string_found:
  assumes w: "bracket_name w" and v: "string_value r w = Some v"
  shows "expand_seq ln r (pre @ bracketed CHR ''*'' w @ post, sz) pos (name_seq (length pre) w) =
    Some (Paste v r (pre @ bracketed CHR ''*'' w @ post) [])"
proof -
  define buf where "buf = pre @ bracketed CHR ''*'' w @ post"
  obtain d where d: "roff_getstrn w {ROFFDEF_USER, ROFFDEF_PRE} r = (Some v, d, r)"
    using v getstrn_found unfolding string_value_def by blast
  have b: "rd buf (Suc (length pre)) = Some CHR ''*''"
    "take (length w) (drop (length pre + 3) buf) = w"
    "reduce_name buf (length pre + 3) (length pre + 3) (length pre + 3 + length w) = (buf, length pre + 3 + length w)"
    unfolding buf_def by (rule rd_bracketed bracketed_name reduce_name_bracketed [OF w])+
  have l: "length pre + 3 + length w \<le> length buf" by (simp add: buf_def bracketed_def)
  have "w \<noteq> []" using w by (simp add: bracket_name_def)
  then show ?thesis using b l d unfolding buf_def [symmetric]
    by (simp add: name_seq_def expand_seq_def expand_string_def not_less [symmetric])
qed

lemma expand_register_found:
  assumes w: "bracket_name w" and v: "roff_getregn w CHR ''['' r = Some (n, r)"
  shows "expand_seq ln r (pre @ bracketed CHR ''n'' w @ post, sz) pos (name_seq (length pre) w) =
    Some (Paste (print_d n) r (pre @ bracketed CHR ''n'' w @ post) [])"
proof -
  define buf where "buf = pre @ bracketed CHR ''n'' w @ post"
  have b: "rd buf (Suc (length pre)) = Some CHR ''n''" "rd buf (Suc (Suc (length pre))) = Some CHR ''[''"
    "take (length w) (drop (length pre + 3) buf) = w"
    "reduce_name buf (length pre + 3) (length pre + 3) (length pre + 3 + length w) = (buf, length pre + 3 + length w)"
    unfolding buf_def by (rule rd_bracketed bracketed_name reduce_name_bracketed [OF w])+
  have l: "length pre + 3 + length w \<le> length buf" by (simp add: buf_def bracketed_def)
  have "w \<noteq> []" using w by (simp add: bracket_name_def)
  then show ?thesis using b l v unfolding buf_def [symmetric]
    by (simp add: name_seq_def expand_seq_def expand_register_def not_less [symmetric])
qed

lemma expand_seq_piece:
  assumes p: "piece_ok r p" "piece_value r p = Some v" "piece_name p = Some w"
  shows "\<exists>nam. source p = bracketed nam w \<and> nam \<in> {CHR ''*'', CHR ''n''} \<and>
    expand_seq ln r (pre @ bracketed nam w @ post, sz) pos (name_seq (length pre) w) =
      Some (Paste v r (pre @ bracketed nam w @ post) [])"
proof -
  have w: "bracket_name w" using p by (auto simp: piece_ok_def)
  show ?thesis
  proof (cases p)
    case (Str x)
    then show ?thesis using p expand_string_found [OF w] by auto
  next
    case (Num x)
    have "\<exists>n. roff_getregn w CHR ''['' r = Some (n, r) \<and> v = print_d n"
      using p Num by (auto simp: roff_getregn_def kv_put_same split: if_splits)
    then show ?thesis using Num p expand_register_found [OF w] by auto
  qed (use p in simp)
qed

lemma expand_loop_piece:
  assumes p: "piece_ok r p" "piece_value r p = Some v" "piece_name p = Some w"
    and lim: "n < EXPAND_LIMIT" "sz + length v \<le> SHRT_MAX"
  shows "expand_loop ln BSLASH r (pre @ source p @ post, sz) (length pre) n ms =
    expand_loop ln BSLASH r ((pre @ v) @ post, Suc (length ((pre @ v) @ post))) (length (pre @ v)) (Suc n) ms"
proof -
  obtain nam where nam: "source p = bracketed nam w" "nam \<in> {CHR ''*'', CHR ''n''}"
    "expand_seq ln r (pre @ bracketed nam w @ post, sz) (length pre) (name_seq (length pre) w) =
      Some (Paste v r (pre @ bracketed nam w @ post) [])"
    using expand_seq_piece [OF p] by blast
  have w: "bracket_name w" "list_all lit_char v" using p by (auto simp: piece_ok_def)
  have "expand_loop ln BSLASH r (pre @ bracketed nam w @ post, sz) (length pre) n ms =
      expand_loop ln BSLASH r (pre @ v @ post, Suc (length (pre @ v @ post))) (length pre) (Suc n) ms"
    using lim nam(3) by (subst expand_loop.simps)
      (simp add: rd_bracketed escape_bracketed [OF w(1) nam(2)] name_seq_def roff_expand_patch_def patch_bracketed)
  then show ?thesis unfolding nam(1) using expand_loop_lit [OF w(2)] by simp
qed

lemma expand_loop_pieces:
  assumes "\<And>p. p \<in> set ps \<Longrightarrow> piece_ok r p" "n + length ps \<le> EXPAND_LIMIT"
    and "sz \<le> k" "Suc (length pre + length (pieces ps) + length (interpolated r ps)) \<le> k" "k + length (interpolated r ps) \<le> SHRT_MAX"
  shows "\<exists>sz'. expand_loop ln BSLASH r (pre @ pieces ps, sz) (length pre) n ms = Some (False, r, (pre @ interpolated r ps, sz'), ms)"
  using assms
proof (induction ps arbitrary: pre n sz)
  case Nil
  then show ?case using expand_loop_end [of ln BSLASH r pre sz n ms] by simp
next
  case (Cons p ps)
  obtain v where v: "piece_value r p = Some v" "list_all lit_char v"
    using Cons.prems(1) [of p] by (auto simp: piece_ok_def split: option.splits)
  have IH: "\<exists>sz'. expand_loop ln BSLASH r ((pre @ v) @ pieces ps, sz1) (length (pre @ v)) n1 ms =
      Some (False, r, ((pre @ v) @ interpolated r ps, sz'), ms)"
    if "n1 \<le> Suc n" "sz1 \<le> k" for n1 sz1
    by (rule Cons.IH) (use Cons.prems that v in auto)
  show ?case
  proof (cases "piece_name p")
    case None
    then have "source p = v" using v(1) by (cases p) auto
    then show ?thesis using IH [of n sz] Cons.prems v expand_loop_lit [OF v(2)] by simp
  next
    case (Some w)
    have "expand_loop ln BSLASH r (pre @ source p @ pieces ps, sz) (length pre) n ms =
        expand_loop ln BSLASH r ((pre @ v) @ pieces ps, Suc (length ((pre @ v) @ pieces ps))) (length (pre @ v)) (Suc n) ms"
      by (rule expand_loop_piece [OF _ v(1) Some]) (use Cons.prems v in auto)
    moreover have "Suc (length ((pre @ v) @ pieces ps)) \<le> k" using Cons.prems(4) v by simp
    ultimately show ?thesis using IH [of "Suc n"] v by fastforce
  qed
qed

text \<open>
  C17: The expansion of a line interpolates: when a line consists of literal text, strings and number registers with
  bracketed names, every one of them defined and with literal text as its value, \<open>roff_expand\<close> ends, keeps the
  state, reports nothing, and replaces each sequence with its value.  This holds for up to \<open>EXPAND_LIMIT\<close>
  pieces while the sizes stay below \<open>SHRT_MAX\<close>, and whatever precedes the position in the line is kept.
\<close>

theorem roff_expand_interpolates:
  assumes "\<And>p. p \<in> set ps \<Longrightarrow> piece_ok r p" "length ps \<le> EXPAND_LIMIT"
    and "sz + length pre + length (pieces ps) + 2 * length (interpolated r ps) < SHRT_MAX"
  shows "\<exists>sz'. roff_expand ln BSLASH r (pre @ pieces ps, sz) (length pre) = Some (False, r, (pre @ interpolated r ps, sz'), [])"
proof -
  have "sz \<le> Suc (sz + length pre + length (pieces ps) + length (interpolated r ps))" by simp
  from expand_loop_pieces [OF assms(1) _ this] show ?thesis using assms(2,3) by (simp add: roff_expand_def)
qed

theorem roff_expand_interpolates_witness:
  "\<exists>r' b. roff_ds False 3 ''.ds os Linux'' 4 roff_init = Some (r', []) \<and>
    roff_expand 4 BSLASH r' (''.Nm on '' @ bracketed CHR ''*'' ''os'' @ '' v'' @ bracketed CHR ''n'' ''.V'', 33) 4 =
      Some (False, r', b, []) \<and> fst b = ''.Nm on Linux v40''"
proof -
  obtain r' where r': "roff_ds False 3 ''.ds os Linux'' 4 roff_init = Some (r', [])" "string_value r' ''os'' = Some ''Linux''"
    using roff_ds_defines [OF roff_init_ok, of "''os''" "[]" "''Linux''" False 3 "''.ds ''"]
    by (auto simp: name_char_def unquote_def numeral_eq_Suc)
  let ?ps = "[Lit ''on '', Str ''os'', Lit '' v'', Num ''.V'']"
  have n: "reg_readonly r' ''.V'' = 40" by (simp add: reg_readonly_def roff_getregro_def)
  have d: "print_d 40 = ''40''" by code_simp
  have "piece_ok r' p" if "p \<in> set ?ps" for p
    using that r'(2) n d by (auto simp: piece_ok_def bracket_name_def lit_char_def)
  then have "\<exists>sz'. roff_expand 4 BSLASH r' (''.Nm '' @ pieces ?ps, 33) (length ''.Nm '') =
      Some (False, r', (''.Nm '' @ interpolated r' ?ps, sz'), [])"
    by (rule roff_expand_interpolates) (simp_all add: r'(2) n d EXPAND_LIMIT_def SHRT_MAX_def bracketed_def)
  then show ?thesis using r' n d by (auto simp: numeral_eq_Suc)
qed

subsection \<open>Lines without escape character\<close>

definition literally :: "string \<Rightarrow> string" where
  "literally s = concat (map (\<lambda>c. if c = BSLASH then [BSLASH, CHR ''e''] else [c]) s)"

lemma literally_simps [simp]: "literally [] = []"
  "literally (c # s) = (if c = BSLASH then [BSLASH, CHR ''e''] else [c]) @ literally s"
  by (simp_all add: literally_def)

lemma expand_loop_off:
  "NUL \<notin> set s \<Longrightarrow> \<exists>sz'. expand_loop ln NUL r (pre @ s, sz) (length pre) n ms = Some (False, r, (pre @ literally s, sz'), ms)"
proof (induction s arbitrary: pre sz)
  case Nil
  then show ?case using expand_loop_end [of ln NUL r pre] by simp
next
  case (Cons c s)
  then have c: "c \<noteq> NUL" "NUL \<notin> set s" by auto
  have h: "rd (pre @ c # s) (length pre) = Some c" by (simp add: rd_def)
  show ?case
  proof (cases "c = BSLASH")
    case True
    have p: "patch (pre @ BSLASH # s) (length pre) [BSLASH, CHR ''e''] (Suc (length pre)) = (pre @ [BSLASH, CHR ''e'']) @ s"
      by (simp add: patch_def)
    have "\<exists>sz'. expand_loop ln NUL r (pre @ c # s, sz) (length pre) n ms =
        expand_loop ln NUL r ((pre @ [BSLASH, CHR ''e'']) @ s, sz') (length (pre @ [BSLASH, CHR ''e''])) n ms"
      using h by (subst expand_loop.simps) (auto simp add: True roff_expand_patch_def p)
    then show ?thesis using Cons.IH [OF c(2), of "pre @ [BSLASH, CHR ''e'']"] True by auto
  next
    case False
    have "expand_loop ln NUL r (pre @ c # s, sz) (length pre) n ms = expand_loop ln NUL r ((pre @ [c]) @ s, sz) (length (pre @ [c])) n ms"
      using h c(1) False by (subst expand_loop.simps) simp
    then show ?thesis using Cons.IH [OF c(2), of "pre @ [c]" sz] False by auto
  qed
qed

text \<open>
  C33: After \<open>.eo\<close> there are no escape sequences: whatever a line contains, \<open>roff_expand\<close> ends, keeps the
  state, reports nothing, and changes nothing but to protect every backslash with the sequence \<open>\e\<close>, so that
  later stages, which use the standard escape character, print it.
\<close>

theorem roff_expand_after_eo:
  assumes "rd buf pos = Some NUL" "NUL \<notin> set s"
  shows "\<exists>r' sz'. roff_eo ln buf pos r = Some (r', []) \<and>
    roff_expand ln' (r_escape r') r' (pre @ s, sz) (length pre) = Some (False, r', (pre @ literally s, sz'), [])"
  using assms expand_loop_off [OF assms(2)] by (simp add: roff_eo_def roff_expand_def)

theorem roff_expand_after_eo_witness:
  "\<exists>r' b. roff_eo 1 ''.eo'' 3 roff_init = Some (r', []) \<and>
    roff_expand 2 (r_escape r') r' ([BSLASH] @ ''*[x]'', 6) 0 = Some (False, r', b, []) \<and> fst b = BSLASH # ''e*[x]''"
  using roff_expand_after_eo [of "''.eo''" 3 "[BSLASH] @ ''*[x]''" 1 roff_init 2 "[]" 6]
  by (auto simp: rd_def)

end
