(* ===== verification/Roff_Arg.thy ===== *)
theory Roff_Arg
  imports Roff_Expand
begin

section \<open>Arguments of macros: \<open>roff_getarg\<close> and \<open>roff_userdef\<close>\<close>

text \<open>
  Arguments are cut out of the line in place: text moves left over removed bytes, and a NUL byte
  ends the argument.  While an argument is parsed, \<open>quoted\<close> is 0 outside quotes, 1 inside, and
  2 after the closing quote.
\<close>

record arg_state =
  a_buf :: string
  a_cp :: nat
  a_pairs :: nat
  a_newesc :: bool
  a_white :: bool
  a_quoted :: nat

definition peek :: "string \<Rightarrow> nat \<Rightarrow> char" where
  "peek buf i = (if i < length buf then buf ! i else NUL)"

text \<open>Move the current byte to the left over what was removed.\<close>

definition shift_left :: "arg_state \<Rightarrow> arg_state" where
  "shift_left st = (if 0 < a_pairs st then st\<lparr>a_buf := (a_buf st)[a_cp st - a_pairs st := peek (a_buf st) (a_cp st)]\<rparr> else st)"

text \<open>One byte replaces the two at the current position.\<close>

definition two_to_one :: "char \<Rightarrow> arg_state \<Rightarrow> arg_state" where
  "two_to_one c st = st\<lparr>a_buf := (a_buf st)[a_cp st - a_pairs st := c], a_pairs := Suc (a_pairs st), a_cp := Suc (a_cp st)\<rparr>"

text \<open>The body of the loop: the new state, and whether the loop ends.\<close>

definition getarg_byte :: "arg_state \<Rightarrow> arg_state \<times> bool" where
  "getarg_byte st =
     (let st = shift_left st; c = peek (a_buf st) (a_cp st); d = peek (a_buf st) (Suc (a_cp st))
      in if c = BSLASH then
           (if d = CHR ''a'' \<or> d = CHR ''t'' then two_to_one TAB st
            else if d = BSLASH then (two_to_one BSLASH st)\<lparr>a_newesc := True\<rparr>
            else if d = CHR '' '' \<and> a_quoted st = 0 then st\<lparr>a_cp := Suc (a_cp st)\<rparr>
            else st, False)
         else if a_quoted st = 0 then (if c = CHR '' '' then (st\<lparr>a_white := True\<rparr>, True) else (st, False))
         else if c = DQUOTE then
           (if d = DQUOTE then (st\<lparr>a_pairs := Suc (a_pairs st), a_cp := Suc (a_cp st)\<rparr>, False)
            else (st\<lparr>a_quoted := 2\<rparr>, True))
         else (st, False))"

lemma getarg_byte_progress:
  assumes "peek (a_buf st) (a_cp st) \<noteq> NUL" "getarg_byte st = (st', b)"
  shows "length (a_buf st') - Suc (a_cp st') < length (a_buf st) - a_cp st"
proof -
  have "a_cp st < length (a_buf st)" using assms(1) by (simp add: peek_def split: if_splits)
  then show ?thesis using assms(2) by (auto simp: getarg_byte_def Let_def two_to_one_def shift_left_def split: if_splits)
qed

function getarg_loop :: "arg_state \<Rightarrow> arg_state" where
  "getarg_loop st =
     (if peek (a_buf st) (a_cp st) = NUL then st
      else case getarg_byte st of (st, stop) \<Rightarrow> if stop then st else getarg_loop (st\<lparr>a_cp := Suc (a_cp st)\<rparr>))"
  by pat_completeness auto
termination
  by (relation "measure (\<lambda>st. length (a_buf st) - a_cp st)") (use getarg_byte_progress in \<open>auto dest: sym\<close>)

declare getarg_loop.simps [simp del]

text \<open>NUL-terminate the argument and move to the next one.\<close>

definition getarg_next :: "string \<Rightarrow> nat \<Rightarrow> (string \<times> nat) option" where
  "getarg_next buf cp =
     (if peek buf cp = NUL then Some (buf, cp)
      else do { cp' \<leftarrow> scan_while (\<lambda>c. c = CHR '' '') (buf[cp := NUL]) (Suc cp); Some (buf[cp := NUL], cp') })"

definition cstr_at :: "string \<Rightarrow> nat \<Rightarrow> string" where
  "cstr_at buf i = takeWhile (\<lambda>c. c \<noteq> NUL) (drop i buf)"

text \<open>The result is the argument, the line, the next position in it, the new value of \<open>*pos\<close>, and the state.\<close>

definition roff_getarg :: "nat \<Rightarrow> nat \<Rightarrow> string \<Rightarrow> nat \<Rightarrow> roff \<Rightarrow>
    (string \<times> string \<times> nat \<times> nat \<times> roff \<times> msg list) option" where
  "roff_getarg ln pos buf cpp r = do {
     let quoted = (peek buf cpp = DQUOTE);
     let begin_arg = (if quoted then Suc cpp else cpp);
     let st = getarg_loop \<lparr>a_buf = buf, a_cp = begin_arg, a_pairs = 0, a_newesc = False, a_white = False,
         a_quoted = (if quoted then 1 else 0)\<rparr>;
     let ms1 = (if a_quoted st = 1 then [(MANDOCERR_ARG_QUOTE, ln, pos, [])] else []);
     let buf1 = (if 0 < a_pairs st then (a_buf st)[a_cp st - a_pairs st := NUL] else a_buf st);
     (buf2, cp) \<leftarrow> getarg_next buf1 (a_cp st);
     let pos = pos + (cp - begin_arg) + (if quoted then 1 else 0);
     let ms2 = (if peek buf2 cp = NUL \<and> (a_white st \<or> 0 < cp \<and> peek buf2 (cp - 1) = CHR '' '')
                then [(MANDOCERR_SPACE_EOL, ln, pos, [])] else []);
     let arg = cstr_at buf2 begin_arg;
     if \<not> a_newesc st then Some (arg, buf2, cp, pos, r, ms1 @ ms2)
     else do {
       (ign, r, b, ms3) \<leftarrow> roff_expand ln BSLASH r (arg, Suc (length arg)) 0;
       Some (if ign then [] else fst b, buf2, cp, pos, r, ms1 @ ms2 @ ms3)}}"

text \<open>
  Calling a user-defined macro: a new context is put on the stack before its arguments are parsed,
  with quotes escaped in them; then the definition replaces the line.
\<close>

definition escape_quotes :: "string \<Rightarrow> string" where
  "escape_quotes s = concat (map (\<lambda>c. if c = DQUOTE then BSLASH # ''(dq'' else [c]) s)"

definition add_arg :: "string \<Rightarrow> roff \<Rightarrow> roff" where
  "add_arg a r = (case r_mstack r of [] \<Rightarrow> r | args # stack \<Rightarrow> r\<lparr>r_mstack := (args @ [escape_quotes a]) # stack\<rparr>)"

partial_function (option) collect_args :: "nat \<Rightarrow> nat \<Rightarrow> string \<Rightarrow> nat \<Rightarrow> roff \<Rightarrow> msg list \<Rightarrow> (roff \<times> msg list) option" where
  "collect_args ln pos buf src r ms =
     (if peek buf src = NUL then Some (r, ms)
      else Option.bind (roff_getarg ln pos buf src r) (\<lambda>(a, buf, src, pos, r, ms').
        collect_args ln pos buf src (add_arg a r) (ms @ ms')))"

text \<open>\<open>ROFF_IGN\<close>, \<open>ROFF_REPARSE | ROFF_USERCALL\<close>, or \<open>ROFF_IGN | ROFF_APPEND\<close>.\<close>

datatype usercall = Empty_macro | Reparse_usercall | Ign_append

definition roff_userdef :: "nat \<Rightarrow> nat \<Rightarrow> string \<Rightarrow> string \<Rightarrow> roff \<Rightarrow> (usercall \<times> string \<times> roff \<times> msg list) option" where
  "roff_userdef ln pos current_string buf r =
     (if current_string = [] then Some (Empty_macro, buf, r, [])
      else do {
        (r, ms) \<leftarrow> collect_args ln pos buf pos (r\<lparr>r_mstack := [] # r_mstack r\<rparr>) [];
        Some (if last current_string = NEWLINE then Reparse_usercall else Ign_append, current_string, r, ms)})"

end
