(* ===== verification/Roff_Arg_Quote.thy ===== *)
theory Roff_Arg_Quote
  imports Roff_Arg
begin

section \<open>Quoted arguments\<close>

text \<open>The text between the quotes: quotes in it are doubled.\<close>

definition doubled :: "string \<Rightarrow> string" where
  "doubled s = concat (map (\<lambda>c. if c = DQUOTE then [DQUOTE, DQUOTE] else [c]) s)"

lemma doubled_simps [simp]: "doubled [] = []" "doubled (c # s) = (if c = DQUOTE then [DQUOTE, DQUOTE] else [c]) @ doubled s"
  by (simp_all add: doubled_def)

definition arg_char :: "char \<Rightarrow> bool" where
  "arg_char c \<longleftrightarrow> c \<noteq> NUL \<and> c \<noteq> BSLASH"

definition quoted_arg :: "string \<Rightarrow> string" where
  "quoted_arg s = DQUOTE # doubled s @ [DQUOTE]"

text \<open>The state in the loop: some text, a gap, and the rest of the line.\<close>

definition at_gap :: "string \<Rightarrow> string \<Rightarrow> string \<Rightarrow> nat \<Rightarrow> arg_state" where
  "at_gap done gap s q = \<lparr>a_buf = done @ gap @ s, a_cp = length done + length gap, a_pairs = length gap,
     a_newesc = False, a_white = False, a_quoted = q\<rparr>"

lemma peek_at: "peek (xs @ c # ys) (length xs) = c" "peek (xs @ c # d # ys) (Suc (length xs)) = d"
  by (simp_all add: peek_def nth_append)

lemma peek_gap:
  "peek (done @ gap @ c # s) (length done + length gap) = c"
  "peek (done @ gap @ c # s) (Suc (length done + length gap)) = (case s of [] \<Rightarrow> NUL | d # _ \<Rightarrow> d)"
  by (cases s; simp add: peek_def nth_append)+

lemma shift_gap:
  "\<exists>gap'. length gap' = length gap \<and> shift_left (at_gap done gap (c # s) q) = (at_gap done gap (c # s) q)\<lparr>a_buf := done @ c # gap' @ s\<rparr> \<and>
     (\<exists>g. done @ c # gap' @ s = done @ g @ c # s \<and> length g = length gap)"
proof (cases gap)
  case Nil
  then show ?thesis by (simp add: shift_left_def at_gap_def)
next
  case (Cons g gs)
  have "shift_left (at_gap done gap (c # s) q) = (at_gap done gap (c # s) q)\<lparr>a_buf := done @ c # (gs @ [c]) @ s\<rparr>"
    using peek_gap(1) [of "done" "g # gs" c s] by (simp add: shift_left_def at_gap_def Cons list_update_append)
  moreover have "done @ c # (gs @ [c]) @ s = done @ (c # gs) @ c # s" by simp
  moreover have "length (gs @ [c]) = length gap" "length (c # gs) = length gap" using Cons by simp_all
  ultimately show ?thesis by blast
qed

lemma getarg_gap_char:
  assumes "arg_char c" "c \<noteq> DQUOTE"
  shows "\<exists>gap'. length gap' = length gap \<and>
    getarg_loop (at_gap done gap (c # s) 1) = getarg_loop (at_gap (done @ [c]) gap' s 1)"
proof -
  obtain gap' g where g: "length gap' = length gap" "shift_left (at_gap done gap (c # s) 1) = (at_gap done gap (c # s) 1)\<lparr>a_buf := done @ c # gap' @ s\<rparr>"
    "done @ c # gap' @ s = done @ g @ c # s" "length g = length gap"
    using shift_gap by blast
  have p: "peek (done @ c # gap' @ s) (length done + length gap) = c" unfolding g(3) using peek_gap(1) [of "done" g c s] g(4) by simp
  have "getarg_byte (at_gap done gap (c # s) 1) = ((at_gap done gap (c # s) 1)\<lparr>a_buf := done @ c # gap' @ s\<rparr>, False)"
    using assms p unfolding getarg_byte_def g(2) by (simp add: Let_def at_gap_def arg_char_def)
  moreover have "peek (a_buf (at_gap done gap (c # s) 1)) (a_cp (at_gap done gap (c # s) 1)) \<noteq> NUL"
    using assms peek_gap(1) by (simp add: at_gap_def arg_char_def)
  ultimately have "getarg_loop (at_gap done gap (c # s) 1) = getarg_loop (at_gap (done @ [c]) gap' s 1)"
    using g(1) by (subst getarg_loop.simps) (simp add: at_gap_def)
  then show ?thesis using g(1) by blast
qed

lemma getarg_gap_quote:
  "\<exists>gap'. getarg_loop (at_gap done gap (DQUOTE # DQUOTE # s) 1) = getarg_loop (at_gap (done @ [DQUOTE]) gap' s 1)"
proof -
  let ?s = "DQUOTE # s"
  obtain gap' g where g: "length gap' = length gap" "shift_left (at_gap done gap (DQUOTE # ?s) 1) = (at_gap done gap (DQUOTE # ?s) 1)\<lparr>a_buf := done @ DQUOTE # gap' @ ?s\<rparr>"
    "done @ DQUOTE # gap' @ ?s = done @ g @ DQUOTE # ?s" "length g = length gap"
    using shift_gap by blast
  have p: "peek (done @ DQUOTE # gap' @ ?s) (length done + length gap) = DQUOTE" "peek (done @ DQUOTE # gap' @ ?s) (Suc (length done + length gap)) = DQUOTE"
    unfolding g(3) using peek_gap [of "done" g DQUOTE ?s] g(4) by simp_all
  have "getarg_byte (at_gap done gap (DQUOTE # ?s) 1) = ((at_gap done gap (DQUOTE # ?s) 1)
      \<lparr>a_buf := done @ DQUOTE # gap' @ ?s, a_pairs := Suc (length gap), a_cp := Suc (length done + length gap)\<rparr>, False)"
    using p unfolding getarg_byte_def g(2) by (simp add: Let_def at_gap_def)
  moreover have "peek (a_buf (at_gap done gap (DQUOTE # ?s) 1)) (a_cp (at_gap done gap (DQUOTE # ?s) 1)) \<noteq> NUL"
    using peek_gap(1) by (simp add: at_gap_def)
  ultimately have "getarg_loop (at_gap done gap (DQUOTE # ?s) 1) = getarg_loop (at_gap (done @ [DQUOTE]) (gap' @ [DQUOTE]) s 1)"
    using g(1) by (subst getarg_loop.simps) (simp add: at_gap_def)
  then show ?thesis by blast
qed

lemma getarg_gap_end:
  assumes "rest = [] \<or> hd rest \<noteq> DQUOTE"
  shows "\<exists>gap'. length gap' = length gap \<and> getarg_loop (at_gap done gap (DQUOTE # rest) 1) = at_gap done gap' (DQUOTE # rest) 2"
proof -
  obtain gap' g where g: "length gap' = length gap" "shift_left (at_gap done gap (DQUOTE # rest) 1) = (at_gap done gap (DQUOTE # rest) 1)\<lparr>a_buf := done @ DQUOTE # gap' @ rest\<rparr>"
    "done @ DQUOTE # gap' @ rest = done @ g @ DQUOTE # rest" "length g = length gap"
    using shift_gap by blast
  have g2: "shift_left (at_gap done gap (DQUOTE # rest) 1) = (at_gap done gap (DQUOTE # rest) 1)\<lparr>a_buf := done @ g @ DQUOTE # rest\<rparr>"
    using g(2) unfolding g(3) .
  have p: "peek (done @ g @ DQUOTE # rest) (length done + length gap) = DQUOTE" "peek (done @ g @ DQUOTE # rest) (Suc (length done + length gap)) \<noteq> DQUOTE"
    using peek_gap [of "done" g DQUOTE rest] g(4) assms by (cases rest; simp)+
  have "getarg_byte (at_gap done gap (DQUOTE # rest) 1) = (at_gap done g (DQUOTE # rest) 2, True)"
    using p g(4) unfolding getarg_byte_def g2 by (simp add: Let_def at_gap_def)
  moreover have "peek (a_buf (at_gap done gap (DQUOTE # rest) 1)) (a_cp (at_gap done gap (DQUOTE # rest) 1)) \<noteq> NUL"
    using peek_gap(1) by (simp add: at_gap_def)
  ultimately have "getarg_loop (at_gap done gap (DQUOTE # rest) 1) = at_gap done g (DQUOTE # rest) 2"
    by (subst getarg_loop.simps) simp
  then show ?thesis using g(4) by blast
qed

lemma getarg_quoted:
  assumes "list_all arg_char s" "rest = [] \<or> hd rest \<noteq> DQUOTE"
  shows "\<exists>gap'. getarg_loop (at_gap done gap (doubled s @ DQUOTE # rest) 1) = at_gap (done @ s) gap' (DQUOTE # rest) 2"
  using assms(1)
proof (induction s arbitrary: "done" gap)
  case Nil
  then show ?case using getarg_gap_end [OF assms(2)] by fastforce
next
  case (Cons c s)
  then have c: "arg_char c" "list_all arg_char s" by simp_all
  note IH = Cons.IH [OF c(2), of "done @ [c]"]
  show ?case
  proof (cases "c = DQUOTE")
    case True
    then show ?thesis
      using getarg_gap_quote [of "done" gap "doubled s @ DQUOTE # rest"] IH by (simp add: True) metis
  next
    case False
    then show ?thesis
      using getarg_gap_char [OF c(1) False, of gap "done" "doubled s @ DQUOTE # rest"] IH by simp metis
  qed
qed


text \<open>What follows an argument: nothing, or a blank and the next argument.\<close>

definition next_arg :: "string \<Rightarrow> string \<Rightarrow> bool" where
  "next_arg rest x \<longleftrightarrow> rest = [] \<and> x = [] \<or> rest = CHR '' '' # x \<and> x \<noteq> [] \<and> hd x \<notin> {CHR '' '', NUL}"

lemma scan_next_arg:
  assumes "next_arg rest x"
  shows "\<exists>bl. rest = bl @ x \<and> scan_while (\<lambda>c. c = CHR '' '') (p @ rest) (length p) = Some (length (p @ bl))"
proof (cases "rest = []")
  case True
  then show ?thesis using assms by (subst scan_while.simps) (simp add: next_arg_def rd_def)
next
  case False
  then obtain c cs where c: "rest = CHR '' '' # x" "x = c # cs" "c \<noteq> CHR '' ''" "c \<noteq> NUL"
    using assms by (cases x) (auto simp: next_arg_def)
  have 1: "rd (p @ rest) (length p) = Some CHR '' ''" "rd (p @ rest) (Suc (length p)) = Some c"
    using c by (simp_all add: rd_def nth_append)
  have "scan_while (\<lambda>c. c = CHR '' '') (p @ rest) (Suc (length p)) = Some (Suc (length p))"
    using c 1 by (subst scan_while.simps) simp
  then have "scan_while (\<lambda>c. c = CHR '' '') (p @ rest) (length p) = Some (length (p @ '' ''))"
    using 1 by (subst scan_while.simps) simp
  then show ?thesis using c(1) by (intro exI [of _ "'' ''"]) simp
qed

lemma getarg_next_quote:
  assumes "next_arg rest x"
  shows "\<exists>bl. rest = bl @ x \<and> getarg_next (d @ g @ DQUOTE # rest) (length d + length g) = Some (d @ g @ NUL # rest, length (d @ g @ NUL # bl))"
proof -
  have u: "(d @ g @ DQUOTE # rest)[length d + length g := NUL] = (d @ g @ [NUL]) @ rest" by (simp add: list_update_append)
  have l: "Suc (length d + length g) = length (d @ g @ [NUL])" by simp
  obtain bl where bl: "rest = bl @ x" "scan_while (\<lambda>c. c = CHR '' '') ((d @ g @ [NUL]) @ rest) (length (d @ g @ [NUL])) = Some (length ((d @ g @ [NUL]) @ bl))"
    using scan_next_arg [OF assms] by blast
  then show ?thesis using peek_gap(1) [of d g DQUOTE rest] unfolding getarg_next_def u l by (intro exI [of _ bl]) simp
qed

lemma cstr_at_append: "list_all arg_char s \<Longrightarrow> ys = [] \<or> hd ys = NUL \<Longrightarrow> cstr_at (p @ s @ ys) (length p) = s"
proof -
  assume a: "list_all arg_char s" "ys = [] \<or> hd ys = NUL"
  then have "takeWhile (\<lambda>c. c \<noteq> NUL) (s @ ys) = s"
    by (subst takeWhile_append2) (auto simp: list_all_iff arg_char_def takeWhile_eq_Nil_iff)
  then show ?thesis by (simp add: cstr_at_def)
qed

lemma roff_getarg_quoted:
  assumes s: "list_all arg_char s" and rest: "next_arg rest x"
  shows "\<exists>pre' pos'. roff_getarg ln pos (pre @ quoted_arg s @ rest) (length pre) r = Some (s, pre' @ x, length pre', pos', r, [])"
proof -
  define p where "p = pre @ [DQUOTE]"
  have hd: "rest = [] \<or> hd rest \<noteq> DQUOTE" using rest by (auto simp: next_arg_def)
  obtain gap where gap: "getarg_loop (at_gap p [] (doubled s @ DQUOTE # rest) 1) = at_gap (p @ s) gap (DQUOTE # rest) 2"
    using getarg_quoted [OF s hd] by blast
  define g where "g = (if gap = [] then [] else NUL # tl gap)"
  have b1: "(if 0 < length gap then (a_buf (at_gap (p @ s) gap (DQUOTE # rest) 2))[length p + length s := NUL]
      else a_buf (at_gap (p @ s) gap (DQUOTE # rest) 2)) = (p @ s) @ g @ DQUOTE # rest"
    by (cases gap) (simp_all add: at_gap_def g_def list_update_append)
  obtain bl where bl: "rest = bl @ x" "getarg_next ((p @ s) @ g @ DQUOTE # rest) (length (p @ s) + length g) =
      Some ((p @ s) @ g @ NUL # rest, length ((p @ s) @ g @ NUL # bl))"
    using getarg_next_quote [OF rest] by blast
  have lg: "length g = length gap" by (simp add: g_def)
  have arg: "cstr_at ((p @ s) @ g @ NUL # rest) (length p) = s"
    using cstr_at_append [OF s, of "g @ NUL # rest" p] by (cases gap) (simp_all add: g_def)
  define buf2 cp where "buf2 = (p @ s) @ g @ NUL # rest" and "cp = length ((p @ s) @ g @ NUL # bl)"
  have eol: "\<not> (peek buf2 cp = NUL \<and> 0 < cp \<and> peek buf2 (cp - 1) = CHR '' '')"
  proof (cases "rest = []")
    case True
    then have "buf2 = ((p @ s) @ g) @ [NUL]" "cp - 1 = length ((p @ s) @ g)" using bl(1) by (simp_all add: buf2_def cp_def)
    then show ?thesis by (simp add: peek_def nth_append)
  next
    case False
    then obtain c cs where "x = c # cs" "c \<noteq> NUL" using rest by (cases x) (auto simp: next_arg_def)
    then have "peek buf2 cp \<noteq> NUL" using bl(1) peek_at(1) [of "(p @ s) @ g @ NUL # bl" c cs] by (simp add: buf2_def cp_def)
    then show ?thesis by simp
  qed
  have line: "pre @ quoted_arg s @ rest = p @ doubled s @ DQUOTE # rest" by (simp add: quoted_arg_def p_def)
  have st: "\<lparr>a_buf = p @ doubled s @ DQUOTE # rest, a_cp = Suc (length pre), a_pairs = 0, a_newesc = False, a_white = False, a_quoted = 1\<rparr> =
      at_gap p [] (doubled s @ DQUOTE # rest) 1" by (simp add: at_gap_def p_def)
  have q: "peek (p @ doubled s @ DQUOTE # rest) (length pre) = DQUOTE" by (simp add: p_def peek_def nth_append)
  have f: "a_quoted (at_gap (p @ s) gap (DQUOTE # rest) 2) = 2" "a_pairs (at_gap (p @ s) gap (DQUOTE # rest) 2) = length gap"
    "a_cp (at_gap (p @ s) gap (DQUOTE # rest) 2) = length (p @ s) + length g"
    "a_newesc (at_gap (p @ s) gap (DQUOTE # rest) 2) = False" "a_white (at_gap (p @ s) gap (DQUOTE # rest) 2) = False"
    by (simp_all add: at_gap_def lg)
  have lp: "length (p @ s) + length g - length gap = length p + length s" by (simp add: lg)
  have lq: "Suc (length pre) = length p" by (simp add: p_def)
  note arg' = arg [folded lq buf2_def] and next_pos = bl(2) [folded buf2_def cp_def]
  have "\<exists>pos'. roff_getarg ln pos (pre @ quoted_arg s @ rest) (length pre) r = Some (s, buf2, cp, pos', r, [])"
    unfolding line roff_getarg_def Let_def q simp_thms if_True st gap f lp b1 next_pos
    using eol arg' by simp
  moreover have "buf2 = ((p @ s) @ g @ NUL # bl) @ x" using bl(1) by (simp add: buf2_def)
  ultimately show ?thesis unfolding cp_def by blast
qed

subsection \<open>All arguments of a call\<close>

fun arg_line :: "string list \<Rightarrow> string" where
  "arg_line [] = []"
| "arg_line [a] = quoted_arg a"
| "arg_line (a # b # as) = quoted_arg a @ CHR '' '' # arg_line (b # as)"

lemma arg_line_Cons: "\<exists>rest. arg_line (a # as) = quoted_arg a @ rest \<and> next_arg rest (arg_line as)"
proof (cases as)
  case (Cons b bs)
  have "\<exists>ys. arg_line (b # bs) = DQUOTE # ys" by (cases bs) (simp_all add: quoted_arg_def)
  then show ?thesis using Cons by (auto simp: next_arg_def)
qed (simp add: next_arg_def)

lemma collect_args_quoted:
  assumes "\<And>a. a \<in> set args \<Longrightarrow> list_all arg_char a" "r_mstack r = xs # stack"
  shows "collect_args ln pos (pre @ arg_line args) (length pre) r ms =
    Some (r\<lparr>r_mstack := (xs @ map escape_quotes args) # stack\<rparr>, ms)"
  using assms
proof (induction args arbitrary: pre pos r xs)
  case Nil
  have r: "r = r\<lparr>r_mstack := xs # stack\<rparr>" using Nil(2) by simp
  have "collect_args ln pos (pre @ arg_line []) (length pre) r ms = Some (r, ms)"
    by (subst collect_args.simps) (simp add: peek_def)
  then show ?case using r by simp
next
  case (Cons a as)
  obtain rest where rest: "arg_line (a # as) = quoted_arg a @ rest" "next_arg rest (arg_line as)" using arg_line_Cons by blast
  have a: "list_all arg_char a" using Cons.prems(1) by simp
  obtain pre' pos' where g: "roff_getarg ln pos (pre @ arg_line (a # as)) (length pre) r = Some (a, pre' @ arg_line as, length pre', pos', r, [])"
    using roff_getarg_quoted [OF a rest(2)] rest(1) by metis
  have "peek (pre @ arg_line (a # as)) (length pre) \<noteq> NUL" unfolding rest(1) by (simp add: quoted_arg_def peek_def nth_append)
  then have "collect_args ln pos (pre @ arg_line (a # as)) (length pre) r ms =
      collect_args ln pos' (pre' @ arg_line as) (length pre') (add_arg a r) ms"
    using g by (subst collect_args.simps) simp
  moreover have "r_mstack (add_arg a r) = (xs @ [escape_quotes a]) # stack" using Cons.prems(2) by (simp add: add_arg_def)
  moreover have "add_arg a r\<lparr>r_mstack := ys\<rparr> = r\<lparr>r_mstack := ys\<rparr>" for ys by (simp add: add_arg_def split: list.split)
  ultimately show ?case using Cons.IH [of "add_arg a r" "xs @ [escape_quotes a]" pos' pre'] Cons.prems(1) by simp
qed

text \<open>
  C18: Quoting and parsing of arguments are inverse: when a user-defined macro is called with any list of texts without
  backslashes, each of them put into quotes with its own quotes doubled, exactly these texts become the arguments in
  the new context on the stack (with quotes replaced by their escape sequence), the contexts below stay, nothing is
  reported, and the line is replaced with the definition.
\<close>

theorem roff_userdef_arguments:
  assumes "\<And>a. a \<in> set args \<Longrightarrow> list_all arg_char a" "body \<noteq> []"
  shows "roff_userdef ln (length pre) body (pre @ arg_line args) r =
    Some (if last body = NEWLINE then Reparse_usercall else Ign_append, body,
      r\<lparr>r_mstack := map escape_quotes args # r_mstack r\<rparr>, [])"
  using collect_args_quoted [OF assms(1), of args "r\<lparr>r_mstack := [] # r_mstack r\<rparr>" "[]" "r_mstack r"] assms(2)
  by (simp add: roff_userdef_def)

theorem roff_userdef_arguments_witness:
  "roff_userdef 5 4 ''x'' (''.xx \"a \"\"b\"\"\" \"\" \"c\"'') roff_init =
    Some (Ign_append, ''x'', roff_init\<lparr>r_mstack := [[''a '' @ BSLASH # ''(dqb'' @ BSLASH # ''(dq'', '''', ''c'']]\<rparr>, [])"
proof -
  have "list_all arg_char a" if "a \<in> set [''a \"b\"'', '''', ''c'']" for a using that by (auto simp: arg_char_def)
  from roff_userdef_arguments [OF this, where args = "[''a \"b\"'', [], ''c'']" and body = "''x''" and ln = 5 and pre = "''.xx ''" and r = roff_init] show ?thesis
    by (simp add: quoted_arg_def escape_quotes_def roff_init_def numeral_eq_Suc)
qed

end
