(* ===== verification/Roff_Arg_Props.thy ===== *)
theory Roff_Arg_Props
  imports Roff_Arg Roff_Expand_Props
begin

section \<open>Arguments of macros in lines\<close>

subsection \<open>Expansion of all arguments\<close>

lemma expand_seq_star:
  assumes "r_mstack r = args # stack"
  shows "\<exists>sz'. expand_seq ln r (pre @ STAR @ post, sz) pos \<lparr>o_rval = ESCAPE_EXPAND, o_iesc = length pre, o_inam = Suc (length pre),
      o_iarg = length pre + 2, o_iendarg = length pre + 3, o_iend = length pre + 3, o_msgs = []\<rparr> =
    Some (Go_on r (pre @ join_args False args @ post, sz') pos [])"
proof -
  have "rd (pre @ STAR @ post) (Suc (length pre)) = Some CHR ''$''" "rd (pre @ STAR @ post) (length pre + 2) = Some CHR ''*''"
    by (simp_all add: rd_def nth_append)
  then show ?thesis using assms
    by (simp add: expand_seq_def expand_args_def Let_def patch_def isdigit_def)
qed

lemma expand_star_loops:
  assumes st: "r_mstack r0 = args # stack" "join_args False args = p @ STAR @ q" "list_all lit_char p"
    and run: "expand_loop ln ec r b pos n ms = Some y"
  shows "\<not> (ec = BSLASH \<and> r = r0 \<and> (\<exists>pre t post. fst b = pre @ t @ STAR @ post \<and> pos = length pre \<and> list_all lit_char t))"
  using run
proof (rule expand_loop.raw_induct [where P = "\<lambda>ln ec r b pos n ms y. \<not> (ec = BSLASH \<and> r = r0 \<and>
    (\<exists>pre t post. fst b = pre @ t @ STAR @ post \<and> pos = length pre \<and> list_all lit_char t))", rotated], goal_cases)
  case (1 f ln ec r b pos n ms y)
  show ?case
  proof (rule notI, elim conjE exE)
    fix pre t post
    assume s: "ec = BSLASH" "r = r0" "fst b = pre @ t @ STAR @ post" "pos = length pre" "list_all lit_char t"
    obtain sz where b: "b = (pre @ t @ STAR @ post, sz)" using s(3) by (cases b) simp
    have no: False if "f ln BSLASH r0 (pre' @ t' @ STAR @ post', sz') (length pre') n ms = Some y" "list_all lit_char t'" for pre' t' post' sz'
      using 1(1) [OF that(1)] that(2) by auto
    show False
    proof (cases t)
      case Nil
      define buf where "buf = pre @ STAR @ post"
      define e where "e = \<lparr>o_rval = ESCAPE_EXPAND, o_iesc = length pre, o_inam = Suc (length pre),
          o_iarg = length pre + 2, o_iendarg = length pre + 3, o_iend = length pre + 3, o_msgs = []\<rparr>"
      have h: "rd buf pos = Some BSLASH" using s(4) by (simp add: buf_def rd_def nth_append)
      have x: "roff_escape False buf ln pos = Some e" using escape_star s(4) unfolding buf_def e_def by blast
      have v: "o_rval e = ESCAPE_EXPAND" "o_msgs e = []" by (simp_all add: e_def)
      obtain sz' where g: "expand_seq ln r (buf, sz) pos e = Some (Go_on r (pre @ join_args False args @ post, sz') pos [])"
        using expand_seq_star st(1) s(2) unfolding buf_def e_def by blast
      have b': "b = (buf, sz)" using b Nil by (simp add: buf_def)
      have "f ln BSLASH r0 (pre @ p @ STAR @ q @ post, sz') (length pre) n ms = Some y"
        using 1(2) h x v g s(1,2,4) st(2) unfolding b' by simp
      then show False using no st(3) by blast
    next
      case (Cons c t')
      then have c: "c \<noteq> NUL" "c \<noteq> BSLASH" "list_all lit_char t'" using s(5) by (simp_all add: lit_char_def)
      have "rd (pre @ t @ STAR @ post) (length pre) = Some c" using c Cons by (simp add: rd_def nth_append)
      then have "f ln BSLASH r0 ((pre @ [c]) @ t' @ STAR @ post, sz) (length (pre @ [c])) n ms = Some y"
        using 1(2) c s(1,2,4) Cons unfolding b by simp
      then show False using no c(3) by blast
    qed
  qed
qed

text \<open>
  C34: Without quoting, the expansion of all arguments is not counted: while a macro runs whose arguments themselves
  contain the sequence \<open>\$*\<close>, preceded by literal text, the expansion of a line with that sequence never ends, in
  spite of \<open>EXPAND_LIMIT\<close>.
\<close>

theorem roff_expand_args_loop:
  assumes "r_mstack r = args # stack" "join_args False args = p @ STAR @ q" "list_all lit_char p" "list_all lit_char t"
  shows "roff_expand ln BSLASH r (pre @ t @ STAR @ post, sz) (length pre) = None"
proof (rule ccontr)
  assume "\<not> ?thesis"
  then obtain y where "expand_loop ln BSLASH r (pre @ t @ STAR @ post, sz) (length pre) 0 [] = Some y"
    by (auto simp: roff_expand_def)
  from expand_star_loops [OF assms(1-3) this] show False using assms(4) by auto
qed

theorem roff_expand_args_loop_witness:
  "\<exists>r. roff_userdef 3 4 (STAR @ [NEWLINE]) (''.xx '' @ [BSLASH] @ ''t'' @ [BSLASH] @ ''t$'' @ [BSLASH] @ '' *'') roff_init =
      Some (Reparse_usercall, STAR @ [NEWLINE], r, []) \<and>
    roff_expand 4 BSLASH r (STAR, 4) 0 = None"
proof -
  let ?line = "''.xx '' @ [BSLASH] @ ''t'' @ [BSLASH] @ ''t$'' @ [BSLASH] @ '' *''" and ?arg = "[TAB, TAB, CHR ''$''] @ STAR"
  let ?r = "roff_init\<lparr>r_mstack := [[?arg]]\<rparr>"
  have g: "\<exists>buf. roff_getarg 3 4 ?line 4 r = Some (?arg, buf, 12, 12, r, []) \<and> peek buf 12 = NUL" for r
    by (simp add: roff_getarg_def getarg_loop.simps getarg_byte_def shift_left_def two_to_one_def peek_def getarg_next_def cstr_at_def Let_def)
  have "roff_userdef 3 4 (STAR @ [NEWLINE]) ?line roff_init = Some (Reparse_usercall, STAR @ [NEWLINE], ?r, [])"
  proof -
    obtain buf where buf: "roff_getarg 3 4 ?line 4 (roff_init\<lparr>r_mstack := [[]]\<rparr>) = Some (?arg, buf, 12, 12, roff_init\<lparr>r_mstack := [[]]\<rparr>, [])"
      "peek buf 12 = NUL" using g by blast
    have "collect_args 3 12 buf 12 ?r [] = Some (?r, [])" using buf(2) by (subst collect_args.simps) simp
    moreover have "add_arg ?arg (roff_init\<lparr>r_mstack := [[]]\<rparr>) = ?r" by (simp add: add_arg_def escape_quotes_def roff_init_def)
    ultimately have "collect_args 3 4 ?line 4 (roff_init\<lparr>r_mstack := [[]]\<rparr>) [] = Some (?r, [])"
      using buf(1) by (subst collect_args.simps) (simp add: peek_def)
    then show ?thesis by (simp add: roff_userdef_def roff_init_def)
  qed
  moreover have "roff_expand 4 BSLASH ?r ([] @ [] @ STAR @ [], 4) (length ([] :: string)) = None"
    by (rule roff_expand_args_loop [of _ "[?arg]" "[]" "[TAB, TAB, CHR ''$'']" "[]"]) (simp_all add: roff_init_def join_args_def lit_char_def)
  ultimately show ?thesis by auto
qed

end
