(* ===== verification/Man_Macro.thy ===== *)
theory Man_Macro
  imports Roff_Node Roff_Arg
begin

section \<open>The man(7) parser: scopes\<close>

text \<open>
  The state of the parser: the syntax tree, the roff state with its registers and translations,
  the next address that the allocator returns, the centering state of the roff parser
  (\<open>roffce_node\<close>, \<open>roffce_lines\<close>), and the messages so far.
\<close>

record man_state =
  s_man :: roff_man
  s_roff :: roff
  s_addr :: nat
  s_ce_node :: "nat option"
  s_ce_lines :: int
  s_msgs :: "msg list"

text \<open>
  The faults of a run: an access through an invalid pointer or a failed assertion; a text that the
  escape sequence and argument parsers do not get through; a number out of the range of its type.
\<close>

datatype man_fault = Bad_tree | Bad_text | Bad_number

subsection \<open>Macros\<close>

datatype man_fp = Blk_close | Blk_exp | Blk_imp | In_line_eoln

datatype man_mflag = MAN_BSCOPED | MAN_ESCOPED | MAN_NSCOPED | MAN_XSCOPE | MAN_JOIN

definition man_macros :: "(roff_tok \<times> man_fp \<times> man_mflag set) list" where
  "man_macros = [
     (''MAN_TH'', In_line_eoln, {MAN_XSCOPE}),
     (''MAN_SH'', Blk_imp, {MAN_XSCOPE, MAN_BSCOPED}),
     (''MAN_SS'', Blk_imp, {MAN_XSCOPE, MAN_BSCOPED}),
     (''MAN_TP'', Blk_imp, {MAN_XSCOPE, MAN_BSCOPED}),
     (''MAN_TQ'', Blk_imp, {MAN_XSCOPE, MAN_BSCOPED}),
     (''MAN_LP'', Blk_imp, {MAN_XSCOPE}),
     (''MAN_PP'', Blk_imp, {MAN_XSCOPE}),
     (''MAN_P'', Blk_imp, {MAN_XSCOPE}),
     (''MAN_IP'', Blk_imp, {MAN_XSCOPE}),
     (''MAN_HP'', Blk_imp, {MAN_XSCOPE}),
     (''MAN_SM'', In_line_eoln, {MAN_NSCOPED, MAN_ESCOPED, MAN_JOIN}),
     (''MAN_SB'', In_line_eoln, {MAN_NSCOPED, MAN_ESCOPED, MAN_JOIN}),
     (''MAN_BI'', In_line_eoln, {}),
     (''MAN_IB'', In_line_eoln, {}),
     (''MAN_BR'', In_line_eoln, {}),
     (''MAN_RB'', In_line_eoln, {}),
     (''MAN_R'', In_line_eoln, {MAN_NSCOPED, MAN_ESCOPED, MAN_JOIN}),
     (''MAN_B'', In_line_eoln, {MAN_NSCOPED, MAN_ESCOPED, MAN_JOIN}),
     (''MAN_I'', In_line_eoln, {MAN_NSCOPED, MAN_ESCOPED, MAN_JOIN}),
     (''MAN_IR'', In_line_eoln, {}),
     (''MAN_RI'', In_line_eoln, {}),
     (''MAN_RE'', Blk_close, {MAN_XSCOPE}),
     (''MAN_RS'', Blk_exp, {MAN_XSCOPE}),
     (''MAN_DT'', In_line_eoln, {MAN_NSCOPED}),
     (''MAN_UC'', In_line_eoln, {MAN_NSCOPED}),
     (''MAN_PD'', In_line_eoln, {MAN_NSCOPED}),
     (''MAN_AT'', In_line_eoln, {MAN_NSCOPED}),
     (''MAN_in'', In_line_eoln, {MAN_NSCOPED}),
     (''MAN_SY'', Blk_imp, {MAN_XSCOPE}),
     (''MAN_YS'', Blk_close, {MAN_XSCOPE}),
     (''MAN_OP'', In_line_eoln, {}),
     (''MAN_EX'', In_line_eoln, {MAN_XSCOPE}),
     (''MAN_EE'', In_line_eoln, {MAN_XSCOPE}),
     (''MAN_UR'', Blk_exp, {MAN_XSCOPE}),
     (''MAN_UE'', Blk_close, {MAN_XSCOPE}),
     (''MAN_MT'', Blk_exp, {MAN_XSCOPE}),
     (''MAN_ME'', Blk_close, {MAN_XSCOPE}),
     (''MAN_MR'', In_line_eoln, {})]"

text \<open>None is the failed assertion for a token outside the table.\<close>

definition man_macro :: "roff_tok \<Rightarrow> (man_fp \<times> man_mflag set) option" where
  "man_macro tok = map_of man_macros tok"

definition roff_name :: "roff_tok \<Rightarrow> string" where
  "roff_name tok = (if take 5 tok = ''ROFF_'' then drop 5 tok else drop 4 tok)"

text \<open>\<open>tok < MAN_TH\<close>: the token is not one of a man(7) macro.\<close>

definition before_TH :: "roff_tok \<Rightarrow> bool" where
  "before_TH tok \<longleftrightarrow> take 4 tok \<noteq> ''MAN_''"

subsection \<open>Access to the state\<close>

definition get_node :: "man_state \<Rightarrow> nat option \<Rightarrow> roff_node option" where
  "get_node s p = (case p of None \<Rightarrow> None | Some i \<Rightarrow> m_heap (s_man s) i)"

abbreviation s_last :: "man_state \<Rightarrow> nat option" where
  "s_last s \<equiv> m_last (s_man s)"

abbreviation s_flags :: "man_state \<Rightarrow> man_flag set" where
  "s_flags s \<equiv> m_flags (s_man s)"

definition on_man :: "(roff_man \<Rightarrow> roff_man option) \<Rightarrow> man_state \<Rightarrow> man_state option" where
  "on_man f s = map_option (\<lambda>m. s\<lparr>s_man := m\<rparr>) (f (s_man s))"

definition set_last :: "nat option \<Rightarrow> man_state \<Rightarrow> man_state" where
  "set_last p s = s\<lparr>s_man := (s_man s)\<lparr>m_last := p\<rparr>\<rparr>"

definition set_nxt :: "roff_next \<Rightarrow> man_state \<Rightarrow> man_state" where
  "set_nxt x s = s\<lparr>s_man := (s_man s)\<lparr>m_next := x\<rparr>\<rparr>"

definition add_flags :: "man_flag set \<Rightarrow> man_state \<Rightarrow> man_state" where
  "add_flags fs s = s\<lparr>s_man := (s_man s)\<lparr>m_flags := m_flags (s_man s) \<union> fs\<rparr>\<rparr>"

definition del_flags :: "man_flag set \<Rightarrow> man_state \<Rightarrow> man_state" where
  "del_flags fs s = s\<lparr>s_man := (s_man s)\<lparr>m_flags := m_flags (s_man s) - fs\<rparr>\<rparr>"

definition say :: "msg \<Rightarrow> man_state \<Rightarrow> man_state" where
  "say m s = s\<lparr>s_msgs := s_msgs s @ [m]\<rparr>"

definition flag_node :: "node_flag set \<Rightarrow> nat option \<Rightarrow> man_state \<Rightarrow> man_state option" where
  "flag_node fs p s = (case p of None \<Rightarrow> None | Some i \<Rightarrow> on_man (man_upd i (nd_flags_update (\<lambda>x. x \<union> fs))) s)"

text \<open>New nodes at the next address.\<close>

definition with_addr :: "(nat \<Rightarrow> roff_man \<Rightarrow> roff_man option) \<Rightarrow> man_state \<Rightarrow> man_state option" where
  "with_addr f s = map_option (\<lambda>s. s\<lparr>s_addr := Suc (s_addr s)\<rparr>) (on_man (f (s_addr s)) s)"

definition elem_alloc :: "nat \<Rightarrow> nat \<Rightarrow> roff_tok \<Rightarrow> man_state \<Rightarrow> man_state option" where
  "elem_alloc line pos tok = with_addr (\<lambda>a. roff_elem_alloc a line pos tok)"

definition block_alloc :: "nat \<Rightarrow> nat \<Rightarrow> roff_tok \<Rightarrow> man_state \<Rightarrow> man_state option" where
  "block_alloc line pos tok = with_addr (\<lambda>a. roff_block_alloc a line pos tok)"

definition head_alloc :: "nat \<Rightarrow> nat \<Rightarrow> roff_tok \<Rightarrow> man_state \<Rightarrow> man_state option" where
  "head_alloc line pos tok = with_addr (\<lambda>a. roff_head_alloc a line pos tok)"

definition body_alloc :: "nat \<Rightarrow> nat \<Rightarrow> roff_tok \<Rightarrow> man_state \<Rightarrow> man_state option" where
  "body_alloc line pos tok = with_addr (\<lambda>a. roff_body_alloc a line pos tok)"

subsection \<open>Rewinding: \<open>man_unscope\<close>, \<open>rew_scope\<close>\<close>

text \<open>
  At the end of the document, an open next-line scope is deleted together with its node.  The
  result tells whether that happened, and if so, the node where the loop continues.
\<close>

definition broken_by_eof :: "man_state \<Rightarrow> roff_node \<Rightarrow> bool option" where
  "broken_by_eof s nd =
     (if s_flags s \<inter> {MAN_BLINE, MAN_ELINE} = {} then Some False
      else do { (fp, fl) \<leftarrow> man_macro (nd_tok nd); Some (fl \<inter> {MAN_BSCOPED, MAN_NSCOPED} \<noteq> {}) })"

definition eof_delete :: "nat \<Rightarrow> roff_node \<Rightarrow> man_state \<Rightarrow> (nat option \<times> man_state) option" where
  "eof_delete n nd s = do {
     let s = say (MANDOCERR_BLK_LINE, nd_line nd, nd_pos nd, ''EOF breaks '' @ roff_name (nd_tok nd)) s;
     (i, s) \<leftarrow> (if MAN_ELINE \<in> s_flags s then do {
            pd \<leftarrow> get_node s (nd_parent nd);
            inner \<leftarrow> (if nd_type pd = ROFFT_ROOT then Some False
                      else do { (fp, fl) \<leftarrow> man_macro (nd_tok pd); Some (MAN_ESCOPED \<in> fl) });
            Some (n, if inner then s else del_flags {MAN_ELINE} s) }
          else if nd_type nd = ROFFT_HEAD then do { p \<leftarrow> nd_parent nd; Some (p, del_flags {MAN_BLINE} s) }
          else None);
     nd \<leftarrow> get_node s (Some i);
     s \<leftarrow> on_man (roff_node_delete i) (set_last (Some i) s);
     Some (nd_parent nd, s)}"

definition no_end :: "nat option \<Rightarrow> roff_node \<Rightarrow> man_state \<Rightarrow> man_state option" where
  "no_end to nd s =
     (if to = None \<and> NODE_VALID \<notin> nd_flags nd \<and> nd_type nd = ROFFT_BLOCK then do {
        (fp, fl) \<leftarrow> man_macro (nd_tok nd);
        Some (if fp = Blk_exp then say (MANDOCERR_BLK_NOEND, nd_line nd, nd_pos nd, roff_name (nd_tok nd)) s else s)}
      else Some s)"

partial_function (option) unscope_loop :: "nat option \<Rightarrow> nat option \<Rightarrow> man_state \<Rightarrow> man_state option" where
  "unscope_loop to p s =
     (if p = to then Some s
      else case p of
        None \<Rightarrow> None
      | Some n \<Rightarrow> Option.bind (m_heap (s_man s) n) (\<lambda>nd.
          Option.bind (if to = None \<and> NODE_VALID \<notin> nd_flags nd then broken_by_eof s nd else Some False) (\<lambda>broken.
          if broken then Option.bind (eof_delete n nd s) (\<lambda>(q, s). unscope_loop to q s)
          else Option.bind (no_end to nd s) (\<lambda>s.
            Option.bind (flag_node {NODE_VALID} p (set_last p s)) (unscope_loop to (nd_parent nd))))))"

definition man_unscope :: "nat option \<Rightarrow> man_state \<Rightarrow> man_state option" where
  "man_unscope p s = do {
     nd \<leftarrow> get_node s p;
     s \<leftarrow> unscope_loop (nd_parent nd) (s_last s) s;
     Some (set_nxt (if s_last s = nd_parent nd then ROFF_NEXT_CHILD else ROFF_NEXT_SIBLING) s)}"

text \<open>Whether a block ends the rewinding for a macro.\<close>

definition rew_stops :: "roff_tok \<Rightarrow> roff_tok \<Rightarrow> bool option" where
  "rew_stops tok ntok =
     (if tok = ''MAN_SH'' then Some False
      else if ntok = ''MAN_SH'' then Some True
      else if tok = ''MAN_SS'' then Some False
      else if ntok = ''MAN_SS'' then Some True
      else do { (fp, fl) \<leftarrow> man_macro ntok; Some (fp = Blk_exp) })"

partial_function (option) rew_loop :: "roff_tok \<Rightarrow> nat option \<Rightarrow> man_state \<Rightarrow> man_state option" where
  "rew_loop tok p s =
     (case get_node s p of
        None \<Rightarrow> None
      | Some nd \<Rightarrow>
          if nd_type nd = ROFFT_ROOT then Some s
          else if NODE_VALID \<in> nd_flags nd then rew_loop tok (nd_parent nd) s
          else if nd_type nd \<noteq> ROFFT_BLOCK then
            Option.bind (get_node s (nd_parent nd)) (\<lambda>pd.
              if nd_type pd = ROFFT_ROOT then man_unscope p s else rew_loop tok (nd_parent nd) s)
          else Option.bind (rew_stops tok (nd_tok nd)) (\<lambda>stop.
            if stop then Some s
            else Option.bind (man_unscope p s) (\<lambda>s. rew_loop tok (s_last s) s)))"

definition rew_scope :: "roff_tok \<Rightarrow> man_state \<Rightarrow> man_state option" where
  "rew_scope tok s = do {
     nd \<leftarrow> get_node s (s_last s);
     if tok = ''MAN_RS'' \<and> nd_child nd = None \<and> nd_tok nd \<in> {''MAN_P'', ''MAN_PP'', ''MAN_LP''} then Some s
     else rew_loop tok (s_last s) s}"

subsection \<open>Next-line scopes: \<open>man_descope\<close>, \<open>man_breakscope\<close>\<close>

text \<open>\<open>man_hasc\<close>: the position of a final \<open>\c\<close> whose backslash is not escaped.\<close>

definition man_hasc :: "string \<Rightarrow> nat option" where
  "man_hasc t =
     (let n = length t; k = length (takeWhile (\<lambda>c. c = BSLASH) (rev (take (n - 2) t)))
      in if n < 2 \<or> t ! (n - 2) \<noteq> BSLASH \<or> t ! (n - 1) \<noteq> CHR ''c'' then None
         else if odd k then None else Some (n - 2))"

text \<open>Whether the parent of the last node has a flag; false for the root.\<close>

definition parent_escoped :: "man_state \<Rightarrow> roff_node \<Rightarrow> bool option" where
  "parent_escoped s pd =
     (if nd_type pd = ROFFT_ROOT then Some False else do { (fp, fl) \<leftarrow> man_macro (nd_tok pd); Some (MAN_ESCOPED \<in> fl) })"

partial_function (option) descope_elems :: "man_state \<Rightarrow> man_state option" where
  "descope_elems s =
     Option.bind (get_node s (s_last s)) (\<lambda>nd.
     Option.bind (get_node s (nd_parent nd)) (\<lambda>pd.
     Option.bind (parent_escoped s pd) (\<lambda>b.
     if b then Option.bind (man_unscope (nd_parent nd) s) descope_elems else Some s)))"

definition close_head :: "nat \<Rightarrow> nat \<Rightarrow> man_state \<Rightarrow> man_state option" where
  "close_head line pos s = do {
     nd \<leftarrow> get_node s (s_last s);
     s \<leftarrow> man_unscope (nd_parent nd) s;
     nd \<leftarrow> get_node s (s_last s);
     s \<leftarrow> body_alloc line pos (nd_tok nd) s;
     Some (del_flags {MAN_BLINE, ROFF_NONOFILL} s)}"

definition man_descope :: "nat \<Rightarrow> nat \<Rightarrow> string option \<Rightarrow> man_state \<Rightarrow> man_state option" where
  "man_descope line offs begin s = do {
     s \<leftarrow> (if MAN_ELINE \<in> s_flags s then map_option (del_flags {MAN_ELINE}) (descope_elems s) else Some s);
     if (case begin of None \<Rightarrow> False | Some t \<Rightarrow> man_hasc t \<noteq> None) \<or> MAN_BLINE \<notin> s_flags s then Some s
     else close_head line offs s}"

text \<open>The outermost of the element scopes that a macro breaks.\<close>

partial_function (option) break_elems :: "roff_tok \<Rightarrow> nat option \<Rightarrow> man_state \<Rightarrow> (nat option \<times> man_state) option" where
  "break_elems tok p s =
     Option.bind (get_node s p) (\<lambda>nd.
     let s = say (MANDOCERR_BLK_LINE, nd_line nd, nd_pos nd, roff_name tok @ '' breaks '' @ roff_name (nd_tok nd)) s
     in Option.bind (get_node s (nd_parent nd)) (\<lambda>pd.
     if nd_type pd \<noteq> ROFFT_ELEM then Some (p, s)
     else Option.bind (man_macro (nd_tok pd)) (\<lambda>(fp, fl).
       if MAN_ESCOPED \<notin> fl then Some (p, s) else break_elems tok (nd_parent nd) s)))"

text \<open>The scope the last node belongs to; the test says which nodes are not scopes themselves.\<close>

definition scope_of_last :: "(man_mflag set \<Rightarrow> bool) \<Rightarrow> man_state \<Rightarrow> nat option option" where
  "scope_of_last inner s = do {
     nd \<leftarrow> get_node s (s_last s);
     let p = (if nd_type nd = ROFFT_TEXT then nd_parent nd else s_last s);
     nd \<leftarrow> get_node s p;
     b \<leftarrow> (if before_TH (nd_tok nd) then Some True else do { (fp, fl) \<leftarrow> man_macro (nd_tok nd); Some (inner fl) });
     Some (if b then nd_parent nd else p)}"

definition delete_node :: "nat option \<Rightarrow> man_state \<Rightarrow> man_state option" where
  "delete_node p s = (case p of None \<Rightarrow> None | Some i \<Rightarrow> on_man (roff_node_delete i) s)"

definition break_eline :: "roff_tok \<Rightarrow> man_state \<Rightarrow> man_state option" where
  "break_eline tok s = do {
     p \<leftarrow> scope_of_last (\<lambda>fl. MAN_NSCOPED \<in> fl \<and> MAN_ESCOPED \<notin> fl) s;
     (p, s) \<leftarrow> break_elems tok p s;
     s \<leftarrow> delete_node p s;
     Some (del_flags {MAN_ELINE} s)}"

definition break_fill :: "man_state \<Rightarrow> man_state option" where
  "break_fill s = do {
     nd \<leftarrow> get_node s (s_last s);
     s \<leftarrow> man_unscope (s_last s) s;
     s \<leftarrow> body_alloc (nd_line nd) (nd_pos nd) (nd_tok nd) s;
     Some (del_flags {MAN_BLINE, ROFF_NONOFILL} s)}"

definition break_bline :: "roff_tok \<Rightarrow> man_state \<Rightarrow> man_state option" where
  "break_bline tok s = do {
     p \<leftarrow> scope_of_last (\<lambda>fl. MAN_XSCOPE \<notin> fl) s;
     nd \<leftarrow> get_node s p;
     bd \<leftarrow> (if nd_type nd = ROFFT_HEAD then get_node s (nd_parent nd) else None);
     (fp, fl) \<leftarrow> (if nd_type bd = ROFFT_BLOCK then man_macro (nd_tok bd) else None);
     if MAN_BSCOPED \<in> fl then do {
       s \<leftarrow> delete_node (nd_parent nd)
         (say (MANDOCERR_BLK_LINE, nd_line bd, nd_pos bd, roff_name tok @ '' breaks '' @ roff_name (nd_tok bd)) s);
       Some (del_flags {MAN_BLINE, ROFF_NONOFILL} s)}
     else None}"

definition has_mflag :: "man_mflag \<Rightarrow> roff_tok \<Rightarrow> bool option" where
  "has_mflag f tok = map_option (\<lambda>(fp, fl). f \<in> fl) (man_macro tok)"

definition man_breakscope :: "roff_tok \<Rightarrow> man_state \<Rightarrow> man_state option" where
  "man_breakscope tok s = do {
     b1 \<leftarrow> (if MAN_ELINE \<notin> s_flags s then Some False
           else if before_TH tok then Some True else map_option Not (has_mflag MAN_NSCOPED tok));
     s \<leftarrow> (if b1 then break_eline tok s else Some s);
     b2 \<leftarrow> (if MAN_BLINE \<in> s_flags s \<and> (tok = ''ROFF_nf'' \<or> tok = ''ROFF_fi'')
           then map_option (\<lambda>nd. nd_tok nd = ''MAN_SH'' \<or> nd_tok nd = ''MAN_SS'') (get_node s (s_last s)) else Some False);
     s \<leftarrow> (if b2 then break_fill s else Some s);
     b3 \<leftarrow> (if MAN_BLINE \<in> s_flags s \<and> tok \<noteq> ''ROFF_nf'' \<and> tok \<noteq> ''ROFF_fi''
           then (if before_TH tok then Some True else has_mflag MAN_XSCOPE tok) else Some False);
     if b3 then break_bline tok s else Some s}"

end
