(* ===== verification/Roff_Arg_Bounds.thy ===== *)
theory Roff_Arg_Bounds
  imports Roff_Arg
begin

section \<open>Arguments stay inside the line\<close>

text \<open>Parsing an argument keeps the size of the line and what is before the argument, and makes progress.\<close>

lemma getarg_byte_keeps:
  assumes "getarg_byte st = (st', b)" "peek (a_buf st) (a_cp st) \<noteq> NUL" "i + a_pairs st \<le> a_cp st"
  shows "length (a_buf st') = length (a_buf st)" "a_cp st \<le> a_cp st'" "i + a_pairs st' \<le> a_cp st'" "take i (a_buf st') = take i (a_buf st)"
    "a_cp st' < length (a_buf st')"
proof -
  have lt: "a_cp st < length (a_buf st)" using assms(2) by (simp add: peek_def split: if_splits)
  have cp: "a_cp (shift_left st) = a_cp st" "length (a_buf (shift_left st)) = length (a_buf st)" "a_pairs (shift_left st) = a_pairs st"
    "take i (a_buf (shift_left st)) = take i (a_buf st)"
    using assms(3) by (auto simp: shift_left_def)
  have shape: "st' = shift_left st \<or> (\<exists>x. st' = two_to_one x (shift_left st)) \<or> (\<exists>x. st' = (two_to_one x (shift_left st))\<lparr>a_newesc := True\<rparr>) \<or>
      st' = (shift_left st)\<lparr>a_cp := Suc (a_cp st)\<rparr> \<or> st' = (shift_left st)\<lparr>a_white := True\<rparr> \<or>
      st' = (shift_left st)\<lparr>a_pairs := Suc (a_pairs st), a_cp := Suc (a_cp st)\<rparr> \<or> st' = (shift_left st)\<lparr>a_quoted := 2\<rparr>"
    using assms(1) cp unfolding getarg_byte_def Let_def by (auto split: if_splits)
  then show "length (a_buf st') = length (a_buf st)" "a_cp st \<le> a_cp st'" "i + a_pairs st' \<le> a_cp st'" "take i (a_buf st') = take i (a_buf st)"
    using cp assms(3) by (auto simp: two_to_one_def)
  have "a_cp st' = a_cp st \<or> a_cp st' = Suc (a_cp st) \<and> peek (a_buf (shift_left st)) (Suc (a_cp st)) \<noteq> NUL"
    using assms(1) cp unfolding getarg_byte_def Let_def by (auto simp: two_to_one_def split: if_splits)
  moreover have "a_cp st' = a_cp st \<Longrightarrow> a_cp st' < length (a_buf st)" using lt by simp
  moreover have "peek (a_buf (shift_left st)) (Suc (a_cp st)) \<noteq> NUL \<Longrightarrow> Suc (a_cp st) < length (a_buf st)"
    using cp(2) by (simp add: peek_def split: if_splits)
  ultimately show "a_cp st' < length (a_buf st')" using \<open>length (a_buf st') = length (a_buf st)\<close> by auto
qed

lemma getarg_loop_keeps:
  assumes "i + a_pairs st \<le> a_cp st" "a_cp st \<le> length (a_buf st)"
  shows "length (a_buf (getarg_loop st)) = length (a_buf st) \<and> a_cp st \<le> a_cp (getarg_loop st) \<and>
    i + a_pairs (getarg_loop st) \<le> a_cp (getarg_loop st) \<and> a_cp (getarg_loop st) \<le> length (a_buf st) \<and>
    take i (a_buf (getarg_loop st)) = take i (a_buf st)"
  using assms
proof (induction st rule: getarg_loop.induct)
  case (1 st)
  show ?case
  proof (cases "peek (a_buf st) (a_cp st) = NUL")
    case True
    then show ?thesis using 1(2,3) by (subst getarg_loop.simps) (simp add: getarg_loop.simps [of st])
  next
    case False
    obtain st' b where s: "getarg_byte st = (st', b)" by (cases "getarg_byte st")
    note k = getarg_byte_keeps [OF s False 1(2)]
    show ?thesis
    proof (cases b)
      case True
      then have "getarg_loop st = st'" using False s by (subst getarg_loop.simps) simp
      then show ?thesis using k by simp
    next
      case False2: False
      then have e: "getarg_loop st = getarg_loop (st'\<lparr>a_cp := Suc (a_cp st')\<rparr>)" using False s by (subst getarg_loop.simps) simp
      have "i + a_pairs (st'\<lparr>a_cp := Suc (a_cp st')\<rparr>) \<le> a_cp (st'\<lparr>a_cp := Suc (a_cp st')\<rparr>)" using k by simp
      from 1(1) [OF False s [symmetric] False2 this] k show ?thesis unfolding e by auto
    qed
  qed
qed

lemma scan_while_bounds: "scan_while P s i = Some j \<Longrightarrow> i \<le> j \<and> j \<le> length s \<and> (\<exists>c. rd s j = Some c \<and> \<not> P c)"
proof (induction P s i rule: scan_while.induct)
  case (1 P s i)
  then show ?case by (subst (asm) scan_while.simps) (auto simp: rd_def split: if_splits)
qed

lemma getarg_next_keeps:
  assumes "getarg_next buf cp = Some (buf', cp')" "i \<le> cp" "cp \<le> length buf"
  shows "length buf' = length buf \<and> cp \<le> cp' \<and> cp' \<le> length buf \<and> take i buf' = take i buf \<and>
    (peek buf cp \<noteq> NUL \<longrightarrow> cp < cp') \<and> peek buf' cp' \<noteq> CHR '' ''"
proof (cases "peek buf cp = NUL")
  case False
  then show ?thesis using assms scan_while_bounds
    by (fastforce simp: getarg_next_def bind_eq_Some_conv peek_def rd_def split: if_splits)
qed (use assms in \<open>simp add: getarg_next_def\<close>)

lemma roff_getarg_keeps:
  assumes "roff_getarg ln pos buf pos r = Some (a, buf', cp, pos', r', ms)" "peek buf pos \<noteq> NUL"
  shows "length buf' = length buf" "pos < cp" "cp \<le> length buf" "take pos buf' = take pos buf" "peek buf' cp \<noteq> CHR '' ''" "pos' = cp"
proof -
  define q where "q = (if peek buf pos = DQUOTE then Suc pos else pos)"
  let ?st0 = "\<lparr>a_buf = buf, a_cp = q, a_pairs = 0, a_newesc = False, a_white = False, a_quoted = (if peek buf pos = DQUOTE then 1 else 0)\<rparr>"
  define st where "st = getarg_loop ?st0"
  have lt: "pos < length buf" using assms(2) by (simp add: peek_def split: if_splits)
  have k: "length (a_buf st) = length buf" "q \<le> a_cp st" "q + a_pairs st \<le> a_cp st" "a_cp st \<le> length buf" "take q (a_buf st) = take q buf"
    using getarg_loop_keeps [of q ?st0] lt unfolding st_def by (auto simp: q_def)
  define buf1 where "buf1 = (if 0 < a_pairs st then (a_buf st)[a_cp st - a_pairs st := NUL] else a_buf st)"
  have k1: "length buf1 = length buf" "take q buf1 = take q buf" using k by (auto simp: buf1_def)
  obtain buf2 cp2 where n: "getarg_next buf1 (a_cp st) = Some (buf2, cp2)" "buf' = buf2" "cp = cp2" "pos' = pos + (cp2 - q) + (if peek buf pos = DQUOTE then 1 else 0)"
    using assms(1) unfolding roff_getarg_def Let_def q_def [symmetric] st_def [symmetric] buf1_def [symmetric]
    by (auto simp: bind_eq_Some_conv split: if_splits)
  note N = getarg_next_keeps [OF n(1), of q] 
  have *: "length buf2 = length buf" "a_cp st \<le> cp2" "cp2 \<le> length buf" "take q buf2 = take q buf" "peek buf2 cp2 \<noteq> CHR '' ''"
    "peek buf1 (a_cp st) \<noteq> NUL \<Longrightarrow> a_cp st < cp2" using N k k1 by auto
  show "length buf' = length buf" "cp \<le> length buf" "peek buf' cp \<noteq> CHR '' ''" using * n by simp_all
  have "take pos (take q buf2) = take pos (take q buf)" using *(4) by simp
  then show "take pos buf' = take pos buf" using n(2) by (simp add: q_def min_def split: if_splits)
  show "pos' = cp" using n *(2) k(2) by (auto simp: q_def)
  show "pos < cp"
  proof (cases "q = pos")
    case True
    show ?thesis
    proof (cases "a_cp st = pos")
      case at: True
      have "peek buf1 pos \<noteq> NUL"
      proof -
        have p0: "a_pairs st = 0" using k(3) at True by simp
        have "peek (a_buf st) pos = peek buf pos"
        proof -
          obtain st' b where s: "getarg_byte ?st0 = (st', b)" by (cases "getarg_byte ?st0")
          have pk: "peek (a_buf ?st0) (a_cp ?st0) \<noteq> NUL" using assms(2) True by simp
          have nq: "peek buf pos \<noteq> DQUOTE" using True by (auto simp: q_def)
          show ?thesis
          proof (cases b)
            case True
            then have "st = st'" using pk s unfolding st_def by (subst getarg_loop.simps) simp
            moreover have "a_buf st' = buf" using s True nq by (auto simp: getarg_byte_def Let_def shift_left_def two_to_one_def split: if_splits)
            ultimately show ?thesis by simp
          next
            case False
            then have e: "st = getarg_loop (st'\<lparr>a_cp := Suc (a_cp st')\<rparr>)" using pk s unfolding st_def by (subst getarg_loop.simps) simp
            note kb = getarg_byte_keeps [OF s pk, of pos]
            have "Suc (a_cp st') \<le> a_cp st" unfolding e
              using getarg_loop_keeps [of pos "st'\<lparr>a_cp := Suc (a_cp st')\<rparr>"] kb True by auto
            then show ?thesis using kb(2) at True by simp
          qed
        qed
        then show ?thesis using p0 assms(2) by (simp add: buf1_def)
      qed
      then show ?thesis using *(6) at n(3) by simp
    next
      case False
      then show ?thesis using *(2) k(2) True n(3) by simp
    qed
  next
    case False
    then show ?thesis using *(2) k(2) n(3) by (auto simp: q_def split: if_splits)
  qed
qed

end
