(* ===== verification/Man_Parse.thy ===== *)
theory Man_Parse
  imports Man_Macro Roff_Arg_Bounds
begin

section \<open>The man(7) parser: macro handlers and lines\<close>

text \<open>Running the parts in order; a part that has no result is a fault of the given kind.\<close>

definition and_then :: "'e + 'a \<Rightarrow> ('a \<Rightarrow> 'e + 'b) \<Rightarrow> 'e + 'b" where
  "and_then m f = (case m of Inl e \<Rightarrow> Inl e | Inr x \<Rightarrow> f x)"

definition must :: "'e \<Rightarrow> 'a option \<Rightarrow> 'e + 'a" where
  "must e m = (case m of None \<Rightarrow> Inl e | Some x \<Rightarrow> Inr x)"

lemma and_then_simps [simp]: "and_then (Inl e) f = Inl e" "and_then (Inr x) f = f x"
  by (simp_all add: and_then_def)

lemma must_simps [simp]: "must e None = Inl e" "must e (Some x) = Inr x"
  by (simp_all add: must_def)

type_synonym 'a run = "man_fault + 'a"

subsection \<open>Texts and arguments\<close>

text \<open>\<open>roff_word_alloc\<close> and \<open>roff_word_append\<close> with the translation of the text.\<close>

definition word_alloc :: "nat \<Rightarrow> nat \<Rightarrow> string \<Rightarrow> man_state \<Rightarrow> man_state run" where
  "word_alloc line pos w s =
     and_then (must Bad_text (roff_strdup (s_roff s) w)) (\<lambda>t. must Bad_tree (with_addr (\<lambda>a. roff_word_alloc a line pos t) s))"

definition word_append :: "string \<Rightarrow> man_state \<Rightarrow> man_state run" where
  "word_append w s =
     and_then (must Bad_text (roff_strdup (s_roff s) w)) (\<lambda>t. must Bad_tree (on_man (roff_word_append t) s))"

text \<open>
  \<open>man_args\<close>: the next argument, the line and the position after it; no argument at the end of
  the line.  The position must not be at the start or at a blank.
\<close>

definition man_args :: "nat \<Rightarrow> nat \<Rightarrow> string \<Rightarrow> man_state \<Rightarrow> (string option \<times> string \<times> nat \<times> man_state) run" where
  "man_args line pos buf s =
     (if pos = 0 \<or> peek buf pos = CHR '' '' then Inl Bad_tree
      else if peek buf pos = NUL then Inr (None, buf, pos, s)
      else and_then (must Bad_text (roff_getarg line pos buf pos (s_roff s))) (\<lambda>(a, buf, cp, pos, r, ms).
        Inr (Some a, buf, cp, s\<lparr>s_roff := r, s_msgs := s_msgs s @ ms\<rparr>)))"

text \<open>The check for the end of a sentence in the last node.\<close>

definition eos_of_last :: "man_state \<Rightarrow> man_state run" where
  "eos_of_last s =
     and_then (must Bad_tree (Option.bind (get_node s (s_last s)) nd_string)) (\<lambda>t.
     and_then (must Bad_tree (mandoc_eos t (length t))) (\<lambda>b.
     must Bad_tree (if b then flag_node {NODE_EOS} (s_last s) s else Some s)))"

lemma man_args_progress:
  assumes "man_args line pos buf s = Inr (Some a, buf', pos', s')"
  shows "length buf' = length buf" "pos < pos'" "pos' \<le> length buf" "take pos buf' = take pos buf" "peek buf' pos' \<noteq> CHR '' ''"
    "\<exists>r ms. s' = s\<lparr>s_roff := r, s_msgs := ms\<rparr>"
proof -
  obtain r p ms where g: "roff_getarg line pos buf pos (s_roff s) = Some (a, buf', pos', p, r, ms)" "peek buf pos \<noteq> NUL"
    "s' = s\<lparr>s_roff := r, s_msgs := s_msgs s @ ms\<rparr>"
    using assms by (auto simp: man_args_def must_def and_then_def split: if_splits option.splits)
  show "length buf' = length buf" "pos < pos'" "pos' \<le> length buf" "take pos buf' = take pos buf" "peek buf' pos' \<noteq> CHR '' ''"
    using roff_getarg_keeps [OF g(1,2)] by simp_all
  show "\<exists>r ms. s' = s\<lparr>s_roff := r, s_msgs := ms\<rparr>" using g(3) by blast
qed

text \<open>All arguments as text nodes.\<close>

function arg_words :: "nat \<Rightarrow> nat \<Rightarrow> string \<Rightarrow> man_state \<Rightarrow> (string \<times> nat \<times> man_state) run" where
  "arg_words line pos buf s =
     (case man_args line pos buf s of
        Inl e \<Rightarrow> Inl e
      | Inr (None, buf', pos', s) \<Rightarrow> Inr (buf', pos', s)
      | Inr (Some a, buf', pos', s) \<Rightarrow> (case word_alloc line pos a s of Inl e \<Rightarrow> Inl e | Inr s \<Rightarrow> arg_words line pos' buf' s))"
  by pat_completeness auto
termination
proof (relation "measure (\<lambda>(line, pos, buf, s). length buf - pos)")
  fix line pos buf s x y a b aa ba ab xa xb
  assume "man_args line pos buf s = Inr x" "(xa, y) = x" "(a, b) = y" "(aa, ba) = b" "xa = Some ab" "word_alloc line pos ab ba = Inr xb"
  then have "man_args line pos buf s = Inr (Some ab, a, aa, ba)" by auto
  from man_args_progress [OF this] show "((line, aa, a, xb), (line, pos, buf, s)) \<in> measure (\<lambda>(line, pos, buf, s). length buf - pos)" by simp
qed simp

declare arg_words.simps [simp del]

subsection \<open>Numbers of arguments: \<open>strtol\<close> and \<open>strtod\<close>\<close>

definition skip_space :: "string \<Rightarrow> string" where
  "skip_space = dropWhile isspace"

text \<open>The sign and what follows it.\<close>

definition split_sign :: "string \<Rightarrow> int \<times> string" where
  "split_sign t = (case t of c # cs \<Rightarrow> if c = CHR ''-'' then (-1, cs) else if c = CHR ''+'' then (1, cs) else (1, t) | [] \<Rightarrow> (1, []))"

definition dec_value :: "string \<Rightarrow> int" where
  "dec_value ds = foldl (\<lambda>n c. 10 * n + digit_val c) 0 ds"

text \<open>\<open>strtol(p, &ep, 10)\<close>: the value, clamped to \<open>long\<close>, and the offset of the first byte not used.\<close>

definition strtol10 :: "string \<Rightarrow> int \<times> nat" where
  "strtol10 p = (let (sg, t) = split_sign (skip_space p); ds = takeWhile isdigit t in
     if ds = [] then (0, 0)
     else (max (- (2 ^ 63)) (min (2 ^ 63 - 1) (sg * dec_value ds)), length p - length t + length ds))"

text \<open>The conversion of \<open>long\<close> to \<open>int\<close>.\<close>

definition long_to_int :: "int \<Rightarrow> int" where
  "long_to_int x = (x + 2 ^ 31) mod 2 ^ 32 - 2 ^ 31"

text \<open>
  \<open>strtod(p, NULL) * 24.0\<close>, converted to \<open>int\<close>, for decimal numerals without exponent, as an exact
  number; None for other forms of numerals, and out of range.
\<close>

definition strtod24 :: "string \<Rightarrow> int option" where
  "strtod24 p = (let (sg, t) = split_sign (skip_space p); ds = takeWhile isdigit t; t1 = dropWhile isdigit t;
       fs = (case t1 of c # cs \<Rightarrow> if c = CHR ''.'' then takeWhile isdigit cs else [] | [] \<Rightarrow> []);
       t2 = (case t1 of c # cs \<Rightarrow> if c = CHR ''.'' then dropWhile isdigit cs else t1 | [] \<Rightarrow> [])
     in if ds = [] \<and> fs = [] then (if t \<noteq> [] \<and> toupper (hd t) \<in> set ''IN'' then None else Some 0)
        else if t2 \<noteq> [] \<and> toupper (hd t2) \<in> set ''EX'' then None
        else ck_int (sg * (24 * dec_value (ds @ fs) div 10 ^ length fs)))"

subsection \<open>Blocks: \<open>blk_close\<close>, \<open>blk_exp\<close>, \<open>blk_imp\<close>\<close>

definition excess :: "nat \<Rightarrow> roff_tok \<Rightarrow> string \<Rightarrow> nat \<Rightarrow> man_state \<Rightarrow> man_state" where
  "excess line tok buf pos s =
     (if peek buf pos \<noteq> NUL then say (MANDOCERR_ARG_EXCESS, line, pos, roff_name tok @ '' ... '' @ drop pos buf) s else s)"

text \<open>\<open>blk_imp\<close>; after the words in the head, either it stays open, or the body is opened.\<close>

definition imp_finish :: "roff_tok \<Rightarrow> nat \<Rightarrow> nat \<Rightarrow> nat option \<Rightarrow> man_state \<Rightarrow> man_state option" where
  "imp_finish tok line ppos n s = do {
     b \<leftarrow> has_mflag MAN_BSCOPED tok;
     if b \<and> (tok = ''MAN_TP'' \<or> tok = ''MAN_TQ'' \<or> n = s_last s) then Some (add_flags {MAN_BLINE} s)
     else do {
       s \<leftarrow> man_unscope n s;
       s \<leftarrow> body_alloc line ppos tok s;
       Some (del_flags {ROFF_NONOFILL} s)}}"

definition imp_start :: "roff_tok \<Rightarrow> nat \<Rightarrow> nat \<Rightarrow> man_state \<Rightarrow> man_state option" where
  "imp_start tok line ppos s = do {
     s \<leftarrow> rew_scope tok s;
     let s = add_flags {ROFF_NONOFILL} s;
     let s = (if tok = ''MAN_SH'' \<or> tok = ''MAN_SS'' then del_flags {ROFF_NOFILL} s else s);
     s \<leftarrow> block_alloc line ppos tok s;
     head_alloc line ppos tok s}"

definition blk_imp :: "roff_tok \<Rightarrow> nat \<Rightarrow> nat \<Rightarrow> nat \<Rightarrow> string \<Rightarrow> man_state \<Rightarrow> (string \<times> nat \<times> man_state) run" where
  "blk_imp tok line ppos pos buf s =
     and_then (must Bad_tree (imp_start tok line ppos s)) (\<lambda>s.
     let n = s_last s
     in and_then (arg_words line pos buf s) (\<lambda>(buf, pos, s).
     and_then (must Bad_tree (imp_finish tok line ppos n s)) (\<lambda>s. Inr (buf, pos, s))))"

text \<open>The indentation of \<open>.RS\<close>, in the register and in the head.\<close>

definition rs_indent :: "string \<Rightarrow> nat option \<Rightarrow> man_state \<Rightarrow> man_state run" where
  "rs_indent p hd_node s =
     and_then (must Bad_number (roff_getreg ''an-margin'' (s_roff s))) (\<lambda>(v, r).
     and_then (must Bad_number (if v = 0 then roff_setreg ''an-margin'' (5 * 24) CHR ''='' r else Some r)) (\<lambda>r.
     and_then (must Bad_number (strtod24 p)) (\<lambda>aux.
     and_then (must Bad_tree (case hd_node of None \<Rightarrow> None | Some i \<Rightarrow> on_man (man_upd i (nd_aux_update (\<lambda>_. aux))) s)) (\<lambda>s.
     and_then (must Bad_number (if 0 < aux then roff_setreg ''an-margin'' aux CHR ''+'' r else Some r)) (\<lambda>r.
     Inr (s\<lparr>s_roff := r\<rparr>))))))"

definition exp_start :: "roff_tok \<Rightarrow> nat \<Rightarrow> nat \<Rightarrow> man_state \<Rightarrow> man_state option" where
  "exp_start tok line ppos s = do {
     s \<leftarrow> (if tok = ''MAN_RS'' then map_option (add_flags {ROFF_NONOFILL}) (rew_scope tok s) else Some s);
     s \<leftarrow> block_alloc line ppos tok s;
     head_alloc line ppos tok s}"

definition exp_finish :: "roff_tok \<Rightarrow> nat \<Rightarrow> nat \<Rightarrow> nat option \<Rightarrow> man_state \<Rightarrow> man_state option" where
  "exp_finish tok line ppos n s = do {
     s \<leftarrow> man_unscope n s;
     s \<leftarrow> body_alloc line ppos tok s;
     Some (del_flags {ROFF_NONOFILL} s)}"

definition blk_exp :: "roff_tok \<Rightarrow> nat \<Rightarrow> nat \<Rightarrow> nat \<Rightarrow> string \<Rightarrow> man_state \<Rightarrow> (string \<times> nat \<times> man_state) run" where
  "blk_exp tok line ppos pos buf s =
     and_then (must Bad_tree (exp_start tok line ppos s)) (\<lambda>s.
     let n = s_last s
     in and_then (man_args line pos buf s) (\<lambda>(arg, buf, pos', s).
     and_then (case arg of
         None \<Rightarrow> Inr s
       | Some p \<Rightarrow> and_then (word_alloc line pos p s) (\<lambda>s. if tok = ''MAN_RS'' then rs_indent p n s else Inr s)) (\<lambda>s.
     and_then (must Bad_tree (exp_finish tok line ppos n (excess line tok buf pos' s))) (\<lambda>s. Inr (buf, pos', s)))))"

text \<open>Going up from a node: the number of blocks with a token, and the one that is some levels up.\<close>

partial_function (option) count_blocks :: "roff_tok \<Rightarrow> man_state \<Rightarrow> nat option \<Rightarrow> int \<Rightarrow> int option" where
  "count_blocks ntok s p n =
     (case p of
        None \<Rightarrow> Some n
      | Some i \<Rightarrow> Option.bind (m_heap (s_man s) i) (\<lambda>nd.
          count_blocks ntok s (nd_parent nd) (if nd_tok nd = ntok \<and> nd_type nd = ROFFT_BLOCK then n + 1 else n)))"

partial_function (option) find_block :: "roff_tok \<Rightarrow> man_state \<Rightarrow> nat option \<Rightarrow> int \<Rightarrow> nat option option" where
  "find_block ntok s p nrew =
     (case p of
        None \<Rightarrow> Some None
      | Some i \<Rightarrow> Option.bind (m_heap (s_man s) i) (\<lambda>nd.
          if nd_tok nd = ntok \<and> nd_type nd = ROFFT_BLOCK then
            (if nrew = 1 then Some (Some i) else find_block ntok s (nd_parent nd) (nrew - 1))
          else find_block ntok s (nd_parent nd) nrew))"

definition closing_tok :: "roff_tok \<Rightarrow> roff_tok option" where
  "closing_tok tok = (if tok = ''MAN_RE'' then Some ''MAN_RS'' else if tok = ''MAN_YS'' then Some ''MAN_SY''
     else if tok = ''MAN_UE'' then Some ''MAN_UR'' else if tok = ''MAN_ME'' then Some ''MAN_MT'' else None)"

text \<open>
  How many blocks \<open>.RE\<close> closes: from the argument, the level it goes back to.  None in the first
  component is the early return because there are not that many levels.
\<close>

definition re_levels :: "nat \<Rightarrow> nat \<Rightarrow> nat \<Rightarrow> string \<Rightarrow> man_state \<Rightarrow> (int option \<times> string \<times> nat \<times> man_state) run" where
  "re_levels line ppos pos buf s =
     and_then (man_args line pos buf s) (\<lambda>(arg, buf, pos', s).
       case arg of
         None \<Rightarrow> Inr (Some 1, buf, pos', s)
       | Some p \<Rightarrow>
           and_then (must Bad_tree (Option.bind (get_node s (s_last s)) (\<lambda>nd. count_blocks ''MAN_RS'' s (nd_parent nd) 1))) (\<lambda>n.
           let (v, ep) = strtol10 p;
               s = (if drop ep p \<noteq> []
                    then say (MANDOCERR_ARG_EXCESS, line, pos + (if peek buf pos = DQUOTE then 1 else 0) + ep, ''RE ... '' @ drop ep p) s
                    else s);
               target = (if long_to_int v = 0 then 1 else long_to_int v)
           in and_then (must Bad_number (ck_int (n - target))) (\<lambda>nrew.
             if nrew < 1 then Inr (None, buf, pos', say (MANDOCERR_RE_NOTOPEN, line, ppos, ''RE '' @ print_d target) s)
             else Inr (Some nrew, buf, pos', s))))"

definition not_open :: "roff_tok \<Rightarrow> nat \<Rightarrow> nat \<Rightarrow> man_state \<Rightarrow> man_state option" where
  "not_open tok line ppos s = do {
     s \<leftarrow> rew_scope ''MAN_PP'' (say (MANDOCERR_BLK_NOTOPEN, line, ppos, roff_name tok) s);
     if tok = ''MAN_RE'' then do {
       s \<leftarrow> elem_alloc line ppos ''ROFF_br'' s;
       s \<leftarrow> flag_node {NODE_LINE, NODE_VALID, NODE_ENDED} (s_last s) s;
       Some (set_nxt ROFF_NEXT_SIBLING s)}
     else Some s}"

text \<open>Leaving the block; the margin of \<open>.RS\<close> is taken back.\<close>

definition close_margin :: "nat \<Rightarrow> man_state \<Rightarrow> man_state run" where
  "close_margin nn s =
     and_then (must Bad_tree (do { bd \<leftarrow> get_node s (Some nn); get_node s (nd_head bd) })) (\<lambda>hd.
     if 0 < nd_aux hd
     then and_then (must Bad_number (roff_setreg ''an-margin'' (nd_aux hd) CHR ''-'' (s_roff s))) (\<lambda>r. Inr (s\<lparr>s_roff := r\<rparr>))
     else Inr s)"

definition trailing_text :: "nat \<Rightarrow> nat \<Rightarrow> nat \<Rightarrow> string \<Rightarrow> man_state \<Rightarrow> man_state run" where
  "trailing_text line ppos pos buf s =
     (if peek buf pos = NUL then Inr s
      else and_then (word_alloc line ppos (drop pos buf) s) (\<lambda>s.
        and_then (must Bad_tree (flag_node {NODE_DELIMC} (s_last s) s)) eos_of_last))"

definition ys_marker :: "roff_tok \<Rightarrow> nat \<Rightarrow> nat \<Rightarrow> nat \<Rightarrow> man_state \<Rightarrow> man_state option" where
  "ys_marker tok line ppos nn s =
     (if tok = ''MAN_YS'' \<and> s_last s = Some nn
      then do { s \<leftarrow> elem_alloc line ppos tok s; man_unscope (s_last s) s }
      else Some s)"

definition close_block :: "roff_tok \<Rightarrow> nat \<Rightarrow> nat \<Rightarrow> nat \<Rightarrow> string \<Rightarrow> nat \<Rightarrow> man_state \<Rightarrow> (string \<times> nat \<times> man_state) run" where
  "close_block tok line ppos pos buf nn s =
     and_then (must Bad_tree (get_node s (s_last s))) (\<lambda>c.
     and_then (must Bad_tree (man_unscope (Some nn) s)) (\<lambda>s.
     and_then (if tok = ''MAN_RE'' then close_margin nn s else Inr s) (\<lambda>s.
     and_then (trailing_text line ppos pos buf s) (\<lambda>s.
     and_then (if nd_tok c \<in> {''MAN_LP'', ''MAN_PP'', ''MAN_P''}
               then blk_imp (nd_tok c) (nd_line c) (nd_pos c) (length (cstr_at buf 0)) buf s else Inr (buf, pos, s)) (\<lambda>(buf, pos, s).
     and_then (must Bad_tree (ys_marker tok line ppos nn s)) (\<lambda>s. Inr (buf, pos, s)))))))"

definition blk_close :: "roff_tok \<Rightarrow> nat \<Rightarrow> nat \<Rightarrow> nat \<Rightarrow> string \<Rightarrow> man_state \<Rightarrow> (string \<times> nat \<times> man_state) run" where
  "blk_close tok line ppos pos buf s =
     and_then (must Bad_tree (closing_tok tok)) (\<lambda>ntok.
     and_then (if tok = ''MAN_RE'' then re_levels line ppos pos buf s else Inr (Some 1, buf, pos, s)) (\<lambda>(nrew, buf, pos, s).
       case nrew of
         None \<Rightarrow> Inr (buf, pos, s)
       | Some nrew \<Rightarrow>
           and_then (must Bad_tree (Option.bind (get_node s (s_last s)) (\<lambda>nd. find_block ntok s (nd_parent nd) nrew))) (\<lambda>found.
           case found of
             None \<Rightarrow> and_then (must Bad_tree (not_open tok line ppos s)) (\<lambda>s. Inr (buf, pos, s))
           | Some nn \<Rightarrow> close_block tok line ppos pos buf nn s)))"

end
