(* ===== verification/Man_Line.thy ===== *)
theory Man_Line
  imports Man_Parse
begin

section \<open>The man(7) parser: elements, lines, and requests in the tree\<close>

subsection \<open>\<open>in_line_eoln\<close>\<close>

text \<open>The arguments are text nodes, or joined into one; \<open>.PD\<close> takes only one.\<close>

function eoln_words :: "roff_tok \<Rightarrow> nat option \<Rightarrow> nat \<Rightarrow> nat \<Rightarrow> string \<Rightarrow> man_state \<Rightarrow> (string \<times> nat \<times> man_state) run" where
  "eoln_words tok n line pos buf s =
     (if peek buf pos \<noteq> NUL \<and> s_last s \<noteq> n \<and> tok = ''MAN_PD'' then Inr (buf, pos, excess line tok buf pos s)
      else case man_args line pos buf s of
        Inl e \<Rightarrow> Inl e
      | Inr (None, buf', pos', s) \<Rightarrow> Inr (buf', pos', s)
      | Inr (Some a, buf', pos', s) \<Rightarrow>
          (case and_then (must Bad_tree (has_mflag MAN_JOIN tok)) (\<lambda>j.
             and_then (must Bad_tree (get_node s (s_last s))) (\<lambda>nd.
             if j \<and> nd_type nd = ROFFT_TEXT then word_append a s else word_alloc line pos a s)) of
             Inl e \<Rightarrow> Inl e
           | Inr s \<Rightarrow> eoln_words tok n line pos' buf' s))"
  by pat_completeness auto
termination
proof (relation "measure (\<lambda>(tok, n, line, pos, buf, s). length buf - pos)")
  fix tok n line pos buf s x y a b aa ba ab xa xb
  assume "man_args line pos buf s = Inr x" "(xa, y) = x" "(a, b) = y" "(aa, ba) = b" "xa = Some ab"
  then have "man_args line pos buf s = Inr (Some ab, a, aa, ba)" by auto
  from man_args_progress [OF this]
  show "((tok, n, line, aa, a, xb), (tok, n, line, pos, buf, s)) \<in> measure (\<lambda>(tok, n, line, pos, buf, s). length buf - pos)" by simp
qed simp

declare eoln_words.simps [simp del]

text \<open>Rewinding the element: every node from the last one up to it becomes valid.\<close>

partial_function (option) eoln_rewind :: "nat option \<Rightarrow> man_state \<Rightarrow> man_state option" where
  "eoln_rewind n s =
     (case s_last s of
        None \<Rightarrow> Some s
      | Some i \<Rightarrow> Option.bind (flag_node {NODE_VALID} (Some i) s) (\<lambda>s.
          if n = Some i then Some s
          else Option.bind (get_node s (Some i)) (\<lambda>nd. eoln_rewind n (set_last (nd_parent nd) s))))"

definition eoln_finish :: "roff_tok \<Rightarrow> nat option \<Rightarrow> nat \<Rightarrow> nat \<Rightarrow> man_state \<Rightarrow> man_state option" where
  "eoln_finish tok n line ppos s = do {
     e \<leftarrow> has_mflag MAN_ESCOPED tok;
     if n = s_last s \<and> e then Some (add_flags {MAN_ELINE} s)
     else do {
       nd \<leftarrow> get_node s (s_last s);
       s \<leftarrow> (if nd_type nd = ROFFT_ROOT then None else eoln_rewind n (set_nxt ROFF_NEXT_SIBLING s));
       if e then man_descope line ppos None s else Some s}}"

definition in_line_eoln :: "roff_tok \<Rightarrow> nat \<Rightarrow> nat \<Rightarrow> nat \<Rightarrow> string \<Rightarrow> man_state \<Rightarrow> (string \<times> nat \<times> man_state) run" where
  "in_line_eoln tok line ppos pos buf s =
     and_then (must Bad_tree (elem_alloc line ppos tok s)) (\<lambda>s.
     let n = s_last s;
         s = (if tok = ''MAN_EX'' then add_flags {ROFF_NOFILL} s else if tok = ''MAN_EE'' then del_flags {ROFF_NOFILL} s else s)
     in and_then (eoln_words tok n line pos buf s) (\<lambda>(buf, pos, s).
     and_then (if n \<noteq> s_last s then eos_of_last s else Inr s) (\<lambda>s.
     and_then (must Bad_tree (eoln_finish tok n line ppos s)) (\<lambda>s. Inr (buf, pos, s)))))"

subsection \<open>Text lines: \<open>man_ptext\<close>\<close>

text \<open>A blank line.\<close>

definition blank_line :: "nat \<Rightarrow> nat \<Rightarrow> nat \<Rightarrow> man_state \<Rightarrow> man_state option" where
  "blank_line line offs i s =
     (if s_flags s \<inter> {MAN_ELINE, MAN_BLINE} \<noteq> {} then Some (say (MANDOCERR_BLK_BLANK, line, 0, []) s)
      else do {
        nd \<leftarrow> get_node s (s_last s);
        if nd_tok nd = ''MAN_SH'' \<or> nd_tok nd = ''MAN_SS'' then Some s
        else do {
          t \<leftarrow> (if nd_type nd = ROFFT_TEXT then map_option Some (nd_string nd) else Some None);
          case Option.bind t (\<lambda>t. map_option (\<lambda>ep. take ep t) (man_hasc t)) of
            Some t' \<Rightarrow> (case s_last s of None \<Rightarrow> None | Some l \<Rightarrow> on_man (man_upd l (nd_string_update (\<lambda>_. Some t'))) s)
          | None \<Rightarrow> do {
              s \<leftarrow> elem_alloc line offs ''ROFF_sp'' (say (MANDOCERR_FI_BLANK, line, i, []) s);
              Some (set_nxt ROFF_NEXT_SIBLING s)}}})"

text \<open>
  White space at the end of a line that is not all blank; an escaped blank is kept.  The result is
  the size of what remains and the messages.
\<close>

fun back_over :: "string \<Rightarrow> nat \<Rightarrow> nat" where
  "back_over buf 0 = 0"
| "back_over buf (Suc i) = (if buf ! Suc i = CHR '' '' then back_over buf i else Suc i)"

definition strip_eol :: "nat \<Rightarrow> string \<Rightarrow> nat \<times> msg list" where
  "strip_eol line buf =
     (let n = length buf; c = buf ! (n - 1); i = back_over buf (n - 1)
      in if c = CHR '' '' \<or> c = TAB
         then (i + (if buf ! i = BSLASH then 2 else 1),
               if 1 < n \<and> buf ! (n - 2) \<noteq> BSLASH then [(MANDOCERR_SPACE_EOL, line, n - 1, [])] else [])
         else (n, []))"

definition man_ptext :: "nat \<Rightarrow> string \<Rightarrow> nat \<Rightarrow> man_state \<Rightarrow> man_state run" where
  "man_ptext line buf offs s =
     (if ROFF_NOFILL \<in> s_flags s then
        and_then (word_alloc line offs (drop offs buf) s) (\<lambda>s. must Bad_tree (man_descope line offs (Some (drop offs buf)) s))
      else if list_all (\<lambda>c. c = CHR '' '') (drop offs buf) then
        must Bad_tree (blank_line line offs (max offs (length buf)) s)
      else
        (let (i, ms) = strip_eol line buf; buf = take i buf; s = s\<lparr>s_msgs := s_msgs s @ ms\<rparr>
         in and_then (word_alloc line offs (drop offs buf) s) (\<lambda>s.
            and_then (must Bad_tree (if i = 0 then None else mandoc_eos buf i)) (\<lambda>b.
            and_then (must Bad_tree (if b then flag_node {NODE_EOS} (s_last s) s else Some s)) (\<lambda>s.
            must Bad_tree (man_descope line offs (Some (drop offs buf)) s))))))"

subsection \<open>Macro lines: \<open>man_pmacro\<close>\<close>

text \<open>The name of the macro is at most three bytes long.\<close>

definition name_size :: "string \<Rightarrow> nat" where
  "name_size t = length (takeWhile (\<lambda>c. c \<notin> {CHR '' '', TAB, BSLASH}) (take 4 t))"

definition find_man :: "string \<Rightarrow> roff_tok option" where
  "find_man w = (if map_of man_macros (''MAN_'' @ w) = None then None else Some (''MAN_'' @ w))"

text \<open>An escape sequence or a tab after the name, and blanks.\<close>

definition skip_name :: "string \<Rightarrow> nat \<Rightarrow> nat run" where
  "skip_name buf offs =
     and_then (if peek buf offs = BSLASH then and_then (must Bad_text (mandoc_escape (drop offs buf))) (\<lambda>(e, a, n, len). Inr (offs + len))
               else Inr (if peek buf offs = TAB then Suc offs else offs)) (\<lambda>offs.
     must Bad_text (scan_while (\<lambda>c. c = CHR '' '') buf offs))"

definition call_macro :: "roff_tok \<Rightarrow> nat \<Rightarrow> nat \<Rightarrow> nat \<Rightarrow> string \<Rightarrow> man_state \<Rightarrow> (string \<times> nat \<times> man_state) run" where
  "call_macro tok line ppos pos buf s =
     (case man_macro tok of
        None \<Rightarrow> Inl Bad_tree
      | Some (Blk_close, fl) \<Rightarrow> blk_close tok line ppos pos buf s
      | Some (Blk_exp, fl) \<Rightarrow> blk_exp tok line ppos pos buf s
      | Some (Blk_imp, fl) \<Rightarrow> blk_imp tok line ppos pos buf s
      | Some (In_line_eoln, fl) \<Rightarrow> in_line_eoln tok line ppos pos buf s)"

text \<open>In quick mode, parsing ends after the NAME section.\<close>

definition quick_end :: "bool \<Rightarrow> roff_tok \<Rightarrow> man_state \<Rightarrow> bool option" where
  "quick_end quick tok s =
     (if quick \<and> tok = ''MAN_SH'' then do {
        nd \<leftarrow> get_node s (s_last s);
        if nd_type nd = ROFFT_BODY then do {
          hd \<leftarrow> get_node s (nd_prev nd);
          c \<leftarrow> get_node s (nd_child hd);
          t \<leftarrow> nd_string c;
          Some (t \<noteq> ''NAME'')}
        else Some False}
      else Some False)"

text \<open>Close the head of a next-line block scope unless it goes on.\<close>

definition pmacro_close :: "roff_tok \<Rightarrow> bool \<Rightarrow> nat \<Rightarrow> nat \<Rightarrow> man_state \<Rightarrow> man_state option" where
  "pmacro_close tok bline line ppos s = do {
     b \<leftarrow> (if \<not> bline \<or> MAN_BLINE \<notin> s_flags s \<or> MAN_ELINE \<in> s_flags s then Some True else has_mflag MAN_NSCOPED tok);
     if b then Some s else close_head line ppos s}"

definition run_macro :: "bool \<Rightarrow> roff_tok \<Rightarrow> nat \<Rightarrow> nat \<Rightarrow> nat \<Rightarrow> string \<Rightarrow> man_state \<Rightarrow> (nat \<times> man_state) run" where
  "run_macro quick tok line ppos pos buf s =
     and_then (must Bad_tree (man_breakscope tok s)) (\<lambda>s.
     let bline = (MAN_BLINE \<in> s_flags s \<and> man_hasc (drop pos buf) = None)
     in and_then (call_macro tok line ppos pos buf s) (\<lambda>(buf, pos, s).
     and_then (must Bad_tree (quick_end quick tok s)) (\<lambda>q.
     if q then Inr (2, s)
     else and_then (must Bad_tree (pmacro_close tok bline line ppos s)) (\<lambda>s. Inr (1, s)))))"

definition man_pmacro :: "bool \<Rightarrow> nat \<Rightarrow> string \<Rightarrow> nat \<Rightarrow> man_state \<Rightarrow> (nat \<times> man_state) run" where
  "man_pmacro quick line buf offs s =
     (let sz = name_size (drop offs buf)
      in case (if 0 < sz \<and> sz < 4 then find_man (take sz (drop offs buf)) else None) of
           None \<Rightarrow> if offs = 0 then Inl Bad_tree else Inr (1, say (MANDOCERR_MACRO, line, offs, drop (offs - 1) buf) s)
         | Some tok \<Rightarrow>
             and_then (skip_name buf (offs + sz)) (\<lambda>pos.
             run_macro quick tok line offs pos buf
               (if peek buf pos = NUL \<and> buf ! (pos - 1) = CHR '' '' then say (MANDOCERR_SPACE_EOL, line, pos - 1, []) s else s)))"

definition man_parseln :: "bool \<Rightarrow> nat \<Rightarrow> string \<Rightarrow> nat \<Rightarrow> man_state \<Rightarrow> (nat \<times> man_state) run" where
  "man_parseln quick line buf offs s =
     and_then (must Bad_tree (get_node s (s_last s))) (\<lambda>nd.
     let s = (if nd_type nd \<noteq> ROFFT_EQN \<or> nd_line nd < line then add_flags {MDOC_NEWLINE} s else s)
     in and_then (must Bad_text (roff_getcontrol (s_roff s) buf offs)) (\<lambda>ctl.
       case ctl of
         Some offs \<Rightarrow> man_pmacro quick line buf offs s
       | None \<Rightarrow> and_then (man_ptext line buf offs s) (\<lambda>s. Inr (1, s))))"

definition man_endparse :: "man_state \<Rightarrow> man_state option" where
  "man_endparse s = man_unscope (m_first (s_man s)) s"

subsection \<open>Requests that leave a node in the tree\<close>

definition breakscope_if :: "bool \<Rightarrow> roff_tok \<Rightarrow> man_state \<Rightarrow> man_state option" where
  "breakscope_if b tok s = (if b \<and> s_flags s \<inter> {MAN_BLINE, MAN_ELINE} \<noteq> {} then man_breakscope tok s else Some s)"

definition roff_noarg :: "roff_tok \<Rightarrow> nat \<Rightarrow> nat \<Rightarrow> nat \<Rightarrow> string \<Rightarrow> man_state \<Rightarrow> man_state option" where
  "roff_noarg tok line ppos pos buf s = do {
     s \<leftarrow> breakscope_if True tok s;
     let tok = (if tok = ''ROFF_brp'' then ''ROFF_br'' else tok);
     s \<leftarrow> elem_alloc line ppos tok s;
     let s = (if peek buf pos \<noteq> NUL then say (MANDOCERR_ARG_SKIP, line, pos, roff_name tok @ '' '' @ drop pos buf) s else s);
     let s = (if tok = ''ROFF_nf'' then add_flags {ROFF_NOFILL} s else if tok = ''ROFF_fi'' then del_flags {ROFF_NOFILL} s else s);
     s \<leftarrow> flag_node {NODE_LINE, NODE_VALID, NODE_ENDED} (s_last s) s;
     Some (set_nxt ROFF_NEXT_SIBLING s)}"

text \<open>The words of a line, with the position of each, separated by blanks.\<close>

function line_words :: "nat \<Rightarrow> string \<Rightarrow> (nat \<times> string) list" where
  "line_words pos t =
     (if t = [] then []
      else let w = takeWhile (\<lambda>c. c \<noteq> CHR '' '') t; t1 = drop (length w) t; bl = takeWhile (\<lambda>c. c = CHR '' '') t1
           in (pos, w) # line_words (pos + length w + length bl) (drop (length bl) t1))"
  by pat_completeness auto
termination
proof (relation "measure (\<lambda>(pos, t). length t)")
  fix pos :: nat and t :: string and w t1 bl
  assume a: "t \<noteq> []" "w = takeWhile (\<lambda>c. c \<noteq> CHR '' '') t" "t1 = drop (length w) t" "bl = takeWhile (\<lambda>c. c = CHR '' '') t1"
  have "0 < length w + length bl" using a by (cases t) auto
  then show "((pos + length w + length bl, drop (length bl) t1), (pos, t)) \<in> measure (\<lambda>(pos, t). length t)"
    using a by (cases t) auto
qed simp

declare line_words.simps [simp del]

fun alloc_words :: "nat \<Rightarrow> (nat \<times> string) list \<Rightarrow> man_state \<Rightarrow> man_state run" where
  "alloc_words line [] s = Inr s"
| "alloc_words line ((pos, w) # ws) s = and_then (word_alloc line pos w s) (alloc_words line ws)"

text \<open>An element is finished, and the parser goes on after it.\<close>

definition end_elem :: "nat option \<Rightarrow> man_state \<Rightarrow> man_state option" where
  "end_elem n s = map_option (\<lambda>s. set_nxt ROFF_NEXT_SIBLING (set_last n s)) (flag_node {NODE_LINE, NODE_VALID, NODE_ENDED} n s)"

definition roff_manyarg :: "roff_tok \<Rightarrow> nat \<Rightarrow> nat \<Rightarrow> nat \<Rightarrow> string \<Rightarrow> man_state \<Rightarrow> man_state run" where
  "roff_manyarg tok line ppos pos buf s =
     and_then (must Bad_tree (elem_alloc line ppos tok s)) (\<lambda>s.
     let n = s_last s
     in and_then (alloc_words line (line_words pos (drop pos buf)) s) (\<lambda>s. must Bad_tree (end_elem n s)))"

text \<open>The number of lines to center, and the element that collects them.\<close>

definition center_lines :: "nat \<Rightarrow> nat \<Rightarrow> string \<Rightarrow> nat option \<Rightarrow> man_state \<Rightarrow> man_state run" where
  "center_lines line pos buf n s =
     and_then (must Bad_tree (get_node s (s_last s))) (\<lambda>nd.
     and_then (if nd_type nd = ROFFT_ELEM
               then and_then (word_alloc line pos ''1'' s) (\<lambda>s. must Bad_tree (flag_node {NODE_NOSRC} (s_last s) s)) else Inr s) (\<lambda>s.
     and_then (must Bad_tree (get_node s (s_last s))) (\<lambda>nd.
     and_then (must Bad_tree (nd_string nd)) (\<lambda>t.
     and_then (must Bad_number (roff_evalnum line True t 0 NUL False)) (\<lambda>v.
     and_then (if n_ok v then map_sum id (\<lambda>x. (x, [])) (must Bad_number (n_res v))
               else Inr (1, [(MANDOCERR_CE_NONUM, line, pos, ''ce '' @ drop pos buf)])) (\<lambda>(lines, ms).
     let s = s\<lparr>s_msgs := s_msgs s @ n_msgs v @ ms\<rparr>;
         s = (if lines < 1 then set_last (nd_parent nd) (s\<lparr>s_ce_node := None, s_ce_lines := 0\<rparr>)
              else s\<lparr>s_ce_node := nd_parent nd, s_ce_lines := lines\<rparr>)
     in and_then (must Bad_tree (flag_node {NODE_LINE} n s)) (\<lambda>s. Inr (set_nxt ROFF_NEXT_SIBLING s))))))))"

definition roff_onearg :: "roff_tok \<Rightarrow> nat \<Rightarrow> nat \<Rightarrow> nat \<Rightarrow> string \<Rightarrow> man_state \<Rightarrow> man_state run" where
  "roff_onearg tok line ppos pos buf s =
     and_then (must Bad_tree (breakscope_if (tok \<in> {''ROFF_ce'', ''ROFF_rj'', ''ROFF_sp'', ''ROFF_ti''}) tok s)) (\<lambda>s.
     let center = (tok = ''ROFF_ce'' \<or> tok = ''ROFF_rj'');
         s = (if s_ce_node s \<noteq> None \<and> center then set_nxt ROFF_NEXT_SIBLING (set_last (s_ce_node s) s) else s)
     in and_then (must Bad_tree (elem_alloc line ppos tok s)) (\<lambda>s.
     let n = s_last s;
         w = takeWhile (\<lambda>c. c \<noteq> CHR '' '') (drop pos buf);
         rest = dropWhile (\<lambda>c. c = CHR '' '') (drop (length w) (drop pos buf));
         s = (if rest \<noteq> [] then say (MANDOCERR_ARG_EXCESS, line, length buf - length rest, roff_name tok @ '' ... '' @ rest) s else s)
     in and_then (if peek buf pos \<noteq> NUL then word_alloc line pos w s else Inr s) (\<lambda>s.
        if center then center_lines line pos (take (pos + length w) buf) n s else must Bad_tree (end_elem n s))))"

end
