(* ===== verification/Man_Tree.thy ===== *)
theory Man_Tree
  imports Man_Macro Roff_Syntax
begin

section \<open>The syntax tree under the man(7) parser\<close>

subsection \<open>What the parser looks at\<close>

text \<open>Of a node: its parent, type, token, whether it is closed, and whether it has a text.\<close>

definition skel :: "roff_node \<Rightarrow> nat option \<times> roff_type \<times> roff_tok \<times> bool \<times> bool" where
  "skel nd = (nd_parent nd, nd_type nd, nd_tok nd, NODE_VALID \<in> nd_flags nd, nd_string nd \<noteq> None)"

definition sk :: "node_heap \<Rightarrow> nat \<Rightarrow> (nat option \<times> roff_type \<times> roff_tok \<times> bool \<times> bool) option" where
  "sk h i = map_option skel (h i)"

definition heads :: "node_heap \<Rightarrow> nat \<Rightarrow> nat option" where
  "heads h i = Option.bind (h i) nd_head"

definition parents :: "node_heap \<Rightarrow> nat \<Rightarrow> nat option" where
  "parents h i = Option.bind (h i) nd_parent"

lemma sk_None [simp]: "sk h i = None \<longleftrightarrow> h i = None"
  by (simp add: sk_def)

lemma sk_Some: "sk h i = Some x \<longleftrightarrow> (\<exists>nd. h i = Some nd \<and> skel nd = x)"
  by (auto simp: sk_def)

lemma node_upd_Some: "node_upd i f h = Some h' \<longleftrightarrow> (\<exists>z. h i = Some z \<and> h' = h(i \<mapsto> f z))"
  by (auto simp: node_upd_def)

lemma node_upd_heads:
  assumes "node_upd i f h = Some h'" "\<And>nd. nd_head (f nd) = nd_head nd"
  shows "heads h' = heads h"
proof
  fix x
  show "heads h' x = heads h x" using assms by (auto simp: node_upd_Some heads_def)
qed

lemma node_upd_parents:
  assumes "node_upd i f h = Some h'" "i = n \<or> (\<forall>nd. nd_parent (f nd) = nd_parent nd)" "j \<noteq> n"
  shows "parents h' j = parents h j"
  using assms by (auto simp: node_upd_Some parents_def)

lemma node_upd_head: "node_upd i (nd_head_update (\<lambda>_. Some n)) h = Some h' \<Longrightarrow> heads h' = (heads h)(i := Some n)"
  by (rule ext) (auto simp: node_upd_Some heads_def)

lemma link_sibling_heads: "link_sibling q n h = Some h' \<Longrightarrow> heads h' = heads h"
  unfolding link_sibling_def by (auto split: bind_splits option.splits dest!: node_upd_heads)

lemma link_child_heads: "link_child q n h = Some h' \<Longrightarrow> heads h' = heads h"
  unfolding link_child_def by (auto split: bind_splits option.splits dest!: node_upd_heads)

lemma link_sibling_parents: "link_sibling q n h = Some h' \<Longrightarrow> j \<noteq> n \<Longrightarrow> parents h' j = parents h j"
  unfolding link_sibling_def by (auto split: bind_splits option.splits dest!: node_upd_parents [where n = n and j = j])

lemma link_child_parents: "link_child q n h = Some h' \<Longrightarrow> j \<noteq> n \<Longrightarrow> parents h' j = parents h j"
  unfolding link_child_def by (auto split: bind_splits option.splits dest!: node_upd_parents [where n = n and j = j])

lemma link_part_parents: "link_part n h = Some h' \<Longrightarrow> j \<noteq> n \<Longrightarrow> parents h' j = parents h j"
  unfolding link_part_def
  by (auto split: bind_splits option.splits if_splits roff_type.splits dest!: node_upd_parents [where n = n and j = j])

lemma append_parents: "roff_node_append n man = Some man' \<Longrightarrow> j \<noteq> n \<Longrightarrow> parents (m_heap man') j = parents (m_heap man) j"
  unfolding roff_node_append_def
  by (auto split: bind_splits roff_next.splits simp: link_sibling_parents link_child_parents link_part_parents)

lemma link_part_heads:
  assumes "link_part n h = Some h'" "h n = Some nd"
  shows "heads h' = (if nd_type nd = ROFFT_HEAD then (heads h)(the (nd_parent nd) := Some n) else heads h)"
proof (cases "nd_type nd = ROFFT_HEAD")
  case True
  then have ty: "nd_type nd = ROFFT_HEAD" .
  obtain p where p: "nd_parent nd = Some p" using assms ty by (cases "nd_parent nd") (simp_all add: link_part_def)
  have "Option.bind (node_upd p (nd_head_update (\<lambda>_. Some n)) h) (\<lambda>h. Option.bind (h p) (\<lambda>pd.
      Option.bind (node_upd n (nd_norm_update (\<lambda>_. nd_norm pd)) h) (\<lambda>h. if nd_type pd = ROFFT_BLOCK then Some h else None))) = Some h'"
    using assms ty p by (simp add: link_part_def)
  then have "\<exists>h1 x. node_upd p (nd_head_update (\<lambda>_. Some n)) h = Some h1 \<and> node_upd n (nd_norm_update (\<lambda>_. x)) h1 = Some h'"
    by (auto simp: bind_eq_Some_conv split: if_splits)
  then obtain h1 x where h1: "node_upd p (nd_head_update (\<lambda>_. Some n)) h = Some h1" "node_upd n (nd_norm_update (\<lambda>_. x)) h1 = Some h'"
    by blast
  have "heads h' = heads h1" by (rule node_upd_heads [OF h1(2)]) simp
  then show ?thesis using node_upd_head [OF h1(1)] p True by simp
next
  case False
  have "heads h1 = heads h" if "node_upd p (case nd_type nd of ROFFT_HEAD \<Rightarrow> nd_head_update (\<lambda>_. Some n)
         | ROFFT_BODY \<Rightarrow> nd_body_update (\<lambda>_. Some n) | _ \<Rightarrow> nd_tail_update (\<lambda>_. Some n)) h = Some h1" for p h1
    by (rule node_upd_heads [OF that]) (use False in \<open>simp split: roff_type.split\<close>)
  then show ?thesis using assms False
    unfolding link_part_def by (auto split: bind_splits if_splits dest!: node_upd_heads)
qed

lemma unlink_heads: "roff_node_unlink n man = Some man' \<Longrightarrow> heads (m_heap man') = heads (m_heap man)"
  unfolding roff_node_unlink_def unlink_links_def
  by (auto split: bind_splits option.splits if_splits dest!: node_upd_heads simp: Let_def)

lemma unlink_parents: "roff_node_unlink n man = Some man' \<Longrightarrow> parents (m_heap man') j = parents (m_heap man) j"
proof -
  have *: "parents h' j = parents h j" if "node_upd i f h = Some h'" "\<And>nd. nd_parent (f nd) = nd_parent nd" for i f h h'
    using that by (auto simp: node_upd_Some parents_def)
  show "roff_node_unlink n man = Some man' \<Longrightarrow> parents (m_heap man') j = parents (m_heap man) j"
    unfolding roff_node_unlink_def unlink_links_def
    by (auto split: bind_splits option.splits if_splits dest!: * simp: Let_def)
qed

lemma unlink_heap_data: "roff_node_unlink n man = Some m \<Longrightarrow> same_data (m_heap man) (m_heap m)"
proof -
  assume "roff_node_unlink n man = Some m"
  then obtain h where "unlink_links n (m_heap man) = Some h" "m_heap m = h"
    by (auto simp: roff_node_unlink_def Let_def split: bind_splits if_splits)
  then show ?thesis using unlink_links_data by simp
qed

lemma delete_heads:
  assumes "roff_node_delete n man = Some man'"
  shows "\<forall>i. m_heap man' i \<noteq> None \<longrightarrow> heads (m_heap man') i = heads (m_heap man) i \<and>
    parents (m_heap man') i = parents (m_heap man) i \<and> m_heap man i \<noteq> None"
  using assms
proof (rule roff_node_delete.raw_induct [where P = "\<lambda>n man man'. \<forall>i. m_heap man' i \<noteq> None \<longrightarrow>
    heads (m_heap man') i = heads (m_heap man) i \<and>
    parents (m_heap man') i = parents (m_heap man) i \<and> m_heap man i \<noteq> None", rotated], goal_cases)
  case (1 f n man man')
  obtain nd where nd: "m_heap man n = Some nd" using 1(2) by (auto split: option.splits)
  show ?case
  proof (cases "nd_child nd")
    case None
    then obtain m where m: "roff_node_unlink n man = Some m" "man' = roff_node_free n m" using 1(2) nd by auto
    have "(m_heap m i = None) = (m_heap man i = None)" for i
      using unlink_heap_data [OF m(1)] unfolding same_data_def by (metis map_option_is_None)
    then have "m_heap man' i \<noteq> None \<Longrightarrow> heads (m_heap man') i = heads (m_heap m) i \<and>
        parents (m_heap man') i = parents (m_heap m) i \<and> m_heap man i \<noteq> None" for i
      by (cases "i = n") (simp_all add: m(2) roff_node_free_def heads_def parents_def)
    then show ?thesis using unlink_heads [OF m(1)] unlink_parents [OF m(1)] by simp
  next
    case (Some c)
    then obtain m where m: "f c man = Some m" "f n m = Some man'" using 1(2) nd by (auto split: bind_splits)
    show ?thesis using 1(1) [OF m(1)] 1(1) [OF m(2)] by auto
  qed
qed


lemma append_heads:
  assumes "roff_node_append n man = Some man'" "m_heap man n = Some nd" "m_heap man' n = Some nd'" "nd_parent nd' = Some p"
  shows "heads (m_heap man') = (if nd_type nd = ROFFT_HEAD then (heads (m_heap man))(p := Some n) else heads (m_heap man))"
proof -
  obtain q h1 h2 where q: "m_last man = Some q"
    "(case m_next man of ROFF_NEXT_SIBLING \<Rightarrow> link_sibling q n (m_heap man) | ROFF_NEXT_CHILD \<Rightarrow> link_child q n (m_heap man)) = Some h1"
    "link_part n h1 = Some h2" "man' = man\<lparr>m_heap := h2, m_last := Some n\<rparr>"
    using assms(1) by (auto simp: roff_node_append_def split: bind_splits)
  have h1: "heads h1 = heads (m_heap man)" "same_data (m_heap man) h1"
    using q(2) link_sibling_heads link_child_heads link_sibling_data link_child_data by (auto split: roff_next.splits)
  obtain nd1 where nd1: "h1 n = Some nd1" "data_of nd1 = data_of nd" using same_data_node [OF h1(2) assms(2)] by blast
  have "nd_parent nd1 = Some p \<or> nd_type nd1 \<noteq> ROFFT_HEAD"
  proof (cases "nd_type nd1 = ROFFT_HEAD")
    case True
    then obtain p1 where p1: "nd_parent nd1 = Some p1" using q(3) nd1(1) by (cases "nd_parent nd1") (simp_all add: link_part_def)
    have "map_option nd_parent (h2 n) = Some (Some p1)"
      using q(3) nd1(1) p1 True
      by (auto simp: link_part_def node_upd_Some bind_eq_Some_conv split: if_splits)
    then show ?thesis using p1 q(4) assms(3,4) by simp
  qed simp
  then show ?thesis using link_part_heads [OF q(3) nd1(1)] h1(1) q(4) data_of_type [OF nd1(2)] by auto
qed

subsection \<open>The tree with its root\<close>

definition tree_at :: "man_state \<Rightarrow> kids \<Rightarrow> nat \<Rightarrow> bool" where
  "tree_at s kids root \<longleftrightarrow> (let h = m_heap (s_man s) in
     tree_ok h kids (dom h) \<and> m_first (s_man s) = Some root \<and> map_option nd_parent (h root) = Some None \<and>
     (\<forall>i \<in> dom h. i \<noteq> root \<longrightarrow> (\<exists>p \<in> dom h. i \<in> set (kids p))) \<and>
     (\<exists>p \<in> dom h. append_at (s_man s) kids p) \<and> (\<forall>i \<ge> s_addr s. h i = None))"

lemma tree_atD:
  assumes "tree_at s kids root"
  shows "tree_ok (m_heap (s_man s)) kids (dom (m_heap (s_man s)))" "m_first (s_man s) = Some root"
    "map_option nd_parent (m_heap (s_man s) root) = Some None"
    "\<exists>p \<in> dom (m_heap (s_man s)). append_at (s_man s) kids p" "m_heap (s_man s) (s_addr s) = None"
    "\<And>i. s_addr s \<le> i \<Longrightarrow> m_heap (s_man s) i = None"
  using assms by (simp_all add: tree_at_def Let_def)

lemma tree_at_placed:
  "tree_at s kids root \<Longrightarrow> m_heap (s_man s) i = Some nd \<Longrightarrow> i \<noteq> root \<Longrightarrow> \<exists>p \<in> dom (m_heap (s_man s)). i \<in> set (kids p)"
  unfolding tree_at_def Let_def by blast

lemma kid_parent:
  assumes "tree_ok h kids A" "p \<in> A" "c \<in> set (kids p)"
  shows "\<exists>nd. h c = Some nd \<and> nd_parent nd = Some p"
proof -
  obtain xs ys where "kids p = xs @ c # ys" using assms(3) by (meson split_list)
  from siblings_step [OF tree_okD(2) [OF assms(1,2)] this] show ?thesis by auto
qed

text \<open>The node that gets the next child.\<close>

definition cur :: "man_state \<Rightarrow> nat option" where
  "cur s = (case m_next (s_man s) of ROFF_NEXT_CHILD \<Rightarrow> s_last s
     | ROFF_NEXT_SIBLING \<Rightarrow> Option.bind (s_last s) (\<lambda>l. Option.bind (m_heap (s_man s) l) nd_parent))"

lemma cur_append:
  assumes "tree_at s kids root" "p \<in> dom (m_heap (s_man s))" "append_at (s_man s) kids p"
  shows "cur s = Some p"
proof -
  have "Option.bind (m_heap (s_man s) c) nd_parent = Some p" if "c \<in> set (kids p)" for c
    using kid_parent [OF tree_atD(1) [OF assms(1)] assms(2) that] by auto
  then show ?thesis using assms(3) by (auto simp: cur_def append_at_def split: roff_next.splits)
qed

lemma append_cur:
  assumes "tree_at s kids root" "cur s = Some p"
  shows "p \<in> dom (m_heap (s_man s)) \<and> append_at (s_man s) kids p"
  using tree_atD(4) [OF assms(1)] cur_append [OF assms(1)] assms(2) by auto

lemma skel_data: "data_of nd' = data_of nd \<Longrightarrow> nd_parent nd' = nd_parent nd \<Longrightarrow> skel nd' = skel nd"
  using data_of_type [of nd' nd] by (simp add: skel_def)


subsection \<open>New nodes\<close>

text \<open>The state after the insertion of a node at the next address.\<close>

definition with_node :: "man_state \<Rightarrow> node_heap \<Rightarrow> roff_next \<Rightarrow> man_state" where
  "with_node s h x = s\<lparr>s_man := (s_man s)\<lparr>m_heap := h, m_last := Some (s_addr s), m_next := x,
     m_flags := s_flags s - {MDOC_NEWLINE}\<rparr>, s_addr := Suc (s_addr s)\<rparr>"

lemma with_node_simps [simp]:
  "m_heap (s_man (with_node s h x)) = h" "s_last (with_node s h x) = Some (s_addr s)" "m_next (s_man (with_node s h x)) = x"
  "s_flags (with_node s h x) = s_flags s - {MDOC_NEWLINE}" "s_addr (with_node s h x) = Suc (s_addr s)"
  "m_first (s_man (with_node s h x)) = m_first (s_man s)" "s_roff (with_node s h x) = s_roff s" "s_msgs (with_node s h x) = s_msgs s"
  "s_ce_node (with_node s h x) = s_ce_node s"
  by (simp_all add: with_node_def)

lemma append_new_kids:
  assumes "append_at man kids p" "i \<in> set (kids q)"
  shows "i \<in> set ((kids(p := append_kids man kids p a)) q)"
proof -
  have "i \<in> set xs \<Longrightarrow> i \<in> set (ins_after l a xs)" for l xs by (induction xs) auto
  then show ?thesis using assms by (auto simp: append_kids_def split: roff_next.splits)
qed

lemma tree_with_node:
  assumes t: "tree_at s kids root" and c: "cur s = Some p"
    and nd: "nd_child nd = None" "nd_last nd = None" "nd_prev nd = None" "nd_next nd = None" "nd_head nd = None"
    and part: "is_part nd \<longrightarrow> (\<exists>pd. m_heap (s_man s) p = Some pd \<and> nd_type pd = ROFFT_BLOCK)"
  defines "a \<equiv> s_addr s"
  shows "\<exists>h kids' nd'. roff_node_append a ((s_man s)\<lparr>m_flags := fs, m_heap := (m_heap (s_man s))(a \<mapsto> nd)\<rparr>) =
      Some ((s_man s)\<lparr>m_flags := fs, m_heap := h, m_last := Some a\<rparr>) \<and>
    tree_at (with_node s h ROFF_NEXT_CHILD) kids' root \<and> tree_at (with_node s h ROFF_NEXT_SIBLING) kids' root \<and>
    sk h = (sk (m_heap (s_man s)))(a \<mapsto> skel (nd\<lparr>nd_parent := Some p\<rparr>)) \<and>
    heads h = (if nd_type nd = ROFFT_HEAD then (heads (m_heap (s_man s)))(p \<mapsto> a) else heads (m_heap (s_man s))) \<and>
    h a = Some nd' \<and> data_of nd' = data_of nd \<and> nd_parent nd' = Some p"
proof -
  let ?h = "m_heap (s_man s)"
  note T = tree_atD [OF t]
  have p: "p \<in> dom ?h" "append_at (s_man s) kids p" using append_cur [OF t c] by simp_all
  have a: "?h a = None" using T(5) by (simp add: a_def)
  have pa: "p \<noteq> a" using p(1) a by auto
  define kids' where "kids' = kids(a := [], p := append_kids (s_man s) kids p a)"
  obtain h nd' where h: "roff_node_append a ((s_man s)\<lparr>m_flags := fs, m_heap := ?h(a \<mapsto> nd)\<rparr>) =
      Some ((s_man s)\<lparr>m_flags := fs, m_heap := h, m_last := Some a\<rparr>)" "tree_ok h kids' (insert a (dom ?h))"
    "\<And>i. i \<noteq> a \<Longrightarrow> map_option data_of (h i) = map_option data_of (?h i)" "h a = Some nd'" "data_of nd' = data_of nd"
    using append_new_ok [OF T(1) p a nd(1-4) part] unfolding kids'_def by blast
  have none: "(h i = None) = (?h i = None)" if "i \<noteq> a" for i using h(3) [OF that] by (metis map_option_is_None)
  have "i \<in> dom h \<longleftrightarrow> i \<in> insert a (dom ?h)" for i using none [of i] h(4) by (cases "i = a") (auto simp: domIff)
  then have dom: "dom h = insert a (dom ?h)" by blast
  have rh: "?h root \<noteq> None" using T(3) by auto
  then have ra: "root \<noteq> a" using a by auto
  have ka: "a \<in> set (kids' p)" using pa in_append_kids [OF p(2)] by (simp add: kids'_def)
  have kept: "i \<in> set (kids' q)" if "i \<in> set (kids q)" "q \<in> dom ?h" for i q
  proof -
    have "q \<noteq> a" using that(2) a by auto
    then show ?thesis using append_new_kids [OF p(2) that(1), of a] by (auto simp: kids'_def)
  qed
  have par: "parents h i = parents ?h i" if "i \<noteq> a" for i
    using append_parents [OF h(1) that] that by (simp add: parents_def)
  have pa': "nd_parent nd' = Some p" using kid_parent [OF h(2) _ ka] h(4) p(1) by auto
  have sk: "sk h = (sk ?h)(a \<mapsto> skel (nd\<lparr>nd_parent := Some p\<rparr>))"
  proof
    fix i
    show "sk h i = ((sk ?h)(a \<mapsto> skel (nd\<lparr>nd_parent := Some p\<rparr>))) i"
    proof (cases "i = a")
      case True
      then show ?thesis using h(4) pa' data_of_type [OF h(5)] by (simp add: sk_def skel_def)
    next
      case False
      show ?thesis
      proof (cases "?h i")
        case (Some x)
        then obtain x' where x': "h i = Some x'" "data_of x' = data_of x" using h(3) [OF False] by auto
        then have "nd_parent x' = nd_parent x" using par [OF False] Some by (simp add: parents_def)
        then show ?thesis using skel_data [OF x'(2)] Some x'(1) False by (simp add: sk_def)
      qed (use none [OF False] False in \<open>simp add: sk_def\<close>)
    qed
  qed
  have "heads h = (if nd_type nd = ROFFT_HEAD then (heads (?h(a \<mapsto> nd)))(p := Some a) else heads (?h(a \<mapsto> nd)))"
    using append_heads [OF h(1), of nd nd' p] h(4) pa' by simp
  moreover have "heads (?h(a \<mapsto> nd)) = heads ?h" using a nd(5) by (auto simp: heads_def)
  ultimately have heads: "heads h = (if nd_type nd = ROFFT_HEAD then (heads ?h)(p := Some a) else heads ?h)" by simp
  have root: "map_option nd_parent (h root) = Some None"
  proof -
    obtain r0 where "?h root = Some r0" "nd_parent r0 = None" using T(3) by auto
    moreover obtain r1 where "h root = Some r1" using none [OF ra] rh by fastforce
    ultimately show ?thesis using par [OF ra] by (simp add: parents_def)
  qed
  have placed: "\<exists>q \<in> dom h. i \<in> set (kids' q)" if "i \<in> dom h" "i \<noteq> root" for i
  proof (cases "i = a")
    case True
    then show ?thesis using ka p(1) dom by blast
  next
    case False
    then have "i \<in> dom ?h" using that(1) unfolding dom by simp
    then obtain y where "?h i = Some y" by blast
    then show ?thesis using tree_at_placed [OF t _ that(2)] kept dom by blast
  qed
  have at: "append_at (s_man (with_node s h ROFF_NEXT_CHILD)) kids' a" "append_at (s_man (with_node s h ROFF_NEXT_SIBLING)) kids' p"
    using ka by (simp_all add: append_at_def a_def)
  have fresh: "h i = None" if "Suc a \<le> i" for i using none [of i] T(6) [of i] that by (simp add: a_def)
  have "tree_at (with_node s h x) kids' root" if "\<exists>q \<in> dom h. append_at (s_man (with_node s h x)) kids' q" for x
    using h(2) dom root placed fresh T(2) that by (simp add: tree_at_def a_def)
  then have "tree_at (with_node s h ROFF_NEXT_CHILD) kids' root" "tree_at (with_node s h ROFF_NEXT_SIBLING) kids' root"
    using at p(1) dom by blast+
  then show ?thesis using h(1,4,5) sk heads pa' by blast
qed


lemma alloc_part:
  assumes t: "tree_at s kids root" and c: "cur s = Some p"
    and part: "type \<in> {ROFFT_HEAD, ROFFT_BODY, ROFFT_TAIL} \<longrightarrow> (\<exists>pd. m_heap (s_man s) p = Some pd \<and> nd_type pd = ROFFT_BLOCK)"
  shows "\<exists>h kids'. with_addr (\<lambda>a. roff_part_alloc type a line pos tok) s = Some (with_node s h ROFF_NEXT_CHILD) \<and>
    tree_at (with_node s h ROFF_NEXT_CHILD) kids' root \<and> tree_at (with_node s h ROFF_NEXT_SIBLING) kids' root \<and>
    sk h = (sk (m_heap (s_man s)))(s_addr s \<mapsto> (Some p, type, tok, False, False)) \<and>
    heads h = (if type = ROFFT_HEAD then (heads (m_heap (s_man s)))(p \<mapsto> s_addr s) else heads (m_heap (s_man s)))"
proof -
  let ?nd = "new_node (s_man s) line pos type tok"
  have f: "nd_child ?nd = None" "nd_last ?nd = None" "nd_prev ?nd = None" "nd_next ?nd = None" "nd_head ?nd = None"
    "is_part ?nd \<longrightarrow> (\<exists>pd. m_heap (s_man s) p = Some pd \<and> nd_type pd = ROFFT_BLOCK)" "nd_type ?nd = type"
    "skel (?nd\<lparr>nd_parent := Some p\<rparr>) = (Some p, type, tok, False, False)"
    using part by (auto simp: new_node_def is_part_def skel_def)
  obtain h kids' where h: "roff_node_append (s_addr s) ((s_man s)\<lparr>m_flags := s_flags s - {MDOC_NEWLINE},
      m_heap := (m_heap (s_man s))(s_addr s \<mapsto> ?nd)\<rparr>) =
      Some ((s_man s)\<lparr>m_flags := s_flags s - {MDOC_NEWLINE}, m_heap := h, m_last := Some (s_addr s)\<rparr>)"
    "tree_at (with_node s h ROFF_NEXT_CHILD) kids' root" "tree_at (with_node s h ROFF_NEXT_SIBLING) kids' root"
    "sk h = (sk (m_heap (s_man s)))(s_addr s \<mapsto> (Some p, type, tok, False, False))"
    "heads h = (if type = ROFFT_HEAD then (heads (m_heap (s_man s)))(p \<mapsto> s_addr s) else heads (m_heap (s_man s)))"
    using tree_with_node [OF t c f(1-6), of "s_flags s - {MDOC_NEWLINE}"] unfolding f(7,8) by blast
  have "with_addr (\<lambda>a. roff_part_alloc type a line pos tok) s = Some (with_node s h ROFF_NEXT_CHILD)"
    using h(1) by (simp add: with_addr_def on_man_def roff_part_alloc_def roff_node_alloc_def set_next_def with_node_def)
  then show ?thesis using h(2-5) by blast
qed

text \<open>Changes of a node that are not links.\<close>

definition with_heap :: "man_state \<Rightarrow> node_heap \<Rightarrow> man_state" where
  "with_heap s h = s\<lparr>s_man := (s_man s)\<lparr>m_heap := h\<rparr>\<rparr>"

lemma with_heap_simps [simp]:
  "m_heap (s_man (with_heap s h)) = h" "s_last (with_heap s h) = s_last s" "m_next (s_man (with_heap s h)) = m_next (s_man s)"
  "s_flags (with_heap s h) = s_flags s" "s_addr (with_heap s h) = s_addr s" "m_first (s_man (with_heap s h)) = m_first (s_man s)"
  "s_roff (with_heap s h) = s_roff s" "s_msgs (with_heap s h) = s_msgs s" "s_ce_node (with_heap s h) = s_ce_node s"
  by (simp_all add: with_heap_def)

definition same_links :: "node_heap \<Rightarrow> node_heap \<Rightarrow> bool" where
  "same_links h h' \<longleftrightarrow> (\<forall>i. map_option links_of (h' i) = map_option links_of (h i) \<and> map_option ends_of (h' i) = map_option ends_of (h i))"

lemma same_links_dom: "same_links h h' \<Longrightarrow> dom h' = dom h"
proof -
  assume "same_links h h'"
  then have "(h' i = None) = (h i = None)" for i unfolding same_links_def by (metis map_option_is_None)
  then show ?thesis by (auto simp: dom_def)
qed

lemma same_links_parents: "same_links h h' \<Longrightarrow> map_option nd_parent (h' i) = map_option nd_parent (h i)"
proof -
  assume "same_links h h'"
  then have "map_option links_of (h' i) = map_option links_of (h i)" by (simp add: same_links_def)
  then have "map_option (fst \<circ> links_of) (h' i) = map_option (fst \<circ> links_of) (h i)" by (metis option.map_comp)
  moreover have "fst \<circ> links_of = nd_parent" by (auto simp: links_of_def)
  ultimately show ?thesis by simp
qed

lemma append_at_heap: "append_at (man\<lparr>m_heap := h\<rparr>) kids p = append_at man kids p"
  by (simp add: append_at_def)

lemma tree_with_heap:
  assumes t: "tree_at s kids root" and l: "same_links (m_heap (s_man s)) h"
  shows "tree_at (with_heap s h) kids root" "cur (with_heap s h) = cur s"
proof -
  have d: "dom h = dom (m_heap (s_man s))" using same_links_dom [OF l] .
  have "tree_ok h kids (dom h) = tree_ok (m_heap (s_man s)) kids (dom h)"
    by (rule tree_ok_cong) (use l in \<open>auto simp: same_links_def\<close>)
  then have ok: "tree_ok h kids (dom h)" using tree_atD(1) [OF t] d by simp
  have n: "h i = None \<longleftrightarrow> m_heap (s_man s) i = None" for i using d by (metis domIff)
  have r: "map_option nd_parent (h root) = Some None" using same_links_parents [OF l, of root] tree_atD(3) [OF t] by simp
  show "tree_at (with_heap s h) kids root"
    using t ok d n r by (simp add: tree_at_def Let_def with_heap_def append_at_heap)
  have "Option.bind (h i) nd_parent = Option.bind (m_heap (s_man s) i) nd_parent" for i
    using same_links_parents [OF l, of i] by (cases "h i"; cases "m_heap (s_man s) i") auto
  then show "cur (with_heap s h) = cur s" by (auto simp: cur_def split: roff_next.split option.split)
qed

lemma upd_node:
  assumes t: "tree_at s kids root" and i: "m_heap (s_man s) i = Some nd"
    and f: "links_of (f nd) = links_of nd" "ends_of (f nd) = ends_of nd" "nd_head (f nd) = nd_head nd"
  shows "\<exists>h. on_man (man_upd i f) s = Some (with_heap s h) \<and> tree_at (with_heap s h) kids root \<and> cur (with_heap s h) = cur s \<and>
    sk h = (sk (m_heap (s_man s)))(i \<mapsto> skel (f nd)) \<and> heads h = heads (m_heap (s_man s)) \<and> h = (m_heap (s_man s))(i \<mapsto> f nd)"
proof -
  let ?h = "(m_heap (s_man s))(i \<mapsto> f nd)"
  have l: "same_links (m_heap (s_man s)) ?h" using i f by (simp add: same_links_def)
  have "on_man (man_upd i f) s = Some (with_heap s ?h)" using i by (simp add: on_man_def man_upd_def node_upd_def with_heap_def)
  moreover have "sk ?h = (sk (m_heap (s_man s)))(i \<mapsto> skel (f nd))" "heads ?h = heads (m_heap (s_man s))"
    using i f(3) by (auto simp: sk_def heads_def)
  ultimately show ?thesis using tree_with_heap [OF t l] by blast
qed

lemma flag_node_ok:
  assumes t: "tree_at s kids root" and i: "sk (m_heap (s_man s)) i = Some (p, ty, tok, v, x)"
  shows "\<exists>h. flag_node fs (Some i) s = Some (with_heap s h) \<and> tree_at (with_heap s h) kids root \<and> cur (with_heap s h) = cur s \<and>
    sk h = (sk (m_heap (s_man s)))(i \<mapsto> (p, ty, tok, v \<or> NODE_VALID \<in> fs, x)) \<and> heads h = heads (m_heap (s_man s))"
proof -
  obtain nd where nd: "m_heap (s_man s) i = Some nd" "skel nd = (p, ty, tok, v, x)" using i by (auto simp: sk_Some)
  let ?f = "nd_flags_update (\<lambda>x. x \<union> fs)"
  have "skel (?f nd) = (p, ty, tok, v \<or> NODE_VALID \<in> fs, x)" using nd(2) by (auto simp: skel_def)
  then show ?thesis
    using upd_node [OF t nd(1), of ?f] by (auto simp: flag_node_def links_of_def ends_of_def)
qed


lemma alloc_word:
  assumes t: "tree_at s kids root" and c: "cur s = Some p"
  shows "\<exists>h kids'. with_addr (\<lambda>a. roff_word_alloc a line pos w) s = Some (with_node s h ROFF_NEXT_SIBLING) \<and>
    tree_at (with_node s h ROFF_NEXT_SIBLING) kids' root \<and>
    sk h = (sk (m_heap (s_man s)))(s_addr s \<mapsto> (Some p, ROFFT_TEXT, ''TOKEN_NONE'', True, True)) \<and>
    heads h = heads (m_heap (s_man s))"
proof -
  let ?nd = "new_node (s_man s) line pos ROFFT_TEXT ''TOKEN_NONE''\<lparr>nd_string := Some w\<rparr>"
  have f: "nd_child ?nd = None" "nd_last ?nd = None" "nd_prev ?nd = None" "nd_next ?nd = None" "nd_head ?nd = None"
    "is_part ?nd \<longrightarrow> (\<exists>pd. m_heap (s_man s) p = Some pd \<and> nd_type pd = ROFFT_BLOCK)" "nd_type ?nd = ROFFT_TEXT"
    by (auto simp: new_node_def is_part_def)
  obtain h kids' nd where h: "roff_node_append (s_addr s) ((s_man s)\<lparr>m_flags := s_flags s - {MDOC_NEWLINE},
      m_heap := (m_heap (s_man s))(s_addr s \<mapsto> ?nd)\<rparr>) =
      Some ((s_man s)\<lparr>m_flags := s_flags s - {MDOC_NEWLINE}, m_heap := h, m_last := Some (s_addr s)\<rparr>)"
    "tree_at (with_node s h ROFF_NEXT_SIBLING) kids' root"
    "sk h = (sk (m_heap (s_man s)))(s_addr s \<mapsto> skel (?nd\<lparr>nd_parent := Some p\<rparr>))"
    "heads h = heads (m_heap (s_man s))" "h (s_addr s) = Some nd" "data_of nd = data_of ?nd" "nd_parent nd = Some p"
    using tree_with_node [OF t c f(1-6), of "s_flags s - {MDOC_NEWLINE}"] unfolding f(7) by auto
  let ?f = "nd_flags_update (\<lambda>fs. fs \<union> {NODE_VALID, NODE_ENDED})"
  obtain h' where h': "h' = h(s_addr s \<mapsto> ?f nd)" "tree_at (with_heap (with_node s h ROFF_NEXT_SIBLING) h') kids' root"
    "sk h' = (sk h)(s_addr s \<mapsto> skel (?f nd))" "heads h' = heads h"
    using upd_node [OF h(2), of "s_addr s" nd ?f] h(5) by (auto simp: links_of_def ends_of_def)
  have e: "with_heap (with_node s h ROFF_NEXT_SIBLING) h' = with_node s h' ROFF_NEXT_SIBLING" by (simp add: with_heap_def with_node_def)
  have "skel (?f nd) = (Some p, ROFFT_TEXT, ''TOKEN_NONE'', True, True)"
    using data_of_type [OF h(6)] h(7) by (simp add: skel_def new_node_def)
  then have "sk h' = (sk (m_heap (s_man s)))(s_addr s \<mapsto> (Some p, ROFFT_TEXT, ''TOKEN_NONE'', True, True))"
    using h'(3) h(3) by simp
  moreover have "with_addr (\<lambda>a. roff_word_alloc a line pos w) s = Some (with_node s h' ROFF_NEXT_SIBLING)"
    using h(1,5) h'(1)
    by (simp add: with_addr_def on_man_def roff_word_alloc_def roff_node_alloc_def man_upd_def node_upd_def set_next_def with_node_def Let_def)
  ultimately show ?thesis using h'(2,4) h(4) unfolding e by auto
qed

subsection \<open>Moving the parse point\<close>

lemma set_last_ok:
  assumes t: "tree_at s kids root" and l: "sk (m_heap (s_man s)) l = Some (p, x)"
  shows "tree_at (set_last (Some l) (set_nxt ROFF_NEXT_CHILD s)) kids root" "cur (set_last (Some l) (set_nxt ROFF_NEXT_CHILD s)) = Some l"
    "p = Some q \<Longrightarrow> tree_at (set_last (Some l) (set_nxt ROFF_NEXT_SIBLING s)) kids root"
    "p = Some q \<Longrightarrow> cur (set_last (Some l) (set_nxt ROFF_NEXT_SIBLING s)) = Some q"
proof -
  obtain nd where nd: "m_heap (s_man s) l = Some nd" "nd_parent nd = p" using l by (auto simp: sk_Some skel_def)
  have T: "tree_at (set_last (Some l) (set_nxt n s)) kids root"
    if "\<exists>q \<in> dom (m_heap (s_man s)). append_at (s_man (set_last (Some l) (set_nxt n s))) kids q" for n
  proof -
    have "m_heap (s_man (set_last (Some l) (set_nxt n s))) = m_heap (s_man s)" "m_first (s_man (set_last (Some l) (set_nxt n s))) = m_first (s_man s)"
      "s_addr (set_last (Some l) (set_nxt n s)) = s_addr s" by (simp_all add: set_last_def set_nxt_def)
    then show ?thesis using t that unfolding tree_at_def Let_def by metis
  qed
  show "tree_at (set_last (Some l) (set_nxt ROFF_NEXT_CHILD s)) kids root"
    by (rule T) (use nd(1) in \<open>auto simp: append_at_def set_last_def set_nxt_def\<close>)
  show "cur (set_last (Some l) (set_nxt ROFF_NEXT_CHILD s)) = Some l" by (simp add: cur_def set_last_def set_nxt_def)
  show "cur (set_last (Some l) (set_nxt ROFF_NEXT_SIBLING s)) = Some q" if "p = Some q"
    using nd that by (simp add: cur_def set_last_def set_nxt_def)
  show "tree_at (set_last (Some l) (set_nxt ROFF_NEXT_SIBLING s)) kids root" if "p = Some q"
  proof (rule T)
    have "l \<noteq> root" using tree_atD(3) [OF t] nd that by auto
    then obtain q' where "q' \<in> dom (m_heap (s_man s))" "l \<in> set (kids q')" using tree_at_placed [OF t nd(1)] by blast
    then show "\<exists>q \<in> dom (m_heap (s_man s)). append_at (s_man (set_last (Some l) (set_nxt ROFF_NEXT_SIBLING s))) kids q"
      by (auto simp: append_at_def set_last_def set_nxt_def)
  qed
qed

subsection \<open>Deletion\<close>

lemma delete_flags: "roff_node_delete n man = Some man' \<Longrightarrow> m_flags man' = m_flags man"
proof (rule roff_node_delete.raw_induct [where P = "\<lambda>n man man'. m_flags man' = m_flags man"], goal_cases)
  case (1 f n man man')
  then show ?case
    by (auto simp: roff_node_unlink_def roff_node_free_def Let_def split: option.splits bind_splits if_splits)
qed

text \<open>A set of nodes with everything below them.\<close>

definition below :: "node_heap \<Rightarrow> nat set \<Rightarrow> nat \<Rightarrow> bool" where
  "below h D i \<longleftrightarrow> i \<in> D \<and> (\<forall>x y. parents h x = Some y \<longrightarrow> y \<in> D \<longrightarrow> x \<in> D) \<and>
     (\<forall>x \<in> D. x = i \<or> (\<exists>y \<in> D. parents h x = Some y))"

lemma subtree_below:
  assumes t: "tree_at s kids root"
  shows "below (m_heap (s_man s)) (subtree kids (dom (m_heap (s_man s))) i) i"
proof -
  let ?h = "m_heap (s_man s)" and ?D = "subtree kids (dom (m_heap (s_man s))) i"
  note T = tree_atD [OF t]
  have "x \<in> ?D" if xy: "parents ?h x = Some y" "y \<in> ?D" for x y
  proof -
    obtain nd where nd: "?h x = Some nd" "nd_parent nd = Some y" using xy(1) by (auto simp: parents_def bind_eq_Some_conv)
    then have "x \<noteq> root" using T(3) by auto
    then obtain p where p: "p \<in> dom ?h" "x \<in> set (kids p)" using tree_at_placed [OF t nd(1)] by blast
    have "p = y" using kid_parent [OF T(1) p] nd by auto
    then show ?thesis using subtree_step [of p "dom ?h" x kids i] p xy(2) by simp
  qed
  moreover have "x = i \<or> (\<exists>y \<in> ?D. parents ?h x = Some y)" if "x \<in> ?D" for x
  proof -
    have "(i, x) \<in> (edges kids (dom ?h))\<^sup>*" using that by (simp add: subtree_def)
    then show ?thesis
    proof (cases rule: rtranclE)
      case (step y)
      then have "y \<in> dom ?h" "x \<in> set (kids y)" by (auto simp: edges_def)
      then show ?thesis using kid_parent [OF T(1)] step(1) by (fastforce simp: subtree_def parents_def)
    qed simp
  qed
  ultimately show ?thesis unfolding below_def by auto
qed

lemma delete_ok:
  assumes t: "tree_at s kids root" and i: "sk (m_heap (s_man s)) i = Some (Some p, x)"
  shows "\<exists>man' D. on_man (roff_node_delete i) s = Some (s\<lparr>s_man := man'\<rparr>) \<and> tree_at (s\<lparr>s_man := man'\<rparr>) (prune D kids) root \<and>
    below (m_heap (s_man s)) D i \<and> m_flags man' = s_flags s \<and>
    sk (m_heap man') = (\<lambda>j. if j \<in> D then None else sk (m_heap (s_man s)) j) \<and>
    (\<forall>j. j \<notin> D \<longrightarrow> heads (m_heap man') j = heads (m_heap (s_man s)) j) \<and>
    cur (s\<lparr>s_man := man'\<rparr>) = (if s_last s \<in> Some ` D then Some p else cur s) \<and>
    (s_last s \<notin> Some ` D \<longrightarrow> m_last man' = s_last s \<and> m_next man' = m_next (s_man s))"
proof -
  let ?h = "m_heap (s_man s)"
  note T = tree_atD [OF t]
  obtain nd where nd: "?h i = Some nd" "nd_parent nd = Some p" using i by (auto simp: sk_Some skel_def)
  have ir: "i \<noteq> root" using T(3) nd by auto
  obtain p' where p': "p' \<in> dom ?h" "i \<in> set (kids p')" using tree_at_placed [OF t nd(1) ir] by blast
  have p: "p \<in> dom ?h" "i \<in> set (kids p)" using kid_parent [OF T(1) p'] nd p' by auto
  define D where "D = subtree kids (dom ?h) i"
  have B: "below ?h D i" unfolding D_def by (rule subtree_below [OF t])
  have "in_tree ?h kids (dom ?h) i" using nd(1) p by (auto simp: in_tree_def)
  then obtain man' where m: "roff_node_delete i (s_man s) = Some man'" "deleted i D kids (dom ?h) (s_man s) man'"
    using roff_node_delete_ok [OF T(1)] unfolding D_def by blast
  let ?h' = "m_heap man'"
  have ok: "tree_ok ?h' (prune D kids) (dom ?h - D)" "\<And>j. map_option data_of (?h' j) = (if j \<in> D then None else map_option data_of (?h j))"
    "parse_point man' = (if s_last s \<in> Some ` D then point nd else parse_point (s_man s))"
    "m_first man' = (if m_first (s_man s) \<in> Some ` D then None else m_first (s_man s))"
    using m(2) nd(1) by (simp_all add: deleted_def)
  have none: "?h' j = None \<longleftrightarrow> j \<in> D \<or> ?h j = None" for j using ok(2) [of j] by (cases "j \<in> D") (simp_all, metis map_option_is_None)
  have "j \<in> dom ?h' \<longleftrightarrow> j \<in> dom ?h - D" for j using none [of j] by (simp add: domIff) blast
  then have dom: "dom ?h' = dom ?h - D" by blast
  note K = delete_heads [OF m(1)]
  have par: "parents ?h' j = parents ?h j" if "j \<notin> D" for j
    using K none [of j] that by (cases "?h j") (auto simp: parents_def)
  have hd: "heads ?h' j = heads ?h j" if "j \<notin> D" for j
    using K none [of j] that by (cases "?h j") (auto simp: heads_def)
  have sk: "sk ?h' = (\<lambda>j. if j \<in> D then None else sk ?h j)"
  proof
    fix j
    show "sk ?h' j = (if j \<in> D then None else sk ?h j)"
    proof (cases "j \<in> D \<or> ?h j = None")
      case True
      then show ?thesis using none [of j] by (auto simp: sk_def)
    next
      case False
      then obtain x x' where x: "?h j = Some x" "?h' j = Some x'" using none [of j] by auto
      then have "data_of x' = data_of x" "nd_parent x' = nd_parent x"
        using ok(2) [of j] par [of j] False by (simp_all add: parents_def)
      then show ?thesis using skel_data [of x' x] x False by (simp add: sk_def)
    qed
  qed
  have rD: "root \<notin> D"
  proof
    assume "root \<in> D"
    then have "root = i \<or> (\<exists>y \<in> D. parents ?h root = Some y)" using B unfolding below_def by meson
    then show False using T(3) ir by (auto simp: parents_def)
  qed
  have root: "map_option nd_parent (?h' root) = Some None"
  proof -
    obtain r0 where r0: "?h root = Some r0" "nd_parent r0 = None" using T(3) by auto
    obtain r1 where r1: "?h' root = Some r1" using none [of root] rD r0 by auto
    show ?thesis using par [OF rD] r0 r1 by (simp add: parents_def)
  qed
  have placed: "\<exists>q \<in> dom ?h'. j \<in> set (prune D kids q)" if j: "j \<in> dom ?h'" "j \<noteq> root" for j
  proof -
    have jd: "j \<in> dom ?h" "j \<notin> D" using j dom by auto
    then obtain q where q: "q \<in> dom ?h" "j \<in> set (kids q)" using tree_at_placed [OF t _ j(2)] by blast
    have "parents ?h j = Some q" using kid_parent [OF T(1) q] by (auto simp: parents_def)
    then have "q \<notin> D" using B jd(2) unfolding below_def by blast
    then show ?thesis using q jd dom by (auto simp: prune_def)
  qed
  have at: "\<exists>q \<in> dom ?h'. append_at man' (prune D kids) q"
    using append_at_pruned [OF T(1) p T(4)] m(2) unfolding dom D_def by blast
  have fresh: "?h' j = None" if "s_addr s \<le> j" for j using none T(6) [OF that] by blast
  have tr: "tree_at (s\<lparr>s_man := man'\<rparr>) (prune D kids) root"
    using ok(1,4) dom root placed at fresh T(2) rD by (auto simp: tree_at_def Let_def)
  have c: "cur (s\<lparr>s_man := man'\<rparr>) = (if s_last s \<in> Some ` D then Some p else cur s)"
  proof (cases "s_last s \<in> Some ` D")
    case True
    then have pt: "parse_point man' = point nd" using ok(3) by simp
    show ?thesis
    proof (cases "nd_prev nd")
      case None
      then show ?thesis using pt nd(2) True by (simp add: point_def parse_point_def cur_def)
    next
      case (Some x)
      obtain xs ys where k: "kids p = xs @ i # ys" using p(2) by (meson split_list)
      have "nd_prev nd = last_opt xs"
        using siblings_step [OF tree_okD(2) [OF T(1) p(1)] k] nd(1) by (auto simp: last_opt_def split: if_splits)
      then have "xs \<noteq> []" "x = last xs" using Some by (auto simp: last_opt_def split: if_splits)
      then have x: "x \<in> set (kids p)" "x \<noteq> i" using k tree_okD(3) [OF T(1) p(1)] by (auto simp: k)
      have "x \<notin> D" unfolding D_def by (rule sibling_outside [OF T(1) p x])
      then have "parents ?h' x = Some p" using par kid_parent [OF T(1) p(1) x(1)] by (auto simp: parents_def)
      then show ?thesis using pt Some True by (simp add: point_def parse_point_def cur_def parents_def)
    qed
  next
    case False
    then have pt: "m_last man' = s_last s" "m_next man' = m_next (s_man s)" using ok(3) by (simp_all add: parse_point_def)
    show ?thesis
    proof (cases "s_last s")
      case (Some l)
      then have "l \<notin> D" using False by auto
      then show ?thesis using pt Some False par [of l] by (simp add: cur_def parents_def split: roff_next.split)
    qed (use pt False in \<open>simp add: cur_def split: roff_next.split\<close>)
  qed
  have "on_man (roff_node_delete i) s = Some (s\<lparr>s_man := man'\<rparr>)" using m(1) by (simp add: on_man_def)
  moreover have "m_flags man' = s_flags s" using delete_flags [OF m(1)] by simp
  moreover have "s_last s \<notin> Some ` D \<Longrightarrow> m_last man' = s_last s \<and> m_next man' = m_next (s_man s)"
    using ok(3) by (simp add: parse_point_def)
  ultimately show ?thesis using tr B sk hd c by blast
qed

end
