(* ===== verification/Spec2Isabelle.thy ===== *)
theory Spec2Isabelle
  imports Preconv Roff_Escape Roff_Num Term_Tab Db_Correct Db_Update Mandoc_Xr Tag Tbl_Correct Roff_Syntax
    Roff_Str_Props Roff_Expand_Props Roff_Arg_Quote Roff_Arg_Props Man_Line Man_Tree
begin

text \<open>
  \<^bold>\<open>Verification of mandoc.\<close>

  The program formats manual pages: input bytes are recoded (\<open>preconv.c\<close>), parsed as roff(7)
  requests, escape sequences, tables and equations (\<open>roff.c\<close>, \<open>roff_escape.c\<close>, \<open>tbl*.c\<close>,
  \<open>eqn.c\<close>) and as man(7) or mdoc(7) macros, and the syntax tree is printed by one of the
  formatters (\<open>term*.c\<close>, \<open>html.c\<close> and others).  A second program keeps a database of the
  installed pages: \<open>mandocdb.c\<close> builds it in memory with \<open>dba*.c\<close>, and \<open>mansearch.c\<close> queries
  the mapped file through \<open>dbm*.c\<close>.

  \<^bold>\<open>Theories and code.\<close>

  \<^item> \<open>Prelude\<close>: C strings (a char list without the terminating NUL; reading at its length gives
    NUL, further out is undefined, None), character classes, checked integer arithmetic.
  \<^item> \<open>Mandoc_Util\<close>: \<open>mandoc_eos\<close>, \<open>mandoc_strntoi\<close> and \<open>mandoc_font\<close> of \<open>mandoc.c\<close>.
  \<^item> \<open>Preconv\<close>: \<open>preconv_encode\<close> and \<open>preconv_cue\<close> of \<open>preconv.c\<close>.
  \<^item> \<open>Ohash\<close>: the open hash tables of \<open>compat_ohash.c\<close>, with the locale \<open>string_table\<close> for
    their clients; \<open>Chars\<close>: the table of special characters of \<open>chars.c\<close>, built over it.
  \<^item> \<open>Roff_Escape\<close>: \<open>roff_escape\<close> and \<open>mandoc_escape\<close> of \<open>roff_escape.c\<close>.
  \<^item> \<open>Roff_Num\<close>: numbers, expressions and string conditions of \<open>roff.c\<close>.
  \<^item> \<open>Term_Tab\<close>: tabulator positions of \<open>term_tab.c\<close>.
  \<^item> \<open>C_Sort\<close>, \<open>Dba_Array\<close>, \<open>Dba\<close>: sorting, and the database in memory and its writer
    (\<open>dba_array.c\<close>, \<open>dba_write.c\<close>, \<open>dba.c\<close>); \<open>Dbm\<close>: the mapped database (\<open>dbm_map.c\<close>,
    \<open>dbm.c\<close>); \<open>Dba_Read\<close>: \<open>dba_read.c\<close>.
  \<^item> \<open>Db_Layout\<close>, \<open>Db_Memory\<close>, \<open>Db_Roundtrip\<close>, \<open>Db_Correct\<close>: the file format as a function of
    the abstract contents, the effect of the operations in memory, the views of a mapped file,
    and the round trips.  \<open>Db_Update\<close>: what adding names, aliases and macro values does.
  \<^item> \<open>Intern\<close>: hash tables of mutable entries, as two clients use them: \<open>Mandoc_Xr\<close>, the cross
    references of \<open>mandoc_xr.c\<close>, found by comparing memory, and \<open>Tag\<close>, the choice of tags in
    \<open>tag.c\<close>, found by comparing strings.
  \<^item> \<open>Tbl_Node\<close>, \<open>Tbl_Opts\<close>, \<open>Tbl_Layout\<close>, \<open>Tbl_Data\<close>: the tbl(7) parser, its data (\<open>tbl.h\<close>,
    \<open>tbl_int.h\<close>), options line (\<open>tbl_opts.c\<close>), layout (\<open>tbl_layout.c\<close>), data and text blocks
    (\<open>tbl_data.c\<close>) and the dispatch of \<open>tbl.c\<close>.  \<open>Tbl_Wf\<close>, \<open>Tbl_Rows\<close>, \<open>Tbl_Read\<close>: the
    invariant of a table and its preservation; \<open>Tbl_Fields\<close>: the reference for a line of data;
    \<open>Tbl_Correct\<close>: the theorems.
  \<^item> \<open>Roff_Node\<close>: the syntax tree of \<open>roff.h\<close> and its operations in \<open>roff.c\<close>, on a heap of nodes
    with the pointers of the code.  \<open>Roff_Tree\<close>: when a heap is a tree, given by the lists of
    children, and insertion; \<open>Roff_Unlink\<close>, \<open>Roff_Delete\<close>: removal and deletion of subtrees;
    \<open>Roff_Walk\<close>: searching for visible nodes and collecting texts; \<open>Roff_Syntax\<close>: the theorems.
  \<^item> \<open>Roff_Str\<close>, \<open>Roff_Req\<close>: the tables of registers, strings, renamed macros and translations of
    \<open>roff.c\<close>, and the requests that change them.  \<open>Roff_Str_Lemmas\<close>, \<open>Roff_Num_Bounds\<close>,
    \<open>Roff_Str_Inv\<close>: lookups, bounds of numbers, the invariant of the tables;
    \<open>Roff_Str_Correct\<close>, \<open>Roff_Str_Props\<close>: the theorems.
  \<^item> \<open>Roff_Expand\<close>: \<open>roff_expand\<close>, which interpolates strings, registers and arguments in a line;
    \<open>Roff_Arg\<close>: the parser of arguments, \<open>roff_getarg\<close>, and the call of a user-defined macro.
    \<open>Roff_Expand_Lemmas\<close>, \<open>Roff_Expand_Props\<close>, \<open>Roff_Arg_Bounds\<close>, \<open>Roff_Arg_Quote\<close>,
    \<open>Roff_Arg_Props\<close>: what is interpolated, which arguments a macro gets, and when the expansion
    does not end.
  \<^item> \<open>Man_Macro\<close>, \<open>Man_Parse\<close>, \<open>Man_Line\<close>: the man(7) parser, its scopes (\<open>man_macro.c\<close>,
    \<open>man.c\<close>), macro handlers, and text and macro lines, with the requests of \<open>roff.c\<close> that leave a
    node in the tree.  \<open>Man_Tree\<close>: its steps in the tree of \<open>Roff_Tree\<close>.

  \<^bold>\<open>Conventions.\<close>  A result None of a model means that the C code leaves its defined behaviour
  (a read outside a buffer, a failed assertion, an overflow of a signed integer) or, for the
  functions with fuel and for partial functions, that it does not end; the theorems on safety and
  termination show that this does not happen.  The fuel of a probe sequence in a hash table is the
  size of the table, which visits every slot; the fuel of a scan is the length of the line plus
  one, since every step consumes a character; that of \<open>roff_escape\<close> counts the nested sequences.
  Loops without such a bound are partial functions.  The man(7) parser distinguishes its faults by
  a sum type instead (\<open>man_fault\<close>).
  Memory allocation does not fail: the allocators of \<open>mandoc_aux.c\<close> exit the program.

  \<^bold>\<open>Not modelled.\<close>  Output on devices and streams, file trees, child processes, configuration
  files, the validation and formatting of syntax trees, and the constant tables of names.
\<close>

end
